(* ===== verification/Prelude.thy ===== *)
theory Prelude
  imports Main "HOL-Library.Word"
begin

unbundle bit_operations_syntax

text \<open>
  Shared vocabulary of the development.

  Types: \<open>byte\<close> is an element of a \<^verbatim>\<open>Uint8Array\<close>; \<open>jsstring\<close> is a JavaScript
  string, the list of its UTF-16 code units; a \<open>'a result\<close> is either a thrown exception
  (\<open>Inl\<close>) or a value (\<open>Inr\<close>). JavaScript numbers that the code only uses as
  non-negative integers are \<open>nat\<close>; those that can go negative are \<open>int\<close>.

  Collections: \<open>byte_simps\<close> holds the facts that turn shifts and masks into
  arithmetic. The rest are generic facts on lists, sums and words that the component
  theories share.
\<close>

named_theorems byte_simps \<open>shifts, masks and big-endian fields as arithmetic\<close>
named_theorems result_splits \<open>case splits for the result type\<close>

type_synonym byte = "8 word"
type_synonym codeunit = "16 word"
type_synonym jsstring = "codeunit list"

definition js :: "string \<Rightarrow> jsstring" where
  "js s = map of_char s"

definition bind_result :: "'e + 'a \<Rightarrow> ('a \<Rightarrow> 'e + 'b) \<Rightarrow> 'e + 'b" where
  "bind_result m f = (case m of Inl e \<Rightarrow> Inl e | Inr x \<Rightarrow> f x)"

lemma bind_result_simps [simp]:
  "bind_result (Inl e) f = Inl e"
  "bind_result (Inr x) f = f x"
  by (simp_all add: bind_result_def)

lemma bind_result_Inr_iff:
  "bind_result m f = Inr y \<longleftrightarrow> (\<exists>x. m = Inr x \<and> f x = Inr y)"
  by (cases m) auto

lemma bind_result_Inl_iff:
  "bind_result m f = Inl e \<longleftrightarrow> m = Inl e \<or> (\<exists>x. m = Inr x \<and> f x = Inl e)"
  by (cases m) auto

lemmas bind_result_iffs = bind_result_Inr_iff bind_result_Inl_iff

subsection \<open>Bytes as numbers\<close>

lemma unat_byte_less [simp]: "unat (b :: byte) < 256"
  using unsigned_less [of b, where ?'a = nat] by simp

lemma unat_byte_le [simp]: "unat (b :: byte) \<le> 255"
  using unat_byte_less [of b] by linarith

lemma unat_of_nat_byte [byte_simps]: "unat (of_nat n :: byte) = n mod 256"
  by (simp add: unat_of_nat)

lemma of_nat_unat_byte [simp]: "(of_nat (unat (b :: byte)) :: byte) = b"
  by simp

lemma and_mask31 [byte_simps]: "(n :: nat) AND 0x7FFFFFFF = n mod 2 ^ 31"
proof -
  have "n AND (2 ^ 31 - 1) = take_bit 31 n"
    by (simp add: take_bit_eq_mask mask_eq_exp_minus_1)
  then show ?thesis by (simp add: take_bit_eq_mod)
qed

lemma and_mask8 [byte_simps]: "(n :: nat) AND 0xFF = n mod 2 ^ 8"
proof -
  have "n AND (2 ^ 8 - 1) = take_bit 8 n"
    by (simp add: take_bit_eq_mask mask_eq_exp_minus_1)
  then show ?thesis by (simp add: take_bit_eq_mod)
qed

lemma or_disjoint_add:
  fixes a b :: nat
  assumes "b < 2 ^ n"
  shows "push_bit n a OR b = a * 2 ^ n + b"
proof -
  have "push_bit n a OR b = push_bit n a + b"
  proof (rule disjunctive_add [symmetric])
    fix k
    show "\<not> bit (push_bit n a) k \<or> \<not> bit b k"
    proof (cases "k < n")
      case True
      then show ?thesis by (simp add: bit_push_bit_iff)
    next
      case False
      with assms have "b < 2 ^ k"
        by (metis linorder_not_less one_le_numeral order_less_le_trans power_increasing)
      then have "\<not> bit b k" by (simp add: bit_iff_odd)
      then show ?thesis by simp
    qed
  qed
  then show ?thesis by (simp add: push_bit_eq_mult)
qed

subsection \<open>Lists\<close>

lemma take_drop_split: "n \<le> length xs \<Longrightarrow> take n xs @ drop n xs = xs"
  by simp

lemma drop_eq_Cons_iff_nth: "i < length xs \<Longrightarrow> drop i xs = xs ! i # drop (Suc i) xs"
  by (rule Cons_nth_drop_Suc [symmetric])

lemma sum_list_map_remove1_nat:
  "x \<in> set xs \<Longrightarrow> sum_list (map f (remove1 x xs)) + f x = (sum_list (map f xs) :: nat)"
  by (induction xs) auto

end
