(* ===== verification/H2_Errors.thy ===== *)
theory H2_Errors
  imports Prelude
begin

text \<open>
  \<^verbatim>\<open>web/src/h2/errors.ts\<close>: the RFC 7540 error codes, their numeric values, and the
  \<^verbatim>\<open>H2Error\<close> class with its stream scope and its retry evidence. The human-readable
  message of an error is not modelled; everything the code branches on is. \<open>exn\<close> is
  everything the engine's code can throw: an \<^verbatim>\<open>H2Error\<close>, the \<^verbatim>\<open>RangeError\<close> of an
  out-of-range \<^verbatim>\<open>DataView\<close> access, the codec's private \<^verbatim>\<open>UnknownFrameType\<close>, and an
  opaque error that comes from the transport or from an abort signal.
\<close>

datatype error_code =
    NO_ERROR | PROTOCOL_ERROR | INTERNAL_ERROR | FLOW_CONTROL_ERROR | SETTINGS_TIMEOUT
  | STREAM_CLOSED | FRAME_SIZE_ERROR | REFUSED_STREAM | CANCEL | COMPRESSION_ERROR
  | CONNECT_ERROR | ENHANCE_YOUR_CALM | INADEQUATE_SECURITY | HTTP_1_1_REQUIRED

definition ERROR_CODES :: "error_code list" where
  "ERROR_CODES =
    [NO_ERROR, PROTOCOL_ERROR, INTERNAL_ERROR, FLOW_CONTROL_ERROR, SETTINGS_TIMEOUT,
     STREAM_CLOSED, FRAME_SIZE_ERROR, REFUSED_STREAM, CANCEL, COMPRESSION_ERROR,
     CONNECT_ERROR, ENHANCE_YOUR_CALM, INADEQUATE_SECURITY, HTTP_1_1_REQUIRED]"

text \<open>Indexing a JavaScript array out of range yields \<^verbatim>\<open>undefined\<close>.\<close>

definition errorCodeName :: "nat \<Rightarrow> error_code option" where
  "errorCodeName code =
     (if code < length ERROR_CODES then Some (ERROR_CODES ! code) else None)"

text \<open>\<^verbatim>\<open>Array.indexOf\<close>; the -1 of an absent element does not arise for this type.\<close>

fun index_of :: "'a \<Rightarrow> 'a list \<Rightarrow> nat" where
  "index_of x [] = 0"
| "index_of x (y # ys) = (if x = y then 0 else Suc (index_of x ys))"

definition errorCodeValue :: "error_code \<Rightarrow> nat" where
  "errorCodeValue name = index_of name ERROR_CODES"

instantiation error_code :: linorder
begin

definition less_eq_error_code :: "error_code \<Rightarrow> error_code \<Rightarrow> bool" where
  "less_eq_error_code a b \<longleftrightarrow> errorCodeValue a \<le> errorCodeValue b"

definition less_error_code :: "error_code \<Rightarrow> error_code \<Rightarrow> bool" where
  "less_error_code a b \<longleftrightarrow> errorCodeValue a < errorCodeValue b"

instance
proof
  fix a b :: error_code
  show "a \<le> b \<Longrightarrow> b \<le> a \<Longrightarrow> a = b"
    by (cases a; cases b) (simp_all add: less_eq_error_code_def errorCodeValue_def ERROR_CODES_def)
qed (auto simp: less_eq_error_code_def less_error_code_def)

end

datatype retry_evidence = Unsent | Refused

record h2error =
  err_code :: error_code
  err_streamId :: "nat option"
  err_retry :: "retry_evidence option"

definition new_H2Error :: "error_code \<Rightarrow> nat option \<Rightarrow> h2error" where
  "new_H2Error c sid = \<lparr>err_code = c, err_streamId = sid, err_retry = None\<rparr>"

datatype exn = H2Exn h2error | RangeErr | UnknownFrameType nat | OpaqueErr nat

type_synonym 'a result = "exn + 'a"

definition throw_h2 :: "error_code \<Rightarrow> 'a result" where
  "throw_h2 c = Inl (H2Exn (new_H2Error c None))"

definition throw_h2_stream :: "error_code \<Rightarrow> nat \<Rightarrow> 'a result" where
  "throw_h2_stream c sid = Inl (H2Exn (new_H2Error c (Some sid)))"

lemma set_ERROR_CODES: "c \<in> set ERROR_CODES"
  by (cases c) (simp_all add: ERROR_CODES_def)

lemma index_of_nth: "x \<in> set xs \<Longrightarrow> index_of x xs < length xs \<and> xs ! index_of x xs = x"
  by (induction xs) auto

lemma index_of_distinct: "distinct xs \<Longrightarrow> i < length xs \<Longrightarrow> index_of (xs ! i) xs = i"
  by (induction xs arbitrary: i) (auto simp: nth_Cons split: nat.splits)

lemma errorCodeValue_less: "errorCodeValue c < 14"
  using index_of_nth [OF set_ERROR_CODES, of c]
  by (simp add: errorCodeValue_def ERROR_CODES_def)

lemma errorCode_roundtrip: "errorCodeName (errorCodeValue c) = Some c"
  using index_of_nth [OF set_ERROR_CODES, of c]
  by (simp add: errorCodeName_def errorCodeValue_def)

lemma errorCodeName_inverse: "errorCodeName n = Some c \<Longrightarrow> errorCodeValue c = n"
proof -
  assume "errorCodeName n = Some c"
  then have "n < length ERROR_CODES" "ERROR_CODES ! n = c"
    by (auto simp: errorCodeName_def split: if_splits)
  moreover have "distinct ERROR_CODES" by (simp add: ERROR_CODES_def)
  ultimately show ?thesis
    unfolding errorCodeValue_def using index_of_distinct by blast
qed

end
