(* ===== verification/Bytes.thy ===== *)
theory Bytes
  imports H2_Errors
begin

text \<open>
  \<^verbatim>\<open>web/src/h2/bytes.ts\<close>: \<^verbatim>\<open>concatBytes\<close>, the growable big-endian \<^verbatim>\<open>ByteWriter\<close> and
  the cursor-based \<^verbatim>\<open>ByteReader\<close>.

  The writer keeps its backing array (capacity included) and its length; \<open>ensure\<close>
  doubles the capacity in a loop that need not end, so every write returns an \<open>option\<close>.
  The locale \<open>byte_sink\<close> is what the encoders rely on: a write appends the big-endian
  bytes \<open>emit\<close> of its operation. The writer implements it from any positive capacity.

  The reader's \<^verbatim>\<open>DataView\<close> accesses throw a \<^verbatim>\<open>RangeError\<close> out of range, while
  \<^verbatim>\<open>subarray\<close> clamps; \<open>unread\<close> is the abstract view of a reader, the bytes it has not
  passed yet.
\<close>

unbundle bit_operations_syntax

subsection \<open>concatBytes\<close>

text \<open>\<^verbatim>\<open>out.set(c, offset)\<close>: overwrite a run of the array.\<close>

definition set_at :: "'a list \<Rightarrow> 'a list \<Rightarrow> nat \<Rightarrow> 'a list" where
  "set_at out c offset = take offset out @ c @ drop (offset + length c) out"

fun concat_loop :: "byte list list \<Rightarrow> byte list \<Rightarrow> nat \<Rightarrow> byte list" where
  "concat_loop [] out offset = out"
| "concat_loop (c # cs) out offset = concat_loop cs (set_at out c offset) (offset + length c)"

definition concatBytes :: "byte list list \<Rightarrow> byte list" where
  "concatBytes chunks = concat_loop chunks (replicate (sum_list (map length chunks)) 0) 0"

subsection \<open>ByteWriter\<close>

record byte_writer =
  w_buf :: "byte list"
  w_len :: nat

definition new_ByteWriter :: "nat \<Rightarrow> byte_writer" where
  "new_ByteWriter initialCapacity = \<lparr>w_buf = replicate initialCapacity 0, w_len = 0\<rparr>"

partial_function (option) grow_cap :: "nat \<Rightarrow> nat \<Rightarrow> nat option" where
  "grow_cap cap need = (if cap < need then grow_cap (cap * 2) need else Some cap)"

definition ensure :: "byte_writer \<Rightarrow> nat \<Rightarrow> byte_writer option" where
  "ensure w extra =
     (let need = w_len w + extra in
      if need \<le> length (w_buf w) then Some w
      else case grow_cap (length (w_buf w) * 2) need of
             None \<Rightarrow> None
           | Some cap \<Rightarrow>
               Some (w\<lparr>w_buf := set_at (replicate cap 0) (take (w_len w) (w_buf w)) 0\<rparr>))"

text \<open>
  The four field writers and \<^verbatim>\<open>bytes\<close>. \<open>store\<close> is the sequence of
  \<^verbatim>\<open>DataView.setUint8/16/32\<close> or \<^verbatim>\<open>Uint8Array.set\<close> calls after \<open>ensure\<close>; conversion of
  a number to a byte keeps its low eight bits.
\<close>

definition store :: "byte_writer \<Rightarrow> byte list \<Rightarrow> byte_writer option" where
  "store w bs =
     (case ensure w (length bs) of
        None \<Rightarrow> None
      | Some w' \<Rightarrow>
          Some (w'\<lparr>w_buf := set_at (w_buf w') bs (w_len w'), w_len := w_len w' + length bs\<rparr>))"

definition be16 :: "nat \<Rightarrow> byte list" where
  "be16 v = [of_nat (drop_bit 8 v), of_nat v]"

definition be24 :: "nat \<Rightarrow> byte list" where
  "be24 v = [of_nat (drop_bit 16 v AND 0xFF), of_nat (drop_bit 8 v AND 0xFF), of_nat (v AND 0xFF)]"

definition be32 :: "nat \<Rightarrow> byte list" where
  "be32 v = [of_nat (drop_bit 24 v), of_nat (drop_bit 16 v), of_nat (drop_bit 8 v), of_nat v]"

definition bw_u8 :: "byte_writer \<Rightarrow> nat \<Rightarrow> byte_writer option" where
  "bw_u8 w v = store w [of_nat (v AND 0xFF)]"

definition bw_u16 :: "byte_writer \<Rightarrow> nat \<Rightarrow> byte_writer option" where
  "bw_u16 w v = store w (be16 v)"

definition bw_u24 :: "byte_writer \<Rightarrow> nat \<Rightarrow> byte_writer option" where
  "bw_u24 w v = store w (be24 v)"

definition bw_u32 :: "byte_writer \<Rightarrow> nat \<Rightarrow> byte_writer option" where
  "bw_u32 w v = store w (be32 v)"

definition bw_bytes :: "byte_writer \<Rightarrow> byte list \<Rightarrow> byte_writer option" where
  "bw_bytes w b = store w b"

definition bw_take :: "byte_writer \<Rightarrow> byte list" where
  "bw_take w = take (w_len w) (w_buf w)"

text \<open>
  A client of the writer is a sequence of writes; \<open>written c ops\<close> is
  \<^verbatim>\<open>const w = new ByteWriter(c); w.op(...); ...; w.take()\<close>.
\<close>

datatype wop = U8 nat | U16 nat | U24 nat | U32 nat | Put "byte list"

fun bw_put :: "byte_writer \<Rightarrow> wop \<Rightarrow> byte_writer option" where
  "bw_put w (U8 v) = bw_u8 w v"
| "bw_put w (U16 v) = bw_u16 w v"
| "bw_put w (U24 v) = bw_u24 w v"
| "bw_put w (U32 v) = bw_u32 w v"
| "bw_put w (Put b) = bw_bytes w b"

fun put_all :: "('w \<Rightarrow> wop \<Rightarrow> 'w option) \<Rightarrow> 'w \<Rightarrow> wop list \<Rightarrow> 'w option" where
  "put_all put w [] = Some w"
| "put_all put w (p # ps) = (case put w p of None \<Rightarrow> None | Some w' \<Rightarrow> put_all put w' ps)"

definition written :: "nat \<Rightarrow> wop list \<Rightarrow> byte list option" where
  "written cap ops = map_option bw_take (put_all bw_put (new_ByteWriter cap) ops)"

fun emit :: "wop \<Rightarrow> byte list" where
  "emit (U8 v) = [of_nat v]"
| "emit (U16 v) = be16 v"
| "emit (U24 v) = be24 v"
| "emit (U32 v) = be32 v"
| "emit (Put b) = b"

definition writer_ok :: "byte_writer \<Rightarrow> bool" where
  "writer_ok w \<longleftrightarrow> w_len w \<le> length (w_buf w) \<and> 0 < length (w_buf w)"

subsection \<open>ByteReader\<close>

record byte_reader =
  r_buf :: "byte list"
  r_cursor :: nat

definition new_ByteReader :: "byte list \<Rightarrow> byte_reader" where
  "new_ByteReader b = \<lparr>r_buf = b, r_cursor = 0\<rparr>"

definition br_remaining :: "byte_reader \<Rightarrow> int" where
  "br_remaining r = int (length (r_buf r)) - int (r_cursor r)"

definition br_get :: "byte_reader \<Rightarrow> nat \<Rightarrow> byte list result" where
  "br_get r n =
     (if r_cursor r + n \<le> length (r_buf r) then Inr (take n (drop (r_cursor r) (r_buf r)))
      else Inl RangeErr)"

definition advance :: "byte_reader \<Rightarrow> nat \<Rightarrow> byte_reader" where
  "advance r n = r\<lparr>r_cursor := r_cursor r + n\<rparr>"

definition br_u8 :: "byte_reader \<Rightarrow> (nat \<times> byte_reader) result" where
  "br_u8 r = bind_result (br_get r 1) (\<lambda>b. Inr (unat (b ! 0), advance r 1))"

definition br_u16 :: "byte_reader \<Rightarrow> (nat \<times> byte_reader) result" where
  "br_u16 r = bind_result (br_get r 2)
     (\<lambda>b. Inr (push_bit 8 (unat (b ! 0)) OR unat (b ! 1), advance r 2))"

definition br_u24 :: "byte_reader \<Rightarrow> (nat \<times> byte_reader) result" where
  "br_u24 r = bind_result (br_get r 3)
     (\<lambda>b. Inr (push_bit 16 (unat (b ! 0)) OR (push_bit 8 (unat (b ! 1)) OR unat (b ! 2)), advance r 3))"

definition br_u32 :: "byte_reader \<Rightarrow> (nat \<times> byte_reader) result" where
  "br_u32 r = bind_result (br_get r 4)
     (\<lambda>b. Inr (push_bit 24 (unat (b ! 0)) OR (push_bit 16 (unat (b ! 1)) OR
               (push_bit 8 (unat (b ! 2)) OR unat (b ! 3))), advance r 4))"

text \<open>\<^verbatim>\<open>subarray\<close> clamps to the end of the buffer; the cursor still moves by \<open>n\<close>.\<close>

definition br_bytes :: "byte_reader \<Rightarrow> nat \<Rightarrow> byte list \<times> byte_reader" where
  "br_bytes r n = (take n (drop (r_cursor r) (r_buf r)), advance r n)"

definition br_peek :: "byte_reader \<Rightarrow> nat result" where
  "br_peek r = bind_result (br_get r 1) (\<lambda>b. Inr (unat (b ! 0)))"

definition unread :: "byte_reader \<Rightarrow> byte list" where
  "unread r = drop (r_cursor r) (r_buf r)"

subsection \<open>Facts: concatBytes, set_at\<close>

lemma length_set_at [simp]:
  "offset + length c \<le> length out \<Longrightarrow> length (set_at out c offset) = length out"
  by (simp add: set_at_def)

lemma concat_loop_eq:
  "offset + sum_list (map length cs) = length out \<Longrightarrow>
   concat_loop cs out offset = take offset out @ concat cs"
proof (induction cs arbitrary: out offset)
  case Nil
  then show ?case by simp
next
  case (Cons c cs)
  have "concat_loop cs (set_at out c offset) (offset + length c)
        = take (offset + length c) (set_at out c offset) @ concat cs"
    using Cons.prems by (intro Cons.IH) simp
  also have "take (offset + length c) (set_at out c offset) = take offset out @ c"
    using Cons.prems by (simp add: set_at_def)
  finally show ?case by simp
qed

lemma concatBytes_concat: "concatBytes chunks = concat chunks"
  by (simp add: concatBytes_def concat_loop_eq)

subsection \<open>Facts: big-endian fields\<close>

lemma be_lengths [simp]: "length (be16 v) = 2" "length (be24 v) = 3" "length (be32 v) = 4"
  by (simp_all add: be16_def be24_def be32_def)

lemma of_nat_mask8 [simp]: "(of_nat (v AND 0xFF) :: byte) = of_nat v"
  by (rule word_unat_eq_iff [THEN iffD2]) (simp add: byte_simps)

lemma be24_alt: "be24 v = [of_nat (drop_bit 16 v), of_nat (drop_bit 8 v), of_nat v]"
  by (simp add: be24_def)

definition be_value :: "byte list \<Rightarrow> nat" where
  "be_value bs = foldl (\<lambda>acc b. acc * 256 + unat b) 0 bs"

lemma or_field8:
  "push_bit 8 (a :: nat) OR unat (b :: byte) = a * 256 + unat b"
  using or_disjoint_add [of "unat b" 8 a] by simp

lemma or_field16:
  "push_bit 16 (a :: nat) OR (push_bit 8 (unat (b :: byte)) OR unat (c :: byte))
   = a * 65536 + unat b * 256 + unat c"
proof -
  have "unat b * 256 + unat c < 65536"
    using unat_byte_less [of b] unat_byte_less [of c] by linarith
  then have "unat b * 256 + unat c < 2 ^ 16" by simp
  from or_disjoint_add [OF this, of a] show ?thesis by (simp add: or_field8)
qed

lemma or_field24:
  "push_bit 24 (a :: nat) OR (push_bit 16 (unat (b :: byte)) OR
     (push_bit 8 (unat (c :: byte)) OR unat (d :: byte)))
   = a * 16777216 + unat b * 65536 + unat c * 256 + unat d"
proof -
  have "unat b * 65536 + unat c * 256 + unat d < 16777216"
    using unat_byte_less [of b] unat_byte_less [of c] unat_byte_less [of d] by linarith
  then have "unat b * 65536 + unat c * 256 + unat d < 2 ^ 24" by simp
  from or_disjoint_add [OF this, of a] show ?thesis by (simp add: or_field16)
qed

lemma be_value_be16 [simp]: "v < 2 ^ 16 \<Longrightarrow> be_value (be16 v) = v"
  by (simp add: be_value_def be16_def unat_of_nat_byte drop_bit_eq_div)

lemma digits3: "v div 65536 * 65536 + v div 256 mod 256 * 256 + v mod 256 = (v :: nat)"
proof -
  have "v div 256 = v div 65536 * 256 + v div 256 mod 256"
    using div_mult_mod_eq [of "v div 256" 256] by (simp add: div_mult2_eq [symmetric])
  then show ?thesis using div_mult_mod_eq [of v 256] by linarith
qed

lemma digits4:
  "v div 16777216 * 16777216 + v div 65536 mod 256 * 65536 + v div 256 mod 256 * 256 + v mod 256
   = (v :: nat)"
proof -
  have "v div 65536 = v div 16777216 * 256 + v div 65536 mod 256"
    using div_mult_mod_eq [of "v div 65536" 256] by (simp add: div_mult2_eq [symmetric])
  then show ?thesis using digits3 [of v] by linarith
qed

lemma be_value_be24 [simp]: "v < 2 ^ 24 \<Longrightarrow> be_value (be24 v) = v"
  using digits3 [of v]
  by (simp add: be_value_def be24_alt unat_of_nat_byte drop_bit_eq_div)

lemma be_value_be32 [simp]: "v < 2 ^ 32 \<Longrightarrow> be_value (be32 v) = v"
  using digits4 [of v]
  by (simp add: be_value_def be32_def unat_of_nat_byte drop_bit_eq_div)

subsection \<open>Facts: the writer implements the sink interface\<close>

text \<open>
  The interface between the writer and the encoders: an operation never gets stuck from
  a well-formed sink, keeps it well-formed and appends exactly its big-endian bytes.
\<close>

locale byte_sink =
  fixes put :: "'w \<Rightarrow> wop \<Rightarrow> 'w option"
    and contents :: "'w \<Rightarrow> byte list"
    and ok :: "'w \<Rightarrow> bool"
  assumes put_total: "ok w \<Longrightarrow> \<exists>w'. put w p = Some w'"
    and put_ok: "ok w \<Longrightarrow> put w p = Some w' \<Longrightarrow> ok w'"
    and put_appends: "ok w \<Longrightarrow> put w p = Some w' \<Longrightarrow> contents w' = contents w @ emit p"
begin

lemma put_all_appends:
  "ok w \<Longrightarrow> \<exists>w'. put_all put w ps = Some w' \<and> ok w' \<and> contents w' = contents w @ concat (map emit ps)"
proof (induction ps arbitrary: w)
  case Nil
  then show ?case by simp
next
  case (Cons p ps)
  from Cons.prems obtain w1 where w1: "put w p = Some w1"
    using put_total by blast
  with Cons.prems have "ok w1" "contents w1 = contents w @ emit p"
    by (auto intro: put_ok simp: put_appends)
  with Cons.IH [of w1] w1 show ?case by auto
qed

end

lemma grow_cap_total: "0 < cap \<Longrightarrow> \<exists>c. grow_cap cap need = Some c \<and> need \<le> c \<and> cap \<le> c"
proof (induction "need - cap" arbitrary: cap rule: less_induct)
  case less
  show ?case
  proof (cases "cap < need")
    case True
    with less.prems have "need - cap * 2 < need - cap" "0 < cap * 2" by auto
    from less.hyps [OF this] True show ?thesis
      by (subst grow_cap.simps) auto
  next
    case False
    then show ?thesis by (subst grow_cap.simps) simp
  qed
qed

lemma ensure_total:
  assumes "writer_ok w"
  shows "\<exists>w'. ensure w extra = Some w' \<and> writer_ok w' \<and> w_len w' = w_len w \<and>
              w_len w + extra \<le> length (w_buf w') \<and> bw_take w' = bw_take w"
proof (cases "w_len w + extra \<le> length (w_buf w)")
  case True
  with assms show ?thesis by (simp add: ensure_def)
next
  case False
  from assms have "0 < length (w_buf w) * 2" by (simp add: writer_ok_def)
  from grow_cap_total [OF this] obtain c where
    c: "grow_cap (length (w_buf w) * 2) (w_len w + extra) = Some c" "w_len w + extra \<le> c"
       "length (w_buf w) * 2 \<le> c" by blast
  with assms False show ?thesis
    by (auto simp: ensure_def writer_ok_def bw_take_def set_at_def)
qed

lemma store_total:
  assumes "writer_ok w"
  shows "\<exists>w'. store w bs = Some w' \<and> writer_ok w' \<and> bw_take w' = bw_take w @ bs"
proof -
  from ensure_total [OF assms, of "length bs"] obtain w1 where
    w1: "ensure w (length bs) = Some w1" "writer_ok w1" "w_len w1 = w_len w"
        "w_len w + length bs \<le> length (w_buf w1)" "bw_take w1 = bw_take w" by blast
  with assms show ?thesis
    by (auto simp: store_def writer_ok_def bw_take_def set_at_def min_def)
qed

lemma bw_put_store: "bw_put w p = store w (emit p)"
  by (cases p) (simp_all add: bw_u8_def bw_u16_def bw_u24_def bw_u32_def bw_bytes_def)

interpretation writer: byte_sink bw_put bw_take writer_ok
proof unfold_locales
  fix w p w'
  assume "writer_ok w"
  note st = store_total [OF this, of "emit p"]
  show "\<exists>w'. bw_put w p = Some w'" using st by (auto simp: bw_put_store)
  assume "bw_put w p = Some w'"
  with st show "writer_ok w'" "bw_take w' = bw_take w @ emit p"
    by (auto simp: bw_put_store)
qed

lemma written_emit: "0 < cap \<Longrightarrow> written cap ops = Some (concat (map emit ops))"
proof -
  assume "0 < cap"
  then have ok: "writer_ok (new_ByteWriter cap)" and "bw_take (new_ByteWriter cap) = []"
    by (simp_all add: writer_ok_def new_ByteWriter_def bw_take_def)
  with writer.put_all_appends [OF ok, of ops] show ?thesis by (auto simp: written_def)
qed

subsection \<open>Facts: the reader\<close>

lemma unread_new [simp]: "unread (new_ByteReader b) = b"
  by (simp add: unread_def new_ByteReader_def)

lemma unread_advance [simp]: "unread (advance r n) = drop n (unread r)"
  by (simp add: unread_def advance_def add.commute)

lemma br_get_pos:
  "0 < n \<Longrightarrow> br_get r n = (if n \<le> length (unread r) then Inr (take n (unread r)) else Inl RangeErr)"
  by (auto simp: br_get_def unread_def)

lemma br_bytes_unread: "br_bytes r n = (take n (unread r), advance r n)"
  by (simp add: br_bytes_def unread_def)

lemma br_u8_Cons: "unread r = b # bs \<Longrightarrow> br_u8 r = Inr (unat b, advance r 1)"
  by (simp add: br_u8_def br_get_pos)

lemma br_peek_Cons: "unread r = b # bs \<Longrightarrow> br_peek r = Inr (unat b)"
  by (simp add: br_peek_def br_get_pos)

lemma br_u16_value:
  "2 \<le> length (unread r) \<Longrightarrow> br_u16 r = Inr (be_value (take 2 (unread r)), advance r 2)"
  by (cases "unread r" rule: list.exhaust; cases "tl (unread r)")
     (auto simp: br_u16_def br_get_pos be_value_def or_field8 numeral_2_eq_2)

lemma br_u32_value:
  assumes "4 \<le> length (unread r)"
  shows "br_u32 r = Inr (be_value (take 4 (unread r)), advance r 4)"
proof -
  from assms obtain a b c d rest where "unread r = a # b # c # d # rest"
    by (auto simp: numeral_eq_Suc Suc_le_length_iff)
  then show ?thesis
    by (simp add: br_u32_def br_get_pos be_value_def or_field24)
qed

lemma br_u16_be [simp]:
  "unread r = be16 v @ rest \<Longrightarrow> v < 2 ^ 16 \<Longrightarrow> br_u16 r = Inr (v, advance r 2)"
  by (subst br_u16_value) simp_all

lemma br_u32_be [simp]:
  "unread r = be32 v @ rest \<Longrightarrow> v < 2 ^ 32 \<Longrightarrow> br_u32 r = Inr (v, advance r 4)"
  by (subst br_u32_value) simp_all

lemma be_value_less: "be_value bs < 256 ^ length bs"
proof -
  have "foldl (\<lambda>acc b. acc * 256 + unat b) a bs < (a + 1) * 256 ^ length bs" for a
  proof (induction bs arbitrary: a)
    case Nil
    then show ?case by simp
  next
    case (Cons b bs)
    have "foldl (\<lambda>acc b. acc * 256 + unat b) (a * 256 + unat b) bs
          < (a * 256 + unat b + 1) * 256 ^ length bs"
      by (rule Cons.IH)
    also have "\<dots> \<le> ((a + 1) * 256) * 256 ^ length bs"
      using unat_byte_less [of b] by (intro mult_right_mono) auto
    finally show ?case by (simp add: algebra_simps)
  qed
  from this [of 0] show ?thesis by (simp add: be_value_def)
qed

lemma grow_cap_zero: "0 < need \<Longrightarrow> grow_cap 0 need = None"
proof (rule ccontr)
  assume "0 < need" and "grow_cap 0 need \<noteq> None"
  then obtain c where c: "grow_cap 0 need = Some c" by auto
  have "0 = (0 :: nat) \<longrightarrow> need = 0"
    by (rule grow_cap.raw_induct [where P = "\<lambda>cap need c. cap = 0 \<longrightarrow> need = 0", OF _ c])
       (auto split: if_splits)
  with \<open>0 < need\<close> show False by simp
qed

subsection \<open>Properties\<close>

text \<open>C30: The growable writer refines plain appending: from any positive initial capacity every
  sequence of writes returns (the doubling loop of \<^verbatim>\<open>ensure\<close> ends) and \<^verbatim>\<open>take\<close> yields the
  concatenated big-endian bytes of the writes, however often the buffer was reallocated.\<close>

theorem writer_refines_append:
  assumes "0 < cap"
  shows "written cap ops = Some (concat (map emit ops))"
  using assms by (rule written_emit)

theorem writer_refines_append_witness:
  "written 1 [U8 255, U16 258, U24 66051, U32 4294967295, Put [7, 8]] =
   Some (concat (map emit [U8 255, U16 258, U24 66051, U32 4294967295, Put [7, 8]]))"
  by (rule writer_refines_append) simp

text \<open>A writer created with capacity 0 never returns from its first write: doubling zero
  makes no progress, so the loop of \<^verbatim>\<open>ensure\<close> runs forever.\<close>

theorem writer_zero_capacity_diverges: "written 0 (U8 v # ops) = None"
  by (simp add: written_def bw_u8_def store_def ensure_def new_ByteWriter_def grow_cap_zero)

end
