(* ===== verification/Frame_Types.thy ===== *)
theory Frame_Types
  imports Bytes
begin

text \<open>
  \<^verbatim>\<open>web/src/h2/frames/types.ts\<close>: the frame type numbers, the flag bits, the SETTINGS
  parameters and the discriminated union of frames. An optional field of the source is an
  \<open>option\<close>; the constant fields (\<^verbatim>\<open>type\<close>, and \<^verbatim>\<open>streamId: 0\<close> of the connection frames) are
  implied by the constructor.
\<close>

definition FRAME_HEADER_SIZE :: nat where "FRAME_HEADER_SIZE = 9"
definition DEFAULT_MAX_FRAME_SIZE :: nat where "DEFAULT_MAX_FRAME_SIZE = 16384"

text \<open>\<^verbatim>\<open>FrameType\<close>.\<close>

abbreviation (input) T_DATA :: nat where "T_DATA \<equiv> 0x0"
abbreviation (input) T_HEADERS :: nat where "T_HEADERS \<equiv> 0x1"
abbreviation (input) T_PRIORITY :: nat where "T_PRIORITY \<equiv> 0x2"
abbreviation (input) T_RST_STREAM :: nat where "T_RST_STREAM \<equiv> 0x3"
abbreviation (input) T_SETTINGS :: nat where "T_SETTINGS \<equiv> 0x4"
abbreviation (input) T_PUSH_PROMISE :: nat where "T_PUSH_PROMISE \<equiv> 0x5"
abbreviation (input) T_PING :: nat where "T_PING \<equiv> 0x6"
abbreviation (input) T_GOAWAY :: nat where "T_GOAWAY \<equiv> 0x7"
abbreviation (input) T_WINDOW_UPDATE :: nat where "T_WINDOW_UPDATE \<equiv> 0x8"
abbreviation (input) T_CONTINUATION :: nat where "T_CONTINUATION \<equiv> 0x9"

text \<open>\<^verbatim>\<open>Flags\<close>: the bit positions are shared between frame types.\<close>

abbreviation (input) F_END_STREAM :: nat where "F_END_STREAM \<equiv> 0x1"
abbreviation (input) F_ACK :: nat where "F_ACK \<equiv> 0x1"
abbreviation (input) F_END_HEADERS :: nat where "F_END_HEADERS \<equiv> 0x4"
abbreviation (input) F_PADDED :: nat where "F_PADDED \<equiv> 0x8"
abbreviation (input) F_PRIORITY :: nat where "F_PRIORITY \<equiv> 0x20"

record settings =
  s_headerTableSize :: "nat option"
  s_enablePush :: "bool option"
  s_maxConcurrentStreams :: "nat option"
  s_initialWindowSize :: "nat option"
  s_maxFrameSize :: "nat option"
  s_maxHeaderListSize :: "nat option"

definition empty_settings :: settings where
  "empty_settings =
     \<lparr>s_headerTableSize = None, s_enablePush = None, s_maxConcurrentStreams = None,
      s_initialWindowSize = None, s_maxFrameSize = None, s_maxHeaderListSize = None\<rparr>"

record priority =
  p_streamDependency :: nat
  p_weight :: nat
  p_exclusive :: bool

text \<open>
  The arguments are the fields in the order of the source interfaces:
  \<open>DataF streamId data flowControlledLength endStream\<close>,
  \<open>HeadersF streamId headerBlockFragment endStream endHeaders priority\<close>,
  \<open>PushPromiseF streamId promisedStreamId headerBlockFragment endHeaders\<close>,
  \<open>GoawayF lastStreamId errorCode debugData\<close>, and so on.
\<close>

datatype frame =
    DataF nat "byte list" "nat option" bool
  | HeadersF nat "byte list" bool bool "priority option"
  | PriorityF nat priority
  | RstStreamF nat nat
  | SettingsF bool settings
  | PushPromiseF nat nat "byte list" bool
  | PingF bool "byte list"
  | GoawayF nat nat "byte list"
  | WindowUpdateF nat nat
  | ContinuationF nat "byte list" bool

end
