(* ===== verification/Frame_Codec.thy ===== *)
theory Frame_Codec
  imports Frame_Types
begin

unbundle bit_operations_syntax

text \<open>
  \<^verbatim>\<open>web/src/h2/frames/codec.ts\<close>: \<^verbatim>\<open>encodeBody\<close> and \<^verbatim>\<open>serializeFrame\<close>, the payload parser
  \<^verbatim>\<open>parsePayload\<close> (one definition per case of its switch), and the streaming
  \<^verbatim>\<open>FrameDecoder\<close>.

  The locale \<open>incremental\<close> is the contract of a chunk-fed parser: what it makes of a
  buffer does not change when more bytes follow. Its lemmas give chunk independence; it
  is interpreted on the decoder's loop. The round-trip lemmas then say that any chunking
  of serialized frames decodes to those frames.
\<close>

subsection \<open>Serialization\<close>

definition priority_ops :: "priority \<Rightarrow> wop list" where
  "priority_ops p =
     (let dep = p_streamDependency p AND 0x7FFFFFFF in
      [U32 (if p_exclusive p then dep OR 0x80000000 else dep),
       U8 (nat ((int (p_weight p) - 1) AND 0xFF))])"

definition setting_ops :: "nat \<Rightarrow> nat option \<Rightarrow> wop list" where
  "setting_ops key value = (case value of None \<Rightarrow> [] | Some v \<Rightarrow> [U16 key, U32 v])"

definition settings_ops :: "settings \<Rightarrow> wop list" where
  "settings_ops s =
     setting_ops 0x1 (s_headerTableSize s)
     @ setting_ops 0x2 (map_option (\<lambda>b. if b then 1 else 0) (s_enablePush s))
     @ setting_ops 0x3 (s_maxConcurrentStreams s)
     @ setting_ops 0x4 (s_initialWindowSize s)
     @ setting_ops 0x5 (s_maxFrameSize s)
     @ setting_ops 0x6 (s_maxHeaderListSize s)"

text \<open>The result is \<open>(typeId, flags, streamId, payload)\<close>; \<open>None\<close> is a writer that never returns.\<close>

fun encodeBody :: "frame \<Rightarrow> (nat \<times> nat \<times> nat \<times> byte list) option" where
  "encodeBody (DataF sid data _ endStream) =
     Some (T_DATA, if endStream then F_END_STREAM else 0, sid, data)"
| "encodeBody (HeadersF sid frag endStream endHeaders prio) =
     (let flags = (if endHeaders then F_END_HEADERS else 0);
          flags = (if endStream then flags OR F_END_STREAM else flags)
      in case prio of
           None \<Rightarrow> Some (T_HEADERS, flags, sid, frag)
         | Some p \<Rightarrow> map_option (\<lambda>payload. (T_HEADERS, flags OR F_PRIORITY, sid, payload))
             (written (5 + length frag) (priority_ops p @ [Put frag])))"
| "encodeBody (PriorityF sid p) =
     map_option (\<lambda>payload. (T_PRIORITY, 0, sid, payload)) (written 5 (priority_ops p))"
| "encodeBody (RstStreamF sid errorCode) =
     map_option (\<lambda>payload. (T_RST_STREAM, 0, sid, payload)) (written 4 [U32 errorCode])"
| "encodeBody (SettingsF ack s) =
     map_option (\<lambda>payload. (T_SETTINGS, if ack then F_ACK else 0, 0, payload))
       (written 48 (settings_ops s))"
| "encodeBody (PushPromiseF sid promised frag endHeaders) =
     map_option (\<lambda>payload. (T_PUSH_PROMISE, if endHeaders then F_END_HEADERS else 0, sid, payload))
       (written (4 + length frag) [U32 (promised AND 0x7FFFFFFF), Put frag])"
| "encodeBody (PingF ack opaque) =
     Some (T_PING, if ack then F_ACK else 0, 0, if length opaque = 8 then opaque else replicate 8 0)"
| "encodeBody (GoawayF lastStreamId errorCode debugData) =
     map_option (\<lambda>payload. (T_GOAWAY, 0, 0, payload))
       (written (8 + length debugData)
         [U32 (lastStreamId AND 0x7FFFFFFF), U32 errorCode, Put debugData])"
| "encodeBody (WindowUpdateF sid increment) =
     map_option (\<lambda>payload. (T_WINDOW_UPDATE, 0, sid, payload))
       (written 4 [U32 (increment AND 0x7FFFFFFF)])"
| "encodeBody (ContinuationF sid frag endHeaders) =
     Some (T_CONTINUATION, if endHeaders then F_END_HEADERS else 0, sid, frag)"

definition serializeFrame :: "frame \<Rightarrow> byte list option" where
  "serializeFrame f =
     (case encodeBody f of
        None \<Rightarrow> None
      | Some (typeId, flags, sid, payload) \<Rightarrow>
          map_option (\<lambda>header. concatBytes [header, payload])
            (written FRAME_HEADER_SIZE
               [U24 (length payload), U8 typeId, U8 flags, U32 (sid AND 0x7FFFFFFF)]))"

subsection \<open>Payload parsing\<close>

definition readPadded :: "byte_reader \<Rightarrow> nat \<Rightarrow> bool \<Rightarrow> byte list result" where
  "readPadded r n padded =
     (if \<not> padded then Inr (fst (br_bytes r n))
      else bind_result (br_u8 r) (\<lambda>(padLength, r).
        let dataLength = int n - 1 - int padLength in
        if dataLength < 0 then throw_h2 PROTOCOL_ERROR
        else Inr (fst (br_bytes r (nat dataLength)))))"

definition read_priority :: "byte_reader \<Rightarrow> (priority \<times> byte_reader) result" where
  "read_priority r =
     bind_result (br_u32 r) (\<lambda>(dep, r).
     bind_result (br_u8 r) (\<lambda>(w, r).
       Inr (\<lparr>p_streamDependency = dep AND 0x7FFFFFFF, p_weight = w + 1,
             p_exclusive = (dep AND 0x80000000 \<noteq> 0)\<rparr>, r)))"

definition parse_data :: "nat \<Rightarrow> nat \<Rightarrow> byte list \<Rightarrow> frame result" where
  "parse_data flags sid payload =
     bind_result (readPadded (new_ByteReader payload) (length payload) (flags AND F_PADDED \<noteq> 0))
       (\<lambda>data. Inr (DataF sid data (Some (length payload)) (flags AND F_END_STREAM \<noteq> 0)))"

definition parse_headers :: "nat \<Rightarrow> nat \<Rightarrow> byte list \<Rightarrow> frame result" where
  "parse_headers flags sid payload =
     (let r = new_ByteReader payload;
          padded = (flags AND F_PADDED \<noteq> 0);
          prioritized = (flags AND F_PRIORITY \<noteq> 0)
      in bind_result (if padded then br_u8 r else Inr (0, r)) (\<lambda>(padLength, r).
         bind_result (if prioritized then bind_result (read_priority r) (\<lambda>(p, r). Inr (Some p, r))
                      else Inr (None, r)) (\<lambda>(prio, r).
         let fragLength = int (length payload) - (if padded then 1 else 0)
                          - (if prioritized then 5 else 0) - int padLength in
         if fragLength < 0 then throw_h2 PROTOCOL_ERROR
         else Inr (HeadersF sid (fst (br_bytes r (nat fragLength)))
                     (flags AND F_END_STREAM \<noteq> 0) (flags AND F_END_HEADERS \<noteq> 0) prio))))"

definition parse_priority :: "nat \<Rightarrow> byte list \<Rightarrow> frame result" where
  "parse_priority sid payload =
     (if length payload \<noteq> 5 then throw_h2_stream FRAME_SIZE_ERROR sid
      else bind_result (read_priority (new_ByteReader payload)) (\<lambda>(p, r). Inr (PriorityF sid p)))"

definition parse_rst_stream :: "nat \<Rightarrow> byte list \<Rightarrow> frame result" where
  "parse_rst_stream sid payload =
     (if length payload \<noteq> 4 then throw_h2 FRAME_SIZE_ERROR
      else bind_result (br_u32 (new_ByteReader payload)) (\<lambda>(v, r). Inr (RstStreamF sid v)))"

definition set_setting :: "nat \<Rightarrow> nat \<Rightarrow> settings \<Rightarrow> settings" where
  "set_setting key v s =
     (if key = 0x1 then s\<lparr>s_headerTableSize := Some v\<rparr>
      else if key = 0x2 then s\<lparr>s_enablePush := Some (v \<noteq> 0)\<rparr>
      else if key = 0x3 then s\<lparr>s_maxConcurrentStreams := Some v\<rparr>
      else if key = 0x4 then s\<lparr>s_initialWindowSize := Some v\<rparr>
      else if key = 0x5 then s\<lparr>s_maxFrameSize := Some v\<rparr>
      else if key = 0x6 then s\<lparr>s_maxHeaderListSize := Some v\<rparr>
      else s)"

fun read_settings :: "nat \<Rightarrow> byte_reader \<Rightarrow> settings \<Rightarrow> settings result" where
  "read_settings 0 r s = Inr s"
| "read_settings (Suc n) r s =
     bind_result (br_u16 r) (\<lambda>(key, r).
     bind_result (br_u32 r) (\<lambda>(v, r). read_settings n r (set_setting key v s)))"

definition parse_settings :: "nat \<Rightarrow> byte list \<Rightarrow> frame result" where
  "parse_settings flags payload =
     (let ack = (flags AND F_ACK \<noteq> 0) in
      if ack \<and> length payload \<noteq> 0 then throw_h2 FRAME_SIZE_ERROR
      else if length payload mod 6 \<noteq> 0 then throw_h2 FRAME_SIZE_ERROR
      else bind_result
             (read_settings (length payload div 6) (new_ByteReader payload) empty_settings)
             (\<lambda>s. Inr (SettingsF ack s)))"

definition parse_push_promise :: "nat \<Rightarrow> nat \<Rightarrow> byte list \<Rightarrow> frame result" where
  "parse_push_promise flags sid payload =
     (let r = new_ByteReader payload; padded = (flags AND F_PADDED \<noteq> 0)
      in bind_result (if padded then br_u8 r else Inr (0, r)) (\<lambda>(padLength, r).
         bind_result (br_u32 r) (\<lambda>(promised, r).
         let fragLength = int (length payload) - (if padded then 1 else 0) - 4 - int padLength in
         if fragLength < 0 then throw_h2 PROTOCOL_ERROR
         else Inr (PushPromiseF sid (promised AND 0x7FFFFFFF) (fst (br_bytes r (nat fragLength)))
                     (flags AND F_END_HEADERS \<noteq> 0)))))"

definition parse_ping :: "nat \<Rightarrow> byte list \<Rightarrow> frame result" where
  "parse_ping flags payload =
     (if length payload \<noteq> 8 then throw_h2 FRAME_SIZE_ERROR
      else Inr (PingF (flags AND F_ACK \<noteq> 0) (fst (br_bytes (new_ByteReader payload) 8))))"

definition parse_goaway :: "byte list \<Rightarrow> frame result" where
  "parse_goaway payload =
     (if length payload < 8 then throw_h2 FRAME_SIZE_ERROR
      else bind_result (br_u32 (new_ByteReader payload)) (\<lambda>(lastStreamId, r).
           bind_result (br_u32 r) (\<lambda>(errorCode, r).
             Inr (GoawayF (lastStreamId AND 0x7FFFFFFF) errorCode
                    (fst (br_bytes r (length payload - 8)))))))"

definition parse_window_update :: "nat \<Rightarrow> byte list \<Rightarrow> frame result" where
  "parse_window_update sid payload =
     (if length payload \<noteq> 4 then throw_h2 FRAME_SIZE_ERROR
      else bind_result (br_u32 (new_ByteReader payload))
             (\<lambda>(v, r). Inr (WindowUpdateF sid (v AND 0x7FFFFFFF))))"

definition parse_continuation :: "nat \<Rightarrow> nat \<Rightarrow> byte list \<Rightarrow> frame result" where
  "parse_continuation flags sid payload =
     Inr (ContinuationF sid (fst (br_bytes (new_ByteReader payload) (length payload)))
            (flags AND F_END_HEADERS \<noteq> 0))"

definition parsePayload :: "nat \<Rightarrow> nat \<Rightarrow> nat \<Rightarrow> byte list \<Rightarrow> frame result" where
  "parsePayload typeId flags sid payload =
     (if typeId = T_DATA then parse_data flags sid payload
      else if typeId = T_HEADERS then parse_headers flags sid payload
      else if typeId = T_PRIORITY then parse_priority sid payload
      else if typeId = T_RST_STREAM then parse_rst_stream sid payload
      else if typeId = T_SETTINGS then parse_settings flags payload
      else if typeId = T_PUSH_PROMISE then parse_push_promise flags sid payload
      else if typeId = T_PING then parse_ping flags payload
      else if typeId = T_GOAWAY then parse_goaway payload
      else if typeId = T_WINDOW_UPDATE then parse_window_update sid payload
      else if typeId = T_CONTINUATION then parse_continuation flags sid payload
      else Inl (UnknownFrameType typeId))"

subsection \<open>FrameDecoder\<close>

record frame_decoder =
  fd_pending :: "byte list"
  fd_maxFrameSize :: nat

definition new_FrameDecoder :: "nat \<Rightarrow> frame_decoder" where
  "new_FrameDecoder maxFrameSize = \<lparr>fd_pending = [], fd_maxFrameSize = maxFrameSize\<rparr>"

text \<open>
  One turn of the loop of \<^verbatim>\<open>push\<close> at \<open>offset\<close>: \<open>Inr None\<close> leaves the loop (no complete frame
  is buffered), \<open>Inr (Some (fs, total))\<close> consumes \<open>total\<close> bytes and appends \<open>fs\<close> (empty for an
  unknown frame type).
\<close>

definition frame_at :: "nat \<Rightarrow> byte list \<Rightarrow> nat \<Rightarrow> (frame list \<times> nat) option result" where
  "frame_at maxFrameSize b offset =
     (if length b < offset + FRAME_HEADER_SIZE then Inr None
      else
        let payloadLength = push_bit 16 (unat (b ! offset)) OR
              (push_bit 8 (unat (b ! (offset + 1))) OR unat (b ! (offset + 2)))
        in if payloadLength > maxFrameSize then throw_h2 FRAME_SIZE_ERROR
        else
          let total = FRAME_HEADER_SIZE + payloadLength in
          if length b < offset + total then Inr None
          else
            let typeId = unat (b ! (offset + 3));
                flags = unat (b ! (offset + 4));
                sid = (push_bit 24 (unat (b ! (offset + 5))) OR
                        (push_bit 16 (unat (b ! (offset + 6))) OR
                        (push_bit 8 (unat (b ! (offset + 7))) OR unat (b ! (offset + 8)))))
                      AND 0x7FFFFFFF;
                payload = take payloadLength (drop (offset + FRAME_HEADER_SIZE) b)
            in case parsePayload typeId flags sid payload of
                 Inr f \<Rightarrow> Inr (Some ([f], total))
               | Inl (UnknownFrameType t) \<Rightarrow> Inr (Some ([], total))
               | Inl e \<Rightarrow> Inl e)"

lemma frame_at_progress:
  assumes "frame_at m b offset = Inr (Some (fs, n))"
  shows "0 < n \<and> offset + n \<le> length b"
  using assms
  by (auto simp: frame_at_def Let_def throw_h2_def FRAME_HEADER_SIZE_def
           split: if_splits sum.splits exn.splits)

function push_loop :: "nat \<Rightarrow> byte list \<Rightarrow> nat \<Rightarrow> frame list \<Rightarrow> (frame list \<times> nat) result" where
  "push_loop maxFrameSize b offset frames =
     (case frame_at maxFrameSize b offset of
        Inl e \<Rightarrow> Inl e
      | Inr None \<Rightarrow> Inr (frames, offset)
      | Inr (Some (fs, n)) \<Rightarrow> push_loop maxFrameSize b (offset + n) (frames @ fs))"
  by pat_completeness auto
termination
  by (relation "measure (\<lambda>(m, b, offset, frames). length b - offset)")
     (auto dest!: frame_at_progress)

declare push_loop.simps [simp del]

definition push :: "frame_decoder \<Rightarrow> byte list \<Rightarrow> (frame list \<times> frame_decoder) result" where
  "push d chunk =
     (let b = (if length (fd_pending d) = 0 then chunk else concatBytes [fd_pending d, chunk])
      in bind_result (push_loop (fd_maxFrameSize d) b 0 []) (\<lambda>(frames, offset).
           Inr (frames, d\<lparr>fd_pending := (if offset = length b then [] else drop offset b)\<rparr>)))"

text \<open>Feeding a sequence of chunks, stopping at the first error.\<close>

fun push_all :: "frame_decoder \<Rightarrow> byte list list \<Rightarrow> (frame list \<times> frame_decoder) result" where
  "push_all d [] = Inr ([], d)"
| "push_all d (c # cs) =
     bind_result (push d c) (\<lambda>(fs, d').
     bind_result (push_all d' cs) (\<lambda>(gs, d''). Inr (fs @ gs, d'')))"

subsection \<open>Chunk independence\<close>

text \<open>
  The contract of a chunk-fed parser over a buffer: \<open>next\<close> makes progress, and what it
  decides on a buffer it decides on every extension of it; \<open>drain\<close> runs it until it asks
  for more.
\<close>

locale incremental =
  fixes nxt :: "byte list \<Rightarrow> ('a list \<times> nat) option result"
    and drain :: "byte list \<Rightarrow> ('a list \<times> byte list) result"
  assumes nxt_progress: "nxt b = Inr (Some (xs, n)) \<Longrightarrow> 0 < n \<and> n \<le> length b"
    and nxt_extend: "nxt b = Inr (Some (xs, n)) \<Longrightarrow> nxt (b @ c) = Inr (Some (xs, n))"
    and nxt_error: "nxt b = Inl e \<Longrightarrow> nxt (b @ c) = Inl e"
    and drain_unfold: "drain b = (case nxt b of
          Inl e \<Rightarrow> Inl e
        | Inr None \<Rightarrow> Inr ([], b)
        | Inr (Some (xs, n)) \<Rightarrow>
            bind_result (drain (drop n b)) (\<lambda>(ys, rest). Inr (xs @ ys, rest)))"
begin

lemma drain_append:
  "drain (a @ b) =
     bind_result (drain a) (\<lambda>(xs, rest).
     bind_result (drain (rest @ b)) (\<lambda>(ys, rest'). Inr (xs @ ys, rest')))"
proof (induction a rule: measure_induct_rule [where f = length])
  case (less a)
  consider (err) e where "nxt a = Inl e" | (more) "nxt a = Inr None"
    | (item) xs n where "nxt a = Inr (Some (xs, n))"
    by (metis old.sum.exhaust option.exhaust surj_pair)
  then show ?case
  proof cases
    case err
    then show ?thesis
      by (simp add: drain_unfold [of a] drain_unfold [of "a @ b"] nxt_error)
  next
    case more
    have "drain (a @ b) = bind_result (drain (a @ b)) (\<lambda>(ys, rest'). Inr (ys, rest'))"
      by (cases "drain (a @ b)") auto
    with more show ?thesis by (simp add: drain_unfold [of a])
  next
    case item
    from nxt_progress [OF item] have n: "0 < n" "n \<le> length a" by auto
    then have "length (drop n a) < length a" by simp
    note IH = less.IH [OF this]
    have "drain (a @ b) =
        bind_result (drain (drop n a @ b)) (\<lambda>(ys, rest). Inr (xs @ ys, rest))"
      using n by (simp add: drain_unfold [of "a @ b"] nxt_extend [OF item])
    moreover have "drain a = bind_result (drain (drop n a)) (\<lambda>(ys, rest). Inr (xs @ ys, rest))"
      by (simp add: drain_unfold [of a] item)
    ultimately show ?thesis
      by (cases "drain (drop n a)") (auto simp: IH bind_result_def split: sum.splits)
  qed
qed

lemma drain_rest_stuck: "drain a = Inr (xs, rest) \<Longrightarrow> nxt rest = Inr None"
proof (induction a arbitrary: xs rule: measure_induct_rule [where f = length])
  case (less a)
  consider (err) e where "nxt a = Inl e" | (more) "nxt a = Inr None"
    | (item) ys n where "nxt a = Inr (Some (ys, n))"
    by (metis old.sum.exhaust option.exhaust surj_pair)
  then show ?case
  proof cases
    case err
    with less.prems show ?thesis by (simp add: drain_unfold [of a])
  next
    case more
    with less.prems drain_unfold [of a] show ?thesis by simp
  next
    case item
    from nxt_progress [OF item] have "length (drop n a) < length a" by auto
    moreover from less.prems item obtain zs where "drain (drop n a) = Inr (zs, rest)"
      by (auto simp: drain_unfold [of a] bind_result_Inr_iff)
    ultimately show ?thesis by (rule less.IH)
  qed
qed

lemma drain_all:
  assumes "drain a = Inr (xs, rest)"
    and "\<And>b ys n y. nxt b = Inr (Some (ys, n)) \<Longrightarrow> y \<in> set ys \<Longrightarrow> P y"
    and "x \<in> set xs"
  shows "P x"
  using assms(1,3)
proof (induction a arbitrary: xs rule: measure_induct_rule [where f = length])
  case (less a)
  show ?case
  proof (cases "\<exists>ys n. nxt a = Inr (Some (ys, n))")
    case True
    then obtain ys n where item: "nxt a = Inr (Some (ys, n))" by blast
    from nxt_progress [OF item] have len: "length (drop n a) < length a" by auto
    from less.prems(1) item obtain zs where zs: "drain (drop n a) = Inr (zs, rest)" "xs = ys @ zs"
      by (auto simp: drain_unfold [of a] bind_result_Inr_iff)
    with less.prems(2) assms(2) [OF item] less.IH [OF len zs(1)] show ?thesis by auto
  next
    case False
    with less.prems show ?thesis
      by (auto simp: drain_unfold [of a] split: sum.splits option.splits)
  qed
qed

end

definition drain_frames :: "nat \<Rightarrow> byte list \<Rightarrow> (frame list \<times> byte list) result" where
  "drain_frames m b =
     bind_result (push_loop m b 0 []) (\<lambda>(frames, offset). Inr (frames, drop offset b))"

lemma frame_at_shift:
  "offset \<le> length b \<Longrightarrow> frame_at m b offset = frame_at m (drop offset b) 0"
  by (simp add: frame_at_def Let_def FRAME_HEADER_SIZE_def nth_drop add.commute
                less_diff_conv2 not_less)

lemma frame_at_extend:
  assumes "frame_at m b 0 = Inr (Some (fs, n))"
  shows "frame_at m (b @ c) 0 = Inr (Some (fs, n))"
  using assms
  by (auto simp: frame_at_def Let_def throw_h2_def FRAME_HEADER_SIZE_def nth_append
           split: if_splits)

lemma frame_at_error:
  assumes "frame_at m b 0 = Inl e"
  shows "frame_at m (b @ c) 0 = Inl e"
  using assms
  by (auto simp: frame_at_def Let_def throw_h2_def FRAME_HEADER_SIZE_def nth_append
           split: if_splits)

lemma push_loop_shift:
  "offset \<le> length b \<Longrightarrow>
   push_loop m b offset frames =
     bind_result (push_loop m (drop offset b) 0 []) (\<lambda>(gs, k). Inr (frames @ gs, offset + k))"
proof (induction "length b - offset" arbitrary: b offset frames rule: less_induct)
  case less
  note sh = frame_at_shift [OF less.prems, of m]
  consider (err) e where "frame_at m b offset = Inl e" | (more) "frame_at m b offset = Inr None"
    | (item) fs n where "frame_at m b offset = Inr (Some (fs, n))"
    by (metis old.sum.exhaust option.exhaust surj_pair)
  then show ?case
  proof cases
    case err
    with sh have "frame_at m (drop offset b) 0 = Inl e" by simp
    with err show ?thesis
      by (simp add: push_loop.simps [of m b] push_loop.simps [of m "drop offset b"])
  next
    case more
    with sh have "frame_at m (drop offset b) 0 = Inr None" by simp
    with more show ?thesis
      by (simp add: push_loop.simps [of m b] push_loop.simps [of m "drop offset b"])
  next
    case item
    from frame_at_progress [OF item] have n: "0 < n" "offset + n \<le> length b" by auto
    let ?d = "drop offset b"
    have 1: "push_loop m b (offset + n) (frames @ fs) =
        bind_result (push_loop m (drop (offset + n) b) 0 [])
          (\<lambda>(gs, k). Inr ((frames @ fs) @ gs, offset + n + k))"
      using n less.prems by (intro less.hyps) auto
    have 2: "push_loop m ?d n fs =
        bind_result (push_loop m (drop n ?d) 0 []) (\<lambda>(gs, k). Inr (fs @ gs, n + k))"
      using n by (intro less.hyps) auto
    have "push_loop m b offset frames = push_loop m b (offset + n) (frames @ fs)"
      by (simp add: push_loop.simps [of m b offset] item)
    moreover from sh item have "frame_at m ?d 0 = Inr (Some (fs, n))" by simp
    then have "push_loop m ?d 0 [] = push_loop m ?d n fs"
      by (simp add: push_loop.simps [of m ?d 0])
    ultimately show ?thesis
      unfolding 1 2
      by (cases "push_loop m (drop (offset + n) b) 0 []")
         (auto simp: add.commute add.left_commute)
  qed
qed

interpretation codec: incremental "\<lambda>b. frame_at m b 0" "drain_frames m"
proof unfold_locales
  fix b c :: "byte list" and xs n e
  show "frame_at m b 0 = Inr (Some (xs, n)) \<Longrightarrow> 0 < n \<and> n \<le> length b"
    using frame_at_progress by fastforce
  show "frame_at m b 0 = Inr (Some (xs, n)) \<Longrightarrow> frame_at m (b @ c) 0 = Inr (Some (xs, n))"
    by (rule frame_at_extend)
  show "frame_at m b 0 = Inl e \<Longrightarrow> frame_at m (b @ c) 0 = Inl e"
    by (rule frame_at_error)
next
  fix b :: "byte list"
  have unf: "push_loop m b 0 [] = (case frame_at m b 0 of
        Inl e \<Rightarrow> Inl e | Inr None \<Rightarrow> Inr ([], 0)
      | Inr (Some (fs, n)) \<Rightarrow> push_loop m b n fs)"
    by (simp add: push_loop.simps [of m b 0] split: sum.split option.split prod.split)
  show "drain_frames m b = (case frame_at m b 0 of
          Inl e \<Rightarrow> Inl e
        | Inr None \<Rightarrow> Inr ([], b)
        | Inr (Some (xs, n)) \<Rightarrow>
            bind_result (drain_frames m (drop n b)) (\<lambda>(ys, rest). Inr (xs @ ys, rest)))"
  proof (cases "frame_at m b 0")
    case (Inl e)
    with unf show ?thesis by (simp add: drain_frames_def)
  next
    case (Inr r)
    show ?thesis
    proof (cases r)
      case None
      with Inr unf show ?thesis by (simp add: drain_frames_def)
    next
      case (Some p)
      obtain fs n where p: "p = (fs, n)" by (cases p)
      with Inr Some have "n \<le> length b" using frame_at_progress by fastforce
      from push_loop_shift [OF this, of m fs] Inr Some p unf show ?thesis
        by (cases "push_loop m (drop n b) 0 []")
           (auto simp: drain_frames_def add.commute)
    qed
  qed
qed

lemma push_drain:
  "push d chunk =
     bind_result (drain_frames (fd_maxFrameSize d) (fd_pending d @ chunk))
       (\<lambda>(frames, rest). Inr (frames, d\<lparr>fd_pending := rest\<rparr>))"
  by (cases "push_loop (fd_maxFrameSize d) (fd_pending d @ chunk) 0 []")
     (auto simp: push_def Let_def drain_frames_def concatBytes_concat)

lemma push_maxFrameSize: "push d c = Inr (fs, d') \<Longrightarrow> fd_maxFrameSize d' = fd_maxFrameSize d"
  by (auto simp: push_drain bind_result_Inr_iff)

lemma push_append_chunks:
  "push d (a @ b) =
     bind_result (push d a) (\<lambda>(fs, d').
     bind_result (push d' b) (\<lambda>(gs, d''). Inr (fs @ gs, d'')))"
  using codec.drain_append [of "fd_maxFrameSize d" "fd_pending d @ a" b]
  by (cases "drain_frames (fd_maxFrameSize d) (fd_pending d @ a)")
     (auto simp: push_drain bind_result_def split: sum.splits)

lemma push_all_concat: "push_all d (c # cs) = push d (concat (c # cs))"
proof (induction cs arbitrary: c d)
  case Nil
  then show ?case by (cases "push d c") auto
next
  case (Cons c' cs)
  show ?case
    using push_append_chunks [of d c "concat (c' # cs)"] Cons.IH [of _ c']
    by (cases "push d c") auto
qed

subsection \<open>Round trip\<close>

text \<open>The bytes of a sequence of frames, as the connection's write path puts them on the wire.\<close>

definition wire_bytes :: "frame list \<Rightarrow> byte list" where
  "wire_bytes fs = concat (map (\<lambda>f. the (serializeFrame f)) fs)"

definition priority_ok :: "priority \<Rightarrow> bool" where
  "priority_ok p \<longleftrightarrow> p_streamDependency p < 2 ^ 31 \<and> 1 \<le> p_weight p \<and> p_weight p \<le> 256"

definition setting_ok :: "nat option \<Rightarrow> bool" where
  "setting_ok v \<longleftrightarrow> (case v of None \<Rightarrow> True | Some n \<Rightarrow> n < 2 ^ 32)"

definition settings_ok :: "settings \<Rightarrow> bool" where
  "settings_ok s \<longleftrightarrow>
     setting_ok (s_headerTableSize s) \<and> setting_ok (s_maxConcurrentStreams s) \<and>
     setting_ok (s_initialWindowSize s) \<and> setting_ok (s_maxFrameSize s) \<and>
     setting_ok (s_maxHeaderListSize s)"

text \<open>The field values that the wire format can carry.\<close>

fun fields_ok :: "frame \<Rightarrow> bool" where
  "fields_ok (DataF sid data _ _) \<longleftrightarrow> sid < 2 ^ 31"
| "fields_ok (HeadersF sid frag _ _ prio) \<longleftrightarrow>
     sid < 2 ^ 31 \<and> (case prio of None \<Rightarrow> True | Some p \<Rightarrow> priority_ok p)"
| "fields_ok (PriorityF sid p) \<longleftrightarrow> sid < 2 ^ 31 \<and> priority_ok p"
| "fields_ok (RstStreamF sid errorCode) \<longleftrightarrow> sid < 2 ^ 31 \<and> errorCode < 2 ^ 32"
| "fields_ok (SettingsF ack s) \<longleftrightarrow> settings_ok s \<and> (ack \<longrightarrow> s = empty_settings)"
| "fields_ok (PushPromiseF sid promised frag _) \<longleftrightarrow> sid < 2 ^ 31 \<and> promised < 2 ^ 31"
| "fields_ok (PingF _ opaque) \<longleftrightarrow> length opaque = 8"
| "fields_ok (GoawayF lastStreamId errorCode _) \<longleftrightarrow> lastStreamId < 2 ^ 31 \<and> errorCode < 2 ^ 32"
| "fields_ok (WindowUpdateF sid increment) \<longleftrightarrow> sid < 2 ^ 31 \<and> increment < 2 ^ 31"
| "fields_ok (ContinuationF sid frag _) \<longleftrightarrow> sid < 2 ^ 31"

definition frame_ok :: "nat \<Rightarrow> frame \<Rightarrow> bool" where
  "frame_ok m f \<longleftrightarrow> fields_ok f \<and>
     (case encodeBody f of None \<Rightarrow> False | Some (_, _, _, payload) \<Rightarrow> length payload \<le> m)"

text \<open>Decoding fills in the flow-controlled length of a DATA frame.\<close>

fun decoded :: "frame \<Rightarrow> frame" where
  "decoded (DataF sid data _ endStream) = DataF sid data (Some (length data)) endStream"
| "decoded f = f"

lemma and_mask8_int: "(n :: int) AND 0xFF = n mod 256"
proof -
  have "n AND (2 ^ 8 - 1) = take_bit 8 n"
    by (simp add: take_bit_eq_mask mask_eq_exp_minus_1)
  then show ?thesis by (simp add: take_bit_eq_mod)
qed

lemma or_bit31: "(d :: nat) < 2 ^ 31 \<Longrightarrow> d OR 0x80000000 = d + 2 ^ 31"
  using or_disjoint_add [of d 31 1] by (simp add: or.commute push_bit_eq_mult)

lemma and_bit31: "(d :: nat) AND 0x80000000 = (if odd (d div 2 ^ 31) then 2 ^ 31 else 0)"
proof -
  have "d AND 2 ^ k = (if bit d k then 2 ^ k else 0)" for k
    by (rule bit_eqI) (auto simp: bit_and_iff bit_exp_iff)
  from this [of 31] show ?thesis by (simp add: bit_iff_odd)
qed

lemma emit_priority:
  assumes "priority_ok p"
  shows "concat (map emit (priority_ops p)) =
    be32 (p_streamDependency p + (if p_exclusive p then 2 ^ 31 else 0))
    @ [of_nat (p_weight p - 1)]"
proof -
  have "nat ((int (p_weight p) - 1) mod 256) = p_weight p - 1"
    using assms by (auto simp: priority_ok_def)
  with assms show ?thesis
    by (auto simp: priority_ops_def Let_def priority_ok_def and_mask31 or_bit31 and_mask8_int)
qed

lemma read_priority_emit:
  assumes "priority_ok p" and "unread r = concat (map emit (priority_ops p)) @ rest"
  shows "read_priority r = Inr (p, advance (advance r 4) 1)"
proof -
  let ?d = "p_streamDependency p + (if p_exclusive p then 2 ^ 31 else 0)"
  have "(p_streamDependency p + 2147483648) div 2147483648 = 1"
    using assms(1) div_add_self2 [of 2147483648 "p_streamDependency p"]
    by (simp add: priority_ok_def)
  then have d: "?d < 2 ^ 32" "?d AND 0x7FFFFFFF = p_streamDependency p"
    "(?d AND 0x80000000 \<noteq> 0) = p_exclusive p"
    using assms(1) by (auto simp: priority_ok_def and_mask31 and_bit31)
  have u: "unread r = be32 ?d @ of_nat (p_weight p - 1) # rest"
    using assms by (simp add: emit_priority)
  then have "br_u32 r = Inr (?d, advance r 4)" using d(1) by (rule br_u32_be)
  moreover have "br_u8 (advance r 4) =
      Inr (unat (of_nat (p_weight p - 1) :: byte), advance (advance r 4) 1)"
    using u by (intro br_u8_Cons) simp
  moreover have "unat (of_nat (p_weight p - 1) :: byte) = p_weight p - 1"
    using assms(1) unfolding priority_ok_def unat_of_nat_byte by (intro mod_less) linarith
  ultimately show ?thesis
    using d assms(1) by (simp add: read_priority_def priority_ok_def)
qed

definition settings_kvs :: "settings \<Rightarrow> (nat \<times> nat) list" where
  "settings_kvs s = concat (map (\<lambda>(k, v). case v of None \<Rightarrow> [] | Some n \<Rightarrow> [(k, n)])
     [(1, s_headerTableSize s), (2, map_option (\<lambda>b. if b then 1 else 0) (s_enablePush s)),
      (3, s_maxConcurrentStreams s), (4, s_initialWindowSize s), (5, s_maxFrameSize s),
      (6, s_maxHeaderListSize s)])"

lemma settings_ops_kvs:
  "concat (map emit (settings_ops s)) = concat (map (\<lambda>(k, v). be16 k @ be32 v) (settings_kvs s))"
  by (simp add: settings_ops_def setting_ops_def settings_kvs_def split: option.split)

lemma read_settings_kvs:
  assumes "\<forall>(k, v) \<in> set kvs. k < 2 ^ 16 \<and> v < 2 ^ 32"
    and "unread r = concat (map (\<lambda>(k, v). be16 k @ be32 v) kvs)"
  shows "read_settings (length kvs) r s = Inr (fold (\<lambda>(k, v). set_setting k v) kvs s)"
  using assms
proof (induction kvs arbitrary: r s)
  case Nil
  then show ?case by simp
next
  case (Cons kv kvs)
  obtain k v where kv: "kv = (k, v)" by (cases kv)
  let ?rest = "concat (map (\<lambda>(k, v). be16 k @ be32 v) kvs)"
  from Cons.prems kv have u: "unread r = be16 k @ be32 v @ ?rest" and b: "k < 2 ^ 16" "v < 2 ^ 32"
    by auto
  from u have "br_u16 r = Inr (k, advance r 2)" using b(1) by (rule br_u16_be)
  moreover have "unread (advance r 2) = be32 v @ ?rest" using u by simp
  then have "br_u32 (advance r 2) = Inr (v, advance (advance r 2) 4)" using b(2) by (rule br_u32_be)
  moreover have "unread (advance (advance r 2) 4) = ?rest" using u by simp
  then have "read_settings (length kvs) (advance (advance r 2) 4) (set_setting k v s) =
      Inr (fold (\<lambda>(k, v). set_setting k v) kvs (set_setting k v s))"
    using Cons.prems(1) by (intro Cons.IH) auto
  ultimately show ?case by (simp add: kv)
qed

lemma fold_settings_kvs: "fold (\<lambda>(k, v). set_setting k v) (settings_kvs s) empty_settings = s"
  by (cases s) (simp add: settings_kvs_def set_setting_def empty_settings_def split: option.split)

lemma settings_kvs_ok:
  "settings_ok s \<Longrightarrow> \<forall>(k, v) \<in> set (settings_kvs s). k < 2 ^ 16 \<and> v < 2 ^ 32"
  by (auto simp: settings_kvs_def settings_ok_def setting_ok_def split: option.splits)

lemma length_settings_payload:
  "length (concat (map (\<lambda>(k, v). be16 k @ be32 v) kvs)) = 6 * length kvs"
  by (induction kvs) auto

lemma parse_settings_emit:
  assumes "settings_ok s" and "ack \<longrightarrow> s = empty_settings"
  shows "parse_settings (if ack then F_ACK else 0) (concat (map emit (settings_ops s)))
         = Inr (SettingsF ack s)"
proof -
  let ?payload = "concat (map (\<lambda>(k, v). be16 k @ be32 v) (settings_kvs s))"
  have "read_settings (length (settings_kvs s)) (new_ByteReader ?payload) empty_settings = Inr s"
    using settings_kvs_ok [OF assms(1)] by (subst read_settings_kvs) (auto simp: fold_settings_kvs)
  moreover have "ack \<Longrightarrow> settings_kvs s = []"
    using assms(2) by (simp add: settings_kvs_def empty_settings_def)
  ultimately show ?thesis
    by (auto simp: parse_settings_def settings_ops_kvs length_settings_payload)
qed

lemma written_caps [simp]:
  "written (5 + n) ops = Some (concat (map emit ops))"
  "written (4 + n) ops = Some (concat (map emit ops))"
  "written (8 + n) ops = Some (concat (map emit ops))"
  "written (numeral k) ops = Some (concat (map emit ops))"
  by (simp_all add: written_emit)

lemma parse_headers_emit:
  assumes "case prio of None \<Rightarrow> True | Some p \<Rightarrow> priority_ok p"
    and "encodeBody (HeadersF sid frag endStream endHeaders prio) = Some (t, flags, sid', payload)"
  shows "parse_headers flags sid payload = Inr (HeadersF sid frag endStream endHeaders prio)"
proof (cases prio)
  case None
  with assms(2) have "payload = frag" "flags AND F_PADDED = 0" "flags AND F_PRIORITY = 0"
    "(flags AND F_END_STREAM \<noteq> 0) = endStream" "(flags AND F_END_HEADERS \<noteq> 0) = endHeaders"
    by (auto simp: Let_def split: if_splits)
  with None show ?thesis by (simp add: parse_headers_def Let_def br_bytes_unread)
next
  case (Some p)
  with assms have p: "priority_ok p" by simp
  from assms(2) Some have payload: "payload = concat (map emit (priority_ops p)) @ frag"
    and fl: "flags AND F_PADDED = 0" "flags AND F_PRIORITY \<noteq> 0"
    "(flags AND F_END_STREAM \<noteq> 0) = endStream" "(flags AND F_END_HEADERS \<noteq> 0) = endHeaders"
    by (auto simp: Let_def split: if_splits)
  have len5: "length (concat (map emit (priority_ops p))) = 5"
    using p by (simp add: emit_priority)
  have "read_priority (new_ByteReader payload) =
        Inr (p, advance (advance (new_ByteReader payload) 4) 1)"
    using p by (rule read_priority_emit) (simp add: payload)
  moreover have "drop 5 payload = frag" "length payload = 5 + length frag"
    using len5 by (auto simp: payload simp del: length_concat)
  ultimately show ?thesis
    using fl Some by (auto simp: parse_headers_def Let_def br_bytes_unread)
qed

lemma encodeBody_parse:
  assumes "fields_ok f" and "encodeBody f = Some (t, flags, sid, payload)"
  shows "parsePayload t flags sid payload = Inr (decoded f)"
proof (cases f)
  case (HeadersF sid' frag endStream endHeaders prio)
  with assms(2) have "t = T_HEADERS" "sid = sid'"
    by (auto simp: Let_def split: if_splits option.splits)
  with assms HeadersF show ?thesis
    by (simp add: parsePayload_def parse_headers_emit [OF _ assms(2) [unfolded HeadersF]])
next
  case (PriorityF sid' p)
  with assms have p: "priority_ok p" and e: "t = T_PRIORITY" "sid = sid'"
    "payload = concat (map emit (priority_ops p))" by auto
  have "read_priority (new_ByteReader payload) =
        Inr (p, advance (advance (new_ByteReader payload) 4) 1)"
    using p by (rule read_priority_emit) (simp add: e)
  moreover have "length payload = 5" using p e by (simp add: emit_priority)
  ultimately show ?thesis using e PriorityF by (simp add: parsePayload_def parse_priority_def)
next
  case (SettingsF ack s)
  with assms parse_settings_emit [of s ack] show ?thesis
    by (auto simp: parsePayload_def)
next
  case (GoawayF lastStreamId errorCode debugData)
  with assms have e: "t = T_GOAWAY" "payload = be32 lastStreamId @ be32 errorCode @ debugData"
    and b: "lastStreamId < 2 ^ 31" "errorCode < 2 ^ 32" by (auto simp: and_mask31)
  have "br_u32 (new_ByteReader payload) = Inr (lastStreamId, advance (new_ByteReader payload) 4)"
    using b by (intro br_u32_be) (auto simp: e)
  moreover have "br_u32 (advance (new_ByteReader payload) 4) =
      Inr (errorCode, advance (advance (new_ByteReader payload) 4) 4)"
    using b by (intro br_u32_be) (auto simp: e)
  ultimately show ?thesis using e b GoawayF
    by (simp add: parsePayload_def parse_goaway_def br_bytes_unread and_mask31)
next
  case (PushPromiseF sid' promised frag endHeaders)
  with assms have e: "t = T_PUSH_PROMISE" "sid = sid'" "payload = be32 promised @ frag"
    "flags = (if endHeaders then F_END_HEADERS else 0)"
    and b: "promised < 2 ^ 31" by (auto simp: and_mask31)
  have "br_u32 (new_ByteReader payload) = Inr (promised, advance (new_ByteReader payload) 4)"
    using b by (intro br_u32_be) (auto simp: e)
  then show ?thesis using e b PushPromiseF
    by (simp add: parsePayload_def parse_push_promise_def Let_def br_bytes_unread and_mask31)
next
  case (RstStreamF sid' errorCode)
  with assms show ?thesis
    by (auto simp: parsePayload_def parse_rst_stream_def br_u32_be [of _ _ "[]"])
next
  case (WindowUpdateF sid' increment)
  with assms show ?thesis
    by (auto simp: parsePayload_def parse_window_update_def and_mask31 br_u32_be [of _ _ "[]"])
qed (use assms in \<open>auto simp: parsePayload_def parse_data_def readPadded_def br_bytes_unread
        parse_ping_def parse_continuation_def split: if_splits\<close>)

lemma encodeBody_header:
  assumes "fields_ok f" and "encodeBody f = Some (t, flags, sid, payload)"
  shows "t < 256 \<and> flags < 256 \<and> sid < 2 ^ 31"
  using assms by (cases f) (auto simp: Let_def split: if_splits option.splits)

lemma encodeBody_total: "\<exists>t flags sid payload. encodeBody f = Some (t, flags, sid, payload)"
  by (cases f) (auto simp: Let_def split: option.split)

lemma serializeFrame_bytes:
  assumes "encodeBody f = Some (t, flags, sid, payload)"
  shows "serializeFrame f =
    Some (be24 (length payload) @ [of_nat t, of_nat flags] @ be32 (sid AND 0x7FFFFFFF) @ payload)"
  using assms by (simp add: serializeFrame_def concatBytes_concat FRAME_HEADER_SIZE_def)

lemma frame_at_serialized:
  assumes "frame_ok m f" and "m < 2 ^ 24" and "serializeFrame f = Some bytes"
  shows "frame_at m (bytes @ rest) 0 = Inr (Some ([decoded f], length bytes))"
proof -
  obtain t flags sid payload where e: "encodeBody f = Some (t, flags, sid, payload)"
    using encodeBody_total by blast
  from assms(1) e have ok: "fields_ok f" "length payload \<le> m" by (auto simp: frame_ok_def)
  from encodeBody_header [OF ok(1) e] have h: "t < 256" "flags < 256" "sid < 2 ^ 31" by auto
  obtain l0 l1 l2 where l: "be24 (length payload) = [l0, l1, l2]" by (simp add: be24_def)
  obtain s0 s1 s2 s3 where s: "be32 sid = [s0, s1, s2, s3]" by (simp add: be32_def)
  have bytes: "bytes = [l0, l1, l2, of_nat t, of_nat flags, s0, s1, s2, s3] @ payload"
    using assms(3) h(3) by (simp add: serializeFrame_bytes [OF e] l s and_mask31)
  have "be_value (be24 (length payload)) = length payload" using ok(2) assms(2) by simp
  then have len: "push_bit 16 (unat l0) OR (push_bit 8 (unat l1) OR unat l2) = length payload"
    by (simp add: or_field16 l be_value_def)
  have "be_value (be32 sid) = sid" using h(3) by simp
  then have sid: "push_bit 24 (unat s0) OR (push_bit 16 (unat s1) OR
      (push_bit 8 (unat s2) OR unat s3)) = sid"
    by (simp add: or_field24 s be_value_def)
  have "parsePayload t flags sid payload = Inr (decoded f)"
    by (rule encodeBody_parse [OF ok(1) e])
  then show ?thesis
    using ok(2) h
    by (simp add: frame_at_def Let_def FRAME_HEADER_SIZE_def bytes len sid
                  and_mask31 unat_of_nat_byte)
qed

lemma drain_serialized:
  assumes "m < 2 ^ 24" and "\<forall>f \<in> set fs. frame_ok m f"
  shows "drain_frames m (wire_bytes fs) = Inr (map decoded fs, [])"
  using assms(2)
proof (induction fs)
  case Nil
  then show ?case
    by (subst codec.drain_unfold) (simp add: frame_at_def FRAME_HEADER_SIZE_def wire_bytes_def)
next
  case (Cons f fs)
  obtain bytes where b: "serializeFrame f = Some bytes"
    using encodeBody_total [of f] serializeFrame_bytes by blast
  from Cons.prems have "frame_ok m f" by simp
  from frame_at_serialized [OF this assms(1) b] Cons b show ?case
    by (subst codec.drain_unfold) (simp add: wire_bytes_def)
qed

subsection \<open>What the decoder accepts\<close>

text \<open>The ranges of the fields of a decoded frame.\<close>

fun frame_ranges :: "nat \<Rightarrow> frame \<Rightarrow> bool" where
  "frame_ranges m (DataF sid data flow _) \<longleftrightarrow>
     sid < 2 ^ 31 \<and> (case flow of None \<Rightarrow> False | Some n \<Rightarrow> length data \<le> n \<and> n \<le> m)"
| "frame_ranges m (HeadersF sid frag _ _ prio) \<longleftrightarrow>
     sid < 2 ^ 31 \<and> length frag \<le> m \<and> (case prio of None \<Rightarrow> True | Some p \<Rightarrow> priority_ok p)"
| "frame_ranges m (PriorityF sid p) \<longleftrightarrow> sid < 2 ^ 31 \<and> priority_ok p"
| "frame_ranges m (RstStreamF sid errorCode) \<longleftrightarrow> sid < 2 ^ 31 \<and> errorCode < 2 ^ 32"
| "frame_ranges m (SettingsF ack s) \<longleftrightarrow> settings_ok s \<and> (ack \<longrightarrow> s = empty_settings)"
| "frame_ranges m (PushPromiseF sid promised frag _) \<longleftrightarrow>
     sid < 2 ^ 31 \<and> promised < 2 ^ 31 \<and> length frag \<le> m"
| "frame_ranges m (PingF _ opaque) \<longleftrightarrow> length opaque = 8"
| "frame_ranges m (GoawayF lastStreamId errorCode debugData) \<longleftrightarrow>
     lastStreamId < 2 ^ 31 \<and> errorCode < 2 ^ 32 \<and> length debugData \<le> m"
| "frame_ranges m (WindowUpdateF sid increment) \<longleftrightarrow> sid < 2 ^ 31 \<and> increment < 2 ^ 31"
| "frame_ranges m (ContinuationF sid frag _) \<longleftrightarrow> sid < 2 ^ 31 \<and> length frag \<le> m"

lemma br_u32_range: "br_u32 r = Inr (v, r') \<Longrightarrow> v < 2 ^ 32 \<and> r' = advance r 4"
proof -
  assume a: "br_u32 r = Inr (v, r')"
  then have "4 \<le> length (unread r)"
    by (auto simp: br_u32_def bind_result_Inr_iff br_get_pos split: if_splits)
  with a br_u32_value have "v = be_value (take 4 (unread r))" "r' = advance r 4" by auto
  with be_value_less [of "take 4 (unread r)"] \<open>4 \<le> length (unread r)\<close> show ?thesis by simp
qed

lemma br_u8_range: "br_u8 r = Inr (v, r') \<Longrightarrow> v < 256 \<and> r' = advance r 1"
  by (auto simp: br_u8_def bind_result_Inr_iff)

lemma read_priority_range: "read_priority r = Inr (p, r') \<Longrightarrow> priority_ok p"
  by (auto simp: read_priority_def bind_result_Inr_iff priority_ok_def and_mask31
           dest!: br_u8_range)

lemma read_settings_range:
  "read_settings n r s = Inr s' \<Longrightarrow> settings_ok s \<Longrightarrow> settings_ok s'"
proof (induction n r s rule: read_settings.induct)
  case (2 n r s)
  then obtain k r1 v r2 where
    a: "br_u16 r = Inr (k, r1)" "br_u32 r1 = Inr (v, r2)"
       "read_settings n r2 (set_setting k v s) = Inr s'"
    by (auto simp: bind_result_Inr_iff)
  from br_u32_range [OF a(2)] "2.prems"(2) have "settings_ok (set_setting k v s)"
    by (simp add: settings_ok_def set_setting_def setting_ok_def)
  with "2.IH" a show ?case by fastforce
qed simp

lemma settings_ok_empty: "settings_ok empty_settings"
  by (simp add: settings_ok_def setting_ok_def empty_settings_def)

lemma parsePayload_ranges:
  assumes "parsePayload t flags sid payload = Inr f" and "sid < 2 ^ 31" and "length payload \<le> m"
  shows "frame_ranges m f"
proof -
  have "t \<in> {0, 1, 2, 3, 4, 5, 6, 7, 8, 9}"
    using assms(1) by (auto simp: parsePayload_def split: if_splits)
  then consider "t = 0" | "t = 1" | "t = 2" | "t = 3" | "t = 4" | "t = 5" | "t = 6" | "t = 7"
    | "t = 8" | "t = 9" by blast
  then show ?thesis
  proof cases
    case 1
    with assms show ?thesis
      by (auto simp: parsePayload_def parse_data_def readPadded_def bind_result_Inr_iff throw_h2_def
            br_bytes_unread Let_def split: if_splits)
  next
    case 2
    with assms show ?thesis
      by (auto simp: parsePayload_def parse_headers_def bind_result_Inr_iff throw_h2_def
            br_bytes_unread Let_def split: if_splits option.splits dest: read_priority_range)
  next
    case 3
    with assms show ?thesis
      by (auto simp: parsePayload_def parse_priority_def bind_result_Inr_iff throw_h2_stream_def
            split: if_splits dest: read_priority_range)
  next
    case 4
    with assms show ?thesis
      by (auto simp: parsePayload_def parse_rst_stream_def bind_result_Inr_iff throw_h2_def
            split: if_splits dest!: br_u32_range)
  next
    case 5
    have "read_settings 0 r empty_settings = Inr s' \<Longrightarrow> s' = empty_settings" for r s' by simp
    with 5 assms show ?thesis
      by (auto simp: parsePayload_def parse_settings_def bind_result_Inr_iff throw_h2_def Let_def
            settings_ok_empty split: if_splits dest: read_settings_range [OF _ settings_ok_empty])
  next
    case 6
    with assms show ?thesis
      by (auto simp: parsePayload_def parse_push_promise_def bind_result_Inr_iff throw_h2_def
            br_bytes_unread Let_def and_mask31 split: if_splits)
  next
    case 7
    with assms show ?thesis
      by (auto simp: parsePayload_def parse_ping_def throw_h2_def br_bytes_unread split: if_splits)
  next
    case 8
    with assms show ?thesis
      by (auto simp: parsePayload_def parse_goaway_def bind_result_Inr_iff throw_h2_def
            br_bytes_unread and_mask31 split: if_splits dest!: br_u32_range)
  next
    case 9
    with assms show ?thesis
      by (auto simp: parsePayload_def parse_window_update_def bind_result_Inr_iff throw_h2_def
            and_mask31 split: if_splits)
  next
    case 10
    with assms show ?thesis
      by (auto simp: parsePayload_def parse_continuation_def br_bytes_unread)
  qed
qed

lemma frame_at_ranges:
  assumes "frame_at m b 0 = Inr (Some (fs, n))" and "f \<in> set fs"
  shows "frame_ranges m f"
  using assms
  by (auto simp: frame_at_def Let_def throw_h2_def FRAME_HEADER_SIZE_def and_mask31
           split: if_splits sum.splits exn.splits intro!: parsePayload_ranges)

lemma push_ranges:
  assumes "push d c = Inr (fs, d')" and "f \<in> set fs"
  shows "frame_ranges (fd_maxFrameSize d) f"
proof -
  from assms(1) obtain rest where
    "drain_frames (fd_maxFrameSize d) (fd_pending d @ c) = Inr (fs, rest)"
    by (auto simp: push_drain bind_result_Inr_iff)
  then show ?thesis using frame_at_ranges assms(2) by (rule codec.drain_all)
qed

lemma frame_at_None_length: "frame_at m b 0 = Inr None \<Longrightarrow> length b < FRAME_HEADER_SIZE + m"
  by (auto simp: frame_at_def Let_def throw_h2_def split: if_splits sum.splits exn.splits)

subsection \<open>Properties\<close>

text \<open>The decoder does not depend on how the transport cuts the byte stream: feeding a
  non-empty sequence of chunks gives the same frames, the same buffered remainder or the same
  error as feeding their concatenation at once.\<close>

theorem decoder_chunk_independence: "push_all d (c # cs) = push d (concat (c # cs))"
  by (rule push_all_concat)

text \<open>C8: Every sequence of frames whose fields fit the wire format and whose payloads fit the
  decoder's maximum size survives serialization: however the serialized bytes are chunked, a
  fresh decoder returns exactly those frames (with the flow-controlled length of DATA filled
  in) and buffers nothing.\<close>

theorem frames_roundtrip:
  assumes "m < 2 ^ 24" and "\<forall>f \<in> set fs. frame_ok m f" and "concat chunks = wire_bytes fs"
  shows "push_all (new_FrameDecoder m) chunks = Inr (map decoded fs, new_FrameDecoder m)"
proof (cases chunks)
  case Nil
  with assms(3) have "wire_bytes fs = []" by simp
  with drain_serialized [OF assms(1,2)] have "map decoded fs = []"
    by (subst (asm) codec.drain_unfold) (simp add: frame_at_def FRAME_HEADER_SIZE_def)
  with Nil show ?thesis by simp
next
  case (Cons c cs)
  then have "push_all (new_FrameDecoder m) chunks = push (new_FrameDecoder m) (wire_bytes fs)"
    using push_all_concat [of _ c cs] assms(3) by metis
  with drain_serialized [OF assms(1,2)] show ?thesis
    by (simp add: push_drain new_FrameDecoder_def)
qed

theorem frames_roundtrip_witness:
  "push_all (new_FrameDecoder 16384)
     (map (\<lambda>b. [b]) (wire_bytes [PingF False [1, 2, 3, 4, 5, 6, 7, 8], DataF 3 [9, 10] None True]))
   = Inr ([PingF False [1, 2, 3, 4, 5, 6, 7, 8], DataF 3 [9, 10] (Some 2) True],
          new_FrameDecoder 16384)"
  using frames_roundtrip [of 16384 "[PingF False [1, 2, 3, 4, 5, 6, 7, 8], DataF 3 [9, 10] None True]"
      "map (\<lambda>b. [b]) (wire_bytes [PingF False [1, 2, 3, 4, 5, 6, 7, 8], DataF 3 [9, 10] None True])"]
  by (simp add: frame_ok_def)

text \<open>Every frame the decoder returns has fields in the ranges of the wire format: stream
  identifiers and window increments below \<open>2 ^ 31\<close>, error codes and setting values below
  \<open>2 ^ 32\<close>, no payload above the maximum frame size, and a DATA frame carries a
  flow-controlled length that covers its data; and the decoder never buffers a whole
  maximum-size frame.\<close>

theorem decoder_output_ranges:
  assumes "push d chunk = Inr (fs, d')"
  shows "list_all (frame_ranges (fd_maxFrameSize d)) fs \<and>
         length (fd_pending d') < FRAME_HEADER_SIZE + fd_maxFrameSize d"
proof
  show "list_all (frame_ranges (fd_maxFrameSize d)) fs"
    using push_ranges [OF assms] by (simp add: list_all_iff)
  show "length (fd_pending d') < FRAME_HEADER_SIZE + fd_maxFrameSize d"
    using assms codec.drain_rest_stuck [THEN frame_at_None_length, of "fd_maxFrameSize d"]
    by (auto simp: push_drain bind_result_Inr_iff)
qed

theorem decoder_output_ranges_witness:
  "list_all (frame_ranges 16384) [WindowUpdateF 1 5, DataF 1 [7] (Some 1) False] \<and>
   length ([] :: byte list) < FRAME_HEADER_SIZE + 16384"
proof -
  have "push (new_FrameDecoder 16384) (wire_bytes [WindowUpdateF 1 5, DataF 1 [7] None False]) =
        Inr ([WindowUpdateF 1 5, DataF 1 [7] (Some 1) False], new_FrameDecoder 16384)"
    using drain_serialized [of 16384 "[WindowUpdateF 1 5, DataF 1 [7] None False]"]
    by (simp add: push_drain new_FrameDecoder_def frame_ok_def)
  from decoder_output_ranges [OF this] show ?thesis by (simp add: new_FrameDecoder_def)
qed

end
