(* ===== verification/Flow.thy ===== *)
theory Flow
  imports Prelude "HOL-Library.Multiset"
begin

text \<open>
  \<^verbatim>\<open>web/src/h2/flow.ts\<close>: \<^verbatim>\<open>SendWindow\<close>, one send-side flow-control window. A waiter is the
  \<^verbatim>\<open>resolve\<close> function of a parked promise, identified by a number; an operation that can wake
  returns the waiters it resolves, in order. The window is an \<open>int\<close>: it goes negative when the peer
  lowers its initial window size.
\<close>

record send_window =
  sw_available :: int
  sw_waiters :: "nat list"
  sw_closed :: bool

definition new_SendWindow :: "int \<Rightarrow> send_window" where
  "new_SendWindow initial = \<lparr>sw_available = initial, sw_waiters = [], sw_closed = False\<rparr>"

definition sw_wake :: "send_window \<Rightarrow> send_window \<times> nat list" where
  "sw_wake w = (w\<lparr>sw_waiters := []\<rparr>, sw_waiters w)"

definition sw_update :: "send_window \<Rightarrow> int \<Rightarrow> send_window \<times> nat list" where
  "sw_update w increment =
     (let w1 = w\<lparr>sw_available := sw_available w + increment\<rparr> in
      if sw_available w1 > 0 then sw_wake w1 else (w1, []))"

definition sw_adjust :: "send_window \<Rightarrow> int \<Rightarrow> send_window \<times> nat list" where
  "sw_adjust w delta =
     (let w1 = w\<lparr>sw_available := sw_available w + delta\<rparr> in
      if sw_available w1 > 0 then sw_wake w1 else (w1, []))"

definition sw_consume :: "send_window \<Rightarrow> int \<Rightarrow> send_window" where
  "sw_consume w n = w\<lparr>sw_available := sw_available w - n\<rparr>"

text \<open>\<^verbatim>\<open>waitPositive\<close>: an already resolved promise (the waiter is returned) or a parked one.\<close>

definition sw_waitPositive :: "send_window \<Rightarrow> nat \<Rightarrow> send_window \<times> nat list" where
  "sw_waitPositive w k =
     (if sw_available w > 0 \<or> sw_closed w then (w, [k])
      else (w\<lparr>sw_waiters := sw_waiters w @ [k]\<rparr>, []))"

definition sw_close :: "send_window \<Rightarrow> send_window \<times> nat list" where
  "sw_close w = sw_wake (w\<lparr>sw_closed := True\<rparr>)"

subsection \<open>Sequences of operations\<close>

datatype window_op = Update int | Adjust int | Consume int | Wait nat | CloseWindow

fun window_step :: "send_window \<Rightarrow> window_op \<Rightarrow> send_window \<times> nat list" where
  "window_step w (Update n) = sw_update w n"
| "window_step w (Adjust n) = sw_adjust w n"
| "window_step w (Consume n) = (sw_consume w n, [])"
| "window_step w (Wait k) = sw_waitPositive w k"
| "window_step w CloseWindow = sw_close w"

text \<open>The window after the operations, and all waiters resolved on the way.\<close>

fun window_run :: "send_window \<Rightarrow> window_op list \<Rightarrow> send_window \<times> nat list" where
  "window_run w [] = (w, [])"
| "window_run w (p # ps) =
     (case window_step w p of (w1, a) \<Rightarrow> case window_run w1 ps of (w2, b) \<Rightarrow> (w2, a @ b))"

fun credit :: "window_op \<Rightarrow> int" where
  "credit (Update n) = n" | "credit (Adjust n) = n" | "credit (Consume n) = - n"
| "credit (Wait k) = 0" | "credit CloseWindow = 0"

fun waits :: "window_op \<Rightarrow> nat list" where
  "waits (Wait k) = [k]" | "waits _ = []"

definition window_ok :: "send_window \<Rightarrow> bool" where
  "window_ok w \<longleftrightarrow> sw_waiters w = [] \<or> (sw_available w \<le> 0 \<and> \<not> sw_closed w)"

lemmas window_defs = sw_update_def sw_adjust_def sw_consume_def sw_waitPositive_def sw_close_def
  sw_wake_def

lemma window_step_credit: "window_step w p = (w', a) \<Longrightarrow> sw_available w' = sw_available w + credit p"
  by (cases p) (auto simp: window_defs Let_def split: if_splits)

lemma window_step_waiters:
  "window_step w p = (w', a) \<Longrightarrow> mset a + mset (sw_waiters w') = mset (sw_waiters w) + mset (waits p)"
  by (cases p) (auto simp: window_defs Let_def split: if_splits)

lemma window_step_ok:
  "window_step w p = (w', a) \<Longrightarrow> window_ok w \<Longrightarrow> (\<forall>n. p = Consume n \<longrightarrow> 0 \<le> n) \<Longrightarrow> window_ok w'"
  by (cases p) (auto simp: window_ok_def window_defs Let_def split: if_splits)

lemma window_run_credit: "window_run w ps = (w', a) \<Longrightarrow> sw_available w' = sw_available w + sum_list (map credit ps)"
  by (induction ps arbitrary: w w' a) (auto split: prod.splits dest!: window_step_credit)

lemma window_run_waiters:
  "window_run w ps = (w', a) \<Longrightarrow>
   mset a + mset (sw_waiters w') = mset (sw_waiters w) + mset (concat (map waits ps))"
proof (induction ps arbitrary: w w' a)
  case (Cons p ps)
  obtain w1 a1 where s: "window_step w p = (w1, a1)" by fastforce
  obtain w2 a2 where r: "window_run w1 ps = (w2, a2)" by fastforce
  from Cons.prems s r have "w' = w2" "a = a1 @ a2" by simp_all
  with Cons.IH [OF r] window_step_waiters [OF s] show ?case
    by (simp add: union_assoc [symmetric]) (simp add: ac_simps)
qed simp

lemma window_run_ok:
  "window_run w ps = (w', a) \<Longrightarrow> window_ok w \<Longrightarrow> list_all (\<lambda>p. \<forall>n. p = Consume n \<longrightarrow> 0 \<le> n) ps \<Longrightarrow>
   window_ok w'"
  by (induction ps arbitrary: w w' a) (auto split: prod.splits dest: window_step_ok)

subsection \<open>Properties\<close>

text \<open>C18: A send window never loses a wake-up: after any sequence of grants, settings adjustments,
  consumptions, waits and a close, the credit is exactly the initial credit plus grants minus
  consumption; every waiter has been resolved exactly once or is still parked; and a waiter is
  parked only while the window is open and has no credit.\<close>

theorem send_window_no_lost_wakeup:
  assumes "window_run (new_SendWindow n) ps = (w, resolved)"
    and "list_all (\<lambda>p. \<forall>n. p = Consume n \<longrightarrow> 0 \<le> n) ps"
  shows "sw_available w = n + sum_list (map credit ps) \<and>
     mset resolved + mset (sw_waiters w) = mset (concat (map waits ps)) \<and>
     (sw_waiters w = [] \<or> sw_available w \<le> 0 \<and> \<not> sw_closed w)"
proof -
  have "window_ok (new_SendWindow n)" by (simp add: window_ok_def new_SendWindow_def)
  from window_run_ok [OF assms(1) this assms(2)] window_run_credit [OF assms(1)]
    window_run_waiters [OF assms(1)]
  show ?thesis by (simp add: window_ok_def new_SendWindow_def)
qed

theorem send_window_no_lost_wakeup_witness:
  "let ps = [Consume 10, Wait 1, Adjust (- 5), Wait 2, Update 3, Update 7, Wait 3, CloseWindow];
       w = fst (window_run (new_SendWindow 10) ps); res = snd (window_run (new_SendWindow 10) ps)
   in sw_available w = 10 + sum_list (map credit ps) \<and>
      mset res + mset (sw_waiters w) = mset (concat (map waits ps)) \<and>
      (sw_waiters w = [] \<or> sw_available w \<le> 0 \<and> \<not> sw_closed w)"
  unfolding Let_def by (rule send_window_no_lost_wakeup [OF prod.collapse [symmetric]]) simp

end
