(* ===== verification/Utf8.thy ===== *)
theory Utf8
  imports Bytes
begin

text \<open>
  The platform's \<^verbatim>\<open>TextEncoder\<close> and \<^verbatim>\<open>TextDecoder("utf-8", { fatal: false })\<close> as
  \<^verbatim>\<open>web/src/h2/bytes.ts\<close> uses them, and \<^verbatim>\<open>utf8Length\<close> of \<^verbatim>\<open>hpack.ts\<close>.

  A JavaScript string is a list of UTF-16 code units. Encoding first pairs surrogates
  (a lone surrogate becomes U+FFFD) and then emits one to four bytes per code point.
  Decoding is the WHATWG state machine: a malformed sequence yields U+FFFD and the
  offending byte is looked at again; a leading byte order mark is removed.
\<close>

subsection \<open>Encoding\<close>

definition is_high :: "codeunit \<Rightarrow> bool" where
  "is_high u \<longleftrightarrow> 0xD800 \<le> unat u \<and> unat u \<le> 0xDBFF"

definition is_low :: "codeunit \<Rightarrow> bool" where
  "is_low u \<longleftrightarrow> 0xDC00 \<le> unat u \<and> unat u \<le> 0xDFFF"

fun code_points :: "jsstring \<Rightarrow> nat list" where
  "code_points [] = []"
| "code_points (u # us) =
     (if is_high u then
        (case us of
           v # vs \<Rightarrow>
             if is_low v then (0x10000 + (unat u - 0xD800) * 0x400 + (unat v - 0xDC00)) # code_points vs
             else 0xFFFD # code_points us
         | [] \<Rightarrow> [0xFFFD])
      else if is_low u then 0xFFFD # code_points us
      else unat u # code_points us)"

definition utf8_cp :: "nat \<Rightarrow> byte list" where
  "utf8_cp c =
     (if c < 0x80 then [of_nat c]
      else if c < 0x800 then [of_nat (0xC0 + c div 64), of_nat (0x80 + c mod 64)]
      else if c < 0x10000 then
        [of_nat (0xE0 + c div 4096), of_nat (0x80 + c div 64 mod 64), of_nat (0x80 + c mod 64)]
      else
        [of_nat (0xF0 + c div 262144), of_nat (0x80 + c div 4096 mod 64),
         of_nat (0x80 + c div 64 mod 64), of_nat (0x80 + c mod 64)])"

definition encodeUtf8 :: "jsstring \<Rightarrow> byte list" where
  "encodeUtf8 s = concat (map utf8_cp (code_points s))"

subsection \<open>Decoding\<close>

text \<open>
  \<open>utf8_dec needed cp lower upper bytes\<close>: the decoder with \<open>needed\<close> continuation bytes to come,
  each in the range \<open>lower..upper\<close> (only the first range is ever narrower than 80..BF).
\<close>

function utf8_dec :: "nat \<Rightarrow> nat \<Rightarrow> nat \<Rightarrow> nat \<Rightarrow> byte list \<Rightarrow> nat list" where
  "utf8_dec needed cp lower upper [] = (if needed = 0 then [] else [0xFFFD])"
| "utf8_dec needed cp lower upper (b # bs) =
     (if needed = 0 then
        (if unat b < 0x80 then unat b # utf8_dec 0 0 0x80 0xBF bs
         else if 0xC2 \<le> unat b \<and> unat b \<le> 0xDF then utf8_dec 1 (unat b - 0xC0) 0x80 0xBF bs
         else if 0xE0 \<le> unat b \<and> unat b \<le> 0xEF then
           utf8_dec 2 (unat b - 0xE0) (if unat b = 0xE0 then 0xA0 else 0x80)
             (if unat b = 0xED then 0x9F else 0xBF) bs
         else if 0xF0 \<le> unat b \<and> unat b \<le> 0xF4 then
           utf8_dec 3 (unat b - 0xF0) (if unat b = 0xF0 then 0x90 else 0x80)
             (if unat b = 0xF4 then 0x8F else 0xBF) bs
         else 0xFFFD # utf8_dec 0 0 0x80 0xBF bs)
      else if unat b < lower \<or> upper < unat b then
        0xFFFD # utf8_dec 0 0 0x80 0xBF (b # bs)
      else if needed = 1 then (cp * 64 + unat b mod 64) # utf8_dec 0 0 0x80 0xBF bs
      else utf8_dec (needed - 1) (cp * 64 + unat b mod 64) 0x80 0xBF bs)"
  by pat_completeness auto
termination
  by (relation "measures [\<lambda>(needed, cp, lower, upper, bs). length bs,
                          \<lambda>(needed, cp, lower, upper, bs). needed]") auto

definition utf16_cp :: "nat \<Rightarrow> jsstring" where
  "utf16_cp c =
     (if c < 0x10000 then [of_nat c]
      else [of_nat (0xD800 + (c - 0x10000) div 0x400), of_nat (0xDC00 + (c - 0x10000) mod 0x400)])"

definition strip_bom :: "byte list \<Rightarrow> byte list" where
  "strip_bom bs = (if take 3 bs = [0xEF, 0xBB, 0xBF] then drop 3 bs else bs)"

definition decodeUtf8 :: "byte list \<Rightarrow> jsstring" where
  "decodeUtf8 bs = concat (map utf16_cp (utf8_dec 0 0 0x80 0xBF (strip_bom bs)))"

subsection \<open>utf8Length\<close>

text \<open>The loop of \<^verbatim>\<open>utf8Length\<close>, over the code units still to be visited.\<close>

fun utf8Length :: "jsstring \<Rightarrow> nat" where
  "utf8Length [] = 0"
| "utf8Length (u # us) =
     (if unat u \<le> 0x7F then 1 + utf8Length us
      else if unat u \<le> 0x7FF then 2 + utf8Length us
      else if 0xD800 \<le> unat u \<and> unat u \<le> 0xDBFF \<and> us \<noteq> [] then
        (case us of
           v # vs \<Rightarrow> if 0xDC00 \<le> unat v \<and> unat v \<le> 0xDFFF then 4 + utf8Length vs
                     else 3 + utf8Length us
         | [] \<Rightarrow> 3 + utf8Length us)
      else 3 + utf8Length us)"

subsection \<open>Facts\<close>

lemma unat_codeunit_less [simp]: "unat (u :: codeunit) < 65536"
  using unsigned_less [of u, where ?'a = nat] by simp

lemma unat_of_nat_codeunit: "unat (of_nat n :: codeunit) = n mod 65536"
  by (simp add: unat_of_nat)

text \<open>A string is well formed when its surrogates come in pairs.\<close>

fun well_formed :: "jsstring \<Rightarrow> bool" where
  "well_formed [] \<longleftrightarrow> True"
| "well_formed (u # us) \<longleftrightarrow>
     (if is_high u then (case us of v # vs \<Rightarrow> is_low v \<and> well_formed vs | [] \<Rightarrow> False)
      else \<not> is_low u \<and> well_formed us)"

definition scalar :: "nat \<Rightarrow> bool" where
  "scalar c \<longleftrightarrow> c < 0xD800 \<or> 0xE000 \<le> c \<and> c < 0x110000"

lemma code_points_scalar: "c \<in> set (code_points s) \<Longrightarrow> scalar c"
proof (induction s rule: code_points.induct)
  case (2 u us)
  have u: "unat u < 0x110000" using unat_codeunit_less [of u] by linarith
  show ?case
  proof (cases "is_high u")
    case True
    show ?thesis
    proof (cases us)
      case Nil
      with 2 True show ?thesis by (auto simp: scalar_def)
    next
      case (Cons v vs)
      from True have "unat u - 0xD800 < 0x400" by (auto simp: is_high_def)
      moreover have "is_low v \<Longrightarrow> unat v - 0xDC00 < 0x400" by (auto simp: is_low_def)
      ultimately show ?thesis
        using 2 True Cons by (auto simp: scalar_def split: if_splits)
    qed
  next
    case False
    with 2 u show ?thesis
      by (auto simp: scalar_def is_high_def is_low_def split: if_splits)
  qed
qed simp

lemma utf16_code_points: "well_formed s \<Longrightarrow> concat (map utf16_cp (code_points s)) = s"
proof (induction s rule: code_points.induct)
  case (2 u us)
  show ?case
  proof (cases "is_high u")
    case True
    with "2.prems" obtain v vs where us: "us = v # vs" "is_low v" "well_formed vs"
      by (auto split: list.splits)
    let ?h = "unat u - 0xD800" and ?l = "unat v - 0xDC00"
    have b: "?h < 0x400" "?l < 0x400" "unat u = 0xD800 + ?h" "unat v = 0xDC00 + ?l"
      using True us(2) by (auto simp: is_high_def is_low_def)
    have "utf16_cp (0x10000 + ?h * 0x400 + ?l) = [of_nat (0xD800 + ?h), of_nat (0xDC00 + ?l)]"
      using b(1,2) by (simp add: utf16_cp_def)
    also have "\<dots> = [u, v]" unfolding b(3,4) [symmetric] by simp
    finally show ?thesis using "2.IH" True us by simp
  next
    case False
    with 2 show ?thesis by (auto simp: utf16_cp_def)
  qed
qed simp

lemma unat_of_nat_small: "n < 256 \<Longrightarrow> unat (of_nat n :: byte) = n"
  by (simp only: unat_of_nat_byte) simp

lemma utf8_dec_start:
  "unat b < 0x80 \<Longrightarrow> utf8_dec 0 0 0x80 0xBF (b # bs) = unat b # utf8_dec 0 0 0x80 0xBF bs"
  "0xC2 \<le> unat b \<Longrightarrow> unat b \<le> 0xDF \<Longrightarrow>
     utf8_dec 0 0 0x80 0xBF (b # bs) = utf8_dec 1 (unat b - 0xC0) 0x80 0xBF bs"
  "0xE0 \<le> unat b \<Longrightarrow> unat b \<le> 0xEF \<Longrightarrow>
     utf8_dec 0 0 0x80 0xBF (b # bs) = utf8_dec 2 (unat b - 0xE0)
       (if unat b = 0xE0 then 0xA0 else 0x80) (if unat b = 0xED then 0x9F else 0xBF) bs"
  "0xF0 \<le> unat b \<Longrightarrow> unat b \<le> 0xF4 \<Longrightarrow>
     utf8_dec 0 0 0x80 0xBF (b # bs) = utf8_dec 3 (unat b - 0xF0)
       (if unat b = 0xF0 then 0x90 else 0x80) (if unat b = 0xF4 then 0x8F else 0xBF) bs"
  by simp_all

lemma utf8_dec_cont:
  assumes "0 < needed" and "lower \<le> 0x80 + x" and "0x80 + x \<le> upper" and "x < 64"
  shows "utf8_dec needed cp lower upper (of_nat (0x80 + x) # bs) =
     (if needed = 1 then (cp * 64 + x) # utf8_dec 0 0 0x80 0xBF bs
      else utf8_dec (needed - 1) (cp * 64 + x) 0x80 0xBF bs)"
proof -
  have "unat (of_nat (0x80 + x) :: byte) = 0x80 + x" using assms(4) by (intro unat_of_nat_small) simp
  moreover have "(x + 2 * 64) mod 64 = x" using assms(4) by (simp only: mod_mult_self1 mod_less)
  then have "(0x80 + x) mod 64 = x" by (simp add: add.commute)
  ultimately show ?thesis using assms by (simp del: of_nat_add)
qed

declare utf8_dec.simps [simp del]

lemma utf8_dec_nil [simp]: "utf8_dec 0 cp lower upper [] = []"
  by (simp add: utf8_dec.simps)

lemma digits64_2: "(c :: nat) div 64 * 64 + c mod 64 = c" by simp

lemma digits64_3: "(c :: nat) div 4096 * 4096 + c div 64 mod 64 * 64 + c mod 64 = c"
proof -
  have "c div 64 = c div 4096 * 64 + c div 64 mod 64"
    using div_mult_mod_eq [of "c div 64" 64] by (simp add: div_mult2_eq [symmetric])
  then show ?thesis using div_mult_mod_eq [of c 64] by linarith
qed

lemma digits64_4:
  "(c :: nat) div 262144 * 262144 + c div 4096 mod 64 * 4096 + c div 64 mod 64 * 64 + c mod 64 = c"
proof -
  have "c div 4096 = c div 262144 * 64 + c div 4096 mod 64"
    using div_mult_mod_eq [of "c div 4096" 64] by (simp add: div_mult2_eq [symmetric])
  then show ?thesis using digits64_3 [of c] by linarith
qed

lemma utf8_dec_cp:
  assumes "scalar c"
  shows "utf8_dec 0 0 0x80 0xBF (utf8_cp c @ rest) = c # utf8_dec 0 0 0x80 0xBF rest"
proof -
  consider (one) "c < 0x80" | (two) "0x80 \<le> c" "c < 0x800" | (three) "0x800 \<le> c" "c < 0x10000"
    | (four) "0x10000 \<le> c" "c < 0x110000"
    using assms by (fastforce simp: scalar_def)
  then show ?thesis
  proof cases
    case one
    then show ?thesis by (simp add: utf8_cp_def utf8_dec_start(1) unat_of_nat_byte)
  next
    case two
    have u: "unat (of_nat (0xC0 + c div 64) :: byte) = 0xC0 + c div 64"
      using two by (intro unat_of_nat_small) simp
    have "2 \<le> c div 64" "c div 64 < 32" using two by auto
    with two u show ?thesis
      by (simp add: utf8_cp_def utf8_dec_start(2) utf8_dec_cont del: of_nat_add)
  next
    case three
    have u: "unat (of_nat (0xE0 + c div 4096) :: byte) = 0xE0 + c div 4096"
      using three by (intro unat_of_nat_small) simp
    have hi: "c div 4096 < 16" using three by auto
    have lo: "c div 4096 = 0 \<Longrightarrow> 0x20 \<le> c div 64 mod 64"
      using three digits64_3 [of c] by simp
    have "c div 64 mod 64 < 64" by simp
    then have le: "c div 64 mod 64 \<le> 63" by linarith
    have sur: "c div 4096 = 0xD \<Longrightarrow> c div 64 mod 64 \<le> 31"
      using assms digits64_3 [of c] three by (auto simp: scalar_def)
    have step: "utf8_dec 2 (c div 4096) (if c div 4096 = 0 then 0xA0 else 0x80)
        (if c div 4096 = 0xD then 0x9F else 0xBF)
        (of_nat (0x80 + c div 64 mod 64) # of_nat (0x80 + c mod 64) # rest) =
        ((c div 4096 * 64 + c div 64 mod 64) * 64 + c mod 64) # utf8_dec 0 0 0x80 0xBF rest"
      using lo sur le by (subst utf8_dec_cont; simp add: utf8_dec_cont del: of_nat_add)+
    from u hi three digits64_3 [of c] show ?thesis
      by (simp add: utf8_cp_def utf8_dec_start(3) step algebra_simps del: of_nat_add)
  next
    case four
    have u: "unat (of_nat (0xF0 + c div 262144) :: byte) = 0xF0 + c div 262144"
      using four by (intro unat_of_nat_small) simp
    have hi: "c div 262144 < 5" using four by auto
    have lo: "c div 262144 = 0 \<Longrightarrow> 0x10 \<le> c div 4096 mod 64"
      using four digits64_4 [of c] by simp
    have up: "c div 262144 = 4 \<Longrightarrow> c div 4096 mod 64 \<le> 15"
      using four digits64_4 [of c] by simp
    have "c div 4096 mod 64 < 64" "c div 64 mod 64 < 64" by simp_all
    then have le: "c div 4096 mod 64 \<le> 63" "c div 64 mod 64 \<le> 63" by linarith+
    have step: "utf8_dec 3 (c div 262144) (if c div 262144 = 0 then 0x90 else 0x80)
        (if c div 262144 = 4 then 0x8F else 0xBF)
        (of_nat (0x80 + c div 4096 mod 64) # of_nat (0x80 + c div 64 mod 64)
           # of_nat (0x80 + c mod 64) # rest) =
        (((c div 262144 * 64 + c div 4096 mod 64) * 64 + c div 64 mod 64) * 64 + c mod 64)
          # utf8_dec 0 0 0x80 0xBF rest"
      using lo up le by (subst utf8_dec_cont; simp add: utf8_dec_cont del: of_nat_add)+
    from u hi four digits64_4 [of c] show ?thesis
      by (simp add: utf8_cp_def utf8_dec_start(4) step algebra_simps del: of_nat_add)
  qed
qed

lemma utf8_dec_cps:
  "\<forall>c \<in> set cs. scalar c \<Longrightarrow> utf8_dec 0 0 0x80 0xBF (concat (map utf8_cp cs)) = cs"
  by (induction cs) (auto simp: utf8_dec_cp)

lemma utf8_cp_bom:
  assumes "scalar c" and "take 3 (utf8_cp c @ rest) = [0xEF, 0xBB, 0xBF]"
  shows "c = 0xFEFF"
proof -
  have "utf8_cp c \<noteq> []" by (simp add: utf8_cp_def)
  then obtain x xs where x: "utf8_cp c = x # xs" by (auto simp: neq_Nil_conv)
  with assms(2) have "x = 0xEF" by simp
  with x have hd: "unat (hd (utf8_cp c)) = 0xEF" by simp
  have "c < 0x80 \<Longrightarrow> unat (hd (utf8_cp c)) = c" by (simp add: utf8_cp_def unat_of_nat_byte)
  moreover have "0x80 \<le> c \<Longrightarrow> c < 0x800 \<Longrightarrow> unat (hd (utf8_cp c)) = 0xC0 + c div 64"
    by (simp add: utf8_cp_def unat_of_nat_small del: of_nat_add)
  moreover have "0x10000 \<le> c \<Longrightarrow> unat (hd (utf8_cp c)) = 0xF0 + c div 262144"
    using assms(1) by (auto simp: utf8_cp_def scalar_def unat_of_nat_small simp del: of_nat_add)
  ultimately have c: "0x800 \<le> c" "c < 0x10000"
    using hd by (cases "c < 0x80"; cases "c < 0x800"; cases "c < 0x10000"; force)+
  then have eqs: "of_nat (0xE0 + c div 4096) = (0xEF :: byte)"
    "of_nat (0x80 + c div 64 mod 64) = (0xBB :: byte)" "of_nat (0x80 + c mod 64) = (0xBF :: byte)"
    using assms(2) by (simp_all add: utf8_cp_def del: of_nat_add)
  have "0xE0 + c div 4096 = 0xEF"
    using arg_cong [OF eqs(1), of unat] c by (simp add: unat_of_nat_small del: of_nat_add)
  moreover have "0x80 + c div 64 mod 64 = 0xBB"
    using arg_cong [OF eqs(2), of unat] by (simp add: unat_of_nat_small trans_less_add2 del: of_nat_add)
  moreover have "0x80 + c mod 64 = 0xBF"
    using arg_cong [OF eqs(3), of unat] by (simp add: unat_of_nat_small del: of_nat_add)
  ultimately show ?thesis using digits64_3 [of c] by simp
qed

lemma code_points_hd:
  assumes "well_formed s" and "s \<noteq> []" and "hd (code_points s) = 0xFEFF"
  shows "hd s = 0xFEFF"
proof -
  obtain u us where s: "s = u # us" using assms(2) by (cases s) auto
  show ?thesis
  proof (cases "is_high u")
    case True
    with assms s show ?thesis by (auto split: list.splits)
  next
    case False
    with assms s have "unat u = 0xFEFF" by auto
    then have "(of_nat (unat u) :: codeunit) = 0xFEFF" by simp
    with s show ?thesis by simp
  qed
qed

lemma strip_bom_encode:
  assumes "well_formed s" and "s = [] \<or> hd s \<noteq> 0xFEFF"
  shows "strip_bom (encodeUtf8 s) = encodeUtf8 s"
proof (rule ccontr)
  assume "\<not> ?thesis"
  then have t: "take 3 (encodeUtf8 s) = [0xEF, 0xBB, 0xBF]" by (auto simp: strip_bom_def split: if_splits)
  then obtain c cs where cs: "code_points s = c # cs"
    by (cases "code_points s") (auto simp: encodeUtf8_def)
  then have "scalar c" using code_points_scalar [of c s] by simp
  with t cs have "c = 0xFEFF" using utf8_cp_bom by (simp add: encodeUtf8_def)
  with code_points_hd [OF assms(1)] cs assms(2) show False by (cases s) auto
qed

lemma decode_encode_utf8:
  "well_formed s \<Longrightarrow> s = [] \<or> hd s \<noteq> 0xFEFF \<Longrightarrow> decodeUtf8 (encodeUtf8 s) = s"
  by (simp add: decodeUtf8_def strip_bom_encode)
     (simp add: encodeUtf8_def utf8_dec_cps code_points_scalar utf16_code_points)

lemma length_utf8_cp:
  "length (utf8_cp c) = (if c < 0x80 then 1 else if c < 0x800 then 2 else if c < 0x10000 then 3 else 4)"
  by (simp add: utf8_cp_def)

lemma utf8Length_encode: "utf8Length s = length (encodeUtf8 s)"
proof (induction s rule: utf8Length.induct)
  case 1
  then show ?case by (simp add: encodeUtf8_def)
next
  case (2 u us)
  have enc: "encodeUtf8 (v # vs) =
      (if is_high v then (case vs of
           w # ws \<Rightarrow> if is_low w
             then utf8_cp (0x10000 + (unat v - 0xD800) * 0x400 + (unat w - 0xDC00)) @ encodeUtf8 ws
             else utf8_cp 0xFFFD @ encodeUtf8 vs
         | [] \<Rightarrow> utf8_cp 0xFFFD)
       else if is_low v then utf8_cp 0xFFFD @ encodeUtf8 vs
       else utf8_cp (unat v) @ encodeUtf8 vs)" for v vs
    by (simp add: encodeUtf8_def split: list.split)
  have nil: "encodeUtf8 [] = []" by (simp add: encodeUtf8_def)
  show ?case
  proof (cases "is_high u")
    case True
    then have u: "0x7FF < unat u" "0xD800 \<le> unat u" "unat u \<le> 0xDBFF" by (simp_all add: is_high_def)
    show ?thesis
    proof (cases us)
      case Nil
      with u True show ?thesis by (simp add: enc nil length_utf8_cp)
    next
      case (Cons v vs)
      have "utf8Length (u # us) = (if is_low v then 4 + utf8Length vs else 3 + utf8Length us)"
        using u by (subst utf8Length.simps(2)) (simp add: Cons is_low_def del: utf8Length.simps)
      moreover have "is_low v \<Longrightarrow> utf8Length vs = length (encodeUtf8 vs)"
        "\<not> is_low v \<Longrightarrow> utf8Length us = length (encodeUtf8 us)"
        using 2 u Cons by (simp_all add: is_low_def del: utf8Length.simps)
      moreover have "encodeUtf8 (u # us) =
          (if is_low v then utf8_cp (0x10000 + (unat u - 0xD800) * 0x400 + (unat v - 0xDC00)) @ encodeUtf8 vs
           else utf8_cp 0xFFFD @ encodeUtf8 us)"
        using True Cons by (subst enc) simp
      ultimately show ?thesis by (simp add: length_utf8_cp)
    qed
  next
    case False
    then have nh: "\<not> (0xD800 \<le> unat u \<and> unat u \<le> 0xDBFF)" by (simp add: is_high_def)
    then have IH: "utf8Length us = length (encodeUtf8 us)"
      using 2 by (cases "unat u \<le> 0x7F"; cases "unat u \<le> 0x7FF") blast+
    have "utf8Length (u # us) =
        (if unat u \<le> 0x7F then 1 else if unat u \<le> 0x7FF then 2 else 3) + utf8Length us"
      using nh by (subst utf8Length.simps(2)) (auto simp del: utf8Length.simps)
    moreover have "encodeUtf8 (u # us) =
        (if is_low u then utf8_cp 0xFFFD else utf8_cp (unat u)) @ encodeUtf8 us"
      using False by (subst enc) simp
    ultimately show ?thesis using IH by (auto simp: length_utf8_cp is_low_def)
  qed
qed

text \<open>Decoding never makes text longer: at most one code unit per byte, and two for the four bytes of a
  supplementary code point; on ASCII it is the identity.\<close>

lemma length_utf16_cp: "length (utf16_cp c) \<le> 2" "c < 0x10000 \<Longrightarrow> length (utf16_cp c) = 1"
  by (simp_all add: utf16_cp_def)

lemma length_utf8_dec:
  "length (concat (map utf16_cp (utf8_dec needed cp lower upper bs))) \<le> length bs + of_bool (needed \<noteq> 0)"
proof (induction needed cp lower upper bs rule: utf8_dec.induct)
  case (1 needed cp lower upper)
  then show ?case by (simp add: utf8_dec.simps(1) length_utf16_cp(2))
next
  case (2 needed cp lower upper b bs)
  let ?c = "cp * 64 + unat b mod 64"
  note c = length_utf16_cp(1) [of ?c]
  show ?case
  proof (cases "needed = 0")
    case True
    with 2 show ?thesis by (auto simp: utf8_dec.simps(2) length_utf16_cp(2))
  next
    case False
    then show ?thesis
    proof (cases "needed = 1 \<and> \<not> (unat b < lower \<or> upper < unat b)")
      case True
      with 2(7) c show ?thesis by (simp add: utf8_dec.simps(2))
    next
      case other: False
      with False 2(6,8) show ?thesis
        by (cases "unat b < lower \<or> upper < unat b")
           (simp_all add: utf8_dec.simps(2) [of needed] length_utf16_cp(2))
    qed
  qed
qed

lemma length_decodeUtf8: "length (decodeUtf8 bs) \<le> length bs"
proof -
  have "length (decodeUtf8 bs) \<le> length (strip_bom bs) + of_bool ((0::nat) \<noteq> 0)"
    unfolding decodeUtf8_def by (rule length_utf8_dec)
  also have "\<dots> \<le> length bs" by (simp add: strip_bom_def)
  finally show ?thesis .
qed

lemma utf8_dec_ascii: "list_all (\<lambda>b. b < 0x80) bs \<Longrightarrow> utf8_dec 0 0 0x80 0xBF bs = map unat bs"
  by (induction bs) (simp_all add: word_less_nat_alt utf8_dec.simps)

lemma decodeUtf8_ascii:
  assumes "list_all (\<lambda>b. b < 0x80) bs"
  shows "length (decodeUtf8 bs) = length bs"
proof -
  have "strip_bom bs = bs" using assms by (cases bs) (auto simp: strip_bom_def)
  moreover have "length (concat (map utf16_cp (map unat bs))) = length bs"
  proof (induction bs)
    case (Cons b bs)
    have "unat b < 256" using unsigned_less [of b, where ?'a = nat] by simp
    then have "unat b < 0x10000" by linarith
    with Cons show ?case by (simp add: length_utf16_cp(2))
  qed simp
  ultimately show ?thesis using assms by (simp add: decodeUtf8_def utf8_dec_ascii)
qed

subsection \<open>Properties\<close>

text \<open>Header text survives the byte layer: decoding the UTF-8 encoding of a string gives the
  string back, for every string whose surrogates are paired and that does not start with a byte
  order mark.\<close>

theorem utf8_roundtrip:
  assumes "well_formed s" and "s = [] \<or> hd s \<noteq> 0xFEFF"
  shows "decodeUtf8 (encodeUtf8 s) = s"
  using assms by (rule decode_encode_utf8)

theorem utf8_roundtrip_witness:
  "decodeUtf8 (encodeUtf8 [0x61, 0xE9, 0x20AC, 0xD83D, 0xDE00]) = [0x61, 0xE9, 0x20AC, 0xD83D, 0xDE00]"
  by (rule utf8_roundtrip) (simp_all add: is_high_def is_low_def)

text \<open>\<^verbatim>\<open>utf8Length\<close>, which charges header fields against the decoded header list budget without
  encoding them, returns exactly the number of bytes \<^verbatim>\<open>TextEncoder\<close> would produce, lone
  surrogates included.\<close>

theorem utf8Length_correct: "utf8Length s = length (encodeUtf8 s)"
  by (rule utf8Length_encode)

end
