(* ===== verification/Huffman.thy ===== *)
theory Huffman
  imports H2_Errors Huffman_Table "HOL-Library.Sublist"
begin

unbundle bit_operations_syntax

text \<open>
  \<^verbatim>\<open>web/src/h2/hpack/huffman.ts\<close>: the encoder that sets bits in a zeroed byte array, the
  binary trie built once from the code table, and the bit-by-bit decoder.

  The locale \<open>prefix_code\<close> states what the trie decoder needs of a code table: no code word is a
  prefix of another. Its lemmas say that the trie walk recognises exactly the code words; it is
  interpreted on \<open>HUFFMAN_CODES\<close>, where prefix-freeness is checked by sorting the codes as
  disjoint intervals. The result is that decoding and encoding are inverse to each other.
\<close>

subsection \<open>Encoder\<close>

definition code_of :: "nat \<Rightarrow> nat \<times> nat" where
  "code_of smb = HUFFMAN_CODES ! smb"

definition encodedBitLength :: "byte list \<Rightarrow> nat" where
  "encodedBitLength input = foldl (\<lambda>bits b. bits + snd (code_of (unat b))) 0 input"

text \<open>\<^verbatim>\<open>out[bitPos >>> 3] |= 0x80 >>> (bitPos & 7)\<close>. Positions are unbounded: the conversion of \<^verbatim>\<open>>>>\<close> to 32 bits would be
  seen only from \<open>2 ^ 32\<close> bits on, an encoding of 512 MiB.\<close>

definition set_bit_at :: "byte list \<Rightarrow> nat \<Rightarrow> byte list" where
  "set_bit_at out bitPos =
     out[drop_bit 3 bitPos := out ! drop_bit 3 bitPos OR drop_bit (bitPos AND 7) 0x80]"

fun put_code :: "nat \<Rightarrow> nat \<Rightarrow> byte list \<Rightarrow> nat \<Rightarrow> byte list \<times> nat" where
  "put_code code 0 out bitPos = (out, bitPos)"
| "put_code code (Suc i) out bitPos =
     put_code code i (if drop_bit i code AND 1 \<noteq> 0 then set_bit_at out bitPos else out) (Suc bitPos)"

fun put_symbols :: "byte list \<Rightarrow> byte list \<Rightarrow> nat \<Rightarrow> byte list \<times> nat" where
  "put_symbols [] out bitPos = (out, bitPos)"
| "put_symbols (b # bs) out bitPos =
     (case put_code (fst (code_of (unat b))) (snd (code_of (unat b))) out bitPos of
        (out', bitPos') \<Rightarrow> put_symbols bs out' bitPos')"

lemma and7_mod8: "(n :: nat) AND 7 = n mod 8"
proof -
  have "n AND (2 ^ 3 - 1) = take_bit 3 n"
    by (simp add: take_bit_eq_mask mask_eq_exp_minus_1)
  then show ?thesis by (simp add: take_bit_eq_mod)
qed

function pad_bits :: "byte list \<Rightarrow> nat \<Rightarrow> byte list" where
  "pad_bits out bitPos =
     (if bitPos AND 7 \<noteq> 0 then pad_bits (set_bit_at out bitPos) (Suc bitPos) else out)"
  by pat_completeness auto
termination
  by (relation "measure (\<lambda>(out, bitPos). (8 - bitPos mod 8) mod 8)")
     (auto simp: and7_mod8 mod_Suc)

declare pad_bits.simps [simp del]

definition huffmanEncode :: "byte list \<Rightarrow> byte list" where
  "huffmanEncode input =
     (let totalBits = encodedBitLength input;
          out = replicate (drop_bit 3 (totalBits + 7)) 0
      in case put_symbols input out 0 of (out, bitPos) \<Rightarrow> pad_bits out bitPos)"

definition huffmanShorter :: "byte list \<Rightarrow> bool" where
  "huffmanShorter input \<longleftrightarrow> drop_bit 3 (encodedBitLength input + 7) < length input"

subsection \<open>Decoder\<close>

text \<open>\<^verbatim>\<open>TrieNode\<close>: the two children and the symbol, each possibly absent.\<close>

datatype trie = Node (child0: "trie option") (child1: "trie option") (symbol: "nat option")

definition empty_node :: trie where
  "empty_node = Node None None None"

definition child :: "trie \<Rightarrow> bool \<Rightarrow> trie option" where
  "child t b = (if b then child1 t else child0 t)"

text \<open>The inner loop of \<^verbatim>\<open>buildTrie\<close>: descend along the bits, creating nodes, and set the symbol.\<close>

fun insert_code :: "bool list \<Rightarrow> nat \<Rightarrow> trie \<Rightarrow> trie" where
  "insert_code [] smb (Node l r _) = Node l r (Some smb)"
| "insert_code (b # bs) smb (Node l r y) =
     (let next = (case (if b then r else l) of None \<Rightarrow> empty_node | Some t \<Rightarrow> t);
          next' = insert_code bs smb next
      in if b then Node l (Some next') y else Node (Some next') r y)"

text \<open>The bits of an entry, most significant first.\<close>

definition code_bits :: "nat \<times> nat \<Rightarrow> bool list" where
  "code_bits e = map (\<lambda>i. drop_bit i (fst e) AND 1 \<noteq> 0) (rev [0..<snd e])"

fun build_loop :: "nat \<Rightarrow> bool list list \<Rightarrow> trie \<Rightarrow> trie" where
  "build_loop smb [] t = t"
| "build_loop smb (c # cs) t = build_loop (Suc smb) cs (insert_code c smb t)"

definition buildTrie :: trie where
  "buildTrie = build_loop 0 (map code_bits HUFFMAN_CODES) empty_node"

definition ROOT :: trie where "ROOT = buildTrie"

record huffman_state =
  h_out :: "nat list"
  h_node :: trie
  h_partialBits :: nat
  h_partialAllOnes :: bool

definition decode_bit :: "trie \<Rightarrow> nat \<Rightarrow> huffman_state \<Rightarrow> bool \<Rightarrow> huffman_state result" where
  "decode_bit root eos s b =
     (let allOnes = (if b then h_partialAllOnes s else False) in
      case child (h_node s) b of
        None \<Rightarrow> throw_h2 COMPRESSION_ERROR
      | Some node \<Rightarrow>
          (case symbol node of
             None \<Rightarrow> Inr (s\<lparr>h_node := node, h_partialBits := h_partialBits s + 1,
                             h_partialAllOnes := allOnes\<rparr>)
           | Some smb \<Rightarrow>
               if smb = eos then throw_h2 COMPRESSION_ERROR
               else Inr \<lparr>h_out = h_out s @ [smb], h_node = root, h_partialBits = 0,
                         h_partialAllOnes = True\<rparr>))"

fun decode_bits :: "trie \<Rightarrow> nat \<Rightarrow> huffman_state \<Rightarrow> bool list \<Rightarrow> huffman_state result" where
  "decode_bits root eos s [] = Inr s"
| "decode_bits root eos s (b # bs) =
     bind_result (decode_bit root eos s b) (\<lambda>s'. decode_bits root eos s' bs)"

text \<open>The two nested loops visit the bits of each byte from the most significant one.\<close>

definition byte_bits :: "byte \<Rightarrow> bool list" where
  "byte_bits b = map (\<lambda>i. bit b i) (rev [0..<8])"

definition bits_of :: "byte list \<Rightarrow> bool list" where
  "bits_of bs = concat (map byte_bits bs)"

definition huffman_start :: "trie \<Rightarrow> huffman_state" where
  "huffman_start root =
     \<lparr>h_out = [], h_node = root, h_partialBits = 0, h_partialAllOnes = True\<rparr>"

definition huffmanDecode :: "byte list \<Rightarrow> byte list result" where
  "huffmanDecode input =
     bind_result (decode_bits ROOT HUFFMAN_EOS (huffman_start ROOT) (bits_of input)) (\<lambda>s.
       if h_node s \<noteq> ROOT \<and> (h_partialBits s > 7 \<or> \<not> h_partialAllOnes s)
       then throw_h2 COMPRESSION_ERROR
       else Inr (map of_nat (h_out s)))"

subsection \<open>Bits and bytes\<close>

lemma length_byte_bits [simp]: "length (byte_bits b) = 8"
  by (simp add: byte_bits_def)

lemma length_bits_of [simp]: "length (bits_of bs) = 8 * length bs"
  by (induction bs) (auto simp: bits_of_def)

lemma bits_of_simps [simp]:
  "bits_of [] = []" "bits_of (b # bs) = byte_bits b @ bits_of bs"
  "bits_of (xs @ ys) = bits_of xs @ bits_of ys"
  by (simp_all add: bits_of_def)

lemma byte_bits_nth: "i < 8 \<Longrightarrow> byte_bits b ! i = bit b (7 - i)"
  by (simp add: byte_bits_def rev_nth)

lemma bits_of_nth: "i < 8 * length bs \<Longrightarrow> bits_of bs ! i = bit (bs ! (i div 8)) (7 - i mod 8)"
proof (induction bs arbitrary: i)
  case (Cons b bs)
  show ?case
  proof (cases "i < 8")
    case True
    then show ?thesis by (simp add: nth_append byte_bits_nth)
  next
    case False
    then have "i div 8 = Suc ((i - 8) div 8)" "(i - 8) mod 8 = i mod 8"
      by (simp_all add: le_div_geq le_mod_geq)
    with False Cons show ?thesis by (simp add: nth_append)
  qed
qed simp

lemma byte_bits_inject: "byte_bits a = byte_bits b \<Longrightarrow> a = b"
proof (rule bit_word_eqI)
  fix n assume "byte_bits a = byte_bits b" and "n < LENGTH(8)"
  then show "bit a n = bit b n"
    using byte_bits_nth [of "7 - n" a] byte_bits_nth [of "7 - n" b] by simp
qed

lemma bits_of_inject: "bits_of xs = bits_of ys \<Longrightarrow> xs = ys"
proof (induction xs arbitrary: ys)
  case Nil
  then show ?case using length_bits_of [of ys] by auto
next
  case (Cons x xs)
  then have "length (bits_of ys) = 8 * length (x # xs)" by (metis length_bits_of)
  then obtain y ys' where ys: "ys = y # ys'" by (cases ys) auto
  with Cons.prems have "byte_bits x = byte_bits y" "bits_of xs = bits_of ys'"
    by (simp_all add: append_eq_append_conv)
  with Cons.IH ys byte_bits_inject show ?case by simp
qed

lemma set_bit_at_alt:
  "set_bit_at out p = out[p div 8 := out ! (p div 8) OR drop_bit (p mod 8) 0x80]"
  by (simp add: set_bit_at_def and7_mod8 drop_bit_eq_div [where 'a = nat])

lemma bits_of_set_bit:
  assumes "p < 8 * length out"
  shows "bits_of (set_bit_at out p) = (bits_of out)[p := True]"
proof (rule nth_equalityI)
  show "length (bits_of (set_bit_at out p)) = length ((bits_of out)[p := True])"
    by (simp add: set_bit_at_def)
next
  fix i assume "i < length (bits_of (set_bit_at out p))"
  then have i: "i < 8 * length out" by (simp add: set_bit_at_def)
  have p8: "p div 8 < length out" using assms by auto
  have "bit (2 ^ 7 :: byte) n \<longleftrightarrow> n = 7" for n
    unfolding bit_exp_iff by auto
  then have bit80: "bit (drop_bit k 0x80 :: byte) n \<longleftrightarrow> n + k = 7" for k n
    by (simp add: bit_drop_bit_eq add.commute)
  have "bits_of (set_bit_at out p) ! i = bit (set_bit_at out p ! (i div 8)) (7 - i mod 8)"
    using i by (subst bits_of_nth) (auto simp: set_bit_at_def)
  also have "\<dots> \<longleftrightarrow> bit (out ! (i div 8)) (7 - i mod 8) \<or> i = p"
  proof (cases "i div 8 = p div 8")
    case True
    have "i mod 8 < 8" by simp
    then have "7 - i mod 8 + p mod 8 = 7 \<longleftrightarrow> i mod 8 = p mod 8" by linarith
    also have "\<dots> \<longleftrightarrow> i = p"
      using True div_mult_mod_eq [of i 8] div_mult_mod_eq [of p 8] by metis
    finally have "7 - i mod 8 + p mod 8 = 7 \<longleftrightarrow> i = p" .
    with True p8 show ?thesis by (simp add: set_bit_at_alt bit_or_iff bit80)
  next
    case False
    then show ?thesis by (auto simp: set_bit_at_alt)
  qed
  finally show "bits_of (set_bit_at out p) ! i = (bits_of out)[p := True] ! i"
    using i assms by (auto simp: bits_of_nth nth_list_update)
qed


subsection \<open>The encoder writes the code words and pads with ones\<close>

definition cw :: "nat \<Rightarrow> bool list" where
  "cw smb = code_bits (code_of smb)"

definition word_bits :: "byte list \<Rightarrow> bool list" where
  "word_bits bs = concat (map (\<lambda>b. cw (unat b)) bs)"

lemma length_cw: "length (cw smb) = snd (code_of smb)"
  by (simp add: cw_def code_bits_def)

lemma encodedBitLength_word_bits: "encodedBitLength bs = length (word_bits bs)"
proof -
  have "foldl (\<lambda>bits b. bits + snd (code_of (unat b))) n bs = n + length (word_bits bs)" for n
    by (induction bs arbitrary: n) (auto simp: word_bits_def length_cw)
  then show ?thesis by (simp add: encodedBitLength_def)
qed

text \<open>\<open>filled out pre\<close>: the bits of \<open>out\<close> are \<open>pre\<close> followed by zeros.\<close>

definition filled :: "byte list \<Rightarrow> bool list \<Rightarrow> bool" where
  "filled out pre \<longleftrightarrow> length pre \<le> 8 * length out \<and>
     bits_of out = pre @ replicate (8 * length out - length pre) False"

lemma filled_step:
  assumes "filled out pre" and "length pre < 8 * length out"
  shows "filled (if b then set_bit_at out (length pre) else out) (pre @ [b])"
proof -
  obtain k where k: "8 * length out - length pre = Suc k"
    using assms(2) by (metis Suc_diff_Suc)
  have len: "length (set_bit_at out (length pre)) = length out" by (simp add: set_bit_at_def)
  show ?thesis
  proof (cases b)
    case True
    have "bits_of (set_bit_at out (length pre)) = (pre @ replicate (Suc k) False)[length pre := True]"
      using assms k by (simp add: bits_of_set_bit filled_def)
    also have "\<dots> = pre @ True # replicate k False" by (simp add: list_update_append)
    finally show ?thesis using True k len assms(2) by (simp add: filled_def)
  next
    case False
    with assms k show ?thesis by (simp add: filled_def)
  qed
qed

lemma put_code_filled:
  assumes "filled out pre" and "length pre + n \<le> 8 * length out"
  shows "\<exists>out'. put_code c n out (length pre) = (out', length pre + n) \<and>
                filled out' (pre @ map (\<lambda>i. drop_bit i c AND 1 \<noteq> 0) (rev [0..<n])) \<and>
                length out' = length out"
  using assms
proof (induction n arbitrary: out pre)
  case 0
  then show ?case by simp
next
  case (Suc n)
  let ?b = "drop_bit n c AND 1 \<noteq> 0"
  let ?out = "if ?b then set_bit_at out (length pre) else out"
  have f: "filled ?out (pre @ [?b])" using Suc.prems by (intro filled_step) auto
  have len: "length ?out = length out" by (simp add: set_bit_at_def)
  have "length (pre @ [?b]) + n \<le> 8 * length ?out" using Suc.prems(2) len by simp
  from Suc.IH [OF f this] len show ?case by simp
qed

lemma put_symbols_filled:
  assumes "filled out pre" and "length pre + length (word_bits bs) \<le> 8 * length out"
  shows "\<exists>out'. put_symbols bs out (length pre) = (out', length pre + length (word_bits bs)) \<and>
                filled out' (pre @ word_bits bs) \<and> length out' = length out"
  using assms
proof (induction bs arbitrary: out pre)
  case Nil
  then show ?case by (simp add: word_bits_def)
next
  case (Cons b bs)
  obtain c n where e: "code_of (unat b) = (c, n)" by (cases "code_of (unat b)")
  then have cw: "cw (unat b) = map (\<lambda>i. drop_bit i c AND 1 \<noteq> 0) (rev [0..<n])"
    by (simp add: cw_def code_bits_def)
  have wb: "word_bits (b # bs) = cw (unat b) @ word_bits bs" by (simp add: word_bits_def)
  have ln: "length (cw (unat b)) = n" by (simp add: cw)
  from put_code_filled [OF Cons.prems(1), of n c] Cons.prems(2) wb ln obtain out1 where
    o1: "put_code c n out (length pre) = (out1, length pre + n)" "filled out1 (pre @ cw (unat b))"
        "length out1 = length out" by (auto simp: cw)
  from Cons.IH [OF o1(2)] Cons.prems(2) wb ln o1(3) obtain out2 where
    "put_symbols bs out1 (length pre + n) = (out2, length pre + n + length (word_bits bs))"
    "filled out2 (pre @ cw (unat b) @ word_bits bs)" "length out2 = length out" by auto
  with o1(1) e wb ln show ?case by simp
qed

lemma pad_bits_filled:
  assumes "filled out pre" and "8 * length out = length pre + k" and "k < 8"
  shows "bits_of (pad_bits out (length pre)) = pre @ replicate k True \<and>
         length (pad_bits out (length pre)) = length out"
  using assms
proof (induction k arbitrary: out pre)
  case 0
  then have "length pre mod 8 = 0" by presburger
  then have "pad_bits out (length pre) = out" by (subst pad_bits.simps) (simp add: and7_mod8)
  with 0 show ?case by (simp add: filled_def)
next
  case (Suc k)
  have "length pre mod 8 \<noteq> 0"
  proof
    assume "length pre mod 8 = 0"
    with Suc.prems(2,3) show False by presburger
  qed
  then have u: "pad_bits out (length pre) =
      pad_bits (set_bit_at out (length pre)) (length (pre @ [True]))"
    by (subst pad_bits.simps) (simp add: and7_mod8)
  have f: "filled (set_bit_at out (length pre)) (pre @ [True])"
    using filled_step [OF Suc.prems(1), of True] Suc.prems(2) by simp
  have len: "length (set_bit_at out (length pre)) = length out" by (simp add: set_bit_at_def)
  from Suc.IH [OF f] Suc.prems len show ?case by (simp add: u)
qed

lemma huffmanEncode_bits:
  "\<exists>k < 8. bits_of (huffmanEncode bs) = word_bits bs @ replicate k True"
  "length (huffmanEncode bs) = (length (word_bits bs) + 7) div 8"
proof -
  let ?n = "length (word_bits bs)"
  let ?out = "replicate ((?n + 7) div 8) (0 :: byte)"
  have zero: "byte_bits 0 = replicate 8 False"
    by (rule nth_equalityI) (simp_all add: byte_bits_nth)
  have "bits_of (replicate m 0) = replicate (8 * m) False" for m
    by (induction m) (simp_all add: zero replicate_add [symmetric])
  then have f0: "filled ?out []" by (simp add: filled_def)
  define k where "k = 8 * ((?n + 7) div 8) - ?n"
  have k: "8 * ((?n + 7) div 8) = ?n + k" "k < 8" unfolding k_def by linarith+
  from put_symbols_filled [OF f0, of bs] k obtain out1 where
    o1: "put_symbols bs ?out 0 = (out1, ?n)" "filled out1 (word_bits bs)"
        "length out1 = (?n + 7) div 8" by auto
  then have "huffmanEncode bs = pad_bits out1 ?n"
    by (simp add: huffmanEncode_def encodedBitLength_word_bits drop_bit_eq_div)
  with pad_bits_filled [OF o1(2), of k] k o1(3) show
    "\<exists>k < 8. bits_of (huffmanEncode bs) = word_bits bs @ replicate k True"
    "length (huffmanEncode bs) = (?n + 7) div 8" by auto
qed

lemma huffmanShorter_iff: "huffmanShorter bs \<longleftrightarrow> length (huffmanEncode bs) < length bs"
  by (simp add: huffmanShorter_def encodedBitLength_word_bits huffmanEncode_bits drop_bit_eq_div)

subsection \<open>Tries\<close>

fun walk :: "trie \<Rightarrow> bool list \<Rightarrow> trie option" where
  "walk t [] = Some t"
| "walk t (b # bs) = (case child t b of None \<Rightarrow> None | Some t' \<Rightarrow> walk t' bs)"

definition sym_at :: "trie \<Rightarrow> bool list \<Rightarrow> nat option" where
  "sym_at t p = Option.bind (walk t p) symbol"

lemma walk_append: "walk t (p @ q) = Option.bind (walk t p) (\<lambda>t'. walk t' q)"
  by (induction p arbitrary: t) (auto split: option.splits)

lemma walk_empty_node: "walk empty_node p = (if p = [] then Some empty_node else None)"
  by (cases p) (simp_all add: empty_node_def child_def)

lemma sym_at_empty_node: "sym_at empty_node p = None"
  by (simp add: sym_at_def walk_empty_node) (simp add: empty_node_def)

lemma sym_at_Cons:
  "sym_at t (b # p) = (case child t b of None \<Rightarrow> None | Some t' \<Rightarrow> sym_at t' p)"
  by (simp add: sym_at_def split: option.split)

lemma sym_at_insert: "sym_at (insert_code c smb t) p = (if p = c then Some smb else sym_at t p)"
proof (induction c smb t arbitrary: p rule: insert_code.induct)
  case (1 smb l r y)
  show ?case by (cases p) (simp_all add: sym_at_Cons child_def, simp_all add: sym_at_def)
next
  case (2 b c smb l r y)
  show ?case
  proof (cases p)
    case Nil
    then show ?thesis by (simp add: sym_at_def Let_def)
  next
    case (Cons b' p')
    let ?n = "case (if b then r else l) of None \<Rightarrow> empty_node | Some t \<Rightarrow> t"
    have IH: "sym_at (insert_code c smb ?n) p' = (if p' = c then Some smb else sym_at ?n p')"
      by (rule "2.IH") simp
    have n: "sym_at ?n p' = (case (if b then r else l) of None \<Rightarrow> None | Some t \<Rightarrow> sym_at t p')"
      by (simp add: sym_at_empty_node split: option.split)
    from Cons IH n show ?thesis
      by (cases "b' = b"; cases b) (simp_all add: sym_at_Cons child_def Let_def)
  qed
qed

lemma walk_insert_undefined:
  "walk (insert_code c smb t) p = None \<longleftrightarrow> walk t p = None \<and> \<not> prefix p c"
proof (induction c smb t arbitrary: p rule: insert_code.induct)
  case (1 smb l r y)
  show ?case by (cases p) (simp_all add: child_def)
next
  case (2 b c smb l r y)
  show ?case
  proof (cases p)
    case Nil
    then show ?thesis by simp
  next
    case (Cons b' p')
    let ?n = "case (if b then r else l) of None \<Rightarrow> empty_node | Some t \<Rightarrow> t"
    have IH: "walk (insert_code c smb ?n) p' = None \<longleftrightarrow> walk ?n p' = None \<and> \<not> prefix p' c"
      by (rule "2.IH") simp
    have n: "walk ?n p' = None \<and> \<not> prefix p' c \<longleftrightarrow>
        (case (if b then r else l) of None \<Rightarrow> True | Some t \<Rightarrow> walk t p' = None) \<and> \<not> prefix p' c"
      by (auto simp: walk_empty_node split: option.split)
    from Cons IH n show ?thesis
      by (cases "b' = b"; cases b) (auto simp: child_def Let_def split: option.splits)
  qed
qed

lemma sym_at_build:
  assumes "distinct cs"
  shows "sym_at (build_loop k cs t) p =
    (if p \<in> set cs then Some (k + index_of p cs) else sym_at t p)"
  using assms by (induction cs arbitrary: k t) (auto simp: sym_at_insert)

lemma walk_build_undefined:
  "walk (build_loop k cs t) p = None \<longleftrightarrow> walk t p = None \<and> (\<forall>c \<in> set cs. \<not> prefix p c)"
  by (induction cs arbitrary: k t) (auto simp: walk_insert_undefined)

lemma walk_size: "walk t p = Some t' \<Longrightarrow> p \<noteq> [] \<Longrightarrow> size t' < size t"
proof (induction p arbitrary: t)
  case (Cons b p)
  from Cons.prems obtain t1 where t1: "child t b = Some t1" "walk t1 p = Some t'"
    by (auto split: option.splits)
  from t1(1) have "size t1 < size t" by (cases t) (auto simp: child_def split: if_splits)
  with t1(2) Cons.IH [of t1] show ?case by (cases "p = []") auto
qed simp

lemma walk_not_root: "walk t p = Some t' \<Longrightarrow> p \<noteq> [] \<Longrightarrow> t' \<noteq> t"
  using walk_size by fastforce

lemma decode_bits_append:
  "decode_bits root eos s (xs @ ys) =
     bind_result (decode_bits root eos s xs) (\<lambda>s'. decode_bits root eos s' ys)"
  by (induction xs arbitrary: s) (auto simp: bind_result_def split: sum.splits)

subsection \<open>Prefix codes\<close>

text \<open>
  What the decoder relies on: the code words are pairwise prefix-free and non-empty. The
  parameters are the list of code words, the trie built from them and the index of the
  forbidden symbol.
\<close>

locale prefix_code =
  fixes codes :: "bool list list"
    and root :: trie
    and eos :: nat
  assumes root: "root = build_loop 0 codes empty_node"
    and prefix_free: "i < length codes \<Longrightarrow> j < length codes \<Longrightarrow> prefix (codes ! i) (codes ! j) \<Longrightarrow> i = j"
    and nonempty: "[] \<notin> set codes"
begin

lemma distinct_codes: "distinct codes"
  unfolding distinct_conv_nth using prefix_free by fastforce

lemma sym_at_root: "sym_at root p = Some s \<longleftrightarrow> s < length codes \<and> p = codes ! s"
proof -
  have "sym_at root p = (if p \<in> set codes then Some (index_of p codes) else None)"
    by (simp add: root sym_at_build distinct_codes sym_at_empty_node)
  then show ?thesis
    using index_of_nth [of p codes] index_of_distinct [OF distinct_codes] by auto
qed

lemma walk_root_undefined: "walk root p = None \<longleftrightarrow> p \<noteq> [] \<and> (\<forall>c \<in> set codes. \<not> prefix p c)"
  by (simp add: root walk_build_undefined walk_empty_node)

lemma strict_prefix_no_symbol:
  assumes "s < length codes" and "strict_prefix p (codes ! s)"
  shows "sym_at root p = None"
proof (rule ccontr)
  assume "sym_at root p \<noteq> None"
  then obtain t where t: "t < length codes" "p = codes ! t" by (auto simp: sym_at_root)
  with assms have "t = s" using prefix_free [of t s] by (simp add: strict_prefix_def)
  with t assms(2) show False by simp
qed

text \<open>The decoder state after reading a non-empty partial word \<open>p\<close>.\<close>

lemma decode_partial:
  assumes "s < length codes" and "prefix (p @ q) (codes ! s)" and "p @ q \<noteq> codes ! s"
    and "walk root p = Some t"
  shows "\<exists>t'. decode_bits root eos
            \<lparr>h_out = out, h_node = t, h_partialBits = n, h_partialAllOnes = a\<rparr> q =
          Inr \<lparr>h_out = out, h_node = t', h_partialBits = n + length q,
               h_partialAllOnes = (a \<and> list_all (\<lambda>b. b) q)\<rparr> \<and> walk root (p @ q) = Some t'"
  using assms(2,3,4)
proof (induction q arbitrary: p t n a)
  case Nil
  then show ?case by simp
next
  case (Cons b q)
  have pre: "prefix (p @ [b]) (codes ! s)" using Cons.prems(1) by (auto simp: prefix_def)
  then have "walk root (p @ [b]) \<noteq> None"
    using assms(1) nth_mem [OF assms(1)] walk_root_undefined by blast
  then obtain t1 where t1: "walk root (p @ [b]) = Some t1" by auto
  have ne: "p @ [b] \<noteq> codes ! s"
    using Cons.prems(1,2) by (auto simp: prefix_def)
  have "symbol t1 = None"
    using strict_prefix_no_symbol [OF assms(1), of "p @ [b]"] pre ne t1
    by (simp add: strict_prefix_def sym_at_def)
  moreover have "child t b = Some t1"
    using t1 Cons.prems(3) by (simp add: walk_append split: option.splits)
  ultimately have step: "decode_bit root eos
      \<lparr>h_out = out, h_node = t, h_partialBits = n, h_partialAllOnes = a\<rparr> b =
      Inr \<lparr>h_out = out, h_node = t1, h_partialBits = n + 1, h_partialAllOnes = (a \<and> b)\<rparr>"
    by (simp add: decode_bit_def Let_def)
  from Cons.IH [of "p @ [b]" t1 "n + 1" "a \<and> b"] Cons.prems t1 step show ?case
    by (auto simp: conj_assoc)
qed

lemma decode_word:
  assumes "s < length codes" and "s \<noteq> eos"
  shows "decode_bits root eos
           \<lparr>h_out = out, h_node = root, h_partialBits = 0, h_partialAllOnes = True\<rparr> (codes ! s @ rest) =
         decode_bits root eos
           \<lparr>h_out = out @ [s], h_node = root, h_partialBits = 0, h_partialAllOnes = True\<rparr> rest"
proof -
  have "codes ! s \<noteq> []" using nonempty assms(1) nth_mem by metis
  then obtain p b where pb: "codes ! s = p @ [b]" by (metis rev_exhaust)
  from decode_partial [OF assms(1), of "[]" p root out 0 True] pb obtain t where
    t: "decode_bits root eos
          \<lparr>h_out = out, h_node = root, h_partialBits = 0, h_partialAllOnes = True\<rparr> p =
        Inr \<lparr>h_out = out, h_node = t, h_partialBits = length p, h_partialAllOnes = list_all (\<lambda>b. b) p\<rparr>"
       "walk root p = Some t" by auto
  have "sym_at root (codes ! s) = Some s" using assms(1) by (simp add: sym_at_root)
  then obtain t' where "walk root (p @ [b]) = Some t'" "symbol t' = Some s"
    by (auto simp: sym_at_def pb bind_eq_Some_conv)
  with t(2) have c: "child t b = Some t'" "symbol t' = Some s"
    by (auto simp: walk_append split: option.splits)
  show ?thesis
    using assms(2) by (simp add: pb decode_bits_append t(1) decode_bit_def Let_def c)
qed

lemma decode_words:
  assumes "\<forall>s \<in> set ss. s < length codes \<and> s \<noteq> eos"
  shows "decode_bits root eos
           \<lparr>h_out = out, h_node = root, h_partialBits = 0, h_partialAllOnes = True\<rparr>
           (concat (map ((!) codes) ss) @ rest) =
         decode_bits root eos
           \<lparr>h_out = out @ ss, h_node = root, h_partialBits = 0, h_partialAllOnes = True\<rparr> rest"
  using assms by (induction ss arbitrary: out) (simp_all add: decode_word)

text \<open>What a successful run has read: the words of its output and a partial word.\<close>

lemma decode_bits_read:
  assumes "decode_bits root eos (huffman_start root) xs = Inr s"
  shows "\<exists>p. xs = concat (map ((!) codes) (h_out s)) @ p \<and>
             (\<forall>o1 \<in> set (h_out s). o1 < length codes \<and> o1 \<noteq> eos) \<and>
             walk root p = Some (h_node s) \<and> h_partialBits s = length p \<and>
             h_partialAllOnes s = list_all (\<lambda>b. b) p"
  using assms
proof (induction xs arbitrary: s rule: rev_induct)
  case Nil
  then show ?case by (auto simp: huffman_start_def)
next
  case (snoc b xs)
  then obtain s0 where s0: "decode_bits root eos (huffman_start root) xs = Inr s0"
    "decode_bit root eos s0 b = Inr s"
    by (auto simp: decode_bits_append bind_result_Inr_iff)
  from snoc.IH [OF s0(1)] obtain p where p: "xs = concat (map ((!) codes) (h_out s0)) @ p"
    "\<forall>o1 \<in> set (h_out s0). o1 < length codes \<and> o1 \<noteq> eos" "walk root p = Some (h_node s0)"
    "h_partialBits s0 = length p" "h_partialAllOnes s0 = list_all (\<lambda>b. b) p" by auto
  from s0(2) obtain t where t: "child (h_node s0) b = Some t"
    by (auto simp: decode_bit_def throw_h2_def Let_def split: option.splits)
  with p(3) have w: "walk root (p @ [b]) = Some t" by (simp add: walk_append)
  show ?case
  proof (cases "symbol t")
    case None
    with s0(2) t p w show ?thesis
      by (intro exI [of _ "p @ [b]"]) (auto simp: decode_bit_def Let_def split: if_splits)
  next
    case (Some smb)
    with w have "sym_at root (p @ [b]) = Some smb" by (simp add: sym_at_def)
    then have "smb < length codes" "p @ [b] = codes ! smb" by (simp_all add: sym_at_root)
    with Some s0(2) t p show ?thesis
      by (auto simp: decode_bit_def Let_def throw_h2_def split: if_splits)
  qed
qed

end

subsection \<open>The HPACK code is a prefix code\<close>


text \<open>
  Aligned to 30 bits, a code word is an interval of numbers (\<open>interval\<close>), and one word is a prefix
  of another only if their intervals overlap; the table's intervals are pairwise disjoint.
\<close>

definition bits_nat :: "bool list \<Rightarrow> nat" where
  "bits_nat p = foldl (\<lambda>a b. 2 * a + of_bool b) 0 p"

lemma bits_nat_append: "bits_nat (p @ q) = bits_nat p * 2 ^ length q + bits_nat q"
proof -
  have "foldl (\<lambda>a b. 2 * a + of_bool b) n q = n * 2 ^ length q + bits_nat q" for n
  proof (induction q arbitrary: n)
    case (Cons b q)
    have a: "bits_nat (b # q) = of_bool b * 2 ^ length q + bits_nat q"
      using Cons [of "of_bool b"] unfolding bits_nat_def [of "b # q"] by simp
    have b: "foldl (\<lambda>a b. 2 * a + of_bool b) n (b # q)
        = (2 * n + of_bool b) * 2 ^ length q + bits_nat q"
      using Cons [of "2 * n + of_bool b"] by simp
    show ?case unfolding a b by (simp add: distrib_right)
  qed (simp add: bits_nat_def)
  from this [of "bits_nat p"] show ?thesis by (simp add: bits_nat_def [of p] bits_nat_def [of "p @ q"])
qed

lemma bits_nat_less: "bits_nat p < 2 ^ length p"
proof (induction p rule: rev_induct)
  case (snoc b p)
  then show ?case by (auto simp: bits_nat_append bits_nat_def [of "[b]"])
qed (simp add: bits_nat_def)

lemma bits_nat_code_bits: "c < 2 ^ n \<Longrightarrow> bits_nat (code_bits (c, n)) = c"
proof (induction n arbitrary: c)
  case 0
  then show ?case by (simp add: code_bits_def bits_nat_def)
next
  case (Suc n)
  have low: "drop_bit i (c mod 2 ^ n) AND 1 = drop_bit i c AND 1" if "i < n" for i
    using that bit_take_bit_iff [of n c i]
    by (simp add: and_one_eq mod_2_eq_odd take_bit_eq_mod flip: bit_iff_odd_drop_bit)
  have "code_bits (c mod 2 ^ n, n) = map (\<lambda>i. drop_bit i c AND 1 \<noteq> 0) (rev [0..<n])"
    unfolding code_bits_def fst_conv snd_conv by (rule map_cong [OF refl]) (use low in simp)
  then have split: "code_bits (c, Suc n) = (drop_bit n c AND 1 \<noteq> 0) # code_bits (c mod 2 ^ n, n)"
    by (simp add: code_bits_def)
  have len: "length (code_bits (c mod 2 ^ n, n)) = n" by (simp add: code_bits_def)
  have "c div 2 ^ n < 2" using Suc.prems by (simp add: less_mult_imp_div_less)
  then have "of_bool (drop_bit n c AND 1 \<noteq> 0) = c div 2 ^ n"
    by (auto simp: drop_bit_eq_div and_one_eq)
  with bits_nat_append [of "[drop_bit n c AND 1 \<noteq> 0]" "code_bits (c mod 2 ^ n, n)"]
    Suc.IH [of "c mod 2 ^ n"] div_mult_mod_eq [of c "2 ^ n"] show ?case
    by (simp add: split len bits_nat_def [of "[_]"])
qed

lemma prefix_overlap:
  assumes "prefix (code_bits (c, n)) (code_bits (d, k))" and "c < 2 ^ n" and "d < 2 ^ k" and "k \<le> 30"
  shows "\<not> apart (interval (c, n)) (interval (d, k))"
proof -
  from assms(1) obtain q where q: "code_bits (d, k) = code_bits (c, n) @ q" by (auto simp: prefix_def)
  have lens: "length (code_bits (c, n)) = n" "length (code_bits (d, k)) = k"
    by (simp_all add: code_bits_def)
  with q have k: "k = n + length q" by (metis length_append)
  have d: "d = c * 2 ^ length q + bits_nat q"
    using bits_nat_append [of "code_bits (c, n)" q] bits_nat_code_bits [OF assms(2)]
      bits_nat_code_bits [OF assms(3)] q by simp
  define m where "m = 30 - k"
  have e: "(2 :: nat) ^ (30 - n) = 2 ^ length q * 2 ^ m"
    using k assms(4) by (simp add: m_def flip: power_add)
  have lo: "c * 2 ^ (30 - n) \<le> d * 2 ^ m" by (simp add: e d algebra_simps)
  have "bits_nat q + 1 \<le> 2 ^ length q" using bits_nat_less [of q] by simp
  then have "d + 1 \<le> (c + 1) * 2 ^ length q" by (simp add: d)
  then have hi: "(d + 1) * 2 ^ m \<le> (c + 1) * 2 ^ (30 - n)"
    unfolding e by (metis mult.assoc mult_le_mono1)
  have "d * 2 ^ m < (d + 1) * 2 ^ m" by simp
  with lo hi have "d * 2 ^ m < (c + 1) * 2 ^ (30 - n)" "c * 2 ^ (30 - n) < (d + 1) * 2 ^ m"
    by linarith+
  then show ?thesis by (simp add: interval_def m_def [symmetric] not_le)
qed

lemma apart_sym: "apart x y \<Longrightarrow> apart y x"
  by (cases x; cases y) auto

lemma disjoint_nth:
  assumes "disj xs" and "i < length xs" and "j < length xs" and "i \<noteq> j"
  shows "apart (xs ! i) (xs ! j)"
  using assms
proof (induction xs arbitrary: i j)
  case (Cons x xs)
  show ?case
    using Cons.prems Cons.IH [of "i - 1" "j - 1"]
    by (cases i; cases j) (auto simp: list_all_iff intro: apart_sym)
qed simp

lemma code_entry:
  assumes "i < 257" and "HUFFMAN_CODES ! i = (c, n)"
  shows "c < 2 ^ n" "0 < n" "n \<le> 30"
proof -
  have "(c, n) \<in> set HUFFMAN_CODES" using assms length_HUFFMAN_CODES nth_mem by metis
  with HUFFMAN_CODES_ok show "c < 2 ^ n" "0 < n" "n \<le> 30" by (auto simp: list_all_iff)
qed

interpretation hpack_code: prefix_code "map code_bits HUFFMAN_CODES" ROOT HUFFMAN_EOS
proof unfold_locales
  show "ROOT = build_loop 0 (map code_bits HUFFMAN_CODES) empty_node"
    by (simp add: ROOT_def buildTrie_def)
next
  fix i j
  assume "i < length (map code_bits HUFFMAN_CODES)" "j < length (map code_bits HUFFMAN_CODES)"
    and pre: "prefix (map code_bits HUFFMAN_CODES ! i) (map code_bits HUFFMAN_CODES ! j)"
  then have ij: "i < 257" "j < 257" by (simp_all add: length_HUFFMAN_CODES)
  obtain c n d k where e: "HUFFMAN_CODES ! i = (c, n)" "HUFFMAN_CODES ! j = (d, k)"
    by (metis surj_pair)
  from pre ij have "prefix (code_bits (c, n)) (code_bits (d, k))"
    by (simp add: e length_HUFFMAN_CODES)
  from prefix_overlap [OF this] code_entry [OF ij(1) e(1)] code_entry [OF ij(2) e(2)]
  have "\<not> apart (interval (c, n)) (interval (d, k))" by simp
  with disjoint_nth [OF HUFFMAN_CODES_disjoint, of i j] ij show "i = j"
    by (auto simp: length_HUFFMAN_CODES e)
next
  have "length (code_bits e) = snd e" for e by (simp add: code_bits_def)
  then have "code_bits e \<noteq> []" if "e \<in> set HUFFMAN_CODES" for e
  proof -
    have "0 < snd e" using HUFFMAN_CODES_ok that by (auto simp: list_all_iff)
    then show ?thesis using \<open>\<And>e. length (code_bits e) = snd e\<close> [of e] by auto
  qed
  then show "[] \<notin> set (map code_bits HUFFMAN_CODES)" by force
qed

lemma cw_nth: "s < 257 \<Longrightarrow> map code_bits HUFFMAN_CODES ! s = cw s"
  by (simp add: cw_def code_of_def length_HUFFMAN_CODES)

lemma map_cw_nth:
  "\<forall>s \<in> set ss. s < 257 \<Longrightarrow> map ((!) (map code_bits HUFFMAN_CODES)) ss = map cw ss"
  using cw_nth by simp

lemma cw_eos: "cw HUFFMAN_EOS = replicate 30 True"
proof (rule nth_equalityI)
  have e: "code_of HUFFMAN_EOS = (2 ^ 30 - 1, 30)" using HUFFMAN_CODES_eos by (simp add: code_of_def)
  then show "length (cw HUFFMAN_EOS) = length (replicate 30 True)" by (simp add: length_cw)
  fix i assume "i < length (cw HUFFMAN_EOS)"
  then have i: "i < 30" using e by (simp add: length_cw)
  have "bit (mask 30 :: nat) k" if "k < 30" for k
    using that by (simp only: bit_mask_iff) simp
  then have m: "drop_bit k (mask 30 :: nat) AND 1 \<noteq> 0" if "k < 30" for k
    using that by (simp only: and_one_eq mod_2_eq_odd bit_iff_odd_drop_bit) simp
  have "cw HUFFMAN_EOS ! i \<longleftrightarrow> drop_bit (29 - i) (mask 30 :: nat) AND 1 \<noteq> 0"
    using i by (simp add: cw_def e code_bits_def rev_nth mask_eq_exp_minus_1)
  with m [of "29 - i"] i show "cw HUFFMAN_EOS ! i = replicate 30 True ! i" by simp
qed

subsection \<open>Decoding inverts encoding\<close>

lemma word_bits_words: "word_bits bs = concat (map ((!) (map code_bits HUFFMAN_CODES)) (map unat bs))"
proof -
  have "\<forall>s \<in> set (map unat bs). s < 257"
    using unat_byte_less by (auto intro: less_trans)
  have "word_bits bs = concat (map cw (map unat bs))" by (simp add: word_bits_def comp_def)
  with map_cw_nth [OF \<open>\<forall>s \<in> set (map unat bs). s < 257\<close>] show ?thesis by (simp only:)
qed

lemma decode_padding:
  assumes "k < 8"
  shows "\<exists>t. decode_bits ROOT HUFFMAN_EOS
      \<lparr>h_out = out, h_node = ROOT, h_partialBits = 0, h_partialAllOnes = True\<rparr> (replicate k True) =
    Inr \<lparr>h_out = out, h_node = t, h_partialBits = k, h_partialAllOnes = True\<rparr>"
proof -
  have eos: "map code_bits HUFFMAN_CODES ! HUFFMAN_EOS = replicate 30 True"
    using cw_nth [of HUFFMAN_EOS] cw_eos by (simp add: HUFFMAN_EOS_def)
  have "replicate 30 True = replicate k True @ replicate (30 - k) True"
    using assms by (simp flip: replicate_add)
  then have "prefix (replicate k True) (replicate 30 True)" by (metis prefixI)
  with hpack_code.decode_partial [of HUFFMAN_EOS "[]" "replicate k True" ROOT out 0 True] eos assms
  show ?thesis
    by (auto simp: HUFFMAN_EOS_def length_HUFFMAN_CODES replicate_eq_replicate list_all_iff)
qed

lemma huffmanDecode_encode: "huffmanDecode (huffmanEncode bs) = Inr bs"
proof -
  from huffmanEncode_bits(1) [of bs] obtain k where
    k: "k < 8" "bits_of (huffmanEncode bs) = word_bits bs @ replicate k True" by blast
  have syms: "\<forall>s \<in> set (map unat bs). s < length (map code_bits HUFFMAN_CODES) \<and> s \<noteq> HUFFMAN_EOS"
  proof
    fix s assume "s \<in> set (map unat bs)"
    then obtain b :: byte where "s = unat b" by auto
    then show "s < length (map code_bits HUFFMAN_CODES) \<and> s \<noteq> HUFFMAN_EOS"
      using unat_byte_less [of b] by (simp only: length_map length_HUFFMAN_CODES HUFFMAN_EOS_def) linarith
  qed
  have "map (of_nat \<circ> unat) bs = bs" by (simp add: comp_def)
  with decode_padding [OF k(1), of "map unat bs"] k hpack_code.decode_words [OF syms, of "[]"]
  show ?thesis
    by (auto simp: huffmanDecode_def huffman_start_def word_bits_words)
qed

lemma all_ones_replicate: "list_all (\<lambda>b. b) p \<Longrightarrow> p = replicate (length p) True"
  by (induction p) auto

lemma huffmanEncode_unique:
  assumes "bits_of xs = word_bits bs @ replicate k True" and "k < 8"
  shows "xs = huffmanEncode bs"
proof -
  from huffmanEncode_bits(1) [of bs] obtain j where
    j: "j < 8" "bits_of (huffmanEncode bs) = word_bits bs @ replicate j True" by blast
  have "8 * length xs = length (word_bits bs) + k"
    using arg_cong [OF assms(1), of length] by simp
  moreover have "8 * length (huffmanEncode bs) = length (word_bits bs) + j"
    using arg_cong [OF j(2), of length] by simp
  ultimately have "k = j" using assms(2) j(1) by presburger
  with assms(1) j(2) show ?thesis by (simp add: bits_of_inject)
qed

lemma huffmanDecode_sound:
  assumes "huffmanDecode xs = Inr bs"
  shows "xs = huffmanEncode bs"
proof -
  from assms obtain s where
    s: "decode_bits ROOT HUFFMAN_EOS (huffman_start ROOT) (bits_of xs) = Inr s"
       "\<not> (h_node s \<noteq> ROOT \<and> (h_partialBits s > 7 \<or> \<not> h_partialAllOnes s))"
       "bs = map of_nat (h_out s)"
    by (auto simp: huffmanDecode_def bind_result_Inr_iff throw_h2_def split: if_splits)
  from hpack_code.decode_bits_read [OF s(1)] obtain p where
    p: "bits_of xs = concat (map ((!) (map code_bits HUFFMAN_CODES)) (h_out s)) @ p"
       "\<forall>y \<in> set (h_out s). y < 257 \<and> y \<noteq> HUFFMAN_EOS"
       "walk ROOT p = Some (h_node s)" "h_partialBits s = length p"
       "h_partialAllOnes s = list_all (\<lambda>b. b) p"
    by (auto simp: length_HUFFMAN_CODES)
  have "map unat bs = h_out s"
    using p(2) by (auto simp: s(3) unat_of_nat_byte HUFFMAN_EOS_def intro!: map_idI)
  with p(1) have bits: "bits_of xs = word_bits bs @ p" by (simp add: word_bits_words)
  have "length p < 8 \<and> list_all (\<lambda>b. b) p"
  proof (cases "p = []")
    case False
    with walk_not_root [OF p(3)] s(2) p(4,5) show ?thesis by auto
  qed simp
  with bits all_ones_replicate [of p] huffmanEncode_unique [of xs bs "length p"]
  show ?thesis by simp
qed

subsection \<open>Properties\<close>

text \<open>C20: The Huffman decoder accepts exactly the encoder's outputs and inverts it: an octet string
  decodes to \<open>bs\<close> if and only if it is the encoding of \<open>bs\<close>. Decoding a valid string never fails,
  and no other string (a wrong padding, an embedded end-of-string code, a code outside the table)
  is accepted.\<close>

theorem huffman_exact: "huffmanDecode xs = Inr bs \<longleftrightarrow> xs = huffmanEncode bs"
  using huffmanDecode_encode huffmanDecode_sound by blast

text \<open>The encoder's choice between the raw and the Huffman form is right: \<^verbatim>\<open>huffmanShorter\<close>,
  computed from the code lengths alone, holds exactly when the encoded octets are fewer than the
  input's.\<close>

theorem huffmanShorter_correct: "huffmanShorter bs \<longleftrightarrow> length (huffmanEncode bs) < length bs"
  by (rule huffmanShorter_iff)

end
