(* ===== verification/Hpack_Coding.thy ===== *)
theory Hpack_Coding
  imports Utf8 Huffman
begin

unbundle bit_operations_syntax

text \<open>
  The primitive codings of \<^verbatim>\<open>web/src/h2/hpack/hpack.ts\<close>: prefix integers (RFC 7541, section 5.1) and
  strings (section 5.2), written as sequences of \<^verbatim>\<open>ByteWriter\<close> calls and read through the
  \<^verbatim>\<open>ByteReader\<close>.

  The locale \<open>wire_format\<close> is the contract between such a pair: what the reader returns, and how
  far it moves, when the unread bytes start with a written value. Prefix integers (for each
  prefix width and flag bits) and strings are instances of it.
\<close>

lemma bind_result_cong [fundef_cong]:
  "m = m' \<Longrightarrow> (\<And>x. m' = Inr x \<Longrightarrow> f x = g x) \<Longrightarrow> bind_result m f = bind_result m' g"
  by (cases m') simp_all

subsection \<open>Prefix integers\<close>

fun write_rest :: "nat \<Rightarrow> wop list" where
  "write_rest rest =
     (if rest \<ge> 128 then U8 (rest mod 128 + 128) # write_rest (rest div 128) else [U8 rest])"

declare write_rest.simps [simp del]

definition writeInteger :: "nat \<Rightarrow> nat \<Rightarrow> nat \<Rightarrow> wop list" where
  "writeInteger value prefixBits firstByteFlags =
     (let max = push_bit prefixBits 1 - 1 in
      if value < max then [U8 (firstByteFlags OR value)]
      else U8 (firstByteFlags OR max) # write_rest (value - max))"

function read_rest :: "byte_reader \<Rightarrow> nat \<Rightarrow> nat \<Rightarrow> (nat \<times> byte_reader) result" where
  "read_rest r val0 shift =
     bind_result (br_u8 r) (\<lambda>(b, r').
       let val1 = val0 + (b AND 0x7F) * 2 ^ shift;
           shift' = shift + 7
       in if shift' > 42 then throw_h2 COMPRESSION_ERROR
          else if b AND 0x80 \<noteq> 0 then read_rest r' val1 shift'
          else Inr (val1, r'))"
  by pat_completeness auto
termination by (relation "measure (\<lambda>(r, v, shift). 50 - shift)") auto

declare read_rest.simps [simp del]

definition readInteger :: "byte_reader \<Rightarrow> nat \<Rightarrow> (nat \<times> byte_reader) result" where
  "readInteger r prefixBits =
     (let max = push_bit prefixBits 1 - 1 in
      bind_result (br_u8 r) (\<lambda>(b, r').
        let val0 = b AND max in
        if val0 < max then Inr (val0, r') else read_rest r' val0 0))"

subsection \<open>Strings\<close>

definition writeString :: "jsstring \<Rightarrow> wop list" where
  "writeString s =
     (let raw = encodeUtf8 s in
      if huffmanShorter raw
      then (let encoded = huffmanEncode raw in writeInteger (length encoded) 7 0x80 @ [Put encoded])
      else writeInteger (length raw) 7 0x00 @ [Put raw])"

definition readString :: "byte_reader \<Rightarrow> (jsstring \<times> byte_reader) result" where
  "readString r =
     bind_result (br_peek r) (\<lambda>b.
       let huffman = (b AND 0x80 \<noteq> 0) in
       bind_result (readInteger r 7) (\<lambda>(n, r1).
         if int n > br_remaining r1 then throw_h2 COMPRESSION_ERROR
         else (case br_bytes r1 n of
                 (bytes, r2) \<Rightarrow>
                   bind_result (if huffman then huffmanDecode bytes else Inr bytes)
                     (\<lambda>raw. Inr (decodeUtf8 raw, r2)))))"

subsection \<open>Facts: masks\<close>

lemma and_mask_nat: "(n :: nat) AND (push_bit p 1 - 1) = n mod 2 ^ p"
proof -
  have "push_bit p 1 - 1 = (mask p :: nat)" by (simp add: push_bit_eq_mult mask_eq_exp_minus_1)
  then show ?thesis by (simp only: take_bit_eq_mod flip: take_bit_eq_mask)
qed

lemma and_7F: "(n :: nat) AND 0x7F = n mod 128"
  using and_mask_nat [of n 7] by (simp add: push_bit_eq_mult)

lemma and_pow2_bit: "(n :: nat) AND 2 ^ k \<noteq> 0 \<longleftrightarrow> odd (n div 2 ^ k)"
proof -
  have "n AND 2 ^ k = push_bit k (drop_bit k n AND 1)"
    by (intro bit_eqI) (auto simp: bit_and_iff bit_exp_iff bit_push_bit_iff bit_1_iff bit_drop_bit_eq
        simp del: even_drop_bit_iff_not_bit simp flip: bit_iff_odd_drop_bit)
  also have "\<dots> \<noteq> 0 \<longleftrightarrow> odd (n div 2 ^ k)"
    by (simp add: push_bit_eq_mult and_one_eq drop_bit_eq_div mod_2_eq_odd)
  finally show ?thesis .
qed

lemma and_80: "b < 256 \<Longrightarrow> (b :: nat) AND 0x80 \<noteq> 0 \<longleftrightarrow> b \<ge> 128"
proof -
  assume "b < 256"
  then have "b div 128 < 2" by simp
  then have "odd (b div 128) \<longleftrightarrow> b div 128 = 1" by (auto simp: less_2_cases_iff)
  also have "\<dots> \<longleftrightarrow> b \<ge> 128" using \<open>b < 256\<close> by auto
  finally show ?thesis using and_pow2_bit [of b 7] by simp
qed

lemma or_flags: "v < 2 ^ p \<Longrightarrow> f * 2 ^ p OR v = f * 2 ^ p + (v :: nat)"
  using or_disjoint_add [of v p f] by (simp add: push_bit_eq_mult)

subsection \<open>Facts: integers\<close>

lemma br_first:
  assumes "unread r = of_nat n # bs" and "n < 256"
  shows "br_u8 r = Inr (n, advance r 1)" "br_peek r = Inr n"
proof -
  have "unat (of_nat n :: byte) = n" using assms(2) by (simp only: unat_of_nat_byte mod_less)
  with br_u8_Cons [OF assms(1)] br_peek_Cons [OF assms(1)]
  show "br_u8 r = Inr (n, advance r 1)" "br_peek r = Inr n" by simp_all
qed

abbreviation emits :: "wop list \<Rightarrow> byte list" where
  "emits ops \<equiv> concat (map emit ops)"

lemma read_rest_write_rest:
  assumes "rest < 128 ^ k" and "0 < k" and "shift + 7 * k \<le> 42"
    and "unread r = emits (write_rest rest) @ tail"
  shows "read_rest r val0 shift =
    Inr (val0 + rest * 2 ^ shift, advance r (length (emits (write_rest rest))))"
  using assms
proof (induction k arbitrary: rest shift r val0)
  case 0
  then show ?case by simp
next
  case (Suc k)
  show ?case
  proof (cases "rest \<ge> 128")
    case False
    then have w: "write_rest rest = [U8 rest]" by (subst write_rest.simps) simp
    with Suc.prems(4) have "unread r = of_nat rest # tail" by simp
    from br_u8_Cons [OF this] False have "br_u8 r = Inr (rest, advance r 1)"
      by (simp add: unat_of_nat_byte)
    with False Suc.prems(3) show ?thesis
      using and_80 [of rest] by (subst read_rest.simps) (simp add: w and_7F)
  next
    case True
    let ?b = "rest mod 128 + 128"
    from True have w: "write_rest rest = U8 ?b # write_rest (rest div 128)"
      by (subst write_rest.simps) simp
    from Suc.prems(4) have u: "unread r = of_nat ?b # (emits (write_rest (rest div 128)) @ tail)"
      by (simp add: w del: of_nat_add)
    have b: "?b < 256" by (metis add_less_mono1 mod_less_divisor numeral_Bit0 zero_less_numeral)
    note rd = br_first(1) [OF u b]
    have k: "0 < k" using True Suc.prems(1) by (cases k) auto
    have "rest div 128 < 128 ^ k" using Suc.prems(1) by (simp add: less_mult_imp_div_less mult.commute)
    from Suc.IH [OF this k, of "shift + 7" "advance r 1" "val0 + (?b AND 0x7F) * 2 ^ shift"] Suc.prems(3) u
    have IH: "read_rest (advance r 1) (val0 + (?b AND 0x7F) * 2 ^ shift) (shift + 7) =
        Inr (val0 + (?b AND 0x7F) * 2 ^ shift + rest div 128 * 2 ^ (shift + 7),
             advance (advance r 1) (length (emits (write_rest (rest div 128)))))" by simp
    have v: "(?b AND 0x7F) * 2 ^ shift + rest div 128 * 2 ^ (shift + 7) = rest * 2 ^ shift"
    proof -
      have "m * s + q * (s * 128) = (m + q * 128) * s" for m q s :: nat by (simp add: algebra_simps)
      from this [of "rest mod 128" "2 ^ shift" "rest div 128"]
      have "rest mod 128 * 2 ^ shift + rest div 128 * (2 ^ shift * 128) = rest * 2 ^ shift"
        by (simp only: mod_div_mult_eq)
      then show ?thesis by (simp only: and_7F power_add mod_add_self2 mod_mod_trivial) simp
    qed
    have "shift + 7 \<le> 42" using Suc.prems(3) by simp
    then have "read_rest r val0 shift =
        read_rest (advance r 1) (val0 + (?b AND 0x7F) * 2 ^ shift) (shift + 7)"
      using and_80 [OF b] by (subst read_rest.simps) (simp add: rd Let_def)
    with IH v show ?thesis by (simp add: w advance_def)
  qed
qed

lemma readInteger_writeInteger:
  assumes "v < 2 ^ p - 1 + 2 ^ 42" and "0 < p" and "(f + 1) * 2 ^ p \<le> 256"
    and "unread r = emits (writeInteger v p (f * 2 ^ p)) @ tail"
  shows "readInteger r p = Inr (v, advance r (length (emits (writeInteger v p (f * 2 ^ p)))))"
proof -
  let ?max = "2 ^ p - 1 :: nat"
  have max: "push_bit p 1 - 1 = ?max" by (simp add: push_bit_eq_mult)
  have lt: "f * 2 ^ p + x < 256" if "x < 2 ^ p" for x using assms(3) that by (simp add: algebra_simps)
  have md: "(f * 2 ^ p + x) mod 2 ^ p = x" if "x < 2 ^ p" for x using that by simp
  show ?thesis
  proof (cases "v < ?max")
    case True
    then have v: "v < 2 ^ p" by simp
    have w: "writeInteger v p (f * 2 ^ p) = [U8 (f * 2 ^ p + v)]"
      using True v by (simp add: writeInteger_def max or_flags)
    with assms(4) have "unread r = of_nat (f * 2 ^ p + v) # tail" by (simp del: of_nat_add)
    note rd = br_first(1) [OF this lt [OF v]]
    have "(f * 2 ^ p + v) AND ?max = v"
      using and_mask_nat [of "f * 2 ^ p + v" p] md [OF v] by (simp only: max)
    with True rd show ?thesis by (simp add: readInteger_def Let_def max w)
  next
    case False
    have m: "?max < 2 ^ p" by simp
    have w: "writeInteger v p (f * 2 ^ p) = U8 (f * 2 ^ p + ?max) # write_rest (v - ?max)"
      using False m by (simp add: writeInteger_def max or_flags)
    with assms(4) have u: "unread r = of_nat (f * 2 ^ p + ?max) # (emits (write_rest (v - ?max)) @ tail)"
      by (simp del: of_nat_add)
    note rd = br_first(1) [OF this lt [OF m]]
    have "v - ?max < 128 ^ 6" using assms(1) False by simp
    from read_rest_write_rest [OF this, of 0 "advance r 1" tail ?max] u
    have "read_rest (advance r 1) ?max 0 =
        Inr (?max + (v - ?max), advance (advance r 1) (length (emits (write_rest (v - ?max)))))" by simp
    moreover have "(f * 2 ^ p + ?max) AND ?max = ?max"
      using and_mask_nat [of "f * 2 ^ p + ?max" p] md [OF m] by (simp only: max)
    ultimately show ?thesis
      using False by (simp add: readInteger_def Let_def max w rd advance_def)
  qed
qed

lemma writeInteger_first:
  assumes "(f + 1) * 2 ^ p \<le> 256"
  shows "\<exists>x bs. x < 2 ^ p \<and> f * 2 ^ p + x < 256 \<and>
           emits (writeInteger v p (f * 2 ^ p)) = of_nat (f * 2 ^ p + x) # bs"
proof -
  have max: "push_bit p 1 - 1 = (2 ^ p - 1 :: nat)" by (simp add: push_bit_eq_mult)
  have "f * 2 ^ p + x < 256" if "x < 2 ^ p" for x using assms that by (simp add: algebra_simps)
  note lt = this
  show ?thesis
  proof (cases "v < 2 ^ p - 1")
    case True
    then show ?thesis using lt [of v]
      by (intro exI [of _ v] exI [of _ "[]"]) (simp add: writeInteger_def max or_flags)
  next
    case False
    have m: "2 ^ p - 1 < (2 ^ p :: nat)" by simp
    show ?thesis using False lt [OF m] or_flags [OF m, of f]
      by (intro exI [of _ "2 ^ p - 1"] exI [of _ "emits (write_rest (v - (2 ^ p - 1)))"])
         (simp only: writeInteger_def Let_def max if_False emit.simps list.map concat.simps m append.simps simp_thms)
  qed
qed

subsection \<open>Facts: what a reader consumes\<close>

lemma br_u8_Inr:
  "br_u8 r = Inr (b, r') \<longleftrightarrow> (\<exists>x xs. unread r = x # xs \<and> b = unat x \<and> r' = advance r 1)"
  by (cases "unread r") (auto simp: br_u8_def br_get_pos)

lemma advance_advance [simp]: "advance (advance r a) b = advance r (a + b)"
  by (simp add: advance_def)

lemma read_rest_advances:
  "read_rest r v shift = Inr (x, r') \<Longrightarrow>
   \<exists>n. r' = advance r n \<and> 0 < n \<and> n \<le> length (unread r) \<and> x + 2 ^ shift \<le> v + 2 ^ 42"
proof (induction r v shift arbitrary: x r' rule: read_rest.induct)
  case (1 r v shift)
  from "1.prems" obtain b r1 where b: "br_u8 r = Inr (b, r1)" and sh: "\<not> 42 < shift + 7"
    by (subst (asm) read_rest.simps) (auto simp: bind_result_Inr_iff throw_h2_def Let_def split: if_splits)
  from b obtain y ys where y: "unread r = y # ys" "b = unat y" "r1 = advance r 1"
    by (auto simp: br_u8_Inr)
  let ?v = "v + (b AND 0x7F) * 2 ^ shift"
  have step: "b mod 128 * 2 ^ shift + 2 ^ shift \<le> 2 ^ (shift + 7)"
  proof -
    have "b mod 128 + 1 \<le> 128" by (simp add: Suc_leI)
    then have "(b mod 128 + 1) * 2 ^ shift \<le> 128 * 2 ^ shift" by (rule mult_le_mono1)
    then show ?thesis by (simp add: power_add)
  qed
  have pow: "(2 :: nat) ^ (shift + 7) \<le> 2 ^ 42" using sh by (intro power_increasing) auto
  show ?case
  proof (cases "b AND 0x80 \<noteq> 0")
    case False
    with "1.prems" b sh have "x = ?v" "r' = r1"
      by (subst (asm) read_rest.simps, simp add: Let_def)+
    then show ?thesis using y step pow by (intro exI [of _ 1]) (simp add: and_7F)
  next
    case True
    with "1.prems" b sh have "read_rest r1 ?v (shift + 7) = Inr (x, r')"
      by (subst (asm) read_rest.simps) (simp add: Let_def)
    from "1.IH" [OF b refl refl refl sh True this]
    obtain n where "r' = advance r1 n" "0 < n" "n \<le> length (unread r1)"
      "x + 2 ^ (shift + 7) \<le> ?v + 2 ^ 42" by auto
    then show ?thesis using y step by (intro exI [of _ "Suc n"]) (simp add: and_7F)
  qed
qed

lemma readInteger_advances:
  assumes "readInteger r p = Inr (x, r')"
  shows "\<exists>n. r' = advance r n \<and> 0 < n \<and> n \<le> length (unread r) \<and> x < 2 ^ p + 2 ^ 42"
proof -
  have max: "push_bit p 1 - 1 = (2 ^ p - 1 :: nat)" by (simp add: push_bit_eq_mult)
  from assms obtain b r1 where b: "br_u8 r = Inr (b, r1)"
    by (auto simp: readInteger_def bind_result_Inr_iff Let_def)
  then obtain y ys where y: "unread r = y # ys" "r1 = advance r 1" by (auto simp: br_u8_Inr)
  let ?v = "b AND (2 ^ p - 1)"
  have v: "?v < 2 ^ p" using and_mask_nat [of b p] by (simp only: max) simp
  show ?thesis
  proof (cases "?v < 2 ^ p - 1")
    case True
    with assms b have "x = ?v" "r' = r1" by (simp_all add: readInteger_def Let_def max)
    with v y show ?thesis by (intro exI [of _ 1]) simp
  next
    case False
    with assms b have "read_rest r1 ?v 0 = Inr (x, r')" by (simp add: readInteger_def Let_def max)
    from read_rest_advances [OF this] obtain n where
      "r' = advance r1 n" "0 < n" "n \<le> length (unread r1)" "x + 2 ^ 0 \<le> ?v + 2 ^ 42" by auto
    with v y show ?thesis by (intro exI [of _ "Suc n"]) simp
  qed
qed

lemma br_remaining_unread: "r_cursor r \<le> length (r_buf r) \<Longrightarrow> br_remaining r = int (length (unread r))"
  by (simp add: br_remaining_def unread_def)

lemma advance_in_range:
  "n \<le> length (unread r) \<Longrightarrow> r_cursor r \<le> length (r_buf r) \<Longrightarrow>
   r_cursor (advance r n) \<le> length (r_buf (advance r n))"
  by (simp add: advance_def unread_def)

lemma readString_advances:
  assumes "readString r = Inr (s, r')" and "r_cursor r \<le> length (r_buf r)"
  shows "\<exists>n. r' = advance r n \<and> 0 < n \<and> n \<le> length (unread r)"
proof -
  from assms(1) obtain k r1 where k: "readInteger r 7 = Inr (k, r1)" "\<not> int k > br_remaining r1"
    "r' = advance r1 k"
    by (auto simp: readString_def bind_result_Inr_iff Let_def throw_h2_def br_bytes_unread
        split: if_splits)
  from readInteger_advances [OF k(1)] obtain n where
    n: "r1 = advance r n" "0 < n" "n \<le> length (unread r)" by auto
  have "k \<le> length (unread r1)"
    using k(2) br_remaining_unread [of r1] advance_in_range [OF n(3) assms(2)] n(1) by simp
  with n k(3) show ?thesis by (intro exI [of _ "n + k"]) auto
qed

subsection \<open>The format contract\<close>

text \<open>
  \<open>put x\<close> are the bytes written for \<open>x\<close>, \<open>get\<close> the reader; on the values in \<open>ok\<close>, \<open>get\<close> reads back
  \<open>x\<close> whatever follows and stops right behind it.
\<close>

locale wire_format =
  fixes put :: "'a \<Rightarrow> byte list"
    and get :: "byte_reader \<Rightarrow> ('a \<times> byte_reader) result"
    and ok :: "'a \<Rightarrow> bool"
  assumes get_put: "ok x \<Longrightarrow> r_cursor r \<le> length (r_buf r) \<Longrightarrow> unread r = put x @ tail \<Longrightarrow>
      get r = Inr (x, advance r (length (put x)))"
begin

lemma uniquely_decodable:
  assumes "ok x" and "ok y" and "put x @ a = put y @ b"
  shows "x = y \<and> a = b"
proof -
  let ?r = "new_ByteReader (put x @ a)"
  have c: "r_cursor ?r \<le> length (r_buf ?r)" by (simp add: new_ByteReader_def)
  have "get ?r = Inr (x, advance ?r (length (put x)))"
    using assms(1) c by (rule get_put) simp
  moreover have "get ?r = Inr (y, advance ?r (length (put y)))"
    using assms(2) c by (rule get_put) (simp add: assms(3))
  ultimately have "x = y" by simp
  with assms(3) show ?thesis by simp
qed

lemma get_new: "ok x \<Longrightarrow> get (new_ByteReader (put x @ tail)) =
    Inr (x, advance (new_ByteReader (put x @ tail)) (length (put x)))"
  by (rule get_put [where tail = tail]) (simp_all add: new_ByteReader_def unread_def)

end

definition int_ok :: "nat \<Rightarrow> nat \<Rightarrow> bool" where
  "int_ok p v \<longleftrightarrow> v < 2 ^ p - 1 + 2 ^ 42"

interpretation int7: wire_format "\<lambda>v. emits (writeInteger v 7 0x80)" "\<lambda>r. readInteger r 7" "int_ok 7"
  by unfold_locales (use readInteger_writeInteger [of _ 7 1] in \<open>simp add: int_ok_def\<close>)

interpretation int4: wire_format "\<lambda>v. emits (writeInteger v 4 0)" "\<lambda>r. readInteger r 4" "int_ok 4"
  by unfold_locales (use readInteger_writeInteger [of _ 4 0] in \<open>simp add: int_ok_def\<close>)

interpretation int4n: wire_format "\<lambda>v. emits (writeInteger v 4 0x10)" "\<lambda>r. readInteger r 4" "int_ok 4"
  by unfold_locales (use readInteger_writeInteger [of _ 4 1] in \<open>simp add: int_ok_def\<close>)

text \<open>The strings whose text survives: paired surrogates, no byte order mark in front, and a
  length the six-byte integer coding can carry.\<close>

definition string_ok :: "jsstring \<Rightarrow> bool" where
  "string_ok s \<longleftrightarrow> well_formed s \<and> (s = [] \<or> hd s \<noteq> 0xFEFF) \<and> length (encodeUtf8 s) < 2 ^ 42"

lemma readString_payload:
  assumes "f = 0 \<or> f = 1" and "unread r = emits (writeInteger (length bs) 7 (f * 2 ^ 7)) @ bs @ tail"
    and "length bs < 2 ^ 42" and "r_cursor r \<le> length (r_buf r)"
    and "(if f = 1 then huffmanDecode bs else Inr bs) = Inr raw"
  shows "readString r =
    Inr (decodeUtf8 raw, advance r (length (emits (writeInteger (length bs) 7 (f * 2 ^ 7))) + length bs))"
proof -
  let ?w = "emits (writeInteger (length bs) 7 (f * 2 ^ 7))"
  have f: "(f + 1) * 2 ^ 7 \<le> 256" using assms(1) by auto
  from writeInteger_first [OF f, of "length bs"] obtain x ys where
    x: "x < 2 ^ 7" "f * 2 ^ 7 + x < 256" "?w = of_nat (f * 2 ^ 7 + x) # ys" by blast
  have "unread r = of_nat (f * 2 ^ 7 + x) # (ys @ bs @ tail)"
    using assms(2) x(3) by (simp del: of_nat_add)
  from br_first(2) [OF this x(2)] have peek: "br_peek r = Inr (f * 2 ^ 7 + x)" .
  have huff: "(f * 2 ^ 7 + x) AND 0x80 \<noteq> 0 \<longleftrightarrow> f = 1"
    using and_80 [OF x(2)] x(1) assms(1) by auto
  have int: "readInteger r 7 = Inr (length bs, advance r (length ?w))"
    by (rule readInteger_writeInteger [OF _ _ f assms(2)]) (use assms(3) in simp_all)
  have rest: "unread (advance r (length ?w)) = bs @ tail" using assms(2) by simp
  then have take: "br_bytes (advance r (length ?w)) (length bs) = (bs, advance r (length ?w + length bs))"
    by (simp only: br_bytes_unread advance_advance) simp
  have "r_cursor (advance r (length ?w)) \<le> length (r_buf (advance r (length ?w)))"
    using assms(2,4) by (intro advance_in_range) simp_all
  then have "br_remaining (advance r (length ?w)) = int (length bs + length tail)"
    by (simp only: br_remaining_unread rest length_append)
  then show ?thesis
    using assms(5) huff
    by (simp add: readString_def peek int take [simplified] Let_def split del: if_split)
qed

interpretation str: wire_format "\<lambda>s. emits (writeString s)" readString string_ok
proof unfold_locales
  fix s r tail
  assume ok: "string_ok s" and cur: "r_cursor r \<le> length (r_buf r)"
    and u: "unread r = emits (writeString s) @ tail"
  let ?raw = "encodeUtf8 s"
  have raw: "length ?raw < 2 ^ 42" "decodeUtf8 ?raw = s"
    using ok decode_encode_utf8 [of s] by (auto simp: string_ok_def)
  show "readString r = Inr (s, advance r (length (emits (writeString s))))"
  proof (cases "huffmanShorter ?raw")
    case True
    then have w: "emits (writeString s) =
        emits (writeInteger (length (huffmanEncode ?raw)) 7 (1 * 2 ^ 7)) @ huffmanEncode ?raw"
      by (simp add: writeString_def Let_def)
    have "length (huffmanEncode ?raw) < 2 ^ 42" using True raw(1) by (simp add: huffmanShorter_iff)
    from readString_payload [OF _ _ this cur, of 1 tail ?raw] u raw(2) show ?thesis
      by (simp add: w huffmanDecode_encode)
  next
    case False
    then have w: "emits (writeString s) = emits (writeInteger (length ?raw) 7 (0 * 2 ^ 7)) @ ?raw"
      by (simp add: writeString_def Let_def)
    from readString_payload [OF _ _ raw(1) cur, of 0 tail ?raw] u raw(2) show ?thesis
      by (simp add: w)
  qed
qed

subsection \<open>Properties\<close>

text \<open>Prefix integers round-trip: for every prefix width from 1 to 8 bits and every flag pattern in
  the remaining high bits, reading a written integer gives it back and consumes exactly the bytes
  written, for all values up to \<open>2\<^sup>p - 1 + 2\<^sup>4\<^sup>2\<close> (the reader refuses a seventh continuation byte).\<close>

theorem hpack_integer_roundtrip:
  assumes "v < 2 ^ p - 1 + 2 ^ 42" and "0 < p" and "(f + 1) * 2 ^ p \<le> 256"
  shows "\<exists>bs. written 256 (writeInteger v p (f * 2 ^ p)) = Some bs \<and>
     readInteger (new_ByteReader (bs @ tail)) p =
       Inr (v, advance (new_ByteReader (bs @ tail)) (length bs))"
  using readInteger_writeInteger [OF assms] by (simp add: written_emit)

theorem hpack_integer_roundtrip_witness:
  "\<exists>bs. written 256 (writeInteger 1337 5 (1 * 2 ^ 5)) = Some bs \<and>
     readInteger (new_ByteReader (bs @ [7])) 5 =
       Inr (1337, advance (new_ByteReader (bs @ [7])) (length bs))"
  by (rule hpack_integer_roundtrip) simp_all

text \<open>The integer reader is bounded: whatever the bytes, a result is below \<open>2\<^sup>p + 2\<^sup>4\<^sup>2\<close> (so every
  later sum is exact in a double) and the reader has moved forward by at least one byte and not
  past the end.\<close>

theorem readInteger_bounded:
  assumes "readInteger r p = Inr (x, r')"
  shows "x < 2 ^ p + 2 ^ 42 \<and> (\<exists>n. r' = advance r n \<and> 0 < n \<and> n \<le> length (unread r))"
  using readInteger_advances [OF assms] by blast

theorem readInteger_bounded_witness:
  "(10 :: nat) < 2 ^ 5 + 2 ^ 42 \<and>
   (\<exists>n. advance (new_ByteReader [0x0A, 3]) 1 = advance (new_ByteReader [0x0A, 3]) n \<and> 0 < n \<and>
        n \<le> length (unread (new_ByteReader [0x0A, 3])))"
proof (rule readInteger_bounded)
  have "(10 :: nat) AND 31 = 10" using and_mask_nat [of 10 5] by (simp add: push_bit_eq_mult)
  then show "readInteger (new_ByteReader [0x0A, 3]) 5 = Inr (10, advance (new_ByteReader [0x0A, 3]) 1)"
    by (simp add: readInteger_def br_u8_Cons [OF unread_new] push_bit_eq_mult)
qed

end
