(* ===== verification/Hpack.thy ===== *)
theory Hpack
  imports Hpack_Coding "HOL-Library.Sublist"
begin

unbundle bit_operations_syntax

text \<open>
  \<^verbatim>\<open>web/src/h2/hpack/static-table.ts\<close> and the two classes of \<^verbatim>\<open>web/src/h2/hpack/hpack.ts\<close>:
  \<^verbatim>\<open>HpackDecoder\<close> with its dynamic table and its header budget, and the stateless
  \<^verbatim>\<open>HpackEncoder\<close>.

  A decoder operation returns the new decoder state together with its outcome, because the code
  has already changed the table when it throws. \<^verbatim>\<open>String.prototype.toLowerCase\<close> is a parameter of
  the encoder: the Unicode case tables belong to the platform, and the theorems hold for any such
  function. The locale \<open>bounded_table\<close> is the contract of a size-bounded table of entries: its
  contents are a function \<open>fit\<close> of the history, for a measure of entries; the decoder's table, with
  its running size counter and its eviction loops, implements it for the code's measure, the
  UTF-16 length. The table of RFC 7541, section 4, is the same function over octet strings with
  their octet count: the decoder's table is that one for ASCII entries and extends it otherwise.
\<close>

type_synonym header_entry = "jsstring \<times> jsstring"

definition STATIC_TABLE :: "header_entry list" where
  "STATIC_TABLE =
    [
     (js '':authority'', []),
     (js '':method'', js ''GET''),
     (js '':method'', js ''POST''),
     (js '':path'', js ''/''),
     (js '':path'', js ''/index.html''),
     (js '':scheme'', js ''http''),
     (js '':scheme'', js ''https''),
     (js '':status'', js ''200''),
     (js '':status'', js ''204''),
     (js '':status'', js ''206''),
     (js '':status'', js ''304''),
     (js '':status'', js ''400''),
     (js '':status'', js ''404''),
     (js '':status'', js ''500''),
     (js ''accept-charset'', []),
     (js ''accept-encoding'', js ''gzip, deflate''),
     (js ''accept-language'', []),
     (js ''accept-ranges'', []),
     (js ''accept'', []),
     (js ''access-control-allow-origin'', []),
     (js ''age'', []),
     (js ''allow'', []),
     (js ''authorization'', []),
     (js ''cache-control'', []),
     (js ''content-disposition'', []),
     (js ''content-encoding'', []),
     (js ''content-language'', []),
     (js ''content-length'', []),
     (js ''content-location'', []),
     (js ''content-range'', []),
     (js ''content-type'', []),
     (js ''cookie'', []),
     (js ''date'', []),
     (js ''etag'', []),
     (js ''expect'', []),
     (js ''expires'', []),
     (js ''from'', []),
     (js ''host'', []),
     (js ''if-match'', []),
     (js ''if-modified-since'', []),
     (js ''if-none-match'', []),
     (js ''if-range'', []),
     (js ''if-unmodified-since'', []),
     (js ''last-modified'', []),
     (js ''link'', []),
     (js ''location'', []),
     (js ''max-forwards'', []),
     (js ''proxy-authenticate'', []),
     (js ''proxy-authorization'', []),
     (js ''range'', []),
     (js ''referer'', []),
     (js ''refresh'', []),
     (js ''retry-after'', []),
     (js ''server'', []),
     (js ''set-cookie'', []),
     (js ''strict-transport-security'', []),
     (js ''transfer-encoding'', []),
     (js ''user-agent'', []),
     (js ''vary'', []),
     (js ''via'', []),
     (js ''www-authenticate'', [])
    ]"

definition STATIC_TABLE_LENGTH :: nat where
  "STATIC_TABLE_LENGTH = length STATIC_TABLE"

record header =
  hd_name :: jsstring
  hd_value :: jsstring
  hd_neverIndex :: bool

record header_limits =
  l_maxHeaderListBytes :: nat
  l_maxHeaderCount :: nat
  l_streamId :: "nat option"

definition ENTRY_OVERHEAD :: nat where "ENTRY_OVERHEAD = 32"
definition DEFAULT_TABLE_SIZE :: nat where "DEFAULT_TABLE_SIZE = 4096"

subsection \<open>Lookup maps\<close>

text \<open>The key of a pair: the name, a NUL code unit (a literal U+0000 in the template string) and the
  value.\<close>

definition pair_key :: "jsstring \<Rightarrow> jsstring \<Rightarrow> jsstring" where
  "pair_key name val = name @ [0] @ val"

fun static_maps ::
  "nat \<Rightarrow> header_entry list \<Rightarrow> (jsstring \<rightharpoonup> nat) \<Rightarrow> (jsstring \<rightharpoonup> nat) \<Rightarrow>
   (jsstring \<rightharpoonup> nat) \<times> (jsstring \<rightharpoonup> nat)" where
  "static_maps i [] names pairs = (names, pairs)"
| "static_maps i ((name, val) # es) names pairs =
     static_maps (Suc i) es
       (if names name = None then names(name \<mapsto> i + 1) else names)
       (pairs(pair_key name val \<mapsto> i + 1))"

definition staticNameToIndex :: "jsstring \<rightharpoonup> nat" where
  "staticNameToIndex = fst (static_maps 0 STATIC_TABLE (\<lambda>_. None) (\<lambda>_. None))"

definition staticPairToIndex :: "jsstring \<rightharpoonup> nat" where
  "staticPairToIndex = snd (static_maps 0 STATIC_TABLE (\<lambda>_. None) (\<lambda>_. None))"

subsection \<open>Decoder\<close>

record hpack_decoder =
  d_dynamic :: "header_entry list"
  d_size :: int
  d_maxSize :: nat
  d_protocolMax :: nat

definition new_HpackDecoder :: "nat \<Rightarrow> hpack_decoder" where
  "new_HpackDecoder maxSize =
     \<lparr>d_dynamic = [], d_size = 0, d_maxSize = maxSize, d_protocolMax = maxSize\<rparr>"

text \<open>\<^verbatim>\<open>length\<close> of a JavaScript string counts UTF-16 code units.\<close>

definition entry_size :: "header_entry \<Rightarrow> nat" where
  "entry_size e = length (fst e) + length (snd e) + ENTRY_OVERHEAD"

definition pop_entry :: "hpack_decoder \<Rightarrow> hpack_decoder" where
  "pop_entry d = d\<lparr>d_dynamic := butlast (d_dynamic d),
                   d_size := d_size d - int (entry_size (last (d_dynamic d)))\<rparr>"

function evict :: "nat \<Rightarrow> hpack_decoder \<Rightarrow> hpack_decoder" where
  "evict extra d =
     (if d_size d + int extra > int (d_maxSize d) \<and> length (d_dynamic d) > 0
      then evict extra (pop_entry d) else d)"
  by pat_completeness auto
termination by (relation "measure (\<lambda>(extra, d). length (d_dynamic d))") (auto simp: pop_entry_def)

declare evict.simps [simp del]

definition entryAt :: "hpack_decoder \<Rightarrow> nat \<Rightarrow> header_entry result" where
  "entryAt d index =
     (if index \<ge> 1 \<and> index \<le> STATIC_TABLE_LENGTH then Inr (STATIC_TABLE ! (index - 1))
      else let di = int index - int STATIC_TABLE_LENGTH - 1 in
           if 0 \<le> di \<and> di < int (length (d_dynamic d)) then Inr (d_dynamic d ! nat di)
           else throw_h2 COMPRESSION_ERROR)"

definition hpack_insert :: "hpack_decoder \<Rightarrow> jsstring \<Rightarrow> jsstring \<Rightarrow> hpack_decoder" where
  "hpack_insert d name val =
     (let entrySize = entry_size (name, val);
          d1 = evict entrySize d
      in if entrySize \<le> d_maxSize d1
         then d1\<lparr>d_dynamic := (name, val) # d_dynamic d1, d_size := d_size d1 + int entrySize\<rparr>
         else d1\<lparr>d_dynamic := [], d_size := 0\<rparr>)"

definition applyMaxSize :: "hpack_decoder \<Rightarrow> nat \<Rightarrow> hpack_decoder result" where
  "applyMaxSize d newSize =
     (if newSize > d_protocolMax d then throw_h2 COMPRESSION_ERROR
      else Inr (evict 0 (d\<lparr>d_maxSize := newSize\<rparr>)))"

definition setProtocolMaxSize :: "hpack_decoder \<Rightarrow> nat \<Rightarrow> hpack_decoder result" where
  "setProtocolMaxSize d n =
     (let d1 = d\<lparr>d_protocolMax := n\<rparr> in
      if d_maxSize d1 > n then applyMaxSize d1 n else Inr d1)"

record budget =
  b_headerListBytes :: nat
  b_fieldCount :: nat
  b_rejected :: bool

definition recordHeader ::
  "header_limits option \<Rightarrow> header_entry list \<times> budget \<Rightarrow> header_entry \<Rightarrow> header_entry list \<times> budget" where
  "recordHeader limits hb e =
     (let (headers, b) = hb in
      if b_rejected b then (headers, b)
      else let nextBytes = b_headerListBytes b + utf8Length (fst e) + utf8Length (snd e) + ENTRY_OVERHEAD;
               rejected = (case limits of
                   None \<Rightarrow> False
                 | Some l \<Rightarrow> b_fieldCount b \<ge> l_maxHeaderCount l \<or> nextBytes > l_maxHeaderListBytes l)
           in (if rejected then headers else headers @ [e],
               \<lparr>b_headerListBytes = nextBytes, b_fieldCount = b_fieldCount b + 1, b_rejected = rejected\<rparr>))"

text \<open>A literal: the name, indexed or in place, then the value.\<close>

definition read_literal ::
  "hpack_decoder \<Rightarrow> byte_reader \<Rightarrow> nat \<Rightarrow> (header_entry \<times> byte_reader) result" where
  "read_literal d r prefixBits =
     bind_result (readInteger r prefixBits) (\<lambda>(nameIndex, r1).
     bind_result (if nameIndex = 0 then readString r1
                  else bind_result (entryAt d nameIndex) (\<lambda>e. Inr (fst e, r1))) (\<lambda>(name, r2).
     bind_result (readString r2) (\<lambda>(val, r3). Inr ((name, val), r3))))"

text \<open>One turn of the loop of \<^verbatim>\<open>decode\<close>: the table afterwards, and the field read (none for a size
  update) or the exception.\<close>

definition decode_field ::
  "hpack_decoder \<Rightarrow> byte_reader \<Rightarrow> hpack_decoder \<times> (header_entry option \<times> byte_reader) result" where
  "decode_field d r =
     (case br_peek r of
        Inl e \<Rightarrow> (d, Inl e)
      | Inr first \<Rightarrow>
          if first AND 0x80 \<noteq> 0 then
            (d, bind_result (readInteger r 7) (\<lambda>(index, r1).
                  if index = 0 then throw_h2 COMPRESSION_ERROR
                  else bind_result (entryAt d index) (\<lambda>e. Inr (Some e, r1))))
          else if first AND 0x40 \<noteq> 0 then
            (case read_literal d r 6 of
               Inl e \<Rightarrow> (d, Inl e)
             | Inr (e, r1) \<Rightarrow> (hpack_insert d (fst e) (snd e), Inr (Some e, r1)))
          else if first AND 0x20 \<noteq> 0 then
            (case bind_result (readInteger r 5) (\<lambda>(n, r1).
                    bind_result (applyMaxSize d n) (\<lambda>d1. Inr (d1, r1))) of
               Inl e \<Rightarrow> (d, Inl e)
             | Inr (d1, r1) \<Rightarrow> (d1, Inr (None, r1)))
          else (d, bind_result (read_literal d r 4) (\<lambda>(e, r1). Inr (Some e, r1))))"

lemma br_remaining_advance: "br_remaining (advance r n) = br_remaining r - int n"
  by (simp add: br_remaining_def advance_def)

lemma read_literal_advances:
  assumes "read_literal d r p = Inr (e, r')" and "r_cursor r \<le> length (r_buf r)"
  shows "\<exists>n. r' = advance r n \<and> 0 < n \<and> n \<le> length (unread r)"
proof -
  from assms(1) obtain i r1 nm r2 v where
    i: "readInteger r p = Inr (i, r1)"
    and nm: "(if i = 0 then readString r1 else bind_result (entryAt d i) (\<lambda>e. Inr (fst e, r1))) = Inr (nm, r2)"
    and v: "readString r2 = Inr (v, r')"
    by (auto simp: read_literal_def bind_result_Inr_iff)
  from readInteger_advances [OF i] obtain n1 where
    n1: "r1 = advance r n1" "0 < n1" "n1 \<le> length (unread r)" by auto
  have c1: "r_cursor r1 \<le> length (r_buf r1)" using advance_in_range [OF n1(3) assms(2)] n1(1) by simp
  have "\<exists>n2. r2 = advance r1 n2 \<and> n2 \<le> length (unread r1)"
  proof (cases "i = 0")
    case True
    with nm readString_advances [OF _ c1] show ?thesis by fastforce
  next
    case False
    with nm have "r2 = advance r1 0" by (auto simp: bind_result_Inr_iff advance_def)
    then show ?thesis by blast
  qed
  then obtain n2 where n2: "r2 = advance r1 n2" "n2 \<le> length (unread r1)" by auto
  have c2: "r_cursor r2 \<le> length (r_buf r2)" using advance_in_range [OF n2(2) c1] n2(1) by simp
  from readString_advances [OF v c2] obtain n3 where
    "r' = advance r2 n3" "n3 \<le> length (unread r2)" by auto
  with n1 n2 show ?thesis by (intro exI [of _ "n1 + n2 + n3"]) auto
qed

lemma decode_field_advances:
  assumes "decode_field d r = (d', Inr (f, r'))" and "br_remaining r > 0"
  shows "\<exists>n. r' = advance r n \<and> 0 < n \<and> n \<le> length (unread r)"
proof -
  have c: "r_cursor r \<le> length (r_buf r)" using assms(2) by (simp add: br_remaining_def)
  from assms(1) consider i e where "readInteger r 7 = Inr (i, r')"
    | e where "read_literal d r 6 = Inr (e, r')"
    | i where "readInteger r 5 = Inr (i, r')"
    | e where "read_literal d r 4 = Inr (e, r')"
    by (auto simp: decode_field_def bind_result_Inr_iff throw_h2_def split: sum.splits if_splits)
  then show ?thesis
    by cases (use readInteger_advances read_literal_advances [OF _ c] in blast)+
qed

function decode_loop ::
  "header_limits option \<Rightarrow> hpack_decoder \<Rightarrow> byte_reader \<Rightarrow> header_entry list \<times> budget \<Rightarrow>
   hpack_decoder \<times> (header_entry list \<times> budget) result" where
  "decode_loop limits d r hb =
     (if br_remaining r > 0 then
        (case decode_field d r of
           (d1, Inl e) \<Rightarrow> (d1, Inl e)
         | (d1, Inr (f, r1)) \<Rightarrow>
             decode_loop limits d1 r1 (case f of None \<Rightarrow> hb | Some e \<Rightarrow> recordHeader limits hb e))
      else (d, Inr hb))"
  by pat_completeness auto
termination
proof (relation "measure (\<lambda>(limits, d, r, hb). nat (br_remaining r))")
  fix limits d r hb d1 res x f r1
  assume "br_remaining r > 0" and "(d1, res) = decode_field d r" and "res = Inr x" and "(f, r1) = x"
  then have "decode_field d r = (d1, Inr (f, r1))" by simp
  from decode_field_advances [OF this \<open>br_remaining r > 0\<close>] \<open>br_remaining r > 0\<close>
  show "((limits, d1, r1, case f of None \<Rightarrow> hb | Some e \<Rightarrow> recordHeader limits hb e), (limits, d, r, hb))
      \<in> measure (\<lambda>(limits, d, r, hb). nat (br_remaining r))"
    by (auto simp: br_remaining_advance)
qed simp

declare decode_loop.simps [simp del]

definition hpack_decode ::
  "hpack_decoder \<Rightarrow> byte list \<Rightarrow> header_limits option \<Rightarrow> hpack_decoder \<times> header_entry list result" where
  "hpack_decode d block limits =
     (case decode_loop limits d (new_ByteReader block)
             ([], \<lparr>b_headerListBytes = 0, b_fieldCount = 0, b_rejected = False\<rparr>) of
        (d1, Inl e) \<Rightarrow> (d1, Inl e)
      | (d1, Inr (headers, b)) \<Rightarrow>
          (d1, if b_rejected b
               then Inl (H2Exn (new_H2Error ENHANCE_YOUR_CALM (Option.bind limits l_streamId)))
               else Inr headers))"

subsection \<open>Encoder\<close>

definition encode_header :: "(jsstring \<Rightarrow> jsstring) \<Rightarrow> header \<Rightarrow> wop list" where
  "encode_header toLowerCase h =
     (let name = toLowerCase (hd_name h);
          val = hd_value h
      in case staticPairToIndex (pair_key name val) of
           Some pair \<Rightarrow> writeInteger pair 7 0x80
         | None \<Rightarrow>
             (let flags = (if hd_neverIndex h then 0x10 else 0x00) in
              (case staticNameToIndex name of
                 Some nameIndex \<Rightarrow> writeInteger nameIndex 4 flags
               | None \<Rightarrow> writeInteger 0 4 flags @ writeString name)
              @ writeString val))"

definition hpack_encode :: "(jsstring \<Rightarrow> jsstring) \<Rightarrow> header list \<Rightarrow> byte list option" where
  "hpack_encode toLowerCase headers = written 256 (concat (map (encode_header toLowerCase) headers))"

subsection \<open>The dynamic table implements a bounded table\<close>

text \<open>
  The reference: the longest run of newest entries whose sizes, counted by \<open>sz\<close>, fit.
\<close>

fun fit :: "('e \<Rightarrow> nat) \<Rightarrow> nat \<Rightarrow> 'e list \<Rightarrow> 'e list" where
  "fit sz room [] = []"
| "fit sz room (e # es) = (if sz e \<le> room then e # fit sz (room - sz e) es else [])"

definition total_size :: "header_entry list \<Rightarrow> nat" where
  "total_size es = sum_list (map entry_size es)"

datatype 'e table_op = InsertEntry 'e | Resize nat

fun ref_op :: "('e \<Rightarrow> nat) \<Rightarrow> nat \<times> 'e list \<Rightarrow> 'e table_op \<Rightarrow> nat \<times> 'e list" where
  "ref_op sz (m, es) (InsertEntry e) = (m, fit sz m (e # es))"
| "ref_op sz (m, es) (Resize n) = (n, fit sz n es)"

text \<open>
  The contract: a table shows its bound and its entries, and every permitted operation acts on
  that view as the reference does and keeps the table well-formed.
\<close>

locale bounded_table =
  fixes view :: "'t \<Rightarrow> nat \<times> header_entry list"
    and good :: "'t \<Rightarrow> bool"
    and permitted :: "'t \<Rightarrow> header_entry table_op \<Rightarrow> bool"
    and apply_op :: "'t \<Rightarrow> header_entry table_op \<Rightarrow> 't"
  assumes op_view: "good t \<Longrightarrow> permitted t p \<Longrightarrow> view (apply_op t p) = ref_op entry_size (view t) p"
    and op_good: "good t \<Longrightarrow> permitted t p \<Longrightarrow> good (apply_op t p)"
    and op_permitted: "good t \<Longrightarrow> permitted t p \<Longrightarrow> permitted (apply_op t p) q = permitted t q"
begin

lemma history:
  "good t \<Longrightarrow> \<forall>p \<in> set ps. permitted t p \<Longrightarrow>
   view (foldl apply_op t ps) = foldl (ref_op entry_size) (view t) ps \<and> good (foldl apply_op t ps)"
  by (induction ps arbitrary: t) (auto simp: op_view op_good op_permitted)

lemma in_sync:
  assumes "good t" "good u" "view t = view u" "\<forall>p \<in> set ps. permitted t p \<and> permitted u p"
  shows "view (foldl apply_op t ps) = view (foldl apply_op u ps)"
  using history [of t ps] history [of u ps] assms by simp

end

lemma total_size_simps [simp]:
  "total_size [] = 0" "total_size (e # es) = entry_size e + total_size es"
  "total_size (es @ fs) = total_size es + total_size fs"
  by (simp_all add: total_size_def)

lemma fit_all: "total_size es \<le> room \<Longrightarrow> fit entry_size room es = es"
  by (induction es arbitrary: room) auto

lemma total_size_fit: "total_size (fit entry_size room es) \<le> room"
proof (induction es arbitrary: room)
  case (Cons e es)
  have "entry_size e \<le> room \<Longrightarrow> total_size (fit entry_size (room - entry_size e) es) \<le> room - entry_size e"
    by (rule Cons)
  then show ?case by auto
qed simp

lemma fit_snoc:
  "total_size (es @ [e]) > room \<Longrightarrow> fit entry_size room (es @ [e]) = fit entry_size room es"
proof (induction es arbitrary: room)
  case (Cons f es)
  have "entry_size f \<le> room \<Longrightarrow> room - entry_size f < total_size (es @ [e])"
    using Cons.prems by simp
  with Cons.IH [of "room - entry_size f"] show ?case by (simp del: total_size_simps(3))
qed simp

definition size_ok :: "hpack_decoder \<Rightarrow> bool" where
  "size_ok d \<longleftrightarrow> d_size d = int (total_size (d_dynamic d))"

lemma pop_entry_facts:
  assumes "size_ok d" and "d_dynamic d \<noteq> []"
  shows "size_ok (pop_entry d)" "d_maxSize (pop_entry d) = d_maxSize d"
    "d_protocolMax (pop_entry d) = d_protocolMax d"
    "\<exists>e. d_dynamic d = d_dynamic (pop_entry d) @ [e]"
proof -
  obtain es e where es: "d_dynamic d = es @ [e]" using assms(2) by (metis rev_exhaust)
  with assms(1) show "size_ok (pop_entry d)" "d_maxSize (pop_entry d) = d_maxSize d"
    "d_protocolMax (pop_entry d) = d_protocolMax d"
    "\<exists>e. d_dynamic d = d_dynamic (pop_entry d) @ [e]"
    by (simp_all add: size_ok_def pop_entry_def)
qed

lemma evict_spec:
  assumes "size_ok d"
  shows "size_ok (evict extra d) \<and> d_maxSize (evict extra d) = d_maxSize d \<and>
     d_protocolMax (evict extra d) = d_protocolMax d \<and>
     d_dynamic (evict extra d) =
       (if extra \<le> d_maxSize d then fit entry_size (d_maxSize d - extra) (d_dynamic d) else [])"
  using assms
proof (induction extra d rule: evict.induct)
  case (1 extra d)
  show ?case
  proof (cases "d_size d + int extra > int (d_maxSize d) \<and> length (d_dynamic d) > 0")
    case True
    then have ev: "evict extra d = evict extra (pop_entry d)" by (subst evict.simps) simp
    note pop = pop_entry_facts [OF "1.prems"]
    have ne: "d_dynamic d \<noteq> []" using True by simp
    from pop(4) [OF ne] obtain e where e: "d_dynamic d = d_dynamic (pop_entry d) @ [e]" by blast
    have "fit entry_size (d_maxSize d - extra) (d_dynamic d) = fit entry_size (d_maxSize d - extra) (d_dynamic (pop_entry d))"
      if "extra \<le> d_maxSize d"
    proof -
      have "d_maxSize d - extra < total_size (d_dynamic (pop_entry d) @ [e])"
        using True "1.prems" that unfolding e [symmetric] size_ok_def by linarith
      from fit_snoc [OF this] show ?thesis by (simp add: e)
    qed
    with "1.IH" [OF True pop(1) [OF ne]] pop(2,3) [OF ne] show ?thesis by (simp add: ev)
  next
    case False
    then have ev: "evict extra d = d" by (subst evict.simps) auto
    have "extra \<le> d_maxSize d \<Longrightarrow> fit entry_size (d_maxSize d - extra) (d_dynamic d) = d_dynamic d"
      using False "1.prems" by (intro fit_all) (auto simp: size_ok_def)
    moreover have "\<not> extra \<le> d_maxSize d \<Longrightarrow> d_dynamic d = []"
      using False "1.prems" by (auto simp: size_ok_def)
    ultimately show ?thesis using "1.prems" ev by simp
  qed
qed

definition table_ok :: "hpack_decoder \<Rightarrow> bool" where
  "table_ok d \<longleftrightarrow> size_ok d \<and> d_size d \<le> int (d_maxSize d) \<and> d_maxSize d \<le> d_protocolMax d"

lemma hpack_insert_spec:
  assumes "table_ok d"
  shows "table_ok (hpack_insert d n v)"
    "d_dynamic (hpack_insert d n v) = fit entry_size (d_maxSize d) ((n, v) # d_dynamic d)"
    "d_maxSize (hpack_insert d n v) = d_maxSize d"
    "d_protocolMax (hpack_insert d n v) = d_protocolMax d"
proof -
  note ev = evict_spec [of d "entry_size (n, v)"]
  have so: "size_ok d" using assms by (simp add: table_ok_def)
  show dyn: "d_dynamic (hpack_insert d n v) = fit entry_size (d_maxSize d) ((n, v) # d_dynamic d)"
    "d_maxSize (hpack_insert d n v) = d_maxSize d"
    "d_protocolMax (hpack_insert d n v) = d_protocolMax d"
    using ev so by (auto simp: hpack_insert_def Let_def)
  have sz: "size_ok (hpack_insert d n v)"
    using ev so by (auto simp: hpack_insert_def Let_def size_ok_def)
  with total_size_fit [of "d_maxSize d" "(n, v) # d_dynamic d"] dyn assms
  show "table_ok (hpack_insert d n v)"
    by (simp add: table_ok_def size_ok_def del: fit.simps)
qed

lemma applyMaxSize_spec:
  assumes "size_ok d" and "applyMaxSize d n = Inr d'"
  shows "table_ok d' \<and> d_dynamic d' = fit entry_size n (d_dynamic d) \<and> d_maxSize d' = n \<and>
    d_protocolMax d' = d_protocolMax d"
proof -
  from assms(2) have d': "d' = evict 0 (d\<lparr>d_maxSize := n\<rparr>)" and n: "n \<le> d_protocolMax d"
    by (auto simp: applyMaxSize_def throw_h2_def split: if_splits)
  have "size_ok (d\<lparr>d_maxSize := n\<rparr>)" using assms(1) by (simp add: size_ok_def)
  from evict_spec [OF this, of 0] total_size_fit [of n "d_dynamic d"] n show ?thesis
    by (simp add: d' table_ok_def size_ok_def)
qed

fun decoder_op :: "hpack_decoder \<Rightarrow> header_entry table_op \<Rightarrow> hpack_decoder" where
  "decoder_op d (InsertEntry e) = hpack_insert d (fst e) (snd e)"
| "decoder_op d (Resize n) = (case applyMaxSize d n of Inr d' \<Rightarrow> d' | Inl _ \<Rightarrow> d)"

definition decoder_permits :: "hpack_decoder \<Rightarrow> header_entry table_op \<Rightarrow> bool" where
  "decoder_permits d p = (case p of Resize n \<Rightarrow> n \<le> d_protocolMax d | InsertEntry e \<Rightarrow> True)"

interpretation dyn: bounded_table
  "\<lambda>d. (d_maxSize d, d_dynamic d)" table_ok decoder_permits decoder_op
proof unfold_locales
  fix d p
  assume ok: "table_ok d" and perm: "decoder_permits d p"
  then have so: "size_ok d" by (simp add: table_ok_def)
  have res: "\<exists>d'. applyMaxSize d n = Inr d'" if "p = Resize n" for n
    using perm that by (simp add: decoder_permits_def applyMaxSize_def)
  show "(d_maxSize (decoder_op d p), d_dynamic (decoder_op d p)) = ref_op entry_size (d_maxSize d, d_dynamic d) p"
    using hpack_insert_spec [OF ok] res applyMaxSize_spec [OF so]
    by (cases p) (auto simp del: fit.simps)
  show "table_ok (decoder_op d p)"
    using hpack_insert_spec [OF ok] res applyMaxSize_spec [OF so] by (cases p) auto
  show "decoder_permits (decoder_op d p) q = decoder_permits d q" for q
    using hpack_insert_spec [OF ok] res applyMaxSize_spec [OF so]
    by (cases p) (auto simp: decoder_permits_def split: table_op.split)
qed

subsection \<open>The table of RFC 7541\<close>

text \<open>An entry of the RFC's table is a pair of octet strings; its size is their length plus 32 (section
  4.1). The decoder stores the text they stand for.\<close>

type_synonym octet_entry = "byte list \<times> byte list"

definition octet_size :: "octet_entry \<Rightarrow> nat" where
  "octet_size e = length (fst e) + length (snd e) + 32"

definition entry_of :: "octet_entry \<Rightarrow> header_entry" where
  "entry_of e = (decodeUtf8 (fst e), decodeUtf8 (snd e))"

definition ascii_octets :: "octet_entry \<Rightarrow> bool" where
  "ascii_octets e \<longleftrightarrow> list_all (\<lambda>b. b < 0x80) (fst e @ snd e)"

fun ascii_op :: "octet_entry table_op \<Rightarrow> bool" where
  "ascii_op (InsertEntry e) = ascii_octets e"
| "ascii_op (Resize n) = True"

lemma entry_size_entry_of: "entry_size (entry_of e) \<le> octet_size e"
  using length_decodeUtf8 [of "fst e"] length_decodeUtf8 [of "snd e"]
  by (simp add: entry_size_def entry_of_def octet_size_def ENTRY_OVERHEAD_def)

lemma entry_size_ascii: "ascii_octets e \<Longrightarrow> entry_size (entry_of e) = octet_size e"
  by (simp add: entry_size_def entry_of_def octet_size_def ENTRY_OVERHEAD_def ascii_octets_def decodeUtf8_ascii)

lemma set_fit: "set (fit sz room es) \<subseteq> set es"
  by (induction es arbitrary: room) auto

lemma fit_map_prefix:
  assumes "\<And>e. sz (g e) \<le> sz' e" and "prefix (map g es') es" and "room' \<le> room"
  shows "prefix (map g (fit sz' room' es')) (fit sz room es)"
  using assms(2,3)
proof (induction es' arbitrary: es room room')
  case (Cons e es')
  from Cons.prems(1) obtain fs where es: "es = g e # fs" "prefix (map g es') fs"
    by (cases es) auto
  show ?case
  proof (cases "sz' e \<le> room'")
    case True
    with assms(1) [of e] Cons.prems(2) have le: "sz (g e) \<le> room" "room' - sz' e \<le> room - sz (g e)"
      by simp_all
    from Cons.IH [OF es(2) le(2)] True le(1) es(1) show ?thesis by simp
  qed simp
qed simp

lemma fit_map_eq:
  "\<forall>e \<in> set es. sz (g e) = sz' e \<Longrightarrow> fit sz room (map g es) = map g (fit sz' room es)"
  by (induction es arbitrary: room) auto

lemma rfc_table_prefix:
  "prefix (map entry_of es') es \<Longrightarrow>
   fst (foldl (ref_op entry_size) (m, es) (map (map_table_op entry_of) ps)) =
     fst (foldl (ref_op octet_size) (m, es') ps) \<and>
   prefix (map entry_of (snd (foldl (ref_op octet_size) (m, es') ps)))
     (snd (foldl (ref_op entry_size) (m, es) (map (map_table_op entry_of) ps)))"
proof (induction ps arbitrary: m es es')
  case (Cons p ps)
  note fp = fit_map_prefix [of entry_size entry_of octet_size, OF entry_size_entry_of]
  show ?case
  proof (cases p)
    case (InsertEntry e)
    have "prefix (map entry_of (fit octet_size m (e # es'))) (fit entry_size m (entry_of e # es))"
      using Cons.prems by (intro fp) simp_all
    from Cons.IH [OF this] InsertEntry show ?thesis by (simp del: fit.simps)
  next
    case (Resize k)
    have "prefix (map entry_of (fit octet_size k es')) (fit entry_size k es)"
      using Cons.prems by (intro fp) simp_all
    from Cons.IH [OF this] Resize show ?thesis by simp
  qed
qed simp

lemma rfc_table_ascii:
  "\<forall>p \<in> set ps. ascii_op p \<Longrightarrow> \<forall>e \<in> set es. ascii_octets e \<Longrightarrow>
   foldl (ref_op entry_size) (m, map entry_of es) (map (map_table_op entry_of) ps) =
     map_prod id (map entry_of) (foldl (ref_op octet_size) (m, es) ps)"
proof (induction ps arbitrary: m es)
  case (Cons p ps)
  show ?case
  proof (cases p)
    case (InsertEntry e)
    let ?fs = "fit octet_size m (e # es)"
    have all: "\<forall>e \<in> set (e # es). ascii_octets e" using Cons.prems InsertEntry by simp
    then have eq: "fit entry_size m (entry_of e # map entry_of es) = map entry_of ?fs"
      using fit_map_eq [of "e # es" entry_size entry_of octet_size m] by (simp add: entry_size_ascii del: fit.simps)
    have "\<forall>e \<in> set ?fs. ascii_octets e" using all set_fit [of octet_size m "e # es"] by blast
    with Cons.IH [of ?fs m] Cons.prems(1) InsertEntry eq show ?thesis by (simp del: fit.simps)
  next
    case (Resize k)
    let ?fs = "fit octet_size k es"
    have eq: "fit entry_size k (map entry_of es) = map entry_of ?fs"
      using Cons.prems(2) by (intro fit_map_eq) (simp add: entry_size_ascii)
    have "\<forall>e \<in> set ?fs. ascii_octets e" using Cons.prems(2) set_fit [of octet_size k es] by blast
    with Cons.IH [of ?fs k] Cons.prems(1) Resize eq show ?thesis by simp
  qed
qed simp

subsection \<open>Every block keeps the table well-formed\<close>

lemma decode_field_ok:
  assumes "table_ok d" and "decode_field d r = (d', res)"
  shows "table_ok d' \<and> d_protocolMax d' = d_protocolMax d"
proof -
  have so: "size_ok d" using assms(1) by (simp add: table_ok_def)
  from assms(2) consider "d' = d" | e where "d' = hpack_insert d (fst e) (snd e)"
    | n where "applyMaxSize d n = Inr d'"
    by (auto simp: decode_field_def bind_result_Inr_iff split: sum.splits if_splits)
  then show ?thesis
    by cases (use assms(1) hpack_insert_spec [OF assms(1)] applyMaxSize_spec [OF so] in auto)
qed

lemma decode_loop_ok:
  "table_ok d \<Longrightarrow> decode_loop limits d r hb = (d', res) \<Longrightarrow>
   table_ok d' \<and> d_protocolMax d' = d_protocolMax d"
proof (induction limits d r hb arbitrary: d' res rule: decode_loop.induct)
  case (1 limits d r hb)
  show ?case
  proof (cases "br_remaining r > 0")
    case False
    with "1.prems" show ?thesis by (subst (asm) decode_loop.simps) simp
  next
    case True
    obtain d1 fr where fr: "decode_field d r = (d1, fr)" by fastforce
    note ok = decode_field_ok [OF "1.prems"(1) fr]
    show ?thesis
    proof (cases fr)
      case (Inl e)
      with "1.prems" True fr ok show ?thesis by (subst (asm) decode_loop.simps) auto
    next
      case (Inr x)
      obtain f r1 where x: "x = (f, r1)" by fastforce
      with "1.prems"(2) True fr Inr
      have "decode_loop limits d1 r1 (case f of None \<Rightarrow> hb | Some e \<Rightarrow> recordHeader limits hb e) = (d', res)"
        by (subst (asm) decode_loop.simps) simp
      from "1.IH" [OF True fr [symmetric] Inr x [symmetric] _ this] ok show ?thesis by simp
    qed
  qed
qed

subsection \<open>The header budget does not touch the table\<close>

text \<open>The run without a budget; every other run reads the same fields.\<close>

abbreviation no_budget :: budget where
  "no_budget \<equiv> \<lparr>b_headerListBytes = 0, b_fieldCount = 0, b_rejected = False\<rparr>"

lemma decode_loop_factors:
  "\<exists>res. \<forall>limits hb. decode_loop limits d r hb =
     (d', map_sum id (foldl (recordHeader limits) hb) res)" if "d' = fst (decode_loop None d r ([], no_budget))"
  using that
proof (induction "nat (br_remaining r)" arbitrary: d r d' rule: less_induct)
  case less
  have indep: "\<exists>d' res. \<forall>limits hb. decode_loop limits d r hb =
      (d', map_sum id (foldl (recordHeader limits) hb) res)"
  proof (cases "br_remaining r > 0")
    case False
    then show ?thesis
      by (intro exI [of _ d] exI [of _ "Inr []"]) (subst decode_loop.simps, simp)
  next
    case True
    obtain d1 fr where fr: "decode_field d r = (d1, fr)" by fastforce
    show ?thesis
    proof (cases fr)
      case (Inl e)
      with True fr show ?thesis
        by (intro exI [of _ d1] exI [of _ "Inl e"]) (subst decode_loop.simps, simp)
    next
      case (Inr x)
      obtain f r1 where x: "x = (f, r1)" by fastforce
      have "nat (br_remaining r1) < nat (br_remaining r)"
        using decode_field_advances [of d r d1 f r1] fr Inr x True by (auto simp: br_remaining_advance)
      from less.hyps [OF this refl, of d1] obtain d2 res where
        res: "\<And>limits hb. decode_loop limits d1 r1 hb =
          (d2, map_sum id (foldl (recordHeader limits) hb) res)"
        by blast
      have "decode_loop limits d r hb = (d2,
          map_sum id (foldl (recordHeader limits) hb)
            (map_sum id (\<lambda>es. case f of None \<Rightarrow> es | Some e \<Rightarrow> e # es) res))" for limits hb
        using True by (subst decode_loop.simps)
          (cases res; simp add: fr Inr x res split: option.split)
      then show ?thesis by blast
    qed
  qed
  then show ?case using less.prems by (metis fst_conv)
qed

definition list_cost :: "header_entry list \<Rightarrow> nat" where
  "list_cost es = sum_list (map (\<lambda>e. utf8Length (fst e) + utf8Length (snd e) + ENTRY_OVERHEAD) es)"

lemma record_none:
  "\<not> b_rejected b \<Longrightarrow> \<exists>b'. foldl (recordHeader None) (hs, b) es = (hs @ es, b') \<and> \<not> b_rejected b'"
proof (induction es arbitrary: hs b)
  case (Cons e es)
  obtain b1 where "recordHeader None (hs, b) e = (hs @ [e], b1)" "\<not> b_rejected b1"
    using Cons.prems by (simp add: recordHeader_def Let_def)
  with Cons.IH [of b1 "hs @ [e]"] show ?case by simp
qed simp

lemma record_rejected: "b_rejected b \<Longrightarrow> foldl (recordHeader limits) (hs, b) es = (hs, b)"
  by (induction es) (simp_all add: recordHeader_def)

lemma record_some:
  assumes "\<not> b_rejected b" and "b_fieldCount b \<le> l_maxHeaderCount l"
    and "b_headerListBytes b \<le> l_maxHeaderListBytes l"
  shows "\<exists>hs' b'. foldl (recordHeader (Some l)) (hs, b) es = (hs', b') \<and>
     b_rejected b' = (\<not> (b_fieldCount b + length es \<le> l_maxHeaderCount l \<and>
                         b_headerListBytes b + list_cost es \<le> l_maxHeaderListBytes l)) \<and>
     (\<not> b_rejected b' \<longrightarrow> hs' = hs @ es)"
  using assms
proof (induction es arbitrary: hs b)
  case Nil
  then show ?case by (simp add: list_cost_def)
next
  case (Cons e es)
  let ?n = "b_headerListBytes b + utf8Length (fst e) + utf8Length (snd e) + ENTRY_OVERHEAD"
  let ?rej = "b_fieldCount b \<ge> l_maxHeaderCount l \<or> ?n > l_maxHeaderListBytes l"
  let ?b = "\<lparr>b_headerListBytes = ?n, b_fieldCount = b_fieldCount b + 1, b_rejected = ?rej\<rparr>"
  have cost: "list_cost (e # es) = utf8Length (fst e) + utf8Length (snd e) + ENTRY_OVERHEAD + list_cost es"
    by (simp add: list_cost_def)
  have step: "recordHeader (Some l) (hs, b) e = (if ?rej then hs else hs @ [e], ?b)"
    using Cons.prems(1) by (simp add: recordHeader_def Let_def)
  show ?case
  proof (cases ?rej)
    case True
    with step record_rejected [of ?b "Some l" hs es]
    have "foldl (recordHeader (Some l)) (hs, b) (e # es) = (hs, ?b)" by simp
    with True cost show ?thesis by auto
  next
    case False
    with Cons.IH [of ?b "hs @ [e]"] step cost show ?thesis by (auto simp: add.assoc)
  qed
qed

lemma hpack_decode_limits:
  "hpack_decode d block (Some l) =
     (case hpack_decode d block None of
        (d', Inl e) \<Rightarrow> (d', Inl e)
      | (d', Inr hs) \<Rightarrow>
          (d', if length hs \<le> l_maxHeaderCount l \<and> list_cost hs \<le> l_maxHeaderListBytes l then Inr hs
               else Inl (H2Exn (new_H2Error ENHANCE_YOUR_CALM (l_streamId l)))))"
proof -
  from decode_loop_factors [OF refl, of d "new_ByteReader block"] obtain d' res where
    res: "\<And>limits hb. decode_loop limits d (new_ByteReader block) hb =
      (d', map_sum id (foldl (recordHeader limits) hb) res)" by blast
  show ?thesis
  proof (cases res)
    case (Inl e)
    then show ?thesis by (simp add: hpack_decode_def res)
  next
    case (Inr es)
    obtain b1 where b1: "foldl (recordHeader None) ([], no_budget) es = (es, b1)" "\<not> b_rejected b1"
      using record_none [of no_budget "[]" es] by auto
    obtain hs' b2 where b2: "foldl (recordHeader (Some l)) ([], no_budget) es = (hs', b2)"
      "b_rejected b2 = (\<not> (length es \<le> l_maxHeaderCount l \<and> list_cost es \<le> l_maxHeaderListBytes l))"
      "\<not> b_rejected b2 \<longrightarrow> hs' = es"
      using record_some [of no_budget l "[]" es] by auto
    show ?thesis using b1 b2 by (auto simp: hpack_decode_def res Inr)
  qed
qed

subsection \<open>The encoder's output decodes to its input\<close>

lemma static_table_length: "STATIC_TABLE_LENGTH = 61"
  by (simp add: STATIC_TABLE_LENGTH_def STATIC_TABLE_def)

lemma static_table_no_nul:
  assumes "e \<in> set STATIC_TABLE"
  shows "0 \<notin> set (fst e @ snd e)"
proof -
  have "list_all (\<lambda>e. 0 \<notin> set (fst e @ snd e)) STATIC_TABLE"
    by (simp add: STATIC_TABLE_def js_def)
  with assms show ?thesis unfolding list_all_iff by blast
qed

lemma static_maps_sound:
  assumes "static_maps k es names pairs = (names', pairs')"
    and "k + length es = n" and "drop k tab = es" and "length tab = n"
    and "\<forall>x i. names x = Some i \<longrightarrow> 1 \<le> i \<and> i \<le> n \<and> fst (tab ! (i - 1)) = x"
    and "\<forall>x i. pairs x = Some i \<longrightarrow>
           1 \<le> i \<and> i \<le> n \<and> pair_key (fst (tab ! (i - 1))) (snd (tab ! (i - 1))) = x"
  shows "(\<forall>x i. names' x = Some i \<longrightarrow> 1 \<le> i \<and> i \<le> n \<and> fst (tab ! (i - 1)) = x) \<and>
     (\<forall>x i. pairs' x = Some i \<longrightarrow>
        1 \<le> i \<and> i \<le> n \<and> pair_key (fst (tab ! (i - 1))) (snd (tab ! (i - 1))) = x)"
  using assms
proof (induction k es names pairs rule: static_maps.induct)
  case (2 k name val es names pairs)
  have k: "k < length tab" using "2.prems"(2,4) by simp
  have nth: "tab ! k = (name, val)" "drop (Suc k) tab = es"
    using "2.prems"(3) Cons_nth_drop_Suc [OF k] by simp_all
  have names: "\<forall>x i. (if names name = None then names(name \<mapsto> k + 1) else names) x = Some i \<longrightarrow>
      1 \<le> i \<and> i \<le> n \<and> fst (tab ! (i - 1)) = x"
    using "2.prems"(5) nth(1) k "2.prems"(4) by simp
  have pairs: "\<forall>x i. (pairs(pair_key name val \<mapsto> k + 1)) x = Some i \<longrightarrow>
      1 \<le> i \<and> i \<le> n \<and> pair_key (fst (tab ! (i - 1))) (snd (tab ! (i - 1))) = x"
    using "2.prems"(6) nth(1) k "2.prems"(4) by simp
  from "2.prems"(1) have "static_maps (Suc k) es
      (if names name = None then names(name \<mapsto> k + 1) else names)
      (pairs(pair_key name val \<mapsto> k + 1)) = (names', pairs')" by (simp only: static_maps.simps)
  from "2.IH" [OF this _ nth(2) "2.prems"(4) names pairs] "2.prems"(2) show ?case by simp
qed simp

lemma static_name: "staticNameToIndex x = Some i \<Longrightarrow>
    1 \<le> i \<and> i \<le> STATIC_TABLE_LENGTH \<and> fst (STATIC_TABLE ! (i - 1)) = x"
  and static_pair: "staticPairToIndex x = Some i \<Longrightarrow>
    1 \<le> i \<and> i \<le> STATIC_TABLE_LENGTH \<and>
    pair_key (fst (STATIC_TABLE ! (i - 1))) (snd (STATIC_TABLE ! (i - 1))) = x"
  using static_maps_sound [of 0 STATIC_TABLE "\<lambda>_. None" "\<lambda>_. None" staticNameToIndex staticPairToIndex
      "length STATIC_TABLE" STATIC_TABLE]
  by (simp_all add: staticNameToIndex_def staticPairToIndex_def STATIC_TABLE_LENGTH_def)

text \<open>A key without a second NUL has one reading, whatever the other pair is.\<close>

lemma pair_key_inject:
  assumes "0 \<notin> set (a @ b)" and "pair_key a b = pair_key a' b'"
  shows "a = a' \<and> b = b'"
  using assms unfolding pair_key_def
proof (induction a arbitrary: a')
  case Nil
  then show ?case by (cases a') auto
next
  case (Cons x a)
  then show ?case by (cases a') auto
qed

definition encodable :: "(jsstring \<Rightarrow> jsstring) \<Rightarrow> header \<Rightarrow> bool" where
  "encodable toLowerCase h \<longleftrightarrow>
     string_ok (toLowerCase (hd_name h)) \<and> string_ok (hd_value h)"

lemma int_ok_small: "v \<le> 61 \<Longrightarrow> int_ok p v"
  by (simp add: int_ok_def)

lemma high_bits_clear: "b < 32 \<Longrightarrow> (b :: nat) AND 0x80 = 0 \<and> b AND 0x40 = 0 \<and> b AND 0x20 = 0"
  using and_pow2_bit [of b 7] and_pow2_bit [of b 6] and_pow2_bit [of b 5] by simp

lemma decode_indexed:
  assumes "1 \<le> i" and "i \<le> STATIC_TABLE_LENGTH" and "r_cursor r \<le> length (r_buf r)"
    and "unread r = emits (writeInteger i 7 0x80) @ tail"
  shows "decode_field d r =
    (d, Inr (Some (STATIC_TABLE ! (i - 1)), advance r (length (emits (writeInteger i 7 0x80)))))"
proof -
  from writeInteger_first [of 1 7 i] obtain x ys where
    x: "x < 2 ^ 7" "1 * 2 ^ 7 + x < 256" "emits (writeInteger i 7 (1 * 2 ^ 7)) = of_nat (1 * 2 ^ 7 + x) # ys"
    by auto
  have "unread r = of_nat (1 * 2 ^ 7 + x) # (ys @ tail)" using assms(4) x(3) by (simp del: of_nat_add)
  from br_first(2) [OF this x(2)] have peek: "br_peek r = Inr (128 + x)" by simp
  have bit: "(128 + x) AND 0x80 \<noteq> 0" using and_80 [of "128 + x"] x(2) by simp
  have "readInteger r 7 = Inr (i, advance r (length (emits (writeInteger i 7 0x80))))"
    using assms by (intro int7.get_put [where tail = tail] int_ok_small) (simp_all add: static_table_length)
  with assms(1,2) bit show ?thesis
    by (simp add: decode_field_def peek entryAt_def)
qed

lemma read_literal_written:
  assumes "f = 0 \<or> f = 1" and "i \<le> STATIC_TABLE_LENGTH" and "r_cursor r \<le> length (r_buf r)"
    and "nm = (if i = 0 then emits (writeString n) else [])" and "i \<noteq> 0 \<Longrightarrow> fst (STATIC_TABLE ! (i - 1)) = n"
    and "string_ok n" and "string_ok v"
    and "w = emits (writeInteger i 4 (f * 2 ^ 4)) @ nm @ emits (writeString v)"
    and "unread r = w @ tail"
  shows "decode_field d r = (d, Inr (Some (n, v), advance r (length w)))"
proof -
  let ?wi = "emits (writeInteger i 4 (f * 2 ^ 4))"
  have f: "(f + 1) * 2 ^ 4 \<le> 256" using assms(1) by auto
  from writeInteger_first [OF f, of i] obtain x ys where
    x: "x < 2 ^ 4" "f * 2 ^ 4 + x < 256" "?wi = of_nat (f * 2 ^ 4 + x) # ys" by blast
  have "unread r = of_nat (f * 2 ^ 4 + x) # (ys @ nm @ emits (writeString v) @ tail)"
    using assms(8,9) x(3) by (simp del: of_nat_add)
  from br_first(2) [OF this x(2)] have peek: "br_peek r = Inr (f * 2 ^ 4 + x)" .
  have "f * 2 ^ 4 + x < 32" using x(1) assms(1) by auto
  note clear = high_bits_clear [OF this]
  have i: "readInteger r 4 = Inr (i, advance r (length ?wi))"
    by (rule readInteger_writeInteger [OF _ _ f, where tail = "nm @ emits (writeString v) @ tail"])
       (use assms in \<open>simp_all add: static_table_length\<close>)
  let ?r1 = "advance r (length ?wi)"
  have u1: "unread ?r1 = nm @ emits (writeString v) @ tail" using assms(8,9) by simp
  have c1: "r_cursor ?r1 \<le> length (r_buf ?r1)"
    using assms(3,8,9) by (intro advance_in_range) simp_all
  have name: "(if i = 0 then readString ?r1
       else bind_result (entryAt d i) (\<lambda>e. Inr (fst e, ?r1))) = Inr (n, advance ?r1 (length nm))"
  proof (cases "i = 0")
    case True
    with u1 assms(4) str.get_put [OF assms(6) c1] show ?thesis by simp
  next
    case False
    with assms(2,4,5) show ?thesis by (simp add: entryAt_def advance_def)
  qed
  let ?r2 = "advance ?r1 (length nm)"
  have "r_cursor ?r2 \<le> length (r_buf ?r2)" 
    by (rule advance_in_range [OF _ c1]) (simp only: u1, simp)
  moreover have "unread ?r2 = emits (writeString v) @ tail" by (simp only: unread_advance [of ?r1] u1) simp
  ultimately have "readString ?r2 = Inr (v, advance ?r2 (length (emits (writeString v))))"
    using assms(7) by (intro str.get_put)
  then have "read_literal d r 4 = Inr ((n, v), advance ?r2 (length (emits (writeString v))))"
    by (simp only: read_literal_def i bind_result_simps prod.case name)
  then have "read_literal d r 4 = Inr ((n, v), advance r (length w))"
    using assms(8) by (simp add: add.assoc)
  with clear show ?thesis by (simp add: decode_field_def peek)
qed

lemma decode_encoded_header:
  assumes "encodable lc h" and "r_cursor r \<le> length (r_buf r)"
    and "unread r = emits (encode_header lc h) @ tail"
  shows "decode_field d r =
    (d, Inr (Some (lc (hd_name h), hd_value h), advance r (length (emits (encode_header lc h)))))"
proof -
  let ?n = "lc (hd_name h)" and ?v = "hd_value h"
  have ok: "string_ok ?n" "string_ok ?v" using assms(1) by (simp_all add: encodable_def)
  show ?thesis
  proof (cases "staticPairToIndex (pair_key ?n ?v)")
    case (Some i)
    note sp = static_pair [OF Some]
    have "STATIC_TABLE ! (i - 1) \<in> set STATIC_TABLE"
      using sp by (intro nth_mem) (auto simp: STATIC_TABLE_LENGTH_def)
    from pair_key_inject [OF static_table_no_nul [OF this]] sp
    have "STATIC_TABLE ! (i - 1) = (?n, ?v)" by (metis prod.collapse)
    moreover have "encode_header lc h = writeInteger i 7 0x80" using Some by (simp add: encode_header_def)
    ultimately show ?thesis using decode_indexed [of i r tail d] sp assms by simp
  next
    case None
    define f :: nat where "f = of_bool (hd_neverIndex h)"
    define i where "i = (case staticNameToIndex ?n of None \<Rightarrow> 0 | Some i \<Rightarrow> i)"
    have f: "f = 0 \<or> f = 1" by (simp add: f_def)
    have i: "i \<le> STATIC_TABLE_LENGTH" "i \<noteq> 0 \<Longrightarrow> fst (STATIC_TABLE ! (i - 1)) = ?n"
      using static_name [of ?n] by (auto simp: i_def split: option.splits)
    have "i = 0 \<longleftrightarrow> staticNameToIndex ?n = None"
      using static_name [of ?n] by (auto simp: i_def split: option.splits)
    then have "emits (encode_header lc h) = emits (writeInteger i 4 (f * 2 ^ 4)) @
        (if i = 0 then emits (writeString ?n) else []) @ emits (writeString ?v)"
      using None by (auto simp: encode_header_def f_def i_def split: option.splits)
    from read_literal_written [OF f i(1) assms(2) refl i(2) ok(1,2) this assms(3)] show ?thesis .
  qed
qed

lemma encode_header_nonempty: "emits (encode_header lc h) \<noteq> []"
proof -
  have "emits (writeInteger v p fl) \<noteq> []" for v p fl
    by (simp add: writeInteger_def Let_def)
  then show ?thesis
    by (cases "staticPairToIndex (pair_key (lc (hd_name h)) (hd_value h))";
        cases "staticNameToIndex (lc (hd_name h))")
       (simp_all add: encode_header_def Let_def del: concat_eq_Nil_conv Nil_eq_concat_conv)
qed

lemma decode_loop_encoded:
  assumes "\<forall>h \<in> set hs. encodable lc h" and "r_cursor r \<le> length (r_buf r)"
    and "unread r = emits (concat (map (encode_header lc) hs))"
  shows "decode_loop limits d r hb =
    (d, Inr (foldl (recordHeader limits) hb (map (\<lambda>h. (lc (hd_name h), hd_value h)) hs)))"
  using assms
proof (induction hs arbitrary: r hb)
  case Nil
  then show ?case by (subst decode_loop.simps) (simp add: br_remaining_unread)
next
  case (Cons h hs)
  let ?w = "emits (encode_header lc h)"
  have u: "unread r = ?w @ emits (concat (map (encode_header lc) hs))" using Cons.prems(3) by simp
  have "br_remaining r > 0"
  proof -
    have "0 < length ?w" by (rule encode_header_nonempty [THEN length_greater_0_conv [THEN iffD2]])
    then have "0 < length (unread r)" by (simp only: u length_append)
    then show ?thesis using br_remaining_unread [OF Cons.prems(2)] by linarith
  qed
  moreover have "decode_field d r = (d, Inr (Some (lc (hd_name h), hd_value h), advance r (length ?w)))"
    using decode_encoded_header [OF _ Cons.prems(2) u] Cons.prems(1) by simp
  moreover have "decode_loop limits d (advance r (length ?w)) hb' =
      (d, Inr (foldl (recordHeader limits) hb' (map (\<lambda>h. (lc (hd_name h), hd_value h)) hs)))" for hb'
    using Cons.prems u by (intro Cons.IH advance_in_range) simp_all
  ultimately show ?case by (subst decode_loop.simps) simp
qed

lemma hpack_decode_encode:
  assumes "\<forall>h \<in> set hs. encodable lc h"
  shows "\<exists>block. hpack_encode lc hs = Some block \<and>
     hpack_decode d block None = (d, Inr (map (\<lambda>h. (lc (hd_name h), hd_value h)) hs))"
proof -
  let ?block = "emits (concat (map (encode_header lc) hs))"
  let ?es = "map (\<lambda>h. (lc (hd_name h), hd_value h)) hs"
  have "hpack_encode lc hs = Some ?block" by (simp add: hpack_encode_def written_emit)
  moreover have "decode_loop None d (new_ByteReader ?block) ([], no_budget) =
      (d, Inr (foldl (recordHeader None) ([], no_budget) ?es))"
    using assms by (rule decode_loop_encoded) (simp_all add: new_ByteReader_def unread_def)
  moreover obtain b where "foldl (recordHeader None) ([], no_budget) ?es = (?es, b)" "\<not> b_rejected b"
    using record_none [of no_budget "[]" ?es] by auto
  ultimately show ?thesis by (simp add: hpack_decode_def)
qed

subsection \<open>Sizes\<close>

text \<open>The lower-casing of ASCII text, the instance of \<^verbatim>\<open>toLowerCase\<close> used in the examples.\<close>

definition ascii_lower :: "jsstring \<Rightarrow> jsstring" where
  "ascii_lower = map (\<lambda>u. if 65 \<le> u \<and> u \<le> 90 then u + 32 else u)"

lemma utf8Length_ge: "length s \<le> utf8Length s \<and> (utf8Length s = length s \<longleftrightarrow> list_all (\<lambda>u. u \<le> 0x7F) s)"
proof (induction s rule: utf8Length.induct)
  case (2 u us)
  have u7: "u \<le> 0x7F \<longleftrightarrow> unat u \<le> 0x7F" by (simp add: word_le_nat_alt)
  show ?case
  proof (cases "unat u \<le> 0x7F")
    case True
    with 2 u7 show ?thesis by (subst (1 2) utf8Length.simps(2)) (simp del: utf8Length.simps)
  next
    case False
    have "length (u # us) < utf8Length (u # us)"
      using False 2 by (subst utf8Length.simps(2))
        (auto simp del: utf8Length.simps split: list.split)
    with False u7 show ?thesis by (simp del: utf8Length.simps)
  qed
qed simp

subsection \<open>Properties\<close>

text \<open>C9: Header compression round-trips: for any list of headers whose lower-cased names and whose
  values are representable in UTF-8 (no lone surrogate, no leading byte order mark, a bounded length), the encoder terminates and its block decodes, from any decoder state and
  without changing it, to the same headers in order with their names lower-cased, whichever
  mix of indexed, name-indexed, literal, raw and Huffman forms the encoder chose.\<close>

theorem hpack_roundtrip:
  assumes "\<forall>h \<in> set hs. encodable lc h"
  shows "\<exists>block. hpack_encode lc hs = Some block \<and>
     hpack_decode d block None = (d, Inr (map (\<lambda>h. (lc (hd_name h), hd_value h)) hs))"
  using assms by (rule hpack_decode_encode)

theorem hpack_roundtrip_witness:
  "let hs = [\<lparr>hd_name = js '':method'', hd_value = js ''POST'', hd_neverIndex = False\<rparr>,
             \<lparr>hd_name = js ''Authorization'', hd_value = js ''s3cret'', hd_neverIndex = True\<rparr>,
             \<lparr>hd_name = js ''x-a'', hd_value = [0xE9], hd_neverIndex = False\<rparr>]
   in \<exists>block. hpack_encode ascii_lower hs = Some block \<and>
     hpack_decode (new_HpackDecoder 4096) block None =
       (new_HpackDecoder 4096, Inr (map (\<lambda>h. (ascii_lower (hd_name h), hd_value h)) hs))"
  unfolding Let_def
  by (rule hpack_roundtrip)
     (simp add: encodable_def string_ok_def ascii_lower_def js_def is_high_def is_low_def
        utf8Length_encode [symmetric])

text \<open>Whatever block arrives, and whether decoding succeeds or throws, the decoder's table stays
  well-formed: its size counter is the exact sum of its entries' sizes, the sum is at most the
  current maximum, and that maximum is at most the limit announced to the peer, which a block
  cannot change.\<close>

theorem hpack_table_invariant:
  assumes "table_ok d" and "hpack_decode d block limits = (d', res)"
  shows "table_ok d' \<and> d_protocolMax d' = d_protocolMax d"
proof -
  obtain d1 r1 where "decode_loop limits d (new_ByteReader block) ([], no_budget) = (d1, r1)" by fastforce
  with decode_loop_ok [OF assms(1) this] assms(2) show ?thesis
    by (auto simp: hpack_decode_def split: sum.splits)
qed

theorem hpack_table_invariant_witness:
  "table_ok (fst (hpack_decode (new_HpackDecoder 64) [0x40, 0] None)) \<and>
   d_protocolMax (fst (hpack_decode (new_HpackDecoder 64) [0x40, 0] None)) =
     d_protocolMax (new_HpackDecoder 64)"
  by (rule hpack_table_invariant [OF _ prod.collapse [symmetric]])
     (simp add: table_ok_def size_ok_def new_HpackDecoder_def)

text \<open>C19: The dynamic table against the one of RFC 7541, section 4. The RFC's table holds octet strings,
  counts their octets, and after any history of insertions and size updates is the longest run of
  newest entries that fits; the code's holds the decoded text and counts UTF-16 code units. After
  any history of insertions and permitted size updates the code's table has the same bound and
  begins with the RFC's entries, decoded, in the same order, so an index valid in the RFC's table
  means the same entry here, whatever the entries are; and when all inserted octets are ASCII the
  two tables are equal, so the running counter and the two eviction loops never drift. Beyond
  ASCII only the inclusion holds: the code charges an entry at most its octets and may keep
  entries that the RFC's table has evicted.\<close>

theorem dynamic_table_refines:
  assumes "\<forall>p \<in> set ps. decoder_permits (new_HpackDecoder n) (map_table_op entry_of p)"
  shows "let d = foldl decoder_op (new_HpackDecoder n) (map (map_table_op entry_of) ps);
             (m, es) = foldl (ref_op octet_size) (n, []) ps
         in table_ok d \<and> d_maxSize d = m \<and> prefix (map entry_of es) (d_dynamic d) \<and>
            ((\<forall>p \<in> set ps. ascii_op p) \<longrightarrow> d_dynamic d = map entry_of es)"
proof -
  let ?qs = "map (map_table_op entry_of) ps"
  let ?d = "foldl decoder_op (new_HpackDecoder n) ?qs"
  obtain m es where ref: "foldl (ref_op octet_size) (n, []) ps = (m, es)" by fastforce
  have ok: "table_ok (new_HpackDecoder n)" by (simp add: table_ok_def size_ok_def new_HpackDecoder_def)
  have "\<forall>q \<in> set ?qs. decoder_permits (new_HpackDecoder n) q" using assms by simp
  from dyn.history [OF ok this] have d: "table_ok ?d"
    "(d_maxSize ?d, d_dynamic ?d) = foldl (ref_op entry_size) (n, []) ?qs"
    by (simp_all add: new_HpackDecoder_def)
  have "d_maxSize ?d = m \<and> prefix (map entry_of es) (d_dynamic ?d)"
    using rfc_table_prefix [of "[]" "[]" n ps] ref d(2) [symmetric] by simp
  moreover have "\<forall>p \<in> set ps. ascii_op p \<Longrightarrow> d_dynamic ?d = map entry_of es"
    using rfc_table_ascii [of ps "[]" n] ref d(2) [symmetric] by simp
  ultimately show ?thesis using d(1) ref by (simp add: Let_def)
qed

theorem dynamic_table_refines_witness:
  "let ps = [InsertEntry ([0x61], [0x62]), Resize 40, InsertEntry ([0x63], [0x64]), Resize 70,
             InsertEntry ([0x65], [0x66])];
       d = foldl decoder_op (new_HpackDecoder 100) (map (map_table_op entry_of) ps);
       (m, es) = foldl (ref_op octet_size) (100, []) ps
   in table_ok d \<and> d_maxSize d = m \<and> prefix (map entry_of es) (d_dynamic d) \<and>
      d_dynamic d = map entry_of es \<and> (m, es) = (70, [([0x65], [0x66]), ([0x63], [0x64])])"
  using dynamic_table_refines [of "[InsertEntry ([0x61], [0x62]), Resize 40,
      InsertEntry ([0x63], [0x64]), Resize 70, InsertEntry ([0x65], [0x66])]" 100]
  by (simp add: decoder_permits_def new_HpackDecoder_def octet_size_def ascii_octets_def Let_def)

text \<open>The header budget is enforced exactly and never desynchronises the compression context: with
  limits, decoding leaves the same table as without, returns the same headers when their number
  and their encoded size (UTF-8 octets plus 32 per field) are within the limits, fails with
  \<^verbatim>\<open>ENHANCE_YOUR_CALM\<close> scoped to the given stream otherwise, and fails as before on a malformed
  block.\<close>

theorem hpack_budget_exact:
  "hpack_decode d block (Some l) =
     (case hpack_decode d block None of
        (d', Inl e) \<Rightarrow> (d', Inl e)
      | (d', Inr hs) \<Rightarrow>
          (d', if length hs \<le> l_maxHeaderCount l \<and> list_cost hs \<le> l_maxHeaderListBytes l then Inr hs
               else Inl (H2Exn (new_H2Error ENHANCE_YOUR_CALM (l_streamId l)))))"
  by (rule hpack_decode_limits)

text \<open>The size charged for a table entry counts UTF-16 code units; it is the octet count of RFC 7541,
  section 4.1, exactly when the name and the value are ASCII, and smaller otherwise.\<close>

theorem entry_size_octets:
  "entry_size e \<le> utf8Length (fst e) + utf8Length (snd e) + 32 \<and>
   (entry_size e = utf8Length (fst e) + utf8Length (snd e) + 32 \<longleftrightarrow>
    list_all (\<lambda>u. u \<le> 0x7F) (fst e @ snd e))"
  using utf8Length_ge [of "fst e"] utf8Length_ge [of "snd e"]
  by (auto simp: entry_size_def ENTRY_OVERHEAD_def simp del: utf8Length.simps)

end
