(* ===== verification/H2_Stream.thy ===== *)
theory H2_Stream
  imports Flow Hpack
begin

text \<open>
  \<^verbatim>\<open>web/src/h2/stream.ts\<close>: the receive side of one HTTP/2 stream.

  The promise \<^verbatim>\<open>head\<close> is a \<open>head_state\<close>: pending, resolved or rejected, settled at most once. The
  body \<^verbatim>\<open>ReadableStream\<close> is represented by what its two callbacks do: \<open>pullBody\<close> is one turn of the
  pull loop, with what it hands to the controller (or that it parks), \<open>cancelBody\<close> the cancel
  callback, with the bytes given to \<^verbatim>\<open>onConsume\<close> and whether \<^verbatim>\<open>onCancel\<close> is called. The two callbacks
  belong to the connection, which runs them.

  The header object \<^verbatim>\<open>const headers: Record<string, string> = {}\<close> is an ordinary object, so reading
  an absent name looks it up in \<^verbatim>\<open>Object.prototype\<close>: \<open>proto\<close> gives the text of the inherited
  property of that name, if there is one, and assigning \<^verbatim>\<open>__proto__\<close> a string does nothing.
\<close>

datatype stream_state = Idle | ReservedRemote | Open | HalfClosedLocal | HalfClosedRemote | Closed

type_synonym header_object = "jsstring \<rightharpoonup> jsstring"

record head_head =
  hh_endStream :: "bool option"
  hh_status :: "int option"
  hh_headers :: header_object
  hh_raw :: "header_entry list"

subsection \<open>Header collection\<close>

text \<open>\<^verbatim>\<open>Number.parseInt(value, 10)\<close>: leading white space, a sign, then decimal digits; \<open>None\<close> is NaN.\<close>

definition js_space :: "codeunit \<Rightarrow> bool" where
  "js_space u \<longleftrightarrow>
     unat u \<in> {9, 10, 11, 12, 13, 32, 0xA0, 0x1680, 0x2028, 0x2029, 0x202F, 0x205F, 0x3000, 0xFEFF} \<or>
     0x2000 \<le> unat u \<and> unat u \<le> 0x200A"

definition js_digit :: "codeunit \<Rightarrow> bool" where
  "js_digit u \<longleftrightarrow> 48 \<le> unat u \<and> unat u \<le> 57"

definition decimal :: "jsstring \<Rightarrow> int" where
  "decimal ds = foldl (\<lambda>n u. 10 * n + (int (unat u) - 48)) 0 ds"

definition parseInt10 :: "jsstring \<Rightarrow> int option" where
  "parseInt10 v =
     (let t = dropWhile js_space v;
          neg = (t \<noteq> [] \<and> hd t = 45);
          body = (if t \<noteq> [] \<and> (hd t = 45 \<or> hd t = 43) then tl t else t);
          ds = takeWhile js_digit body
      in if ds = [] then None else Some (if neg then - decimal ds else decimal ds))"

definition obj_get :: "(jsstring \<Rightarrow> jsstring option) \<Rightarrow> header_object \<Rightarrow> jsstring \<Rightarrow> jsstring option" where
  "obj_get proto obj name = (case obj name of Some v \<Rightarrow> Some v | None \<Rightarrow> proto name)"

definition obj_set :: "header_object \<Rightarrow> jsstring \<Rightarrow> jsstring \<Rightarrow> header_object" where
  "obj_set obj name v = (if name = js ''__proto__'' then obj else obj(name \<mapsto> v))"

definition is_pseudo :: "jsstring \<Rightarrow> bool" where
  "is_pseudo name \<longleftrightarrow> name \<noteq> [] \<and> hd name = 58"

fun collect_loop ::
  "(jsstring \<Rightarrow> jsstring option) \<Rightarrow> header_entry list \<Rightarrow> int option \<times> header_object \<Rightarrow>
   int option \<times> header_object" where
  "collect_loop proto [] acc = acc"
| "collect_loop proto ((name, val) # raw) (status, headers) =
     (if name = js '':status'' then collect_loop proto raw (parseInt10 val, headers)
      else if is_pseudo name then collect_loop proto raw (status, headers)
      else collect_loop proto raw (status,
             (case obj_get proto headers name of
                None \<Rightarrow> obj_set headers name val
              | Some existing \<Rightarrow>
                  obj_set headers name
                    (existing @ (if name = js ''cookie'' then js ''; '' else js '', '') @ val))))"

definition collectHeaders :: "(jsstring \<Rightarrow> jsstring option) \<Rightarrow> header_entry list \<Rightarrow> head_head" where
  "collectHeaders proto raw =
     (case collect_loop proto raw (None, \<lambda>_. None) of
        (status, headers) \<Rightarrow>
          \<lparr>hh_endStream = None, hh_status = status, hh_headers = headers, hh_raw = raw\<rparr>)"

subsection \<open>Stream state\<close>

datatype head_state = Pending | Resolved head_head | Rejected exn

record h2stream =
  st_id :: nat
  st_sendWindow :: send_window
  st_recvWindow :: int
  st_state :: stream_state
  st_localClosed :: bool
  st_remoteClosed :: bool
  st_head :: head_state
  st_gotHead :: bool
  st_trailers :: "header_object option"
  st_recvQueue :: "byte list list"
  st_recvBuffered :: int
  st_recvEnded :: bool
  st_recvError :: "exn option"
  st_recvNotify :: bool
  st_bodyDone :: bool
  st_stopped :: "exn option"

definition new_H2Stream :: "nat \<Rightarrow> int \<Rightarrow> stream_state \<Rightarrow> int \<Rightarrow> h2stream" where
  "new_H2Stream sid initialSendWindow state initialReceiveWindow =
     \<lparr>st_id = sid, st_sendWindow = new_SendWindow initialSendWindow,
      st_recvWindow = initialReceiveWindow, st_state = state,
      st_localClosed = False, st_remoteClosed = False,
      st_head = Pending, st_gotHead = False, st_trailers = None,
      st_recvQueue = [], st_recvBuffered = 0, st_recvEnded = False, st_recvError = None,
      st_recvNotify = False, st_bodyDone = False, st_stopped = None\<rparr>"

definition settle_head :: "h2stream \<Rightarrow> head_state \<Rightarrow> h2stream" where
  "settle_head s h = (if st_head s = Pending then s\<lparr>st_head := h\<rparr> else s)"

definition wakeRecv :: "h2stream \<Rightarrow> h2stream" where
  "wakeRecv s = s\<lparr>st_recvNotify := False\<rparr>"

definition endBody :: "h2stream \<Rightarrow> h2stream" where
  "endBody s = wakeRecv (s\<lparr>st_recvEnded := True\<rparr>)"

definition receiveHeaders ::
  "(jsstring \<Rightarrow> jsstring option) \<Rightarrow> h2stream \<Rightarrow> header_entry list \<Rightarrow> bool \<Rightarrow> h2stream" where
  "receiveHeaders proto s raw endStream =
     (if \<not> st_gotHead s then
        (let head = collectHeaders proto raw;
             interim = (case hh_status head of None \<Rightarrow> False | Some c \<Rightarrow> c \<ge> 100 \<and> c < 200)
         in if interim then s
            else (let s1 = settle_head (s\<lparr>st_gotHead := True\<rparr>)
                            (Resolved (head\<lparr>hh_endStream := Some endStream\<rparr>))
                  in if endStream then endBody s1 else s1))
      else (let s1 = s\<lparr>st_trailers := Some (hh_headers (collectHeaders proto raw))\<rparr>
            in if endStream then endBody s1 else s1))"

definition receiveData :: "h2stream \<Rightarrow> byte list \<Rightarrow> bool \<Rightarrow> h2stream" where
  "receiveData s data endStream =
     (let s1 = (if length data > 0 \<and> \<not> st_bodyDone s
                then s\<lparr>st_recvQueue := st_recvQueue s @ [data],
                       st_recvBuffered := st_recvBuffered s + int (length data)\<rparr>
                else s);
          s2 = (if endStream then s1\<lparr>st_recvEnded := True\<rparr> else s1)
      in wakeRecv s2)"

definition discardBuffered :: "h2stream \<Rightarrow> int \<times> h2stream" where
  "discardBuffered s = (st_recvBuffered s, s\<lparr>st_recvBuffered := 0, st_recvQueue := []\<rparr>)"

definition fail :: "h2stream \<Rightarrow> exn \<Rightarrow> h2stream" where
  "fail s err =
     (let s1 = s\<lparr>st_stopped := (case st_stopped s of None \<Rightarrow> Some err | Some e \<Rightarrow> Some e),
                 st_state := Closed, st_sendWindow := fst (sw_close (st_sendWindow s))\<rparr>;
          s2 = (if \<not> st_gotHead s1 then settle_head (s1\<lparr>st_gotHead := True\<rparr>) (Rejected err) else s1);
          s3 = s2\<lparr>st_recvError := (case st_recvError s2 of None \<Rightarrow> Some err | Some e \<Rightarrow> Some e)\<rparr>
      in wakeRecv s3)"

definition receiveReset :: "h2stream \<Rightarrow> nat \<Rightarrow> h2stream" where
  "receiveReset s errorCode =
     (let name = (case errorCodeName errorCode of Some n \<Rightarrow> n | None \<Rightarrow> PROTOCOL_ERROR);
          err = new_H2Error name (Some (st_id s));
          err' = (if name = REFUSED_STREAM then err\<lparr>err_retry := Some Refused\<rparr> else err)
      in fail s (H2Exn err'))"

subsection \<open>The body\<close>

datatype pull_outcome = PullChunk "byte list" | PullError exn | PullClose | PullPark

definition pullBody :: "h2stream \<Rightarrow> h2stream \<times> pull_outcome" where
  "pullBody s =
     (case st_recvQueue s of
        chunk # q \<Rightarrow>
          (s\<lparr>st_recvQueue := q, st_recvBuffered := st_recvBuffered s - int (length chunk)\<rparr>,
           PullChunk chunk)
      | [] \<Rightarrow>
          (case st_recvError s of
             Some e \<Rightarrow> (s\<lparr>st_bodyDone := True\<rparr>, PullError e)
           | None \<Rightarrow> if st_recvEnded s then (s\<lparr>st_bodyDone := True\<rparr>, PullClose)
                     else (s\<lparr>st_recvNotify := True\<rparr>, PullPark)))"

text \<open>The bytes passed to \<^verbatim>\<open>onConsume\<close> (0: not called), and whether \<^verbatim>\<open>onCancel\<close> is called.\<close>

definition cancelBody :: "h2stream \<Rightarrow> h2stream \<times> int \<times> bool" where
  "cancelBody s =
     (let live = (\<not> st_bodyDone s \<and> \<not> st_recvEnded s \<and> st_recvError s = None);
          consumed = (if st_recvBuffered s > 0 then st_recvBuffered s else 0)
      in (s\<lparr>st_bodyDone := True, st_recvBuffered := (if st_recvBuffered s > 0 then 0 else st_recvBuffered s),
            st_recvQueue := []\<rparr>, consumed, live))"

subsection \<open>Invariant\<close>

definition queued :: "h2stream \<Rightarrow> nat" where
  "queued s = sum_list (map length (st_recvQueue s))"

text \<open>
  The buffer counter is exact; the head promise is settled exactly when \<^verbatim>\<open>gotHead\<close> is set; a failed
  stream is closed, refuses to send and has settled its head.
\<close>

definition stream_ok :: "h2stream \<Rightarrow> bool" where
  "stream_ok s \<longleftrightarrow>
     st_recvBuffered s = int (queued s) \<and> [] \<notin> set (st_recvQueue s) \<and>
     (st_gotHead s \<longleftrightarrow> st_head s \<noteq> Pending) \<and>
     (st_recvError s \<noteq> None \<longrightarrow> st_gotHead s \<and> sw_closed (st_sendWindow s)) \<and>
     window_ok (st_sendWindow s)"

lemma stream_ok_new: "stream_ok (new_H2Stream i w st rw)"
  by (simp add: stream_ok_def new_H2Stream_def queued_def window_ok_def new_SendWindow_def)

lemma stream_ok_receiveHeaders: "stream_ok s \<Longrightarrow> stream_ok (receiveHeaders proto s raw e)"
  by (auto simp: stream_ok_def receiveHeaders_def queued_def endBody_def wakeRecv_def settle_head_def
      Let_def split: option.splits)

lemma stream_ok_receiveData: "stream_ok s \<Longrightarrow> stream_ok (receiveData s d e)"
  by (auto simp: stream_ok_def receiveData_def queued_def wakeRecv_def Let_def)

lemma stream_ok_discard: "stream_ok s \<Longrightarrow> stream_ok (snd (discardBuffered s))"
  by (auto simp: stream_ok_def discardBuffered_def queued_def)

lemma stream_ok_fail: "stream_ok s \<Longrightarrow> stream_ok (fail s err)"
  by (auto simp: stream_ok_def fail_def queued_def wakeRecv_def settle_head_def window_ok_def
      sw_close_def sw_wake_def Let_def split: option.splits)

lemma stream_ok_receiveReset: "stream_ok s \<Longrightarrow> stream_ok (receiveReset s c)"
  by (simp add: receiveReset_def Let_def stream_ok_fail)

lemma stream_ok_pull: "stream_ok s \<Longrightarrow> stream_ok (fst (pullBody s))"
  by (auto simp: stream_ok_def pullBody_def queued_def split: list.splits option.splits)

lemma stream_ok_cancel: "stream_ok s \<Longrightarrow> stream_ok (fst (cancelBody s))"
  by (auto simp: stream_ok_def cancelBody_def queued_def Let_def)

lemmas stream_ok_ops = stream_ok_new stream_ok_receiveHeaders stream_ok_receiveData stream_ok_discard
  stream_ok_fail stream_ok_receiveReset stream_ok_pull stream_ok_cancel

subsection \<open>Delivery of the body\<close>

text \<open>
  What happens to the receive side between its creation and the consumer's last read: frames
  that reach the stream, a failure of the connection (GOAWAY, \<^verbatim>\<open>destroy\<close>, the reason of an abort),
  the peer's RST_STREAM and the connection's own \<^verbatim>\<open>resetStream\<close>, both of which drop the unread
  data before they fail the stream, and the consumer's reads and its cancellation.

  A failed stream has left the connection's map, so no frame reaches it any more; the platform
  calls neither callback of a body that is closed, errored or cancelled.
\<close>

datatype body_event =
    EvData "byte list" bool
  | EvHeaders "header_entry list" bool
  | EvFail exn
  | EvReset nat
  | EvResetLocal exn
  | EvPull
  | EvCancel

definition drop_and_reset :: "h2stream \<Rightarrow> nat \<Rightarrow> h2stream" where
  "drop_and_reset s errorCode = receiveReset (snd (discardBuffered s)) errorCode"

definition drop_and_fail :: "h2stream \<Rightarrow> exn \<Rightarrow> h2stream" where
  "drop_and_fail s err = fail ((snd (discardBuffered s))\<lparr>st_state := Closed\<rparr>) err"

fun body_step ::
  "(jsstring \<Rightarrow> jsstring option) \<Rightarrow> h2stream \<times> pull_outcome list \<Rightarrow> body_event \<Rightarrow>
   h2stream \<times> pull_outcome list" where
  "body_step proto (s, out) (EvData d e) = (if st_recvError s = None then receiveData s d e else s, out)"
| "body_step proto (s, out) (EvHeaders raw e) =
     (if st_recvError s = None then receiveHeaders proto s raw e else s, out)"
| "body_step proto (s, out) (EvFail err) = (fail s err, out)"
| "body_step proto (s, out) (EvReset errorCode) = (drop_and_reset s errorCode, out)"
| "body_step proto (s, out) (EvResetLocal err) = (drop_and_fail s err, out)"
| "body_step proto (s, out) EvPull =
     (if st_bodyDone s then (s, out)
      else case pullBody s of
        (s1, PullPark) \<Rightarrow> (s1, out)
      | (s1, r) \<Rightarrow> (s1, out @ [r]))"
| "body_step proto (s, out) EvCancel = (if st_bodyDone s then s else fst (cancelBody s), out)"

definition body_run ::
  "(jsstring \<Rightarrow> jsstring option) \<Rightarrow> h2stream \<Rightarrow> body_event list \<Rightarrow> h2stream \<times> pull_outcome list" where
  "body_run proto s evs = foldl (body_step proto) (s, []) evs"

fun data_of :: "body_event \<Rightarrow> byte list list" where
  "data_of (EvData d e) = (if d = [] then [] else [d])"
| "data_of _ = []"

fun ends :: "body_event \<Rightarrow> bool" where
  "ends (EvData d e) = e" | "ends (EvHeaders raw e) = e" | "ends _ = False"

text \<open>The error an event fails stream \<open>i\<close> with; the peer's code as \<^verbatim>\<open>receiveReset\<close> reads it.\<close>

definition reset_error :: "nat \<Rightarrow> nat \<Rightarrow> exn" where
  "reset_error i errorCode =
     (let err = new_H2Error (case errorCodeName errorCode of Some n \<Rightarrow> n | None \<Rightarrow> PROTOCOL_ERROR) (Some i)
      in H2Exn (if errorCodeName errorCode = Some REFUSED_STREAM then err\<lparr>err_retry := Some Refused\<rparr> else err))"

fun failure_of :: "nat \<Rightarrow> body_event \<Rightarrow> exn option" where
  "failure_of i (EvFail e) = Some e"
| "failure_of i (EvReset errorCode) = Some (reset_error i errorCode)"
| "failure_of i (EvResetLocal e) = Some e"
| "failure_of i _ = None"

fun fails :: "body_event \<Rightarrow> bool" where
  "fails (EvFail e) = True" | "fails (EvReset c) = True" | "fails (EvResetLocal e) = True" | "fails _ = False"

fun drops :: "body_event \<Rightarrow> bool" where
  "drops (EvReset c) = True" | "drops (EvResetLocal e) = True" | "drops _ = False"

fun cancels :: "body_event \<Rightarrow> bool" where
  "cancels EvCancel = True" | "cancels _ = False"

abbreviation received :: "body_event list \<Rightarrow> byte list list" where
  "received evs \<equiv> concat (map data_of evs)"

abbreviation undisturbed :: "body_event list \<Rightarrow> bool" where
  "undisturbed evs \<equiv> \<not> list_ex fails evs \<and> \<not> list_ex cancels evs"

text \<open>
  The four situations of a body after the events \<open>evs\<close>, with the outcomes \<open>out\<close> handed to the
  consumer so far.
\<close>

definition body_open :: "body_event list \<Rightarrow> h2stream \<Rightarrow> pull_outcome list \<Rightarrow> bool" where
  "body_open evs s out \<longleftrightarrow>
     undisturbed evs \<and> \<not> st_bodyDone s \<and> st_recvError s = None \<and>
     (\<exists>cs. out = map PullChunk cs \<and> cs @ st_recvQueue s = received evs)"

definition body_closed :: "body_event list \<Rightarrow> h2stream \<Rightarrow> pull_outcome list \<Rightarrow> bool" where
  "body_closed evs s out \<longleftrightarrow>
     st_bodyDone s \<and> st_recvQueue s = [] \<and>
     (\<exists>evs1 evs2. evs = evs1 @ evs2 \<and> undisturbed evs1 \<and> list_ex ends evs1 \<and>
        out = map PullChunk (received evs1) @ [PullClose])"

definition body_failing :: "nat \<Rightarrow> body_event list \<Rightarrow> h2stream \<Rightarrow> pull_outcome list \<Rightarrow> bool" where
  "body_failing i evs s out \<longleftrightarrow>
     \<not> st_bodyDone s \<and>
     (\<exists>evs1 r later cs. evs = evs1 @ r # later \<and> undisturbed evs1 \<and>
        failure_of i r \<noteq> None \<and> st_recvError s = failure_of i r \<and>
        out = map PullChunk cs \<and> prefix cs (received evs1) \<and>
        (if list_ex drops (r # later) then st_recvQueue s = []
         else cs @ st_recvQueue s = received evs1))"

definition body_failed :: "nat \<Rightarrow> body_event list \<Rightarrow> h2stream \<Rightarrow> pull_outcome list \<Rightarrow> bool" where
  "body_failed i evs s out \<longleftrightarrow>
     st_bodyDone s \<and> st_recvQueue s = [] \<and>
     (\<exists>evs1 r later evs2 e cs. evs = evs1 @ r # later @ evs2 \<and> undisturbed evs1 \<and> failure_of i r = Some e \<and>
        out = map PullChunk cs @ [PullError e] \<and> prefix cs (received evs1) \<and>
        (list_ex drops (r # later) \<or> cs = received evs1))"

definition body_cancelled :: "body_event list \<Rightarrow> h2stream \<Rightarrow> pull_outcome list \<Rightarrow> bool" where
  "body_cancelled evs s out \<longleftrightarrow>
     st_bodyDone s \<and> st_recvQueue s = [] \<and>
     (\<exists>evs1 evs2 cs. evs = evs1 @ EvCancel # evs2 \<and> out = map PullChunk cs \<and> prefix cs (received evs1))"

definition delivered :: "nat \<Rightarrow> body_event list \<Rightarrow> h2stream \<Rightarrow> pull_outcome list \<Rightarrow> bool" where
  "delivered i evs s out \<longleftrightarrow>
     body_open evs s out \<or> body_closed evs s out \<or> body_failing i evs s out \<or> body_failed i evs s out \<or>
     body_cancelled evs s out"

lemma receiveHeaders_body:
  "st_recvQueue (receiveHeaders proto s raw e) = st_recvQueue s"
  "st_bodyDone (receiveHeaders proto s raw e) = st_bodyDone s"
  "st_recvError (receiveHeaders proto s raw e) = st_recvError s"
  "st_recvEnded (receiveHeaders proto s raw e) \<Longrightarrow> st_recvEnded s \<or> e"
  "st_id (receiveHeaders proto s raw e) = st_id s"
  by (auto simp: receiveHeaders_def endBody_def wakeRecv_def settle_head_def Let_def
      split: option.splits if_splits)

lemma fail_body:
  "st_recvQueue (fail s err) = st_recvQueue s"
  "st_bodyDone (fail s err) = st_bodyDone s"
  "st_recvError (fail s err) = (case st_recvError s of None \<Rightarrow> Some err | Some e \<Rightarrow> Some e)"
  "st_recvEnded (fail s err) = st_recvEnded s"
  "st_id (fail s err) = st_id s"
  by (auto simp: fail_def wakeRecv_def settle_head_def Let_def split: option.splits)

lemma receiveData_body:
  "st_bodyDone (receiveData s d e) = st_bodyDone s"
  "st_recvError (receiveData s d e) = st_recvError s"
  "st_recvEnded (receiveData s d e) = (st_recvEnded s \<or> e)"
  "st_recvQueue (receiveData s d e) =
     (if d \<noteq> [] \<and> \<not> st_bodyDone s then st_recvQueue s @ [d] else st_recvQueue s)"
  "st_id (receiveData s d e) = st_id s"
  by (auto simp: receiveData_def wakeRecv_def Let_def)

lemma receiveReset_fail: "receiveReset s errorCode = fail s (reset_error (st_id s) errorCode)"
  by (auto simp: receiveReset_def reset_error_def Let_def split: option.splits)

text \<open>The two resets drop the queue and then fail the stream.\<close>

lemma reset_body:
  "st_recvQueue (drop_and_reset s c) = []" "st_recvQueue (drop_and_fail s err) = []"
  "st_bodyDone (drop_and_reset s c) = st_bodyDone s" "st_bodyDone (drop_and_fail s err) = st_bodyDone s"
  "st_recvError (drop_and_reset s c) =
     (case st_recvError s of None \<Rightarrow> Some (reset_error (st_id s) c) | Some e \<Rightarrow> Some e)"
  "st_recvError (drop_and_fail s err) = (case st_recvError s of None \<Rightarrow> Some err | Some e \<Rightarrow> Some e)"
  "st_recvEnded (drop_and_reset s c) = st_recvEnded s" "st_recvEnded (drop_and_fail s err) = st_recvEnded s"
  "st_id (drop_and_reset s c) = st_id s" "st_id (drop_and_fail s err) = st_id s"
  by (simp_all add: drop_and_reset_def drop_and_fail_def receiveReset_fail fail_body discardBuffered_def)

lemma cancel_body:
  "st_recvQueue (fst (cancelBody s)) = []" "st_bodyDone (fst (cancelBody s))"
  "st_recvEnded (fst (cancelBody s)) = st_recvEnded s" "st_id (fst (cancelBody s)) = st_id s"
  by (simp_all add: cancelBody_def Let_def)

lemmas body_facts = receiveHeaders_body(1-3,5) fail_body receiveData_body reset_body cancel_body

lemma fails_iff: "fails ev \<longleftrightarrow> failure_of i ev \<noteq> None"
  by (cases ev) auto

lemma drops_fails: "drops ev \<Longrightarrow> fails ev"
  by (cases ev) auto

lemma body_step_flags:
  assumes "body_step proto (s, out) ev = (s', out')"
  shows "st_recvEnded s' \<Longrightarrow> st_recvEnded s \<or> ends ev" and "st_id s' = st_id s"
  using assms receiveHeaders_body(4) [of proto s]
  by (cases ev; auto simp: body_facts pullBody_def split: list.splits option.splits if_splits)+

text \<open>A body that is done stays so and hands out nothing more.\<close>

lemma body_step_done:
  assumes "body_step proto (s, out) ev = (s', out')" and "st_bodyDone s" and "st_recvQueue s = []"
  shows "st_bodyDone s' \<and> st_recvQueue s' = [] \<and> out' = out"
  using assms by (cases ev) (auto simp: body_facts split: if_splits)

lemma failed_event:
  assumes "body_step proto (s, out) ev = (s', out')" and "failure_of (st_id s) ev = Some e"
  shows "st_recvError s' = (case st_recvError s of None \<Rightarrow> Some e | Some e' \<Rightarrow> Some e')"
    "st_bodyDone s' = st_bodyDone s" "out' = out"
    "st_recvQueue s' = (if drops ev then [] else st_recvQueue s)"
  using assms by (cases ev; auto simp: body_facts split: option.splits)+

lemma body_closed_step:
  assumes "body_closed evs s out" and "body_step proto (s, out) ev = (s', out')"
  shows "body_closed (evs @ [ev]) s' out'"
  using assms(1) body_step_done [OF assms(2)] unfolding body_closed_def
  by (metis append.assoc)

lemma body_failed_step:
  assumes "body_failed i evs s out" and "body_step proto (s, out) ev = (s', out')"
  shows "body_failed i (evs @ [ev]) s' out'"
proof -
  from assms(1) have fin: "st_bodyDone s" "st_recvQueue s = []" by (simp_all add: body_failed_def)
  from assms(1) obtain evs1 r later evs2 e cs where
    "evs @ [ev] = evs1 @ r # later @ (evs2 @ [ev])" "undisturbed evs1" "failure_of i r = Some e"
    "out = map PullChunk cs @ [PullError e]" "prefix cs (received evs1)"
    "list_ex drops (r # later) \<or> cs = received evs1"
    unfolding body_failed_def by auto
  with body_step_done [OF assms(2) fin] show ?thesis unfolding body_failed_def by blast
qed

lemma body_cancelled_step:
  assumes "body_cancelled evs s out" and "body_step proto (s, out) ev = (s', out')"
  shows "body_cancelled (evs @ [ev]) s' out'"
proof -
  from assms(1) have fin: "st_bodyDone s" "st_recvQueue s = []" by (simp_all add: body_cancelled_def)
  from assms(1) obtain evs1 evs2 cs where
    "evs @ [ev] = evs1 @ EvCancel # (evs2 @ [ev])" "out = map PullChunk cs" "prefix cs (received evs1)"
    unfolding body_cancelled_def by auto
  with body_step_done [OF assms(2) fin] show ?thesis unfolding body_cancelled_def by blast
qed

lemma body_open_pull:
  assumes "body_open evs s out" and "body_step proto (s, out) EvPull = (s', out')"
    and "st_recvEnded s \<Longrightarrow> list_ex ends evs"
  shows "body_open (evs @ [EvPull]) s' out' \<or> body_closed (evs @ [EvPull]) s' out'"
proof -
  from assms(1) obtain cs where o: "undisturbed evs" "\<not> st_bodyDone s" "st_recvError s = None"
    "out = map PullChunk cs" "cs @ st_recvQueue s = received evs" by (auto simp: body_open_def)
  show ?thesis
  proof (cases "st_recvQueue s")
    case (Cons c q)
    with assms(2) o(2-4) have "out' = map PullChunk (cs @ [c])" "st_recvQueue s' = q" "\<not> st_bodyDone s'"
      "st_recvError s' = None" by (auto simp: pullBody_def)
    moreover have "(cs @ [c]) @ q = received (evs @ [EvPull])" using o(5) Cons by simp
    ultimately have "body_open (evs @ [EvPull]) s' out'"
      using o(1) unfolding body_open_def by (intro conjI exI [of _ "cs @ [c]"]) auto
    then show ?thesis ..
  next
    case Nil
    show ?thesis
    proof (cases "st_recvEnded s")
      case True
      with assms(2) o Nil have "st_bodyDone s'" "st_recvQueue s' = []" "out' = map PullChunk (received evs) @ [PullClose]"
        by (auto simp: pullBody_def)
      with o(1) assms(3) [OF True] have "body_closed (evs @ [EvPull]) s' out'"
        unfolding body_closed_def by blast
      then show ?thesis ..
    next
      case False
      with assms(2) o Nil show ?thesis by (auto simp: body_open_def pullBody_def)
    qed
  qed
qed

lemma body_open_step:
  assumes "body_open evs s out" and "body_step proto (s, out) ev = (s', out')"
    and "st_recvEnded s \<Longrightarrow> list_ex ends evs" and "st_id s = i"
  shows "delivered i (evs @ [ev]) s' out'"
proof -
  from assms(1) obtain cs where o: "undisturbed evs" "\<not> st_bodyDone s" "st_recvError s = None"
    "out = map PullChunk cs" "cs @ st_recvQueue s = received evs" by (auto simp: body_open_def)
  consider (arrives) "\<not> fails ev" "ev \<noteq> EvPull" "ev \<noteq> EvCancel" | (reads) "ev = EvPull" | (abandons) "ev = EvCancel"
    | (breaks) e where "failure_of i ev = Some e"
    using fails_iff [of ev i] by auto
  then show ?thesis
  proof cases
    case arrives
    with assms(2) o have "body_open (evs @ [ev]) s' out'"
      by (cases ev) (auto simp: body_open_def body_facts)
    then show ?thesis by (simp add: delivered_def)
  next
    case reads
    from body_open_pull [OF assms(1) assms(2) [unfolded reads] assms(3)] reads show ?thesis
      by (auto simp: delivered_def)
  next
    case abandons
    with assms(2) o have "st_bodyDone s'" "st_recvQueue s' = []" "out' = map PullChunk cs"
      by (auto simp: body_facts)
    moreover have "prefix cs (received evs)" using o(5) by (metis prefixI)
    ultimately have "body_cancelled (evs @ [ev]) s' out'" unfolding body_cancelled_def abandons by blast
    then show ?thesis by (simp add: delivered_def)
  next
    case breaks
    from failed_event [OF assms(2) breaks [folded assms(4)]] o
    have "st_recvError s' = failure_of i ev" "\<not> st_bodyDone s'" "out' = map PullChunk cs"
      "if list_ex drops [ev] then st_recvQueue s' = [] else cs @ st_recvQueue s' = received evs"
      using breaks by auto
    moreover have "prefix cs (received evs)" using o(5) by (metis prefixI)
    ultimately have "body_failing i (evs @ [ev]) s' out'"
      unfolding body_failing_def using o(1) breaks by blast
    then show ?thesis by (simp add: delivered_def)
  qed
qed

lemma body_failing_step:
  assumes "body_failing i evs s out" and "body_step proto (s, out) ev = (s', out')" and "st_id s = i"
  shows "delivered i (evs @ [ev]) s' out'"
proof -
  from assms(1) obtain evs1 r later cs e where f: "\<not> st_bodyDone s" "evs = evs1 @ r # later" "undisturbed evs1"
    "failure_of i r = Some e" "st_recvError s = Some e" "out = map PullChunk cs" "prefix cs (received evs1)"
    "if list_ex drops (r # later) then st_recvQueue s = [] else cs @ st_recvQueue s = received evs1"
    unfolding body_failing_def by auto
  have stay: ?thesis if "\<not> st_bodyDone s'" "st_recvError s' = Some e" "out' = map PullChunk ds"
    "prefix ds (received evs1)" "if list_ex drops (r # later @ [ev]) then st_recvQueue s' = []
      else ds @ st_recvQueue s' = received evs1" for ds
  proof -
    have "evs @ [ev] = evs1 @ r # (later @ [ev])" using f(2) by simp
    moreover have "failure_of i r \<noteq> None" "st_recvError s' = failure_of i r" using that(2) f(4) by simp_all
    ultimately have "body_failing i (evs @ [ev]) s' out'"
      unfolding body_failing_def using that(1,3-5) f(3) by blast
    then show ?thesis by (simp add: delivered_def)
  qed
  consider (arrives) "\<not> fails ev" "ev \<noteq> EvPull" "ev \<noteq> EvCancel" | (reads) "ev = EvPull" | (abandons) "ev = EvCancel"
    | (breaks) e' where "failure_of i ev = Some e'"
    using fails_iff [of ev i] by auto
  then show ?thesis
  proof cases
    case arrives
    have "s' = s \<and> out' = out \<and> \<not> drops ev" using arrives assms(2) f(5) drops_fails [of ev] by (cases ev) auto
    with f show ?thesis by (intro stay [of cs]) auto
  next
    case breaks
    from failed_event [OF assms(2) breaks [folded assms(3)]] f show ?thesis by (intro stay [of cs]) auto
  next
    case abandons
    with assms(2) f have "st_bodyDone s'" "st_recvQueue s' = []" "out' = map PullChunk cs"
      by (auto simp: body_facts)
    moreover have "prefix cs (received evs)" using f(2,7) by (simp add: prefix_order.trans)
    ultimately have "body_cancelled (evs @ [ev]) s' out'" unfolding body_cancelled_def abandons by blast
    then show ?thesis by (simp add: delivered_def)
  next
    case reads
    show ?thesis
    proof (cases "st_recvQueue s")
      case (Cons c q)
      with f(8) have eq: "(cs @ [c]) @ q = received evs1" and nd: "\<not> list_ex drops (r # later)"
        by (auto split: if_splits)
      show ?thesis
      proof (rule stay [of "cs @ [c]"])
        show "prefix (cs @ [c]) (received evs1)" using eq by (metis prefixI)
      qed (use assms(2) reads f(1,5,6) Cons eq nd in \<open>auto simp: pullBody_def\<close>)
    next
      case Nil
      with assms(2) f(1,5,6) reads have "st_bodyDone s'" "st_recvQueue s' = []"
        "out' = map PullChunk cs @ [PullError e]" by (auto simp: pullBody_def)
      moreover have "list_ex drops (r # later) \<or> cs = received evs1" using f(8) Nil by (auto split: if_splits)
      moreover have "evs @ [ev] = evs1 @ r # later @ [ev]" using f(2) by simp
      ultimately have "body_failed i (evs @ [ev]) s' out'" unfolding body_failed_def using f(3,4,7) by blast
      then show ?thesis by (simp add: delivered_def)
    qed
  qed
qed

lemma body_run_delivered:
  assumes "body_run proto (new_H2Stream i w st rw) evs = (s, out)"
  shows "delivered i evs s out \<and> (st_recvEnded s \<longrightarrow> list_ex ends evs) \<and> st_id s = i"
  using assms
proof (induction evs arbitrary: s out rule: rev_induct)
  case Nil
  then show ?case by (auto simp: body_run_def new_H2Stream_def delivered_def body_open_def)
next
  case (snoc ev evs)
  obtain s0 out0 where r: "body_run proto (new_H2Stream i w st rw) evs = (s0, out0)" by fastforce
  with snoc.prems have st: "body_step proto (s0, out0) ev = (s, out)" by (simp add: body_run_def)
  note IH = snoc.IH [OF r]
  from IH consider "body_open evs s0 out0" | "body_closed evs s0 out0" | "body_failing i evs s0 out0"
    | "body_failed i evs s0 out0" | "body_cancelled evs s0 out0" by (auto simp: delivered_def)
  then have "delivered i (evs @ [ev]) s out"
  proof cases
    case 1
    from body_open_step [OF this st] IH show ?thesis by blast
  next
    case 2
    from body_closed_step [OF this st] show ?thesis by (simp add: delivered_def)
  next
    case 3
    from body_failing_step [OF this st] IH show ?thesis by blast
  next
    case 4
    from body_failed_step [OF this st] show ?thesis by (simp add: delivered_def)
  next
    case 5
    from body_cancelled_step [OF this st] show ?thesis by (simp add: delivered_def)
  qed
  then show ?case using body_step_flags [OF st] IH by auto
qed

subsection \<open>Header objects\<close>

text \<open>The values a header name has in a raw list, and the separator used to join them.\<close>

definition values_of :: "jsstring \<Rightarrow> header_entry list \<Rightarrow> jsstring list" where
  "values_of name raw = map snd (filter (\<lambda>e. fst e = name) raw)"

definition separator :: "jsstring \<Rightarrow> jsstring" where
  "separator name = (if name = js ''cookie'' then js ''; '' else js '', '')"

definition append_values :: "jsstring \<Rightarrow> jsstring \<Rightarrow> jsstring list \<Rightarrow> jsstring" where
  "append_values name t vs = t @ concat (map (\<lambda>v. separator name @ v) vs)"

text \<open>What is intended: nothing without a value, otherwise the values with the separator between them.\<close>

fun join_values :: "jsstring \<Rightarrow> jsstring list \<Rightarrow> jsstring option" where
  "join_values name [] = None"
| "join_values name (v # vs) = Some (append_values name v vs)"

lemma values_of_simps [simp]:
  "values_of name [] = []"
  "values_of name ((n, v) # raw) = (if n = name then v # values_of name raw else values_of name raw)"
  by (simp_all add: values_of_def)

lemma append_values_Cons: "append_values name (t @ separator name @ v) vs = append_values name t (v # vs)"
  by (simp add: append_values_def)

lemma append_values_longer: "append_values name t (v # vs) \<noteq> append_values name v vs"
proof -
  have "length (append_values name t (v # vs)) > length (append_values name v vs)"
    by (simp add: append_values_def separator_def js_def)
  then show ?thesis by force
qed

lemma collect_loop_here:
  assumes "\<not> is_pseudo name" and "name \<noteq> js ''__proto__''"
  shows "collect_loop proto ((name, v) # raw) (status, headers) =
    collect_loop proto raw (status, headers(name \<mapsto>
      (case obj_get proto headers name of None \<Rightarrow> v | Some t \<Rightarrow> t @ separator name @ v)))"
proof -
  have "name \<noteq> js '':status''" using assms(1) by (auto simp: is_pseudo_def js_def)
  with assms show ?thesis by (simp add: obj_set_def separator_def split: option.split)
qed

lemma collect_loop_other:
  assumes "n \<noteq> name"
  obtains status' headers' where "headers' name = headers name"
    "collect_loop proto ((n, v) # raw) (status, headers) = collect_loop proto raw (status', headers')"
proof -
  let ?set = "case obj_get proto headers n of
      None \<Rightarrow> obj_set headers n v
    | Some existing \<Rightarrow> obj_set headers n (existing @ separator n @ v)"
  let ?acc = "if n = js '':status'' then (parseInt10 v, headers)
    else (status, if is_pseudo n then headers else ?set)"
  have "collect_loop proto ((n, v) # raw) (status, headers) = collect_loop proto raw (fst ?acc, snd ?acc)"
    by (cases "obj_get proto headers n") (simp_all add: separator_def)
  moreover have "snd ?acc name = headers name"
    using assms by (simp add: obj_set_def split: option.split)
  ultimately show thesis using that by blast
qed

lemma collect_loop_name:
  assumes "\<not> is_pseudo name" and "name \<noteq> js ''__proto__''"
  shows "snd (collect_loop proto raw (status, headers)) name =
    (if values_of name raw = [] then headers name
     else case obj_get proto headers name of
       Some t \<Rightarrow> Some (append_values name t (values_of name raw))
     | None \<Rightarrow> join_values name (values_of name raw))"
proof (induction raw arbitrary: status headers)
  case (Cons e raw)
  obtain n v where e: "e = (n, v)" by fastforce
  show ?case
  proof (cases "n = name")
    case True
    have "snd (collect_loop proto raw (status, headers(name \<mapsto> x))) name =
        Some (append_values name x (values_of name raw))" for x
      by (simp only: Cons.IH) (simp add: obj_get_def append_values_def)
    then show ?thesis
      by (simp only: e True collect_loop_here [OF assms])
         (simp add: append_values_Cons split: option.split)
  next
    case False
    obtain status' headers' where h: "headers' name = headers name"
      "collect_loop proto (e # raw) (status, headers) = collect_loop proto raw (status', headers')"
      unfolding e by (rule collect_loop_other [OF False])
    have "values_of name (e # raw) = values_of name raw" "obj_get proto headers' name = obj_get proto headers name"
      using False h(1) by (simp_all add: e obj_get_def)
    then show ?thesis by (simp only: h Cons.IH)
  qed
qed simp

lemma collect_loop_proto: "snd (collect_loop proto raw (status, headers)) (js ''__proto__'') = headers (js ''__proto__'')"
proof (induction raw arbitrary: status headers)
  case (Cons e raw)
  then show ?case by (cases e) (auto simp: obj_set_def split: option.splits)
qed simp

subsection \<open>Properties\<close>

text \<open>C4: A response body is delivered completely and in order, as far as the stream is not reset. For every
  interleaving of DATA frames, header blocks, failures, resets from either side, reads and a
  cancellation, the body is in one of five situations. Open: what the consumer has read followed
  by what is buffered is exactly what arrived. Closed: the consumer has read exactly what arrived
  before the close, and END_STREAM had arrived, without a failure or cancellation. Failed and not
  yet reported: the consumer has read a prefix of what arrived before the first failure; the rest
  is buffered, unless a reset came, which drops it. Failed: after that prefix, which is all that
  arrived unless a reset dropped the rest, the consumer got the error of the first failure, for a
  peer's reset the error of its code. Cancelled: a prefix and no end marker. Once closed, failed or
  cancelled, the buffer is empty and nothing more is handed out.\<close>

theorem body_delivery:
  assumes "body_run proto (new_H2Stream i w st rw) evs = (s, out)"
  shows "body_open evs s out \<or> body_closed evs s out \<or> body_failing i evs s out \<or> body_failed i evs s out \<or>
     body_cancelled evs s out"
  using body_run_delivered [OF assms] by (simp add: delivered_def)

theorem body_delivery_witness:
  "let evs = [EvHeaders [(js '':status'', js ''200'')] False, EvData [1, 2] False, EvPull,
              EvData [3] False, EvReset 8, EvPull, EvPull];
       s = fst (body_run (\<lambda>_. None) (new_H2Stream 1 65535 Open 1000) evs)
   in body_failed 1 evs s [PullChunk [1, 2], PullError (H2Exn (new_H2Error CANCEL (Some 1)))]"
proof -
  let ?evs = "[EvHeaders [(js '':status'', js ''200'')] False, EvData [1, 2] False, EvPull,
              EvData [3] False, EvReset 8, EvPull, EvPull]"
  let ?r = "body_run (\<lambda>_. None) (new_H2Stream 1 65535 Open 1000) ?evs"
  have r: "snd ?r = [PullChunk [1, 2], PullError (H2Exn (new_H2Error CANCEL (Some 1)))] \<and> st_bodyDone (fst ?r)"
    by (simp add: body_run_def receiveHeaders_def receiveData_def pullBody_def new_H2Stream_def endBody_def wakeRecv_def
        settle_head_def drop_and_reset_def discardBuffered_def receiveReset_def errorCodeName_def ERROR_CODES_def fail_def Let_def split: option.splits)
  have "\<not> body_closed ?evs (fst ?r) (snd ?r)" unfolding body_closed_def using r by auto
  moreover have "\<not> body_cancelled ?evs (fst ?r) (snd ?r)" unfolding body_cancelled_def using r
    by (auto simp: Cons_eq_append_conv Cons_eq_map_conv)
  moreover have "\<not> body_open ?evs (fst ?r) (snd ?r)" "\<not> body_failing 1 ?evs (fst ?r) (snd ?r)"
    using r by (simp_all add: body_open_def body_failing_def)
  ultimately have "body_failed 1 ?evs (fst ?r) (snd ?r)"
    using body_delivery [OF prod.collapse [symmetric], where proto = "\<lambda>_. None" and evs = ?evs] by blast
  then show ?thesis using r by (simp add: Let_def)
qed

text \<open>Every operation on a stream keeps it consistent: the buffered-byte counter equals the bytes in
  the queue, the head promise is settled exactly when \<^verbatim>\<open>gotHead\<close> is set, and a failed stream has
  settled its head and closed its send window.\<close>

theorem stream_invariant:
  assumes "stream_ok s"
  shows "stream_ok (receiveHeaders proto s raw e) \<and> stream_ok (receiveData s d e) \<and>
     stream_ok (snd (discardBuffered s)) \<and> stream_ok (receiveReset s c) \<and> stream_ok (fail s err) \<and>
     stream_ok (fst (pullBody s)) \<and> stream_ok (fst (cancelBody s))"
  using assms by (simp add: stream_ok_ops)

theorem stream_invariant_witness:
  "let s = receiveData (new_H2Stream 1 0 Open 100) [7, 8] False in
   stream_ok (receiveHeaders (\<lambda>_. None) s [] True) \<and> stream_ok (receiveData s [9] True) \<and>
   stream_ok (snd (discardBuffered s)) \<and> stream_ok (receiveReset s 7) \<and> stream_ok (fail s RangeErr) \<and>
   stream_ok (fst (pullBody s)) \<and> stream_ok (fst (cancelBody s))"
  unfolding Let_def by (rule stream_invariant) (simp add: stream_ok_receiveData stream_ok_new)

text \<open>C32: What the header object holds, for any list of headers. A name that \<^verbatim>\<open>Object.prototype\<close> does not
  have is joined as intended: absent if it did not arrive, otherwise its values in order with the
  separator between them. A name that is inherited (\<^verbatim>\<open>constructor\<close>, \<^verbatim>\<open>toString\<close>) and arrived is
  corrupted: the text of the inherited property is put in front, so even a single value is read as
  \<open>t\<close>, a separator and the value. A header \<^verbatim>\<open>__proto__\<close> is lost however often it arrives.\<close>

theorem inherited_header_name:
  assumes "\<not> is_pseudo name"
  shows "let got = hh_headers (collectHeaders proto raw) name; vs = values_of name raw in
     (name = js ''__proto__'' \<longrightarrow> got = None) \<and>
     (name \<noteq> js ''__proto__'' \<and> proto name = None \<longrightarrow> got = join_values name vs) \<and>
     (name \<noteq> js ''__proto__'' \<and> vs \<noteq> [] \<longrightarrow>
        (\<forall>t. proto name = Some t \<longrightarrow> got = Some (append_values name t vs))) \<and>
     (got = join_values name vs \<longleftrightarrow> vs = [] \<or> name \<noteq> js ''__proto__'' \<and> proto name = None)"
proof -
  let ?vs = "values_of name raw"
  have got: "hh_headers (collectHeaders proto raw) name = snd (collect_loop proto raw (None, \<lambda>_. None)) name"
    by (simp add: collectHeaders_def split: prod.split)
  show ?thesis
  proof (cases "name = js ''__proto__''")
    case True
    then show ?thesis using got collect_loop_proto [of proto raw None "\<lambda>_. None"]
      by (cases ?vs) (simp_all add: Let_def)
  next
    case False
    note name = collect_loop_name [OF assms False, of proto raw None "\<lambda>_. None"]
    show ?thesis
    proof (cases ?vs)
      case Nil
      then show ?thesis using False got name by (simp add: Let_def)
    next
      case (Cons v vs)
      then show ?thesis using False got name append_values_longer [of name _ v vs]
        by (cases "proto name") (simp_all add: Let_def obj_get_def)
    qed
  qed
qed

theorem inherited_header_name_witness:
  "let proto = (\<lambda>n. if n = js ''constructor'' then Some (js ''function Object() {}'') else None);
       raw = [(js ''a'', js ''1''), (js ''constructor'', js ''x''), (js ''__proto__'', js ''y''), (js ''a'', js ''2'')]
   in hh_headers (collectHeaders proto raw) (js ''constructor'') = Some (js ''function Object() {}, x'') \<and>
      hh_headers (collectHeaders proto raw) (js ''a'') = Some (js ''1, 2'') \<and>
      hh_headers (collectHeaders proto raw) (js ''__proto__'') = None"
proof -
  let ?proto = "\<lambda>n. if n = js ''constructor'' then Some (js ''function Object() {}'') else None"
  let ?raw = "[(js ''a'', js ''1''), (js ''constructor'', js ''x''), (js ''__proto__'', js ''y''), (js ''a'', js ''2'')]"
  note h = inherited_header_name [where proto = ?proto and raw = ?raw]
  have ne: "js ''constructor'' \<noteq> js ''__proto__''" "js ''a'' \<noteq> js ''__proto__''" "js ''a'' \<noteq> js ''constructor''"
    by (simp_all add: js_def)
  have "hh_headers (collectHeaders ?proto ?raw) (js ''constructor'') =
      Some (append_values (js ''constructor'') (js ''function Object() {}'') [js ''x''])"
    using h [of "js ''constructor''"] ne by (simp add: is_pseudo_def Let_def) (simp add: js_def)
  moreover have "hh_headers (collectHeaders ?proto ?raw) (js ''a'') = join_values (js ''a'') [js ''1'', js ''2'']"
    using h [of "js ''a''"] ne by (simp add: is_pseudo_def Let_def) (simp add: js_def)
  moreover have "hh_headers (collectHeaders ?proto ?raw) (js ''__proto__'') = None"
    using h [of "js ''__proto__''"] by (simp add: is_pseudo_def Let_def) (simp add: js_def)
  ultimately show ?thesis by (simp add: Let_def append_values_def separator_def) (simp add: js_def)
qed

end
