(* ===== verification/H2_Connection.thy ===== *)
theory H2_Connection
  imports Frame_Codec H2_Stream "HOL-Library.AList"
begin

text \<open>
  \<^verbatim>\<open>web/src/h2/connection.ts\<close>: the state of \<^verbatim>\<open>H2Connection\<close> and its synchronous operations.

  Stream objects outlive their entry in the \<^verbatim>\<open>streams\<close> map (a consumer keeps reading the body of a
  retired stream), and a second \<^verbatim>\<open>PUSH_PROMISE\<close> can replace an entry, so objects live in a store:
  \<open>c_objs\<close> holds every stream object ever created and an address is an index into it; the map
  \<open>c_streams\<close> goes from stream ids to addresses in insertion order.

  Everything handed to the writer is logged in \<open>c_out\<close>. A promise the code only resolves to wake a
  parked coroutine is represented by the waiter lists (\<open>c_slotWaiters\<close>, the waiters of a window): a
  coroutine may resume once it is no longer listed. A throwing operation returns the state together
  with the exception. The coroutines themselves (\<^verbatim>\<open>request\<close>, \<^verbatim>\<open>pumpBody\<close>, \<^verbatim>\<open>readLoop\<close>) are in the
  theory \<open>H2_System\<close>.
\<close>

subsection \<open>State\<close>

definition SPEC_INITIAL_WINDOW :: nat where "SPEC_INITIAL_WINDOW = 65535"
definition MAX_HEADER_BLOCK_SIZE :: nat where "MAX_HEADER_BLOCK_SIZE = 2 ^ 20"
definition DEFAULT_MAX_HEADER_LIST_BYTES :: nat where "DEFAULT_MAX_HEADER_LIST_BYTES = 64 * 1024"
definition DEFAULT_MAX_HEADER_COUNT :: nat where "DEFAULT_MAX_HEADER_COUNT = 256"

definition CONNECTION_PREFACE :: "byte list" where
  "CONNECTION_PREFACE =
     encodeUtf8 (js ''PRI * HTTP/2.0'' @ [13, 10, 13, 10] @ js ''SM'' @ [13, 10, 13, 10])"

datatype out_item = OutBytes "byte list" | OutFrame frame | OutClose

datatype block_kind = ResponseBlock | PushBlock nat

record pending_block =
  pb_streamId :: nat
  pb_kind :: block_kind
  pb_endStream :: bool
  pb_fragments :: "byte list list"
  pb_size :: nat

record remote_settings =
  rs_initialWindowSize :: nat
  rs_maxFrameSize :: nat
  rs_headerTableSize :: nat
  rs_enablePush :: bool
  rs_maxConcurrentStreams :: "nat option"

record pushed_request =
  pr_method :: jsstring
  pr_path :: jsstring
  pr_authority :: jsstring
  pr_scheme :: jsstring
  pr_headers :: header_object
  pr_stream :: nat

record h2conn =
  c_objs :: "h2stream list"
  c_streams :: "(nat \<times> nat) list"
  c_nextStreamId :: nat
  c_connSendWindow :: send_window
  c_localMaxFrameSize :: nat
  c_localInitialWindow :: nat
  c_connRecvWindow :: nat
  c_connRecvAvailable :: int
  c_remote :: remote_settings
  c_slotWaiters :: "nat list"
  c_pending :: "pending_block option"
  c_pings :: "(jsstring \<times> nat \<times> int) list"
  c_pingCounter :: nat
  c_pingResults :: "(nat \<times> (exn + int)) list"
  c_closedFlag :: bool
  c_closeError :: "exn option"
  c_goawayReceived :: bool
  c_draining :: bool
  c_highestPromised :: nat
  c_decoder :: hpack_decoder
  c_frameDecoder :: frame_decoder
  c_onPush :: bool
  c_pushes :: "pushed_request list"
  c_out :: "out_item list"
  c_closing :: nat

definition get_stream :: "h2conn \<Rightarrow> nat \<Rightarrow> nat option" where
  "get_stream c sid = map_of (c_streams c) sid"

definition obj :: "h2conn \<Rightarrow> nat \<Rightarrow> h2stream" where
  "obj c a = c_objs c ! a"

definition upd_obj :: "h2conn \<Rightarrow> nat \<Rightarrow> (h2stream \<Rightarrow> h2stream) \<Rightarrow> h2conn" where
  "upd_obj c a f = c\<lparr>c_objs := (c_objs c)[a := f (obj c a)]\<rparr>"

definition delete_stream :: "h2conn \<Rightarrow> nat \<Rightarrow> h2conn" where
  "delete_stream c sid = c\<lparr>c_streams := AList.delete sid (c_streams c)\<rparr>"

subsection \<open>Construction\<close>

record connect_options =
  o_headerTableSize :: "nat option"
  o_enablePush :: "bool option"
  o_initialWindowSize :: "int option"
  o_maxFrameSize :: "nat option"
  o_connectionWindowSize :: "int option"
  o_onPush :: bool

definition validWindow :: "int \<Rightarrow> bool" where
  "validWindow v \<longleftrightarrow> v \<ge> 0 \<and> v \<le> 0x7FFFFFFF"

definition validConnectionWindow :: "int \<Rightarrow> bool" where
  "validConnectionWindow v \<longleftrightarrow> v \<ge> int SPEC_INITIAL_WINDOW \<and> v \<le> 0x7FFFFFFF"

definition writeRaw :: "h2conn \<Rightarrow> out_item \<Rightarrow> h2conn" where
  "writeRaw c x = (if c_closedFlag c then c else c\<lparr>c_out := c_out c @ [x]\<rparr>)"

definition send :: "h2conn \<Rightarrow> frame \<Rightarrow> h2conn" where
  "send c f = writeRaw c (OutFrame f)"

definition or_default :: "'a option \<Rightarrow> 'a \<Rightarrow> 'a" where
  "or_default x d = (case x of None \<Rightarrow> d | Some v \<Rightarrow> v)"

definition new_H2Connection :: "connect_options \<Rightarrow> h2conn result" where
  "new_H2Connection opts =
     (let maxFrame = or_default (o_maxFrameSize opts) DEFAULT_MAX_FRAME_SIZE;
          initialWindow = or_default (o_initialWindowSize opts) (1024 * 1024);
          recvWindow = or_default (o_connectionWindowSize opts) (64 * 1024 * 1024);
          headerTableSize = or_default (o_headerTableSize opts) 4096;
          enablePush = or_default (o_enablePush opts) True
      in if \<not> validWindow initialWindow \<or> \<not> validConnectionWindow recvWindow then Inl RangeErr
         else
           let c0 = \<lparr>c_objs = [], c_streams = [], c_nextStreamId = 1,
                     c_connSendWindow = new_SendWindow (int SPEC_INITIAL_WINDOW),
                     c_localMaxFrameSize = maxFrame, c_localInitialWindow = nat initialWindow,
                     c_connRecvWindow = nat recvWindow, c_connRecvAvailable = recvWindow,
                     c_remote = \<lparr>rs_initialWindowSize = SPEC_INITIAL_WINDOW,
                                 rs_maxFrameSize = DEFAULT_MAX_FRAME_SIZE, rs_headerTableSize = 4096,
                                 rs_enablePush = True, rs_maxConcurrentStreams = None\<rparr>,
                     c_slotWaiters = [], c_pending = None, c_pings = [], c_pingCounter = 0,
                     c_pingResults = [], c_closedFlag = False, c_closeError = None,
                     c_goawayReceived = False, c_draining = False, c_highestPromised = 0,
                     c_decoder = new_HpackDecoder headerTableSize,
                     c_frameDecoder = new_FrameDecoder maxFrame, c_onPush = o_onPush opts,
                     c_pushes = [], c_out = [], c_closing = 0\<rparr>;
               c1 = writeRaw c0 (OutBytes CONNECTION_PREFACE);
               c2 = send c1 (SettingsF False
                      \<lparr>s_headerTableSize = Some headerTableSize, s_enablePush = Some enablePush,
                       s_maxConcurrentStreams = None, s_initialWindowSize = Some (nat initialWindow),
                       s_maxFrameSize = Some maxFrame,
                       s_maxHeaderListSize = Some DEFAULT_MAX_HEADER_LIST_BYTES\<rparr>);
               connGrow = recvWindow - int SPEC_INITIAL_WINDOW
           in Inr (if connGrow > 0 then send c2 (WindowUpdateF 0 (nat connGrow)) else c2))"

subsection \<open>Teardown and flow credit\<close>

definition activeStreams :: "h2conn \<Rightarrow> nat" where
  "activeStreams c = length (filter (\<lambda>k. k mod 2 = 1) (map fst (c_streams c)))"

definition canOpenStream :: "h2conn \<Rightarrow> bool" where
  "canOpenStream c =
     (case rs_maxConcurrentStreams (c_remote c) of None \<Rightarrow> True | Some m \<Rightarrow> activeStreams c < m)"

text \<open>The synchronous part of \<^verbatim>\<open>close\<close>; the rest, after the GOAWAY is written, is a later step.\<close>

definition close_begin :: "h2conn \<Rightarrow> h2conn" where
  "close_begin c =
     (if c_closedFlag c then c
      else (send c (GoawayF (c_highestPromised c) 0 []))\<lparr>c_closing := c_closing c + 1\<rparr>)"

definition wakeStreamSlots :: "h2conn \<Rightarrow> h2conn" where
  "wakeStreamSlots c =
     (let c1 = (if c_goawayReceived c \<and> c_streams c = [] \<and> \<not> c_closedFlag c then close_begin c else c)
      in c1\<lparr>c_slotWaiters := []\<rparr>)"

definition replenishConnectionWindow :: "h2conn \<Rightarrow> int \<Rightarrow> h2conn" where
  "replenishConnectionWindow c n =
     (if c_closedFlag c \<or> n \<le> 0 then c
      else send (c\<lparr>c_connRecvAvailable := c_connRecvAvailable c + n\<rparr>) (WindowUpdateF 0 (nat n)))"

definition replenishRecvWindow :: "h2conn \<Rightarrow> nat \<Rightarrow> int \<Rightarrow> h2conn" where
  "replenishRecvWindow c sid n =
     (if c_closedFlag c \<or> n \<le> 0 then c
      else
        let c1 = (case get_stream c sid of
                    None \<Rightarrow> c
                  | Some a \<Rightarrow>
                      if \<not> st_remoteClosed (obj c a)
                      then send (upd_obj c a (\<lambda>s. s\<lparr>st_recvWindow := st_recvWindow s + n\<rparr>))
                             (WindowUpdateF sid (nat n))
                      else c)
        in replenishConnectionWindow c1 n)"

definition discard_obj :: "h2conn \<Rightarrow> nat \<Rightarrow> h2conn" where
  "discard_obj c a =
     replenishConnectionWindow (upd_obj c a (\<lambda>s. snd (discardBuffered s))) (fst (discardBuffered (obj c a)))"

definition resetStream :: "h2conn \<Rightarrow> nat \<Rightarrow> error_code \<Rightarrow> h2conn" where
  "resetStream c sid code =
     (let c1 = send c (RstStreamF sid (errorCodeValue code)) in
      case get_stream c sid of
        None \<Rightarrow> c1
      | Some a \<Rightarrow>
          let c2 = discard_obj c1 a;
              c3 = upd_obj c2 a (\<lambda>s. s\<lparr>st_state := Closed\<rparr>);
              c4 = wakeStreamSlots (delete_stream c3 sid)
          in upd_obj c4 a (\<lambda>s. fail s (H2Exn (new_H2Error code (Some sid)))))"

definition retireIfFullyClosed :: "h2conn \<Rightarrow> nat \<Rightarrow> h2conn" where
  "retireIfFullyClosed c sid =
     (case get_stream c sid of
        None \<Rightarrow> c
      | Some a \<Rightarrow>
          if st_localClosed (obj c a) \<and> st_remoteClosed (obj c a)
          then wakeStreamSlots (delete_stream (upd_obj c a (\<lambda>s. s\<lparr>st_state := Closed\<rparr>)) sid)
          else c)"

definition fail_all :: "h2conn \<Rightarrow> nat list \<Rightarrow> exn \<Rightarrow> h2conn" where
  "fail_all c as err = foldl (\<lambda>c a. upd_obj c a (\<lambda>s. fail s err)) c as"

definition destroy :: "h2conn \<Rightarrow> exn \<Rightarrow> h2conn" where
  "destroy c err =
     (if c_closedFlag c then c
      else
        let c1 = c\<lparr>c_closedFlag := True, c_closeError := Some err,
                   c_connSendWindow := fst (sw_close (c_connSendWindow c))\<rparr>;
            c2 = (fail_all c1 (map snd (c_streams c1)) err)\<lparr>c_streams := []\<rparr>;
            c3 = wakeStreamSlots c2
        in c3\<lparr>c_pingResults := c_pingResults c3 @ map (\<lambda>(k, n, t). (n, Inl err)) (c_pings c3),
              c_pings := [], c_out := c_out c3 @ [OutClose]\<rparr>)"

definition connectionError :: "h2conn \<Rightarrow> exn \<Rightarrow> h2conn" where
  "connectionError c err =
     (let code = (case err of H2Exn e \<Rightarrow> err_code e | _ \<Rightarrow> PROTOCOL_ERROR)
      in destroy (send c (GoawayF (c_highestPromised c) (errorCodeValue code) [])) err)"

text \<open>\<^verbatim>\<open>close\<close> continues here once the GOAWAY has been written or the write has failed.\<close>

definition close_end :: "h2conn \<Rightarrow> h2conn" where
  "close_end c = destroy (c\<lparr>c_closing := c_closing c - 1\<rparr>) (H2Exn (new_H2Error NO_ERROR None))"

subsection \<open>Inbound frames\<close>

definition hex_digit :: "nat \<Rightarrow> codeunit" where
  "hex_digit n = of_nat (if n < 10 then 48 + n else 87 + n)"

definition hex :: "byte list \<Rightarrow> jsstring" where
  "hex b = concat (map (\<lambda>x. [hex_digit (unat x div 16), hex_digit (unat x mod 16)]) b)"

definition isIdleInboundStream :: "nat \<Rightarrow> nat \<Rightarrow> nat \<Rightarrow> bool" where
  "isIdleInboundStream sid nextLocal highestPromised =
     (if sid = 0 then True
      else if sid mod 2 = 1 then sid \<ge> nextLocal else sid > highestPromised)"

definition pseudo :: "header_entry list \<Rightarrow> jsstring \<Rightarrow> jsstring option" where
  "pseudo headers name = map_of headers name"

definition collectRequestHead :: "(jsstring \<Rightarrow> jsstring option) \<Rightarrow> header_entry list \<Rightarrow> head_head" where
  "collectRequestHead proto raw =
     \<lparr>hh_endStream = None, hh_status = None,
      hh_headers = foldl (\<lambda>headers (name, val).
          if is_pseudo name then headers
          else obj_set headers name
                 (case obj_get proto headers name of None \<Rightarrow> val | Some e \<Rightarrow> e @ js '', '' @ val))
        (\<lambda>_. None) raw,
      hh_raw = raw\<rparr>"

definition handlePush ::
  "(jsstring \<Rightarrow> jsstring option) \<Rightarrow> h2conn \<Rightarrow> nat \<Rightarrow> header_entry list \<Rightarrow> h2conn" where
  "handlePush proto c promisedId requestHeaders =
     (let c1 = (if promisedId > c_highestPromised c then c\<lparr>c_highestPromised := promisedId\<rparr> else c) in
      if \<not> c_onPush c1 then send c1 (RstStreamF promisedId (errorCodeValue REFUSED_STREAM))
      else
        let a = length (c_objs c1);
            stream = (new_H2Stream promisedId (int (rs_initialWindowSize (c_remote c1))) ReservedRemote
                        (int (c_localInitialWindow c1)))\<lparr>st_localClosed := True\<rparr>;
            push = \<lparr>pr_method = or_default (pseudo requestHeaders (js '':method'')) (js ''GET''),
                    pr_path = or_default (pseudo requestHeaders (js '':path'')) (js ''/''),
                    pr_authority = or_default (pseudo requestHeaders (js '':authority'')) [],
                    pr_scheme = or_default (pseudo requestHeaders (js '':scheme'')) (js ''http''),
                    pr_headers = hh_headers (collectRequestHead proto requestHeaders), pr_stream = a\<rparr>
        in c1\<lparr>c_objs := c_objs c1 @ [stream], c_streams := AList.update promisedId a (c_streams c1),
              c_pushes := c_pushes c1 @ [push]\<rparr>)"

definition block_bytes :: "pending_block \<Rightarrow> byte list" where
  "block_bytes pb =
     (if length (pb_fragments pb) = 1 then hd (pb_fragments pb) else concatBytes (pb_fragments pb))"

definition deliver_block ::
  "(jsstring \<Rightarrow> jsstring option) \<Rightarrow> h2conn \<Rightarrow> pending_block \<Rightarrow> header_entry list \<Rightarrow> h2conn" where
  "deliver_block proto c pb headers =
     (case pb_kind pb of
        ResponseBlock \<Rightarrow>
          (case get_stream c (pb_streamId pb) of
             None \<Rightarrow> c
           | Some a \<Rightarrow>
               let c1 = upd_obj c a (\<lambda>s. receiveHeaders proto s headers (pb_endStream pb))
               in if pb_endStream pb
                  then retireIfFullyClosed (upd_obj c1 a (\<lambda>s. s\<lparr>st_remoteClosed := True\<rparr>)) (pb_streamId pb)
                  else c1)
      | PushBlock promisedId \<Rightarrow> handlePush proto c promisedId headers)"

definition completeHeaderBlock ::
  "(jsstring \<Rightarrow> jsstring option) \<Rightarrow> h2conn \<Rightarrow> pending_block \<Rightarrow> h2conn \<times> exn option" where
  "completeHeaderBlock proto c pb =
     (let c1 = c\<lparr>c_pending := None\<rparr> in
      case hpack_decode (c_decoder c1) (block_bytes pb)
             (Some \<lparr>l_maxHeaderListBytes = DEFAULT_MAX_HEADER_LIST_BYTES,
                    l_maxHeaderCount = DEFAULT_MAX_HEADER_COUNT,
                    l_streamId = Some (pb_streamId pb)\<rparr>) of
        (d, Inl e) \<Rightarrow> (c1\<lparr>c_decoder := d\<rparr>, Some e)
      | (d, Inr headers) \<Rightarrow> (deliver_block proto (c1\<lparr>c_decoder := d\<rparr>) pb headers, None))"

text \<open>Store the pending block, check its size (\<^verbatim>\<open>guardHeaderBlockSize\<close>) and complete it if it ended.\<close>

definition accept_block ::
  "(jsstring \<Rightarrow> jsstring option) \<Rightarrow> h2conn \<Rightarrow> pending_block \<Rightarrow> bool \<Rightarrow> h2conn \<times> exn option" where
  "accept_block proto c pb endHeaders =
     (let c1 = c\<lparr>c_pending := Some pb\<rparr> in
      if pb_size pb > MAX_HEADER_BLOCK_SIZE
      then (c1, Some (H2Exn (new_H2Error ENHANCE_YOUR_CALM None)))
      else if endHeaders then completeHeaderBlock proto c1 pb
      else (c1, None))"

definition adjust_all :: "h2conn \<Rightarrow> nat list \<Rightarrow> int \<Rightarrow> h2conn" where
  "adjust_all c as delta =
     foldl (\<lambda>c a. upd_obj c a (\<lambda>s. s\<lparr>st_sendWindow := fst (sw_adjust (st_sendWindow s) delta)\<rparr>)) c as"

definition upd_remote :: "h2conn \<Rightarrow> (remote_settings \<Rightarrow> remote_settings) \<Rightarrow> h2conn" where
  "upd_remote c f = c\<lparr>c_remote := f (c_remote c)\<rparr>"

text \<open>The settings are applied one after the other; an invalid one throws with the earlier ones
  already in place.\<close>

definition apply_initial_window :: "h2conn \<Rightarrow> nat option \<Rightarrow> h2conn \<times> exn option" where
  "apply_initial_window c v =
     (case v of
        None \<Rightarrow> (c, None)
      | Some w \<Rightarrow>
          if w > 0x7FFFFFFF then (c, Some (H2Exn (new_H2Error FLOW_CONTROL_ERROR None)))
          else let delta = int w - int (rs_initialWindowSize (c_remote c));
                   c1 = upd_remote c (\<lambda>r. r\<lparr>rs_initialWindowSize := w\<rparr>)
               in (adjust_all c1 (map snd (c_streams c1)) delta, None))"

definition apply_max_frame :: "h2conn \<Rightarrow> nat option \<Rightarrow> h2conn \<times> exn option" where
  "apply_max_frame c v =
     (case v of
        None \<Rightarrow> (c, None)
      | Some m \<Rightarrow>
          if m < 16384 \<or> m > 16777215 then (c, Some (H2Exn (new_H2Error PROTOCOL_ERROR None)))
          else (upd_remote c (\<lambda>r. r\<lparr>rs_maxFrameSize := m\<rparr>), None))"

definition apply_other_settings :: "h2conn \<Rightarrow> settings \<Rightarrow> h2conn" where
  "apply_other_settings c s =
     (let c1 = (case s_headerTableSize s of None \<Rightarrow> c
                | Some n \<Rightarrow> upd_remote c (\<lambda>r. r\<lparr>rs_headerTableSize := n\<rparr>));
          c2 = (case s_enablePush s of None \<Rightarrow> c1
                | Some b \<Rightarrow> upd_remote c1 (\<lambda>r. r\<lparr>rs_enablePush := b\<rparr>))
      in case s_maxConcurrentStreams s of None \<Rightarrow> c2
         | Some n \<Rightarrow> wakeStreamSlots (upd_remote c2 (\<lambda>r. r\<lparr>rs_maxConcurrentStreams := Some n\<rparr>)))"

definition applyRemoteSettings :: "h2conn \<Rightarrow> settings \<Rightarrow> h2conn \<times> exn option" where
  "applyRemoteSettings c s =
     (case apply_initial_window c (s_initialWindowSize s) of
        (c1, Some e) \<Rightarrow> (c1, Some e)
      | (c1, None) \<Rightarrow>
          (case apply_max_frame c1 (s_maxFrameSize s) of
             (c2, Some e) \<Rightarrow> (c2, Some e)
           | (c2, None) \<Rightarrow> (apply_other_settings c2 s, None)))"

definition handle_data :: "h2conn \<Rightarrow> nat \<Rightarrow> byte list \<Rightarrow> nat option \<Rightarrow> bool \<Rightarrow> h2conn \<times> exn option" where
  "handle_data c sid data flowLen endStream =
     (let flowBytes = int (or_default flowLen (length data)) in
      if flowBytes > c_connRecvAvailable c
      then (c, Some (H2Exn (new_H2Error FLOW_CONTROL_ERROR None)))
      else
        let c1 = c\<lparr>c_connRecvAvailable := c_connRecvAvailable c - flowBytes\<rparr> in
        case get_stream c1 sid of
          Some a \<Rightarrow>
            if \<not> st_remoteClosed (obj c1 a) then
              (if flowBytes > st_recvWindow (obj c1 a)
               then (resetStream (replenishConnectionWindow c1 flowBytes) sid FLOW_CONTROL_ERROR, None)
               else
                 let c2 = upd_obj c1 a (\<lambda>s. s\<lparr>st_recvWindow := st_recvWindow s - flowBytes\<rparr>);
                     discardedPadding = flowBytes - int (length data);
                     c3 = (if discardedPadding > 0 then replenishRecvWindow c2 sid discardedPadding else c2);
                     c4 = upd_obj c3 a (\<lambda>s. receiveData s data endStream)
                 in (if endStream
                     then retireIfFullyClosed (upd_obj c4 a (\<lambda>s. s\<lparr>st_remoteClosed := True\<rparr>)) sid
                     else c4, None))
            else (resetStream (replenishConnectionWindow c1 flowBytes) sid STREAM_CLOSED, None)
        | None \<Rightarrow>
            let c2 = replenishConnectionWindow c1 flowBytes in
            if isIdleInboundStream sid (c_nextStreamId c2) (c_highestPromised c2)
            then (c2, Some (H2Exn (new_H2Error PROTOCOL_ERROR None)))
            else (send c2 (RstStreamF sid (errorCodeValue STREAM_CLOSED)), None))"

definition handle_rst_stream :: "h2conn \<Rightarrow> nat \<Rightarrow> nat \<Rightarrow> h2conn" where
  "handle_rst_stream c sid errorCode =
     (case get_stream c sid of
        None \<Rightarrow> c
      | Some a \<Rightarrow>
          let c1 = discard_obj c a;
              c2 = upd_obj c1 a (\<lambda>s. receiveReset s errorCode)
          in wakeStreamSlots (delete_stream c2 sid))"

definition handle_window_update :: "h2conn \<Rightarrow> nat \<Rightarrow> nat \<Rightarrow> h2conn \<times> exn option" where
  "handle_window_update c sid increment =
     (if increment = 0 then
        (if sid = 0 then (c, Some (H2Exn (new_H2Error PROTOCOL_ERROR None)))
         else (resetStream c sid PROTOCOL_ERROR, None))
      else if sid = 0
      then (c\<lparr>c_connSendWindow := fst (sw_update (c_connSendWindow c) (int increment))\<rparr>, None)
      else case get_stream c sid of
             None \<Rightarrow> (c, None)
           | Some a \<Rightarrow>
               (upd_obj c a (\<lambda>s. s\<lparr>st_sendWindow := fst (sw_update (st_sendWindow s) (int increment))\<rparr>), None))"

definition handle_ping :: "int \<Rightarrow> h2conn \<Rightarrow> bool \<Rightarrow> byte list \<Rightarrow> h2conn" where
  "handle_ping now c ack opaque =
     (if ack then
        (case map_of (c_pings c) (hex opaque) of
           None \<Rightarrow> c
         | Some (n, sentAt) \<Rightarrow>
             c\<lparr>c_pings := AList.delete (hex opaque) (c_pings c),
               c_pingResults := c_pingResults c @ [(n, Inr (now - sentAt))]\<rparr>)
      else send c (PingF True opaque))"

definition goaway_error :: "error_code \<Rightarrow> nat \<Rightarrow> exn" where
  "goaway_error code sid = H2Exn ((new_H2Error code (Some sid))\<lparr>err_retry := Some Refused\<rparr>)"

text \<open>The loop over \<^verbatim>\<open>this.streams\<close> of the GOAWAY handler.\<close>

fun exclude_streams :: "h2conn \<Rightarrow> (nat \<times> nat) list \<Rightarrow> nat \<Rightarrow> error_code \<Rightarrow> h2conn" where
  "exclude_streams c [] lastId code = c"
| "exclude_streams c ((sid, a) # rest) lastId code =
     exclude_streams
       (if sid > lastId
        then delete_stream (upd_obj c a (\<lambda>s. fail s (goaway_error code sid))) sid
        else c) rest lastId code"

definition handle_goaway :: "h2conn \<Rightarrow> nat \<Rightarrow> nat \<Rightarrow> h2conn" where
  "handle_goaway c lastStreamId errorCode =
     (let c1 = c\<lparr>c_goawayReceived := True, c_draining := True\<rparr>;
          code = or_default (errorCodeName errorCode) NO_ERROR;
          c2 = wakeStreamSlots (exclude_streams c1 (c_streams c1) lastStreamId code)
      in if errorCode \<noteq> 0 then destroy c2 (H2Exn (new_H2Error code None)) else c2)"

fun is_continuation :: "frame \<Rightarrow> bool" where
  "is_continuation (ContinuationF sid fragment endHeaders) = True"
| "is_continuation _ = False"

definition dispatch ::
  "(jsstring \<Rightarrow> jsstring option) \<Rightarrow> int \<Rightarrow> h2conn \<Rightarrow> frame \<Rightarrow> h2conn \<times> exn option" where
  "dispatch proto now c frame =
     (if c_pending c \<noteq> None \<and> \<not> is_continuation frame
      then (c, Some (H2Exn (new_H2Error PROTOCOL_ERROR None)))
      else case frame of
        SettingsF ack settings \<Rightarrow>
          if ack then (c, None)
          else (case applyRemoteSettings c settings of
                  (c1, Some e) \<Rightarrow> (c1, Some e)
                | (c1, None) \<Rightarrow> (send c1 (SettingsF True empty_settings), None))
      | HeadersF sid fragment endStream endHeaders prio \<Rightarrow>
          accept_block proto c
            \<lparr>pb_streamId = sid, pb_kind = ResponseBlock, pb_endStream = endStream,
             pb_fragments = [fragment], pb_size = length fragment\<rparr> endHeaders
      | ContinuationF sid fragment endHeaders \<Rightarrow>
          (case c_pending c of
             None \<Rightarrow> (c, Some (H2Exn (new_H2Error PROTOCOL_ERROR None)))
           | Some pb \<Rightarrow>
               if pb_streamId pb \<noteq> sid then (c, Some (H2Exn (new_H2Error PROTOCOL_ERROR None)))
               else accept_block proto c
                      (pb\<lparr>pb_fragments := pb_fragments pb @ [fragment],
                          pb_size := pb_size pb + length fragment\<rparr>) endHeaders)
      | PushPromiseF sid promisedId fragment endHeaders \<Rightarrow>
          accept_block proto c
            \<lparr>pb_streamId = sid, pb_kind = PushBlock promisedId, pb_endStream = False,
             pb_fragments = [fragment], pb_size = length fragment\<rparr> endHeaders
      | DataF sid data flowLen endStream \<Rightarrow> handle_data c sid data flowLen endStream
      | RstStreamF sid errorCode \<Rightarrow> (handle_rst_stream c sid errorCode, None)
      | WindowUpdateF sid increment \<Rightarrow> handle_window_update c sid increment
      | PingF ack opaque \<Rightarrow> (handle_ping now c ack opaque, None)
      | GoawayF lastStreamId errorCode debugData \<Rightarrow> (handle_goaway c lastStreamId errorCode, None)
      | PriorityF sid prio \<Rightarrow> (c, None))"

fun dispatch_all ::
  "(jsstring \<Rightarrow> jsstring option) \<Rightarrow> int \<Rightarrow> h2conn \<Rightarrow> frame list \<Rightarrow> h2conn" where
  "dispatch_all proto now c [] = c"
| "dispatch_all proto now c (frame # frames) =
     (case dispatch proto now c frame of
        (c1, None) \<Rightarrow> dispatch_all proto now c1 frames
      | (c1, Some err) \<Rightarrow>
          (case err of
             H2Exn e \<Rightarrow>
               (case err_streamId e of
                  Some sid \<Rightarrow> dispatch_all proto now (resetStream c1 sid (err_code e)) frames
                | None \<Rightarrow> connectionError c1 err)
           | _ \<Rightarrow> connectionError c1 err))"

definition onBytes :: "(jsstring \<Rightarrow> jsstring option) \<Rightarrow> int \<Rightarrow> h2conn \<Rightarrow> byte list \<Rightarrow> h2conn" where
  "onBytes proto now c chunk =
     (case push (c_frameDecoder c) chunk of
        Inl err \<Rightarrow> connectionError c err
      | Inr (frames, fd) \<Rightarrow> dispatch_all proto now (c\<lparr>c_frameDecoder := fd\<rparr>) frames)"

subsection \<open>Consumer callbacks, ping\<close>

text \<open>A read of the body of the stream object \<open>a\<close>: one turn of \<^verbatim>\<open>pullBody\<close> with its \<^verbatim>\<open>onConsume\<close>.\<close>

definition pull_stream :: "h2conn \<Rightarrow> nat \<Rightarrow> h2conn \<times> pull_outcome" where
  "pull_stream c a =
     (case pullBody (obj c a) of
        (s, r) \<Rightarrow>
          let c1 = upd_obj c a (\<lambda>_. s) in
          (case r of PullChunk chunk \<Rightarrow> replenishRecvWindow c1 (st_id s) (int (length chunk)) | _ \<Rightarrow> c1, r))"

definition cancel_stream :: "h2conn \<Rightarrow> nat \<Rightarrow> h2conn" where
  "cancel_stream c a =
     (case cancelBody (obj c a) of
        (s, consumed, live) \<Rightarrow>
          let c1 = replenishRecvWindow (upd_obj c a (\<lambda>_. s)) (st_id s) consumed in
          if live \<and> get_stream c1 (st_id s) \<noteq> None then resetStream c1 (st_id s) CANCEL else c1)"

definition ping :: "int \<Rightarrow> h2conn \<Rightarrow> h2conn" where
  "ping now c =
     (let n = c_pingCounter c + 1;
          opaque = [0, 0, 0, 0] @ be32 n;
          c1 = c\<lparr>c_pingCounter := n\<rparr>
      in if c_closedFlag c1
         then c1\<lparr>c_pingResults := c_pingResults c1 @
                   [(n, Inl (or_default (c_closeError c1) (H2Exn (new_H2Error INTERNAL_ERROR None))))]\<rparr>
         else send (c1\<lparr>c_pings := AList.update (hex opaque) (n, now) (c_pings c1)\<rparr>) (PingF False opaque))"

end
