(* ===== verification/H2_System.thy ===== *)
theory H2_System
  imports H2_Connection
begin

text \<open>
  The coroutines of \<^verbatim>\<open>web/src/h2/connection.ts\<close> around the connection object: \<^verbatim>\<open>request\<close>, \<^verbatim>\<open>pumpBody\<close>,
  \<^verbatim>\<open>close\<close> and \<^verbatim>\<open>readLoop\<close>, cut at their \<^verbatim>\<open>await\<close>s. Each piece between two awaits is one definition
  that runs without interruption, as in JavaScript; \<open>fire\<close> runs the piece an event enables, and
  \<open>reachable\<close> closes under all events in any order.

  \<open>toLowerCase\<close>, \<open>toUpperCase\<close> and \<open>proto\<close> (see \<open>Hpack\<close> and \<open>H2_Stream\<close>) are collected in the
  record \<open>platform\<close>. An operation returns \<open>None\<close> where the code would loop forever.
\<close>

record platform =
  pf_toLowerCase :: "jsstring \<Rightarrow> jsstring"
  pf_toUpperCase :: "jsstring \<Rightarrow> jsstring"
  pf_proto :: "jsstring \<Rightarrow> jsstring option"

subsection \<open>Request headers\<close>

datatype headers_init = NoHeaders | HeaderPairs "header_entry list" | HeaderRecord "header_entry list"

datatype body_init = NoBody | TextBody jsstring | BytesBody "byte list" | StreamBody

record request_init =
  ri_method :: "jsstring option"
  ri_path :: "jsstring option"
  ri_authority :: "jsstring option"
  ri_scheme :: "jsstring option"
  ri_headers :: headers_init
  ri_body :: body_init
  ri_signal :: bool

fun normalizeHeaders :: "headers_init \<Rightarrow> header_entry list" where
  "normalizeHeaders NoHeaders = []"
| "normalizeHeaders (HeaderPairs kvs) = kvs"
| "normalizeHeaders (HeaderRecord kvs) = kvs"

definition FORBIDDEN_HEADERS :: "jsstring list" where
  "FORBIDDEN_HEADERS =
     [js ''connection'', js ''host'', js ''keep-alive'', js ''proxy-connection'',
      js ''transfer-encoding'', js ''upgrade'']"

definition plain_header :: "jsstring \<Rightarrow> jsstring \<Rightarrow> header" where
  "plain_header name val = \<lparr>hd_name = name, hd_value = val, hd_neverIndex = False\<rparr>"

fun regular_headers :: "platform \<Rightarrow> header_entry list \<Rightarrow> header list" where
  "regular_headers pf [] = []"
| "regular_headers pf ((rawName, val) # kvs) =
     (let name = pf_toLowerCase pf rawName in
      if is_pseudo name \<or> name \<in> set FORBIDDEN_HEADERS then regular_headers pf kvs
      else \<lparr>hd_name = name, hd_value = val,
            hd_neverIndex = (name = js ''authorization'' \<or> name = js ''cookie'')\<rparr> # regular_headers pf kvs)"

definition buildRequestHeaders :: "platform \<Rightarrow> request_init \<Rightarrow> header list" where
  "buildRequestHeaders pf init =
     (let method = pf_toUpperCase pf (or_default (ri_method init) (js ''GET''));
          scheme = or_default (ri_scheme init) (js ''http'');
          path = or_default (ri_path init) (js ''/'');
          authority = or_default (ri_authority init) []
      in [plain_header (js '':method'') method, plain_header (js '':scheme'') scheme] @
         (if authority \<noteq> [] then [plain_header (js '':authority'') authority] else []) @
         [plain_header (js '':path'') path] @
         regular_headers pf (normalizeHeaders (ri_headers init)))"

fun bodyIsEmpty :: "body_init \<Rightarrow> bool" where
  "bodyIsEmpty NoBody = True"
| "bodyIsEmpty (TextBody s) = (s = [])"
| "bodyIsEmpty (BytesBody b) = (b = [])"
| "bodyIsEmpty StreamBody = False"

subsection \<open>Sending headers\<close>

partial_function (option) continuation_frames :: "nat \<Rightarrow> byte list \<Rightarrow> nat \<Rightarrow> nat \<Rightarrow> frame list option" where
  "continuation_frames sid block maxFrame offset =
     (if offset < length block then
        Option.bind (continuation_frames sid block maxFrame (min (offset + maxFrame) (length block)))
          (\<lambda>rest.
             let next = min (offset + maxFrame) (length block)
             in Some (ContinuationF sid (take (next - offset) (drop offset block)) (next \<ge> length block) # rest))
      else Some [])"

definition header_frames :: "nat \<Rightarrow> byte list \<Rightarrow> nat \<Rightarrow> bool \<Rightarrow> frame list option" where
  "header_frames sid block maxFrame endStream =
     (if length block \<le> maxFrame then Some [HeadersF sid block endStream True None]
      else map_option (\<lambda>rest. HeadersF sid (take maxFrame block) endStream False None # rest)
             (continuation_frames sid block maxFrame maxFrame))"

definition sendHeaders :: "platform \<Rightarrow> h2conn \<Rightarrow> nat \<Rightarrow> header list \<Rightarrow> bool \<Rightarrow> h2conn option" where
  "sendHeaders pf c sid headers endStream =
     (case hpack_encode (pf_toLowerCase pf) headers of
        None \<Rightarrow> None
      | Some block \<Rightarrow>
          map_option (foldl send c) (header_frames sid block (rs_maxFrameSize (c_remote c)) endStream))"

subsection \<open>Requests\<close>

datatype request_phase = AwaitReady | AwaitSlot | Opened nat | Threw exn

record request =
  rq_init :: request_init
  rq_phase :: request_phase
  rq_aborted :: "exn option"

datatype pump_phase =
    NeedChunk | AwaitConn | AwaitStream | AwaitWrite nat | AwaitEnd | Finished

record pump =
  pu_addr :: nat
  pu_chunk :: "byte list"
  pu_offset :: nat
  pu_phase :: pump_phase

record h2sys =
  y_conn :: h2conn
  y_requests :: "request list"
  y_pumps :: "pump list"

text \<open>\<^verbatim>\<open>check\<close>: the exception it throws, if any. \<open>rq_aborted\<close> is \<^verbatim>\<open>abortError(signal)\<close> of an aborted signal.\<close>

definition request_check :: "h2conn \<Rightarrow> request \<Rightarrow> exn option" where
  "request_check c rq =
     (case rq_aborted rq of
        Some e \<Rightarrow> Some e
      | None \<Rightarrow>
          if c_closedFlag c \<or> c_goawayReceived c
          then Some (H2Exn ((new_H2Error REFUSED_STREAM None)\<lparr>err_retry := Some Unsent\<rparr>))
          else None)"

definition set_request :: "h2sys \<Rightarrow> nat \<Rightarrow> request \<Rightarrow> h2sys" where
  "set_request y r rq = y\<lparr>y_requests := (y_requests y)[r := rq]\<rparr>"

text \<open>The reservation of the slot: the next id, the new stream object at a fresh address.\<close>

definition reserve_stream :: "h2conn \<Rightarrow> h2conn" where
  "reserve_stream c =
     (let sid = c_nextStreamId c;
          stream = new_H2Stream sid (int (rs_initialWindowSize (c_remote c))) Open
                     (int (c_localInitialWindow c))
      in c\<lparr>c_nextStreamId := sid + 2, c_objs := c_objs c @ [stream],
           c_streams := AList.update sid (length (c_objs c)) (c_streams c)\<rparr>)"

text \<open>The stream's state after its headers (\<open>hasBody\<close>) or after its END_STREAM.\<close>

definition mark_sent :: "h2conn \<Rightarrow> nat \<Rightarrow> bool \<Rightarrow> h2conn" where
  "mark_sent c a hasBody =
     upd_obj c a (\<lambda>s. if hasBody then s\<lparr>st_state := Open\<rparr>
                      else s\<lparr>st_state := HalfClosedLocal, st_localClosed := True\<rparr>)"

text \<open>From the reservation of the slot to the first await on the response head.\<close>

definition open_stream :: "platform \<Rightarrow> h2sys \<Rightarrow> nat \<Rightarrow> request \<Rightarrow> h2sys option" where
  "open_stream pf y r rq =
     (let c = y_conn y;
          sid = c_nextStreamId c;
          a = length (c_objs c);
          c1 = reserve_stream c;
          headers = buildRequestHeaders pf (rq_init rq);
          hasBody = (\<not> bodyIsEmpty (ri_body (rq_init rq)))
      in case rq_aborted rq of
           Some e \<Rightarrow> Some (set_request (y\<lparr>y_conn := resetStream c1 sid CANCEL\<rparr>) r (rq\<lparr>rq_phase := Threw e\<rparr>))
         | None \<Rightarrow>
             (case sendHeaders pf c1 sid headers (\<not> hasBody) of
                None \<Rightarrow> None
              | Some c2 \<Rightarrow>
                  let c3 = mark_sent c2 a hasBody;
                      pumps = (if hasBody
                               then [\<lparr>pu_addr = a, pu_chunk = [], pu_offset = 0, pu_phase = NeedChunk\<rparr>]
                               else [])
                  in Some (set_request (y\<lparr>y_conn := c3, y_pumps := y_pumps y @ pumps\<rparr>) r
                             (rq\<lparr>rq_phase := Opened a\<rparr>))))"

text \<open>The loop of \<^verbatim>\<open>request\<close> that waits for a stream slot, up to its await.\<close>

definition request_loop :: "platform \<Rightarrow> h2sys \<Rightarrow> nat \<Rightarrow> request \<Rightarrow> h2sys option" where
  "request_loop pf y r rq =
     (if canOpenStream (y_conn y) then open_stream pf y r rq
      else case request_check (y_conn y) rq of
             Some e \<Rightarrow> Some (set_request y r (rq\<lparr>rq_phase := Threw e\<rparr>))
           | None \<Rightarrow>
               Some (set_request (y\<lparr>y_conn := (y_conn y)\<lparr>c_slotWaiters := c_slotWaiters (y_conn y) @ [r]\<rparr>\<rparr>) r
                       (rq\<lparr>rq_phase := AwaitSlot\<rparr>)))"

definition request_start :: "h2sys \<Rightarrow> request_init \<Rightarrow> exn option \<Rightarrow> h2sys" where
  "request_start y init aborted =
     (let rq = \<lparr>rq_init = init, rq_phase = AwaitReady, rq_aborted = (if ri_signal init then aborted else None)\<rparr>
      in y\<lparr>y_requests := y_requests y @
             [case request_check (y_conn y) rq of
                Some e \<Rightarrow> rq\<lparr>rq_phase := Threw e\<rparr>
              | None \<Rightarrow> rq]\<rparr>)"

text \<open>After \<^verbatim>\<open>await this.ready\<close> (\<open>ok\<close>: it resolved), or after waking from the wait for a slot.\<close>

definition request_resume :: "platform \<Rightarrow> h2sys \<Rightarrow> nat \<Rightarrow> bool \<Rightarrow> h2sys option" where
  "request_resume pf y r ok =
     (let rq = y_requests y ! r in
      case request_check (y_conn y) rq of
        Some e \<Rightarrow> Some (set_request y r (rq\<lparr>rq_phase := Threw e\<rparr>))
      | None \<Rightarrow>
          if \<not> ok then Some (set_request y r (rq\<lparr>rq_phase := Threw (H2Exn (new_H2Error INTERNAL_ERROR None))\<rparr>))
          else request_loop pf y r rq)"

text \<open>\<^verbatim>\<open>stream.fail(err)\<close>, then \<^verbatim>\<open>resetStream(id, "CANCEL")\<close> if the id is still in the map: the specific error
  wins over the generic one.\<close>

definition fail_and_reset :: "h2conn \<Rightarrow> nat \<Rightarrow> exn \<Rightarrow> h2conn" where
  "fail_and_reset c a e =
     (let c1 = upd_obj c a (\<lambda>s. fail s e);
          sid = st_id (obj c a)
      in if get_stream c1 sid \<noteq> None then resetStream c1 sid CANCEL else c1)"

text \<open>The request's signal aborts: the listeners of a parked request and of an open stream.\<close>

definition request_abort :: "h2sys \<Rightarrow> nat \<Rightarrow> exn \<Rightarrow> h2sys" where
  "request_abort y r e =
     (let rq = y_requests y ! r;
          rq1 = rq\<lparr>rq_aborted := Some e\<rparr>;
          c = y_conn y;
          c1 = (case rq_phase rq of
                  AwaitSlot \<Rightarrow> c\<lparr>c_slotWaiters := removeAll r (c_slotWaiters c)\<rparr>
                | Opened a \<Rightarrow> if get_stream c (st_id (obj c a)) \<noteq> None then fail_and_reset c a e else c
                | _ \<Rightarrow> c)
      in set_request (y\<lparr>y_conn := c1\<rparr>) r rq1)"

subsection \<open>The body pump\<close>

definition set_pump :: "h2sys \<Rightarrow> nat \<Rightarrow> pump \<Rightarrow> h2sys" where
  "set_pump y k p = y\<lparr>y_pumps := (y_pumps y)[k := p]\<rparr>"

definition send_closed :: "h2conn \<Rightarrow> nat \<Rightarrow> bool" where
  "send_closed c a \<longleftrightarrow> c_closedFlag c \<or> sw_closed (st_sendWindow (obj c a))"

definition wait_conn :: "h2conn \<Rightarrow> nat \<Rightarrow> h2conn" where
  "wait_conn c k = c\<lparr>c_connSendWindow := fst (sw_waitPositive (c_connSendWindow c) k)\<rparr>"

definition wait_stream :: "h2conn \<Rightarrow> nat \<Rightarrow> nat \<Rightarrow> h2conn" where
  "wait_stream c a k =
     upd_obj c a (\<lambda>s. s\<lparr>st_sendWindow := fst (sw_waitPositive (st_sendWindow s) k)\<rparr>)"

text \<open>The top of the inner loop, up to the first wait.\<close>

definition pump_top :: "h2sys \<Rightarrow> nat \<Rightarrow> pump \<Rightarrow> h2sys" where
  "pump_top y k p =
     (let c = y_conn y in
      if pu_offset p < length (pu_chunk p) then
        (if send_closed c (pu_addr p) then set_pump y k (p\<lparr>pu_phase := Finished\<rparr>)
         else set_pump (y\<lparr>y_conn := wait_conn c k\<rparr>) k
                (p\<lparr>pu_phase := AwaitConn\<rparr>))
      else set_pump y k (p\<lparr>pu_phase := NeedChunk\<rparr>))"

definition pump_chunk :: "h2sys \<Rightarrow> nat \<Rightarrow> byte list \<Rightarrow> h2sys" where
  "pump_chunk y k chunk = pump_top y k ((y_pumps y ! k)\<lparr>pu_chunk := chunk, pu_offset := 0\<rparr>)"

definition pump_conn :: "h2sys \<Rightarrow> nat \<Rightarrow> h2sys" where
  "pump_conn y k =
     (let p = y_pumps y ! k in
      set_pump (y\<lparr>y_conn := wait_stream (y_conn y) (pu_addr p) k\<rparr>) k
        (p\<lparr>pu_phase := AwaitStream\<rparr>))"

definition pump_grant :: "h2conn \<Rightarrow> pump \<Rightarrow> int" where
  "pump_grant c p =
     min (min (int (length (pu_chunk p)) - int (pu_offset p)) (sw_available (c_connSendWindow c)))
         (min (sw_available (st_sendWindow (obj c (pu_addr p)))) (int (rs_maxFrameSize (c_remote c))))"

text \<open>Consume the grant from both windows and send the piece.\<close>

definition send_slice :: "h2conn \<Rightarrow> nat \<Rightarrow> int \<Rightarrow> byte list \<Rightarrow> h2conn" where
  "send_slice c a grant piece =
     (let c1 = c\<lparr>c_connSendWindow := sw_consume (c_connSendWindow c) grant\<rparr>;
          c2 = upd_obj c1 a (\<lambda>s. s\<lparr>st_sendWindow := sw_consume (st_sendWindow s) grant\<rparr>)
      in send c2 (DataF (st_id (obj c2 a)) piece None False))"

definition pump_stream :: "h2sys \<Rightarrow> nat \<Rightarrow> h2sys" where
  "pump_stream y k =
     (let p = y_pumps y ! k;
          c = y_conn y;
          grant = pump_grant c p
      in if send_closed c (pu_addr p) then set_pump y k (p\<lparr>pu_phase := Finished\<rparr>)
         else if grant \<le> 0 then pump_top y k p
         else
           let piece = take (nat grant) (drop (pu_offset p) (pu_chunk p))
           in set_pump (y\<lparr>y_conn := send_slice c (pu_addr p) grant piece\<rparr>) k
                (p\<lparr>pu_phase := AwaitWrite (nat grant)\<rparr>))"

definition pump_written :: "h2sys \<Rightarrow> nat \<Rightarrow> nat \<Rightarrow> h2sys" where
  "pump_written y k grant =
     pump_top y k ((y_pumps y ! k)\<lparr>pu_offset := pu_offset (y_pumps y ! k) + grant\<rparr>)"

text \<open>After the iteration: the final empty DATA frame, and what follows its write.\<close>

definition pump_end :: "h2sys \<Rightarrow> nat \<Rightarrow> h2sys" where
  "pump_end y k =
     (let p = y_pumps y ! k;
          c = y_conn y;
          sid = st_id (obj c (pu_addr p))
      in if send_closed c (pu_addr p) \<or> get_stream c sid = None
         then set_pump y k (p\<lparr>pu_phase := Finished\<rparr>)
         else set_pump (y\<lparr>y_conn := send c (DataF sid [] None True)\<rparr>) k (p\<lparr>pu_phase := AwaitEnd\<rparr>))"

definition pump_ended :: "h2sys \<Rightarrow> nat \<Rightarrow> h2sys" where
  "pump_ended y k =
     (let p = y_pumps y ! k;
          c1 = mark_sent (y_conn y) (pu_addr p) False
      in set_pump (y\<lparr>y_conn := retireIfFullyClosed c1 (st_id (obj c1 (pu_addr p)))\<rparr>) k
           (p\<lparr>pu_phase := Finished\<rparr>))"

text \<open>The \<^verbatim>\<open>catch\<close> of the pump: the body iterator or a write threw.\<close>

definition pump_error :: "h2sys \<Rightarrow> nat \<Rightarrow> exn \<Rightarrow> h2sys" where
  "pump_error y k e =
     (let p = y_pumps y ! k;
          c1 = fail_and_reset (y_conn y) (pu_addr p) e
      in set_pump (y\<lparr>y_conn := c1\<rparr>) k (p\<lparr>pu_phase := Finished\<rparr>))"

subsection \<open>Events\<close>

datatype event =
    Bytes int "byte list"
  | TransportEnd
  | TransportError exn
  | WriteFailed exn
  | Pull nat
  | CancelBody nat
  | CancelPush nat
  | RequestStart request_init "exn option"
  | RequestReady nat bool
  | RequestWake nat
  | RequestAbort nat exn
  | PumpChunk nat "byte list"
  | PumpConn nat
  | PumpStream nat
  | PumpWritten nat
  | PumpEnd nat
  | PumpEnded nat
  | PumpError nat exn
  | Ping int
  | Close
  | CloseEnd

definition in_phase :: "h2sys \<Rightarrow> nat \<Rightarrow> pump_phase \<Rightarrow> bool" where
  "in_phase y k ph \<longleftrightarrow> k < length (y_pumps y) \<and> pu_phase (y_pumps y ! k) = ph"

definition with_conn :: "h2sys \<Rightarrow> h2conn \<Rightarrow> h2sys" where
  "with_conn y c = y\<lparr>y_conn := c\<rparr>"

text \<open>The effect of an event, \<open>None\<close> when it is not enabled. A failed write destroys the connection
  (\<^verbatim>\<open>p.catch\<close> of \<^verbatim>\<open>writeRaw\<close>).\<close>

fun fire :: "platform \<Rightarrow> h2sys \<Rightarrow> event \<Rightarrow> h2sys option" where
  "fire pf y (Bytes now chunk) =
     Some (if chunk = [] then y else with_conn y (onBytes (pf_proto pf) now (y_conn y) chunk))"
| "fire pf y TransportEnd = Some (with_conn y (destroy (y_conn y) (H2Exn (new_H2Error NO_ERROR None))))"
| "fire pf y (TransportError e) = Some (with_conn y (destroy (y_conn y) e))"
| "fire pf y (WriteFailed e) = Some (with_conn y (destroy (y_conn y) e))"
| "fire pf y (Pull a) =
     (if a < length (c_objs (y_conn y)) then Some (with_conn y (fst (pull_stream (y_conn y) a))) else None)"
| "fire pf y (CancelBody a) =
     (if a < length (c_objs (y_conn y)) then Some (with_conn y (cancel_stream (y_conn y) a)) else None)"
| "fire pf y (CancelPush k) =
     (if k < length (c_pushes (y_conn y))
      then Some (with_conn y (resetStream (y_conn y)
             (st_id (obj (y_conn y) (pr_stream (c_pushes (y_conn y) ! k)))) CANCEL))
      else None)"
| "fire pf y (RequestStart init aborted) = Some (request_start y init aborted)"
| "fire pf y (RequestReady r ok) =
     (if r < length (y_requests y) \<and> rq_phase (y_requests y ! r) = AwaitReady
      then request_resume pf y r ok else None)"
| "fire pf y (RequestWake r) =
     (if r < length (y_requests y) \<and> rq_phase (y_requests y ! r) = AwaitSlot \<and>
         r \<notin> set (c_slotWaiters (y_conn y))
      then request_resume pf y r True else None)"
| "fire pf y (RequestAbort r e) =
     (if r < length (y_requests y) \<and> ri_signal (rq_init (y_requests y ! r)) \<and>
         rq_aborted (y_requests y ! r) = None
      then Some (request_abort y r e) else None)"
| "fire pf y (PumpChunk k chunk) = (if in_phase y k NeedChunk then Some (pump_chunk y k chunk) else None)"
| "fire pf y (PumpConn k) =
     (if in_phase y k AwaitConn \<and> k \<notin> set (sw_waiters (c_connSendWindow (y_conn y)))
      then Some (pump_conn y k) else None)"
| "fire pf y (PumpStream k) =
     (if in_phase y k AwaitStream \<and>
         k \<notin> set (sw_waiters (st_sendWindow (obj (y_conn y) (pu_addr (y_pumps y ! k)))))
      then Some (pump_stream y k) else None)"
| "fire pf y (PumpWritten k) =
     (if k < length (y_pumps y)
      then (case pu_phase (y_pumps y ! k) of AwaitWrite g \<Rightarrow> Some (pump_written y k g) | _ \<Rightarrow> None)
      else None)"
| "fire pf y (PumpEnd k) = (if in_phase y k NeedChunk then Some (pump_end y k) else None)"
| "fire pf y (PumpEnded k) = (if in_phase y k AwaitEnd then Some (pump_ended y k) else None)"
| "fire pf y (PumpError k e) =
     (if k < length (y_pumps y) \<and> pu_phase (y_pumps y ! k) \<noteq> Finished
      then Some (pump_error y k e) else None)"
| "fire pf y (Ping now) = Some (with_conn y (ping now (y_conn y)))"
| "fire pf y Close = Some (with_conn y (close_begin (y_conn y)))"
| "fire pf y CloseEnd =
     (if c_closing (y_conn y) > 0 then Some (with_conn y (close_end (y_conn y))) else None)"

inductive reachable :: "platform \<Rightarrow> connect_options \<Rightarrow> h2sys \<Rightarrow> bool" for pf opts where
  start: "new_H2Connection opts = Inr c \<Longrightarrow>
          reachable pf opts \<lparr>y_conn = c, y_requests = [], y_pumps = []\<rparr>"
| step: "reachable pf opts y \<Longrightarrow> fire pf y ev = Some y' \<Longrightarrow> reachable pf opts y'"

end
