(* ===== verification/H2_Invariant.thy ===== *)
theory H2_Invariant
  imports H2_System
begin

text \<open>
  The central invariant of the connection and the interface through which invariants are lifted to
  all reachable states.

  The locale \<open>connection_step\<close> collects the entry points of the connection, the operations an event
  can run: a predicate kept by all of them is kept by every event. \<open>connection_invariant\<close> extends it
  with the initial state, so that the predicate holds in every reachable state. It is interpreted
  on the flow-credit invariant below, and both are interpreted again in \<open>H2_Safety\<close>.
\<close>

subsection \<open>Lifting to reachable states\<close>

locale connection_step =
  fixes P :: "h2conn \<Rightarrow> bool"
  assumes P_onBytes: "P c \<Longrightarrow> P (onBytes proto now c chunk)"
    and P_destroy: "P c \<Longrightarrow> P (destroy c e)"
    and P_pull: "P c \<Longrightarrow> a < length (c_objs c) \<Longrightarrow> P (fst (pull_stream c a))"
    and P_cancel: "P c \<Longrightarrow> a < length (c_objs c) \<Longrightarrow> P (cancel_stream c a)"
    and P_reset: "P c \<Longrightarrow> P (resetStream c sid code)"
    and P_slots: "P c \<Longrightarrow> P (c\<lparr>c_slotWaiters := ws\<rparr>)"
    and P_reserve: "P c \<Longrightarrow> P (reserve_stream c)"
    and P_send: "P c \<Longrightarrow> P (send c f)"
    and P_mark: "P c \<Longrightarrow> P (mark_sent c a hasBody)"
    and P_fail: "P c \<Longrightarrow> P (fail_and_reset c a e)"
    and P_wait_conn: "P c \<Longrightarrow> P (wait_conn c k)"
    and P_wait_stream: "P c \<Longrightarrow> P (wait_stream c a k)"
    and P_slice: "P c \<Longrightarrow> 0 < g \<Longrightarrow> g \<le> sw_available (c_connSendWindow c) \<Longrightarrow>
          P (send_slice c a g piece)"
    and P_retire: "P c \<Longrightarrow> P (retireIfFullyClosed c sid)"
    and P_ping: "P c \<Longrightarrow> P (ping now c)"
    and P_close_begin: "P c \<Longrightarrow> P (close_begin c)"
    and P_close_end: "P c \<Longrightarrow> P (close_end c)"
begin

lemma P_sends: "P c \<Longrightarrow> P (foldl send c fs)"
  by (induction fs arbitrary: c) (simp_all add: P_send)

lemma P_sendHeaders: "P c \<Longrightarrow> sendHeaders pf c sid hs e = Some c' \<Longrightarrow> P c'"
  by (auto simp: sendHeaders_def P_sends split: option.splits)

lemma P_open_stream:
  assumes "P (y_conn y)" and "open_stream pf y r rq = Some y'"
  shows "P (y_conn y')"
  using assms P_reserve [OF assms(1)]
  by (auto simp: open_stream_def set_request_def Let_def P_reset split: option.splits
      intro!: P_mark elim!: P_sendHeaders [rotated])

lemma P_request_resume:
  assumes "P (y_conn y)" and "request_resume pf y r ok = Some y'"
  shows "P (y_conn y')"
  using assms
  by (auto simp: request_resume_def request_loop_def set_request_def Let_def P_slots
      split: option.splits if_splits elim: P_open_stream)

lemma P_pump_top: "P (y_conn y) \<Longrightarrow> P (y_conn (pump_top y k p))"
  by (auto simp: pump_top_def set_pump_def Let_def P_wait_conn)

lemma P_pump_stream: "P (y_conn y) \<Longrightarrow> P (y_conn (pump_stream y k))"
  by (auto simp: pump_stream_def set_pump_def Let_def P_pump_top pump_grant_def intro!: P_slice)

lemma P_fire:
  assumes "P (y_conn y)" and "fire pf y ev = Some y'"
  shows "P (y_conn y')"
  using assms
  by (cases ev)
     (auto simp: with_conn_def P_onBytes P_destroy P_pull P_cancel P_reset P_ping P_close_begin
        P_close_end request_start_def request_abort_def set_request_def set_pump_def P_slots P_fail
        pump_chunk_def P_pump_top pump_conn_def P_wait_stream P_pump_stream pump_written_def
        pump_end_def P_send pump_ended_def P_mark P_retire pump_error_def Let_def
        split: if_splits pump_phase.splits request_phase.splits option.splits elim: P_request_resume)

end

locale connection_invariant = connection_step +
  assumes P_new: "new_H2Connection opts = Inr c \<Longrightarrow> P c"
begin

lemma P_reachable: "reachable pf opts y \<Longrightarrow> P (y_conn y)"
  by (induction rule: reachable.induct) (auto simp: P_new elim: P_fire)

end

subsection \<open>Streams in the map, and the receive credit\<close>

text \<open>What holds of a stream object as long as it is in the map.\<close>

definition live :: "h2stream \<Rightarrow> bool" where
  "live s \<longleftrightarrow> st_recvError s = None \<and> (st_recvEnded s \<longrightarrow> st_remoteClosed s) \<and>
     (st_bodyDone s \<longrightarrow> st_remoteClosed s)"

definition buffered :: "h2stream list \<Rightarrow> int" where
  "buffered os = sum_list (map st_recvBuffered os)"

text \<open>
  All objects are well-formed; the map has distinct ids, each leading to a live object with that id;
  and, unless the connection is closed, the available connection credit, the bytes buffered in all
  stream objects and the bytes \<open>d\<close> currently being processed add up to the connection window. The
  objects in \<open>X\<close> need not be live: they are about to be reset.
\<close>

definition INV :: "nat set \<Rightarrow> int \<Rightarrow> h2stream list \<Rightarrow> (nat \<times> nat) list \<Rightarrow> bool \<Rightarrow> int \<Rightarrow> nat \<Rightarrow> bool" where
  "INV X d os ss closed avail rw \<longleftrightarrow>
     list_all stream_ok os \<and> distinct (map fst ss) \<and>
     (\<forall>(sid, a) \<in> set ss. a < length os \<and> st_id (os ! a) = sid \<and> (a \<notin> X \<longrightarrow> live (os ! a))) \<and>
     (closed \<or> avail + buffered os + d = int rw)"

definition invx :: "nat set \<Rightarrow> int \<Rightarrow> h2conn \<Rightarrow> bool" where
  "invx X d c = INV X d (c_objs c) (c_streams c) (c_closedFlag c) (c_connRecvAvailable c) (c_connRecvWindow c)"

abbreviation invd :: "int \<Rightarrow> h2conn \<Rightarrow> bool" where
  "invd \<equiv> invx {}"

abbreviation flow_inv :: "h2conn \<Rightarrow> bool" where
  "flow_inv \<equiv> invd 0"

lemma buffered_update:
  "a < length os \<Longrightarrow> buffered (os[a := s]) = buffered os - st_recvBuffered (os ! a) + st_recvBuffered s"
proof (induction os arbitrary: a)
  case (Cons x os)
  then show ?case by (cases a) (auto simp: buffered_def)
qed simp

lemma INV_close: "INV X d os ss cl av rw \<Longrightarrow> INV X d' os ss True av' rw"
  by (simp add: INV_def)

lemma INV_update:
  assumes "INV X d os ss cl av rw" and "a < length os"
    and "stream_ok (os ! a) \<Longrightarrow> stream_ok s" and "st_id s = st_id (os ! a)"
    and "(st_id (os ! a), a) \<in> set ss \<Longrightarrow> a \<notin> X \<Longrightarrow> live (os ! a) \<Longrightarrow> live s"
    and "\<not> cl \<Longrightarrow> av' + st_recvBuffered s + d' = av + st_recvBuffered (os ! a) + d"
  shows "INV X d' (os[a := s]) ss cl av' rw"
proof -
  have "stream_ok s" using assms(1,2,3) by (simp add: INV_def list_all_iff)
  then have "list_all stream_ok (os[a := s])"
    using assms(1) by (auto simp: INV_def list_all_iff dest!: set_update_subset_insert [THEN subsetD])
  moreover have "\<forall>(sid, b) \<in> set ss. b < length (os[a := s]) \<and> st_id (os[a := s] ! b) = sid \<and> (b \<notin> X \<longrightarrow> live (os[a := s] ! b))"
    using assms(1,2,4,5) by (fastforce simp: INV_def nth_list_update)
  moreover have "cl \<or> av' + buffered (os[a := s]) + d' = int rw"
    using assms(1,6) by (cases cl) (auto simp: INV_def buffered_update [OF assms(2)])
  ultimately show ?thesis using assms(1) by (simp add: INV_def)
qed

lemma set_delete_alist: "x \<in> set (AList.delete k xs) \<Longrightarrow> x \<in> set xs \<and> fst x \<noteq> k"
  by (auto simp: AList.delete_eq)

lemma INV_delete: "INV X d os ss cl av rw \<Longrightarrow> INV X d os (AList.delete sid ss) cl av rw"
  by (auto simp: INV_def distinct_delete dest!: set_delete_alist)

lemma INV_unexempt: "INV X d os ss cl av rw \<Longrightarrow> snd ` set ss \<inter> X = {} \<Longrightarrow> INV {} d os ss cl av rw"
  by (fastforce simp: INV_def)

lemma INV_exempt: "INV X d os ss cl av rw \<Longrightarrow> X \<subseteq> Y \<Longrightarrow> INV Y d os ss cl av rw"
  by (fastforce simp: INV_def)

lemmas INV_weaken = INV_exempt [OF _ empty_subsetI]

lemma set_update_alist: "x \<in> set (AList.update k v xs) \<Longrightarrow> x = (k, v) \<or> x \<in> set xs"
  by (induction xs) (auto split: if_splits)

lemma INV_append:
  assumes "INV X d os ss cl av rw" and "stream_ok s" and "st_id s = sid" and "live s" and "st_recvBuffered s = 0"
  shows "INV X d (os @ [s]) (AList.update sid (length os) ss) cl av rw"
proof -
  have "distinct (map fst (AList.update sid (length os) ss))"
    using assms(1) by (intro distinct_update) (simp add: INV_def)
  then show ?thesis
    using assms by (auto simp: INV_def buffered_def nth_append dest!: set_update_alist)
qed

lemma get_stream_Some:
  assumes "invx X d c" and "get_stream c sid = Some a"
  shows "(sid, a) \<in> set (c_streams c)" "a < length (c_objs c)" "st_id (obj c a) = sid" "a \<notin> X \<Longrightarrow> live (obj c a)"
    "stream_ok (obj c a)"
proof -
  show i: "(sid, a) \<in> set (c_streams c)" using assms(2) by (auto simp: get_stream_def dest: map_of_SomeD)
  with assms(1) show a: "a < length (c_objs c)" "st_id (obj c a) = sid" "a \<notin> X \<Longrightarrow> live (obj c a)"
    by (auto simp: invx_def INV_def obj_def)
  with assms(1) show "stream_ok (obj c a)" by (auto simp: invx_def INV_def obj_def list_all_iff)
qed

subsection \<open>Operations on the invariant\<close>

lemma send_fields [simp]:
  "c_objs (send c f) = c_objs c" "c_streams (send c f) = c_streams c"
  "c_closedFlag (send c f) = c_closedFlag c" "c_connRecvAvailable (send c f) = c_connRecvAvailable c"
  "c_connRecvWindow (send c f) = c_connRecvWindow c" "c_goawayReceived (send c f) = c_goawayReceived c"
  "get_stream (send c f) = get_stream c" "obj (send c f) = obj c"
  by (simp_all add: send_def writeRaw_def get_stream_def obj_def fun_eq_iff)

lemma invd_send [simp]: "invx X d (send c f) = invx X d c"
  by (simp add: invx_def)

lemma upd_obj_fields [simp]:
  "c_streams (upd_obj c a g) = c_streams c" "c_closedFlag (upd_obj c a g) = c_closedFlag c"
  "length (c_objs (upd_obj c a g)) = length (c_objs c)"
  "get_stream (upd_obj c a g) = get_stream c"
  "a < length (c_objs c) \<Longrightarrow> obj (upd_obj c a g) a = g (obj c a)"
  "b \<noteq> a \<Longrightarrow> obj (upd_obj c a g) b = obj c b"
  by (simp_all add: upd_obj_def get_stream_def obj_def fun_eq_iff)

lemma invd_upd:
  assumes "invx X d c"
    and "\<And>s. stream_ok s \<Longrightarrow> stream_ok (g s)" and "\<And>s. st_id (g s) = st_id s"
    and "get_stream c (st_id (obj c a)) = Some a \<Longrightarrow> a \<notin> X \<Longrightarrow> live (obj c a) \<Longrightarrow> live (g (obj c a))"
    and "a < length (c_objs c) \<Longrightarrow> st_recvBuffered (g (obj c a)) + d' = st_recvBuffered (obj c a) + d"
    and "a \<ge> length (c_objs c) \<Longrightarrow> d' = d"
  shows "invx X d' (upd_obj c a g)"
proof (cases "a < length (c_objs c)")
  case True
  have m: "get_stream c (st_id (obj c a)) = Some a" if "(st_id (obj c a), a) \<in> set (c_streams c)"
    using that assms(1) by (auto simp: get_stream_def invx_def INV_def)
  show ?thesis
    unfolding invx_def upd_obj_def using assms(1) True
    by simp (rule INV_update [where a = a], auto simp: invx_def obj_def [symmetric] assms(2,3) intro: assms(4) m
        dest: assms(5))
next
  case False
  then have "upd_obj c a g = c" by (simp add: upd_obj_def list_update_beyond)
  with assms(1,6) False show ?thesis by simp
qed

lemma invd_delete: "invx X d c \<Longrightarrow> invx X d (delete_stream c sid)"
  by (simp add: invx_def delete_stream_def INV_delete)

lemma wakeStreamSlots_fields [simp]:
  "c_objs (wakeStreamSlots c) = c_objs c" "c_streams (wakeStreamSlots c) = c_streams c"
  "c_closedFlag (wakeStreamSlots c) = c_closedFlag c"
  "c_connRecvAvailable (wakeStreamSlots c) = c_connRecvAvailable c"
  "c_connRecvWindow (wakeStreamSlots c) = c_connRecvWindow c"
  "get_stream (wakeStreamSlots c) = get_stream c" "obj (wakeStreamSlots c) = obj c"
  by (simp_all add: wakeStreamSlots_def close_begin_def Let_def get_stream_def obj_def fun_eq_iff)

lemma invd_wake [simp]: "invx X d (wakeStreamSlots c) = invx X d c"
  by (simp add: invx_def)

lemma replenishConnection_fields [simp]:
  "c_objs (replenishConnectionWindow c n) = c_objs c"
  "c_streams (replenishConnectionWindow c n) = c_streams c"
  "c_closedFlag (replenishConnectionWindow c n) = c_closedFlag c"
  "get_stream (replenishConnectionWindow c n) = get_stream c"
  "obj (replenishConnectionWindow c n) = obj c"
  by (simp_all add: replenishConnectionWindow_def get_stream_def obj_def fun_eq_iff)

lemma invd_replenishConnection:
  "invx X d c \<Longrightarrow> 0 \<le> n \<Longrightarrow> invx X (d - n) (replenishConnectionWindow c n)"
  by (auto simp: invx_def INV_def replenishConnectionWindow_def)

lemma invd_replenishRecv:
  assumes "invx X d c" and "0 \<le> n"
  shows "invx X (d - n) (replenishRecvWindow c sid n)"
proof -
  have "invx X d (upd_obj c a (\<lambda>s. s\<lparr>st_recvWindow := st_recvWindow s + n\<rparr>))" for a
    by (rule invd_upd [OF assms(1)]) (auto simp: stream_ok_def queued_def live_def)
  moreover have "c_closedFlag c \<Longrightarrow> invx X (d - n) c" using assms(1) by (auto simp: invx_def INV_def)
  ultimately show ?thesis
    using assms invd_replenishConnection
    by (auto simp: replenishRecvWindow_def Let_def split: option.split)
qed

lemma discard_obj_fields [simp]:
  "c_streams (discard_obj c a) = c_streams c" "c_closedFlag (discard_obj c a) = c_closedFlag c"
  "length (c_objs (discard_obj c a)) = length (c_objs c)" "get_stream (discard_obj c a) = get_stream c"
  by (simp_all add: discard_obj_def)

lemma discard_obj_obj: "a < length (c_objs c) \<Longrightarrow> obj (discard_obj c a) a = snd (discardBuffered (obj c a))"
  by (simp add: discard_obj_def)

lemma invd_discard:
  assumes "invx X d c" and "a < length (c_objs c)"
  shows "invx X d (discard_obj c a)"
proof -
  have ok: "stream_ok (obj c a)" using assms by (auto simp: invx_def INV_def obj_def list_all_iff)
  have "invx X (d + st_recvBuffered (obj c a)) (upd_obj c a (\<lambda>s. snd (discardBuffered s)))"
    by (rule invd_upd [OF assms(1)])
       (use assms(2) in \<open>auto simp: stream_ok_discard, auto simp: discardBuffered_def live_def\<close>)
  from invd_replenishConnection [OF this, of "st_recvBuffered (obj c a)"] ok show ?thesis
    by (simp add: discard_obj_def stream_ok_def discardBuffered_def)
qed

lemma fail_fields:
  "st_id (fail s e) = st_id s" "st_recvBuffered (fail s e) = st_recvBuffered s"
  "st_remoteClosed (fail s e) = st_remoteClosed s" "st_localClosed (fail s e) = st_localClosed s"
  "st_recvWindow (fail s e) = st_recvWindow s"
  by (simp_all add: fail_def Let_def wakeRecv_def settle_head_def)

lemma get_stream_delete [simp]: "get_stream (delete_stream c sid) = (get_stream c)(sid := None)"
  by (simp add: get_stream_def delete_stream_def delete_conv' fun_eq_iff)

lemma delete_fields [simp]:
  "c_objs (delete_stream c sid) = c_objs c" "obj (delete_stream c sid) = obj c"
  "c_closedFlag (delete_stream c sid) = c_closedFlag c"
  by (simp_all add: delete_stream_def obj_def fun_eq_iff)

text \<open>Failing an object that is not in the map, or that is about to leave it.\<close>

lemma invd_fail:
  assumes "invx X d c" and "get_stream c (st_id (obj c a)) \<noteq> Some a \<or> a \<in> X"
  shows "invx X d (upd_obj c a (\<lambda>s. fail s e))"
  by (rule invd_upd [OF assms(1)]) (use assms(2) in \<open>auto simp: stream_ok_fail fail_fields\<close>)

lemma invd_state: "invx X d c \<Longrightarrow> invx X d (upd_obj c a (\<lambda>s. s\<lparr>st_state := x\<rparr>))"
  by (rule invd_upd) (auto simp: stream_ok_def queued_def live_def)

lemma invx_resetStream:
  assumes "invx X d c" and "X \<subseteq> {a. get_stream c sid = Some a}"
  shows "invd d (resetStream c sid code)"
proof (cases "get_stream c sid")
  case None
  with assms have "X = {}" by simp
  with assms(1) None show ?thesis by (simp add: resetStream_def)
next
  case (Some a)
  note g = get_stream_Some [OF assms(1) Some]
  let ?c1 = "send c (RstStreamF sid (errorCodeValue code))"
  let ?c2 = "discard_obj ?c1 a"
  let ?c3 = "upd_obj ?c2 a (\<lambda>s. s\<lparr>st_state := Closed\<rparr>)"
  let ?c4 = "wakeStreamSlots (delete_stream ?c3 sid)"
  have "invx X d ?c2" using assms(1) g(2) by (intro invd_discard) simp_all
  then have i4: "invx X d ?c4" by (simp add: invd_delete invd_state)
  have "snd ` set (c_streams ?c4) \<inter> X = {}"
  proof -
    have "b \<noteq> a" if "(k, b) \<in> set (c_streams ?c4)" for k b
    proof
      assume "b = a"
      have k: "(k, b) \<in> set (c_streams c)" "k \<noteq> sid"
        using that by (auto simp: delete_stream_def dest!: set_delete_alist)
      with assms(1) have "st_id (obj c b) = k" by (auto simp: invx_def INV_def obj_def)
      with \<open>b = a\<close> k(2) g(3) show False by simp
    qed
    with Some assms(2) show ?thesis by fastforce
  qed
  with i4 have i5: "invd d ?c4" by (simp add: invx_def INV_unexempt)
  have "st_id (obj ?c4 a) = sid"
    using g(2,3) by (simp add: discard_obj_obj discardBuffered_def)
  then have "invd d (upd_obj ?c4 a (\<lambda>s. fail s (H2Exn (new_H2Error code (Some sid)))))"
    by (intro invd_fail [OF i5]) simp
  with Some show ?thesis by (simp add: resetStream_def Let_def)
qed

lemma invd_resetStream: "invd d c \<Longrightarrow> invd d (resetStream c sid code)"
  by (rule invx_resetStream [where X = "{}"]) simp_all

lemma invd_retire: "invd d c \<Longrightarrow> invd d (retireIfFullyClosed c sid)"
  by (auto simp: retireIfFullyClosed_def invd_state invd_delete split: option.split)

lemma fail_all_objs:
  "length (c_objs (fail_all c as e)) = length (c_objs c) \<and>
   (list_all stream_ok (c_objs c) \<longrightarrow> list_all stream_ok (c_objs (fail_all c as e))) \<and>
   c_closedFlag (fail_all c as e) = c_closedFlag c"
proof (induction as arbitrary: c)
  case (Cons a as)
  have "list_all stream_ok (c_objs c) \<longrightarrow> list_all stream_ok (c_objs (upd_obj c a (\<lambda>s. fail s e)))"
  proof (cases "a < length (c_objs c)")
    case True
    then show ?thesis
      by (auto simp: upd_obj_def obj_def list_all_iff stream_ok_fail
          dest!: set_update_subset_insert [THEN subsetD])
  next
    case False
    then show ?thesis by (simp add: upd_obj_def list_update_beyond)
  qed
  with Cons [of "upd_obj c a (\<lambda>s. fail s e)"] show ?case by (simp add: fail_all_def)
qed (simp add: fail_all_def)

lemma destroy_closed: "c_closedFlag (destroy c e)"
  by (simp add: destroy_def Let_def fail_all_objs)

lemma invd_destroy: "invd d c \<Longrightarrow> invd d' (destroy c e) \<or> c_closedFlag c"
  using fail_all_objs [of "c\<lparr>c_closedFlag := True, c_closeError := Some e,
      c_connSendWindow := fst (sw_close (c_connSendWindow c))\<rparr>" "map snd (c_streams c)" e]
  by (auto simp: destroy_def Let_def invx_def INV_def)

lemma invd_closed: "invd d c \<Longrightarrow> c_closedFlag c \<Longrightarrow> invd d' c"
  by (auto simp: invx_def INV_def)

lemma flow_destroy: "invd d c \<Longrightarrow> invd d' (destroy c e)"
  using invd_destroy [of d c d' e] invd_closed [of d c d'] by (auto simp: destroy_def)

lemma flow_connectionError: "invd d c \<Longrightarrow> flow_inv (connectionError c e)"
  by (simp add: connectionError_def Let_def flow_destroy)

subsection \<open>Frame handlers keep the invariant\<close>

lemma flow_handlePush: "flow_inv c \<Longrightarrow> flow_inv (handlePush proto c pid hs)"
proof -
  assume i: "flow_inv c"
  have "INV {} 0 (c_objs c @ [(new_H2Stream pid w ReservedRemote rw)\<lparr>st_localClosed := True\<rparr>])
      (AList.update pid (length (c_objs c)) (c_streams c)) (c_closedFlag c) (c_connRecvAvailable c)
      (c_connRecvWindow c)" for w rw
    using i by (intro INV_append)
      (auto simp: invx_def new_H2Stream_def live_def stream_ok_def queued_def window_ok_def new_SendWindow_def)
  with i show ?thesis by (auto simp: handlePush_def Let_def invx_def)
qed

lemma receiveHeaders_fields:
  "st_id (receiveHeaders proto s raw e) = st_id s"
  "st_recvBuffered (receiveHeaders proto s raw e) = st_recvBuffered s"
  "st_remoteClosed (receiveHeaders proto s raw e) = st_remoteClosed s"
  "st_localClosed (receiveHeaders proto s raw e) = st_localClosed s"
  "st_recvWindow (receiveHeaders proto s raw e) = st_recvWindow s"
  by (auto simp: receiveHeaders_def Let_def endBody_def wakeRecv_def settle_head_def split: option.split)

text \<open>Marking the peer's side closed right after a block or a frame with END_STREAM.\<close>

lemma live_remote: "st_recvError s = None \<Longrightarrow> live (s\<lparr>st_remoteClosed := True\<rparr>)"
  by (simp add: live_def)

lemma upd_obj_twice: "upd_obj (upd_obj c a f) a g = upd_obj c a (\<lambda>s. g (f s))"
proof (cases "a < length (c_objs c)")
  case True
  then show ?thesis by (simp add: upd_obj_def obj_def)
next
  case False
  then show ?thesis by (simp add: upd_obj_def list_update_beyond)
qed

lemma flow_response:
  assumes "flow_inv c"
  shows "flow_inv (upd_obj c a (\<lambda>s. receiveHeaders proto s hs False))"
    and "flow_inv (upd_obj c a (\<lambda>s. (receiveHeaders proto s hs e)\<lparr>st_remoteClosed := True\<rparr>))"
proof -
  have ok: "stream_ok ((receiveHeaders proto s hs e)\<lparr>st_remoteClosed := True\<rparr>)" if "stream_ok s" for s
    using stream_ok_receiveHeaders [OF that, of proto hs e] by (auto simp: stream_ok_def queued_def)
  show "flow_inv (upd_obj c a (\<lambda>s. receiveHeaders proto s hs False))"
    by (rule invd_upd [OF assms])
       (auto simp: stream_ok_receiveHeaders receiveHeaders_fields live_def receiveHeaders_body
         dest: receiveHeaders_body(4))
  show "flow_inv (upd_obj c a (\<lambda>s. (receiveHeaders proto s hs e)\<lparr>st_remoteClosed := True\<rparr>))"
    by (rule invd_upd [OF assms])
       (auto simp: ok receiveHeaders_fields live_def receiveHeaders_body)
qed

lemma invd_cong:
  "c_objs c' = c_objs c \<Longrightarrow> c_streams c' = c_streams c \<Longrightarrow> c_closedFlag c' = c_closedFlag c \<Longrightarrow>
   c_connRecvAvailable c' = c_connRecvAvailable c \<Longrightarrow> c_connRecvWindow c' = c_connRecvWindow c \<Longrightarrow>
   invd d c' = invd d c"
  by (simp add: invx_def)

lemma flow_completeHeaderBlock: "flow_inv c \<Longrightarrow> flow_inv (fst (completeHeaderBlock proto c pb))"
proof -
  assume "flow_inv c"
  then have i: "flow_inv (c\<lparr>c_pending := None, c_decoder := d\<rparr>)" for d by (simp add: invx_def)
  show ?thesis
    using i
    by (auto simp: completeHeaderBlock_def deliver_block_def Let_def upd_obj_twice flow_handlePush flow_response
        intro!: invd_retire split: prod.split sum.split block_kind.split option.split)
qed

lemma flow_accept: "flow_inv c \<Longrightarrow> flow_inv (fst (accept_block proto c pb e))"
  by (auto simp: accept_block_def Let_def intro!: flow_completeHeaderBlock) (simp_all add: invx_def)

lemma window_ok_adjust: "window_ok w \<Longrightarrow> window_ok (fst (sw_adjust w n))"
  "window_ok w \<Longrightarrow> window_ok (fst (sw_update w n))"
  by (auto simp: window_ok_def sw_adjust_def sw_update_def sw_wake_def Let_def)

lemma flow_sendWindow:
  "flow_inv c \<Longrightarrow> (\<And>w. window_ok w \<Longrightarrow> window_ok (g w)) \<Longrightarrow> (\<And>w. sw_closed (g w) = sw_closed w) \<Longrightarrow>
   flow_inv (upd_obj c a (\<lambda>s. s\<lparr>st_sendWindow := g (st_sendWindow s)\<rparr>))"
  by (erule invd_upd) (auto simp: stream_ok_def queued_def live_def)

lemma flow_adjust_all: "flow_inv c \<Longrightarrow> flow_inv (adjust_all c as n)"
proof -
  have cl: "sw_closed (fst (sw_adjust w n)) = sw_closed w" for w
    by (simp add: sw_adjust_def sw_wake_def Let_def)
  have "flow_inv (upd_obj c a (\<lambda>s. s\<lparr>st_sendWindow := fst (sw_adjust (st_sendWindow s) n)\<rparr>))"
    if "flow_inv c" for c a
    by (rule flow_sendWindow [OF that window_ok_adjust(1) cl])
  then show "flow_inv c \<Longrightarrow> flow_inv (adjust_all c as n)"
    unfolding adjust_all_def by (induction as arbitrary: c) simp_all
qed

lemma flow_upd_remote [simp]: "invd d (upd_remote c f) = invd d c"
  by (simp add: invx_def upd_remote_def)

lemma flow_settings: "flow_inv c \<Longrightarrow> flow_inv (fst (applyRemoteSettings c s))"
  by (auto simp: applyRemoteSettings_def apply_initial_window_def apply_max_frame_def
      apply_other_settings_def Let_def flow_adjust_all split: option.split prod.split)

lemma receiveData_fields:
  "st_id (receiveData s d e) = st_id s" "st_remoteClosed (receiveData s d e) = st_remoteClosed s"
  "st_localClosed (receiveData s d e) = st_localClosed s" "st_recvWindow (receiveData s d e) = st_recvWindow s"
  "\<not> st_bodyDone s \<Longrightarrow> st_recvBuffered (receiveData s d e) = st_recvBuffered s + int (length d)"
  by (auto simp: receiveData_def wakeRecv_def Let_def)

lemma stream_ok_remote: "stream_ok (s\<lparr>st_remoteClosed := b\<rparr>) = stream_ok s"
  by (simp add: stream_ok_def queued_def)

lemma flow_receiveData:
  assumes "invd (int (length data)) c" and "a < length (c_objs c)" and "\<not> st_bodyDone (obj c a)"
  shows "invd 0 (upd_obj c a (\<lambda>s. receiveData s data False))"
    and "invd 0 (upd_obj c a (\<lambda>s. (receiveData s data True)\<lparr>st_remoteClosed := True\<rparr>))"
proof -
  show "invd 0 (upd_obj c a (\<lambda>s. receiveData s data False))"
    by (rule invd_upd [OF assms(1)])
       (use assms(2) in \<open>simp_all add: stream_ok_receiveData receiveData_fields assms(3) live_def
          receiveData_body\<close>)
  show "invd 0 (upd_obj c a (\<lambda>s. (receiveData s data True)\<lparr>st_remoteClosed := True\<rparr>))"
    by (rule invd_upd [OF assms(1)])
       (use assms(2) in \<open>simp_all add: stream_ok_receiveData stream_ok_remote receiveData_fields assms(3)
          live_def receiveData_body\<close>)
qed

lemma flow_data:
  assumes "flow_inv c" and "length data \<le> or_default flowLen (length data)"
  shows "flow_inv (fst (handle_data c sid data flowLen e))"
proof -
  define n where "n = int (or_default flowLen (length data))"
  have n: "int (length data) \<le> n" using assms(2) by (simp add: n_def)
  define c1 where "c1 = c\<lparr>c_connRecvAvailable := c_connRecvAvailable c - n\<rparr>"
  have i1: "invd n c1" using assms(1) by (auto simp: c1_def invx_def INV_def)
  have g1: "get_stream c1 = get_stream c" "obj c1 = obj c" "c_objs c1 = c_objs c"
    by (simp_all add: c1_def get_stream_def obj_def fun_eq_iff)
  have ret: "flow_inv (replenishConnectionWindow c1 n)"
    using invd_replenishConnection [OF i1, of n] n by simp
  show ?thesis
  proof (cases "n > c_connRecvAvailable c")
    case True
    with assms(1) show ?thesis by (simp add: handle_data_def n_def)
  next
    case avail: False
    show ?thesis
    proof (cases "get_stream c sid")
      case None
      with avail ret show ?thesis
        by (auto simp: handle_data_def n_def [symmetric] c1_def [symmetric] g1 Let_def)
    next
      case (Some a)
      show ?thesis
      proof (cases "st_remoteClosed (obj c a) \<or> n > st_recvWindow (obj c a)")
        case True
        with avail ret Some show ?thesis
          by (auto simp: handle_data_def n_def [symmetric] c1_def [symmetric] g1 Let_def invd_resetStream)
      next
        case False
        define c2 where "c2 = upd_obj c1 a (\<lambda>s. s\<lparr>st_recvWindow := st_recvWindow s - n\<rparr>)"
        define c3 where "c3 = (if n - int (length data) > 0
            then replenishRecvWindow c2 sid (n - int (length data)) else c2)"
        have "invd n c2" unfolding c2_def
          by (rule invd_upd [OF i1]) (auto simp: stream_ok_def queued_def live_def)
        then have i3: "invd (int (length data)) c3"
          using n invd_replenishRecv [of "{}" n c2 "n - int (length data)" sid] by (auto simp: c3_def)
        have a: "get_stream c3 sid = Some a" "\<not> st_remoteClosed (obj c3 a)"
          using Some False get_stream_Some(2) [OF assms(1) Some]
          by (auto simp: c3_def c2_def g1 replenishRecvWindow_def Let_def split: option.split)
        note live3 = get_stream_Some [OF i3 a(1)]
        have nd: "\<not> st_bodyDone (obj c3 a)" using live3(4) a(2) by (auto simp: live_def)
        note i45 = flow_receiveData [OF i3 live3(2) nd]
        have "handle_data c sid data flowLen e =
            (if e then retireIfFullyClosed (upd_obj c3 a (\<lambda>s. (receiveData s data True)\<lparr>st_remoteClosed := True\<rparr>)) sid
             else upd_obj c3 a (\<lambda>s. receiveData s data False), None)"
          using avail Some False
          by (simp add: handle_data_def n_def [symmetric] c1_def [symmetric] g1 Let_def
              c2_def [symmetric] c3_def upd_obj_twice)
        with i45 show ?thesis by (simp add: invd_retire)
      qed
    qed
  qed
qed

lemma receiveReset_fields:
  "st_id (receiveReset s code) = st_id s" "st_recvBuffered (receiveReset s code) = st_recvBuffered s"
  by (simp_all add: receiveReset_def Let_def fail_fields)

lemma flow_rst: "flow_inv c \<Longrightarrow> flow_inv (handle_rst_stream c sid code)"
proof (cases "get_stream c sid")
  case (Some a)
  assume i: "flow_inv c"
  note g = get_stream_Some [OF i Some]
  have i1: "flow_inv (discard_obj c a)" using i g(2) by (rule invd_discard)
  have "st_id (obj (discard_obj c a) a) = sid" using g(2,3) by (simp add: discard_obj_obj discardBuffered_def)
  moreover have "invd 0 (delete_stream (upd_obj (discard_obj c a) a (\<lambda>s. receiveReset s code)) sid)"
    if "st_id (obj (discard_obj c a) a) = sid"
  proof -
    have "delete_stream (upd_obj (discard_obj c a) a (\<lambda>s. receiveReset s code)) sid =
        upd_obj (delete_stream (discard_obj c a) sid) a (\<lambda>s. receiveReset s code)"
      by (simp add: delete_stream_def upd_obj_def obj_def)
    moreover have "flow_inv (upd_obj (delete_stream (discard_obj c a) sid) a (\<lambda>s. receiveReset s code))"
      by (rule invd_upd [OF invd_delete [OF i1]])
         (use that in \<open>auto simp: stream_ok_receiveReset receiveReset_fields\<close>)
    ultimately show ?thesis by simp
  qed
  ultimately show ?thesis using Some by (simp add: handle_rst_stream_def Let_def)
qed (simp add: handle_rst_stream_def)

lemma flow_window_update: "flow_inv c \<Longrightarrow> flow_inv (fst (handle_window_update c sid n))"
proof -
  assume i: "flow_inv c"
  have "sw_closed (fst (sw_update w (int n))) = sw_closed w" for w
    by (simp add: sw_update_def sw_wake_def Let_def)
  then have "flow_inv (upd_obj c a (\<lambda>s. s\<lparr>st_sendWindow := fst (sw_update (st_sendWindow s) (int n))\<rparr>))" for a
    using i by (intro flow_sendWindow) (auto intro: window_ok_adjust)
  moreover have "flow_inv (c\<lparr>c_connSendWindow := w\<rparr>)" for w using i by (simp add: invx_def)
  ultimately show ?thesis
    using i by (auto simp: handle_window_update_def invd_resetStream split: option.split)
qed

lemma flow_exclude:
  "flow_inv c \<Longrightarrow> (\<And>sid a. (sid, a) \<in> set rest \<Longrightarrow> a < length (c_objs c) \<and> st_id (obj c a) = sid) \<Longrightarrow>
   flow_inv (exclude_streams c rest lastId code)"
proof (induction c rest lastId code rule: exclude_streams.induct)
  case (2 c sid a rest lastId code)
  let ?c = "delete_stream (upd_obj c a (\<lambda>s. fail s (goaway_error code sid))) sid"
  have a: "a < length (c_objs c)" "st_id (obj c a) = sid" using "2.prems"(2) [of sid a] by auto
  have "?c = upd_obj (delete_stream c sid) a (\<lambda>s. fail s (goaway_error code sid))"
    by (simp add: delete_stream_def upd_obj_def obj_def)
  moreover have "flow_inv (upd_obj (delete_stream c sid) a (\<lambda>s. fail s (goaway_error code sid)))"
    by (rule invd_fail [OF invd_delete [OF "2.prems"(1)]]) (simp add: a)
  ultimately have i: "flow_inv ?c" by simp
  have ids: "b < length (c_objs ?c) \<and> st_id (obj ?c b) = k" if "(k, b) \<in> set rest" for k b
    using "2.prems"(2) [of k b] that a by (cases "b = a") (simp_all add: fail_fields)
  show ?case using "2.IH" i ids "2.prems" by simp
qed simp

lemma flow_goaway: "flow_inv c \<Longrightarrow> flow_inv (handle_goaway c lastId code)"
proof -
  assume i: "flow_inv c"
  let ?c1 = "c\<lparr>c_goawayReceived := True, c_draining := True\<rparr>"
  have i1: "flow_inv ?c1" using i by (simp add: invx_def)
  have "flow_inv (exclude_streams ?c1 (c_streams ?c1) lastId x)" for x
    by (rule flow_exclude [OF i1]) (use i in \<open>auto simp: invx_def INV_def obj_def\<close>)
  then show ?thesis by (simp add: handle_goaway_def Let_def flow_destroy [where d = 0])
qed

lemma flow_ping_frame: "flow_inv c \<Longrightarrow> flow_inv (handle_ping now c ack opaque)"
  by (auto simp: handle_ping_def split: option.split) (simp add: invx_def)

lemma flow_dispatch:
  assumes "flow_inv c" and "frame_ranges m f"
  shows "flow_inv (fst (dispatch proto now c f))"
proof (cases "c_pending c \<noteq> None \<and> \<not> is_continuation f")
  case True
  with assms(1) show ?thesis by (simp add: dispatch_def)
next
  case False
  then show ?thesis
    using assms flow_settings [OF assms(1)]
    by (cases f)
       (auto simp: dispatch_def flow_accept flow_rst flow_window_update flow_ping_frame flow_goaway
          or_default_def intro!: flow_data split: option.split option.splits prod.split,
        (metis fst_conv)+)
qed

lemma flow_dispatch_all:
  "flow_inv c \<Longrightarrow> list_all (frame_ranges m) fs \<Longrightarrow> flow_inv (dispatch_all proto now c fs)"
proof (induction fs arbitrary: c)
  case (Cons f fs)
  obtain c1 x where d: "dispatch proto now c f = (c1, x)" by fastforce
  have "flow_inv c1" using flow_dispatch [OF Cons.prems(1), of m f proto now] Cons.prems(2) d by simp
  with Cons d show ?case
    by (auto simp: flow_connectionError invd_resetStream split: option.split exn.split)
qed simp

lemma flow_onBytes: "flow_inv c \<Longrightarrow> flow_inv (onBytes proto now c chunk)"
proof -
  assume i: "flow_inv c"
  have "flow_inv (c\<lparr>c_frameDecoder := fd\<rparr>)" for fd using i by (simp add: invx_def)
  then have "flow_inv (dispatch_all proto now (c\<lparr>c_frameDecoder := fd\<rparr>) fs)"
    if "push (c_frameDecoder c) chunk = Inr (fs, fd)" for fs fd
    using push_ranges [OF that] by (intro flow_dispatch_all) (auto simp: list_all_iff)
  with i show ?thesis by (auto simp: onBytes_def flow_connectionError split: sum.split)
qed

subsection \<open>Consumers, requests and pumps keep the invariant\<close>

lemma pullBody_fields:
  assumes "pullBody s = (s', r)"
  shows "st_id s' = st_id s" "stream_ok s \<Longrightarrow> stream_ok s'" "live s \<Longrightarrow> live s'"
    "st_recvBuffered s' = st_recvBuffered s - (case r of PullChunk c \<Rightarrow> int (length c) | _ \<Rightarrow> 0)"
    "st_remoteClosed s' = st_remoteClosed s" "st_recvWindow s' = st_recvWindow s"
    "st_localClosed s' = st_localClosed s"
  using assms stream_ok_pull [of s]
  by (auto simp: pullBody_def live_def split: list.splits option.splits if_splits)

lemma invx_upd_const:
  assumes "invx X d c" and "a < length (c_objs c)" and "stream_ok (obj c a) \<Longrightarrow> stream_ok s"
    and "st_id s = st_id (obj c a)" and "a \<notin> X \<Longrightarrow> live (obj c a) \<Longrightarrow> live s"
    and "st_recvBuffered s + d' = st_recvBuffered (obj c a) + d"
  shows "invx X d' (upd_obj c a (\<lambda>_. s))"
  unfolding invx_def upd_obj_def using assms(1,2)
  by simp (rule INV_update [where a = a], auto simp: invx_def obj_def [symmetric] assms(4)
      intro: assms(3,5) simp: assms(6) [symmetric])

lemma flow_pull:
  assumes "flow_inv c" and "a < length (c_objs c)"
  shows "flow_inv (fst (pull_stream c a))"
proof -
  obtain s r where p: "pullBody (obj c a) = (s, r)" by fastforce
  note pf = pullBody_fields [OF p]
  have i: "invd (case r of PullChunk x \<Rightarrow> int (length x) | _ \<Rightarrow> 0) (upd_obj c a (\<lambda>_. s))"
    by (rule invx_upd_const [OF assms]) (use pf in \<open>auto split: pull_outcome.splits\<close>)
  show ?thesis
  proof (cases r)
    case (PullChunk x)
    with i invd_replenishRecv [of "{}" "int (length x)" "upd_obj c a (\<lambda>_. s)" "int (length x)" "st_id s"]
    show ?thesis by (simp add: pull_stream_def p)
  qed (use i in \<open>simp_all add: pull_stream_def p\<close>)
qed

text \<open>Between the two halves of \<^verbatim>\<open>cancelBody\<close> the object is exempt: if it was live, it is reset.\<close>

lemma flow_cancel:
  assumes "flow_inv c" and "a < length (c_objs c)"
  shows "flow_inv (cancel_stream c a)"
proof -
  let ?n = "st_recvBuffered (obj c a)"
  let ?live = "\<not> st_bodyDone (obj c a) \<and> \<not> st_recvEnded (obj c a) \<and> st_recvError (obj c a) = None"
  let ?sid = "st_id (obj c a)"
  define X where "X = (if ?live \<and> get_stream c ?sid = Some a then {a} else {})"
  have ok: "stream_ok (obj c a)" using assms by (auto simp: invx_def INV_def obj_def list_all_iff)
  then have n: "0 \<le> ?n" by (simp add: stream_ok_def)
  obtain s where cb: "cancelBody (obj c a) = (s, ?n, ?live)" "st_id s = ?sid" "st_recvBuffered s = 0"
    "stream_ok s" "live (obj c a) \<Longrightarrow> \<not> ?live \<Longrightarrow> live s"
  proof
    let ?s = "fst (cancelBody (obj c a))"
    show "cancelBody (obj c a) = (?s, ?n, ?live)" "st_id ?s = ?sid" "st_recvBuffered ?s = 0" "stream_ok ?s"
      "live (obj c a) \<Longrightarrow> \<not> ?live \<Longrightarrow> live ?s"
      using n stream_ok_cancel [OF ok] by (auto simp: cancelBody_def Let_def live_def)
  qed
  let ?c1 = "replenishRecvWindow (upd_obj c a (\<lambda>_. s)) ?sid ?n"
  have "invx X ?n (upd_obj c a (\<lambda>_. s))"
  proof (cases "(?sid, a) \<in> set (c_streams c)")
    case True
    then have "get_stream c ?sid = Some a" using assms(1) by (auto simp: get_stream_def invx_def INV_def)
    moreover have "invx X 0 c" using assms(1) by (simp add: invx_def INV_weaken)
    ultimately show ?thesis
      by (intro invx_upd_const [where d = 0]) (use assms(2) cb in \<open>auto simp: X_def split: if_splits\<close>)
  next
    case False
    have "INV X ?n ((c_objs c)[a := s]) (c_streams c) (c_closedFlag c) (c_connRecvAvailable c) (c_connRecvWindow c)"
      by (rule INV_update [where d = 0])
         (use assms False cb in \<open>auto simp: invx_def obj_def INV_weaken\<close>)
    then show ?thesis by (simp add: invx_def upd_obj_def)
  qed
  from invd_replenishRecv [OF this n] have i: "invx X 0 ?c1" by simp
  have g: "get_stream ?c1 = get_stream c"
    by (auto simp: replenishRecvWindow_def Let_def fun_eq_iff split: option.split)
  show ?thesis
  proof (cases "?live \<and> get_stream c ?sid \<noteq> None")
    case True
    have "X \<subseteq> {b. get_stream ?c1 ?sid = Some b}" by (auto simp: X_def g)
    from invx_resetStream [OF i this] True g show ?thesis
      by (simp add: cancel_stream_def cb(1,2) Let_def)
  next
    case False
    then have "X = {}" by (auto simp: X_def)
    with i False g show ?thesis
      by (auto simp: cancel_stream_def cb(1,2) Let_def)
  qed
qed

lemma flow_fail_and_reset: "flow_inv c \<Longrightarrow> flow_inv (fail_and_reset c a e)"
proof -
  assume i: "flow_inv c"
  let ?sid = "st_id (obj c a)" and ?c1 = "upd_obj c a (\<lambda>s. fail s e)"
  define X where "X = (if get_stream c ?sid = Some a then {a} else {})"
  have "invx X 0 c" using i by (simp add: invx_def INV_weaken)
  then have x: "invx X 0 ?c1" by (rule invd_fail) (auto simp: X_def)
  show ?thesis
  proof (cases "get_stream c ?sid = None")
    case True
    then have "X = {}" by (simp add: X_def)
    with x True show ?thesis by (simp add: fail_and_reset_def Let_def)
  next
    case False
    have "flow_inv (resetStream ?c1 ?sid CANCEL)"
      by (rule invx_resetStream [OF x]) (auto simp: X_def)
    with False show ?thesis by (simp add: fail_and_reset_def Let_def)
  qed
qed

lemma flow_reserve: "flow_inv c \<Longrightarrow> flow_inv (reserve_stream c)"
  by (auto simp: reserve_stream_def Let_def invx_def intro!: INV_append)
     (auto simp: stream_ok_new, auto simp: new_H2Stream_def live_def)

lemma flow_new: "new_H2Connection opts = Inr c \<Longrightarrow> flow_inv c"
  by (auto simp: new_H2Connection_def Let_def validConnectionWindow_def SPEC_INITIAL_WINDOW_def
      split: if_splits)
     (auto simp: invx_def INV_def buffered_def writeRaw_def)

lemma flow_mark: "flow_inv c \<Longrightarrow> flow_inv (mark_sent c a b)"
  unfolding mark_sent_def by (erule invd_upd) (auto simp: stream_ok_def queued_def live_def)

lemma window_ok_wait: "window_ok w \<Longrightarrow> window_ok (fst (sw_waitPositive w k))"
  "window_ok w \<Longrightarrow> 0 \<le> n \<Longrightarrow> window_ok (sw_consume w n)"
  by (auto simp: window_ok_def sw_waitPositive_def sw_consume_def)

interpretation flow: connection_invariant flow_inv
proof unfold_locales
  fix c a k and g :: int and piece e assume i: "flow_inv c"
  show "flow_inv (wait_conn c k)" using i by (simp add: wait_conn_def invx_def)
  have cl: "sw_closed (fst (sw_waitPositive w k)) = sw_closed w" for w by (simp add: sw_waitPositive_def)
  show "flow_inv (wait_stream c a k)"
    unfolding wait_stream_def by (rule flow_sendWindow [OF i window_ok_wait(1) cl])
  show "flow_inv (send_slice c a g piece)" if "0 < g"
  proof -
    have "flow_inv (c\<lparr>c_connSendWindow := w\<rparr>)" for w using i by (simp add: invx_def)
    then show ?thesis
      unfolding send_slice_def Let_def invd_send
      by (rule flow_sendWindow) (use that in \<open>auto simp: window_ok_wait, auto simp: sw_consume_def\<close>)
  qed
  show "flow_inv (close_end c)" using i unfolding close_end_def
    by (intro flow_destroy [where d = 0]) (simp add: invx_def)
qed (auto simp: flow_new flow_onBytes flow_destroy flow_pull flow_cancel invd_resetStream flow_reserve
      flow_mark flow_fail_and_reset invd_retire ping_def close_begin_def Let_def,
     simp_all add: invx_def)

subsection \<open>Properties\<close>

lemma reachable_flow: "reachable pf opts y \<Longrightarrow> flow_inv (y_conn y)"
  by (rule flow.P_reachable)

text \<open>C1: Receive flow control conserves credit: in every reachable state of an open connection, whatever
  frames arrived, whichever streams were reset, retired, excluded or cancelled and however much of
  each body was read, the available connection credit plus the bytes still buffered in all stream
  objects is exactly the connection window. No byte of credit is leaked or granted twice, so an
  abandoned stream cannot stall the connection.\<close>

theorem connection_credit_conserved:
  assumes "reachable pf opts y" and "\<not> c_closedFlag (y_conn y)"
  shows "c_connRecvAvailable (y_conn y) + sum_list (map st_recvBuffered (c_objs (y_conn y)))
         = int (c_connRecvWindow (y_conn y))"
  using reachable_flow [OF assms(1)] assms(2) by (simp add: invx_def INV_def buffered_def)

text \<open>The options of the examples, and the state of a connection right after construction.\<close>

definition default_options :: connect_options where
  "default_options = \<lparr>o_headerTableSize = None, o_enablePush = None, o_initialWindowSize = None,
     o_maxFrameSize = None, o_connectionWindowSize = None, o_onPush = False\<rparr>"

definition ascii_platform :: platform where
  "ascii_platform = \<lparr>pf_toLowerCase = ascii_lower, pf_toUpperCase = (\<lambda>s. s), pf_proto = (\<lambda>_. None)\<rparr>"

definition fresh_conn :: h2conn where
  "fresh_conn = projr (new_H2Connection default_options)"

lemma fresh_conn_new: "new_H2Connection default_options = Inr fresh_conn"
  by (simp add: fresh_conn_def new_H2Connection_def default_options_def or_default_def validWindow_def
      validConnectionWindow_def SPEC_INITIAL_WINDOW_def Let_def)

lemma fresh_conn_fields:
  "c_closedFlag fresh_conn = False" "c_objs fresh_conn = []" "c_streams fresh_conn = []"
  "c_connRecvAvailable fresh_conn = 64 * 1024 * 1024" "c_connRecvWindow fresh_conn = 64 * 1024 * 1024"
  "c_goawayReceived fresh_conn = False" "c_pending fresh_conn = None" "c_nextStreamId fresh_conn = 1"
  "c_connSendWindow fresh_conn = new_SendWindow 65535" "rs_maxConcurrentStreams (c_remote fresh_conn) = None"
  "rs_initialWindowSize (c_remote fresh_conn) = 65535" "rs_maxFrameSize (c_remote fresh_conn) = 16384"
  "c_localInitialWindow fresh_conn = 1024 * 1024" "c_frameDecoder fresh_conn = new_FrameDecoder 16384"
  "c_slotWaiters fresh_conn = []" "c_pings fresh_conn = []" "c_pingCounter fresh_conn = 0" "c_pingResults fresh_conn = []"
  by (simp_all add: fresh_conn_def new_H2Connection_def default_options_def or_default_def validWindow_def
      validConnectionWindow_def SPEC_INITIAL_WINDOW_def DEFAULT_MAX_FRAME_SIZE_def Let_def writeRaw_def send_def)

lemma fresh_reachable:
  "reachable ascii_platform default_options \<lparr>y_conn = fresh_conn, y_requests = [], y_pumps = []\<rparr>"
  by (rule reachable.start [OF fresh_conn_new])

theorem connection_credit_conserved_witness:
  "let y = \<lparr>y_conn = ping 5 fresh_conn, y_requests = [], y_pumps = []\<rparr> in
   c_connRecvAvailable (y_conn y) + sum_list (map st_recvBuffered (c_objs (y_conn y)))
     = int (c_connRecvWindow (y_conn y))"
  unfolding Let_def
proof (rule connection_credit_conserved)
  have "fire ascii_platform \<lparr>y_conn = fresh_conn, y_requests = [], y_pumps = []\<rparr> (Ping 5) =
      Some \<lparr>y_conn = ping 5 fresh_conn, y_requests = [], y_pumps = []\<rparr>" by (simp add: with_conn_def)
  from reachable.step [OF fresh_reachable this]
  show "reachable ascii_platform default_options \<lparr>y_conn = ping 5 fresh_conn, y_requests = [], y_pumps = []\<rparr>" .
qed (simp add: ping_def Let_def fresh_conn_fields)

end
