(* ===== verification/H2_Safety.thy ===== *)
theory H2_Safety
  imports H2_Invariant
begin

text \<open>
  Further properties of the connection: the resource bounds that hold in every reachable state
  (header block, compression table, frame size, send window), the silence of a closed connection,
  the admission and retry rules of \<^verbatim>\<open>request\<close>, the sending of headers and data, and the GOAWAY and
  teardown behaviour.
\<close>

subsection \<open>Bounds\<close>

definition block_ok :: "pending_block option \<Rightarrow> bool" where
  "block_ok p = (case p of None \<Rightarrow> True
     | Some pb \<Rightarrow> pb_size pb = sum_list (map length (pb_fragments pb)) \<and> pb_size pb \<le> MAX_HEADER_BLOCK_SIZE)"

definition base_ok :: "hpack_decoder \<Rightarrow> remote_settings \<Rightarrow> send_window \<Rightarrow> bool" where
  "base_ok d r w \<longleftrightarrow> table_ok d \<and> 16384 \<le> rs_maxFrameSize r \<and> rs_maxFrameSize r \<le> 16777215 \<and>
     window_ok w \<and> 0 \<le> sw_available w"

text \<open>The part of the state these bounds are about; most operations leave it alone.\<close>

definition core :: "h2conn \<Rightarrow> hpack_decoder \<times> remote_settings \<times> send_window \<times> pending_block option \<times> bool" where
  "core c = (c_decoder c, c_remote c, c_connSendWindow c, c_pending c, c_closedFlag c)"

fun core_ok :: "hpack_decoder \<times> remote_settings \<times> send_window \<times> pending_block option \<times> bool \<Rightarrow> bool" where
  "core_ok (d, r, w, p, cl) \<longleftrightarrow> base_ok d r w \<and> (cl \<or> block_ok p)"

definition limits_ok :: "h2conn \<Rightarrow> bool" where
  "limits_ok c = core_ok (core c)"

definition conn_base :: "h2conn \<Rightarrow> bool" where
  "conn_base c = base_ok (c_decoder c) (c_remote c) (c_connSendWindow c)"

lemma core_prims [simp]:
  "core (send c f) = core c" "core (upd_obj c a g) = core c" "core (delete_stream c sid) = core c"
  "core (wakeStreamSlots c) = core c" "core (replenishConnectionWindow c n) = core c"
  "core (close_begin c) = core c" "core (writeRaw c x) = core c"
  by (simp_all add: core_def send_def writeRaw_def upd_obj_def delete_stream_def wakeStreamSlots_def
      close_begin_def replenishConnectionWindow_def Let_def)

lemma core_other [simp]:
  "core (c\<lparr>c_slotWaiters := ws\<rparr>) = core c" "core (c\<lparr>c_connRecvAvailable := n\<rparr>) = core c"
  "core (c\<lparr>c_closing := k\<rparr>) = core c" "core (c\<lparr>c_frameDecoder := fd\<rparr>) = core c"
  "core (c\<lparr>c_highestPromised := k\<rparr>) = core c" "core (c\<lparr>c_goawayReceived := x, c_draining := x\<rparr>) = core c"
  "core (c\<lparr>c_pingCounter := k\<rparr>) = core c" "core (c\<lparr>c_pingResults := pr\<rparr>) = core c"
  "core (c\<lparr>c_pings := ps\<rparr>) = core c" "core (c\<lparr>c_pings := ps, c_pingResults := pr\<rparr>) = core c"
  "core (c\<lparr>c_objs := os, c_streams := ss, c_pushes := pu\<rparr>) = core c"
  "core (c\<lparr>c_nextStreamId := k, c_objs := os, c_streams := ss\<rparr>) = core c"
  by (simp_all add: core_def)

lemma core_ops [simp]:
  "core (replenishRecvWindow c sid n) = core c" "core (discard_obj c a) = core c"
  "core (retireIfFullyClosed c sid) = core c" "core (handlePush proto c pid hs) = core c"
  "core (mark_sent c a b) = core c" "core (reserve_stream c) = core c"
  "core (wait_stream c a k) = core c" "core (ping now c) = core c"
  "core (handle_ping now c ack opaque) = core c"
  by (simp_all add: replenishRecvWindow_def discard_obj_def retireIfFullyClosed_def handlePush_def
      mark_sent_def reserve_stream_def wait_stream_def ping_def handle_ping_def Let_def split: option.split)

lemma core_reset [simp]: "core (resetStream c sid code) = core c"
  by (simp add: resetStream_def Let_def split: option.split)

lemma core_folds [simp]:
  "core (fail_all c as e) = core c" "core (adjust_all c as n) = core c"
  by (induction as arbitrary: c) (simp_all add: fail_all_def adjust_all_def)

lemma core_exclude [simp]: "core (exclude_streams c ss lastId code) = core c"
  by (induction c ss lastId code rule: exclude_streams.induct) simp_all

lemma core_consumer [simp]:
  "core (fst (pull_stream c a)) = core c" "core (cancel_stream c a) = core c"
  "core (fail_and_reset c a e) = core c" "core (handle_rst_stream c sid k) = core c"
  by (simp_all add: pull_stream_def cancel_stream_def fail_and_reset_def handle_rst_stream_def Let_def
      split: prod.split pull_outcome.split option.split)

lemma limits_cong: "core c' = core c \<Longrightarrow> limits_ok c \<Longrightarrow> limits_ok c'"
  by (simp add: limits_ok_def)

lemma limits_iff: "limits_ok c \<longleftrightarrow> conn_base c \<and> (c_closedFlag c \<or> block_ok (c_pending c))"
  by (simp add: limits_ok_def core_def conn_base_def)

lemma conn_base_cong: "core c' = core c \<Longrightarrow> conn_base c' = conn_base c"
  by (simp add: core_def conn_base_def)

lemma base_destroy: "conn_base c \<Longrightarrow> conn_base (destroy c e)"
proof -
  assume "conn_base c"
  let ?c1 = "c\<lparr>c_closedFlag := True, c_closeError := Some e, c_connSendWindow := fst (sw_close (c_connSendWindow c))\<rparr>"
  let ?c3 = "wakeStreamSlots ((fail_all ?c1 (map snd (c_streams ?c1)) e)\<lparr>c_streams := []\<rparr>)"
  have "core ((fail_all ?c1 xs e)\<lparr>c_streams := []\<rparr>) = core (fail_all ?c1 xs e)" for xs by (simp add: core_def)
  then have "core ?c3 = core ?c1" by simp
  moreover have "conn_base ?c1"
    using \<open>conn_base c\<close> by (simp add: conn_base_def base_ok_def window_ok_def sw_close_def sw_wake_def)
  ultimately have "conn_base ?c3" using conn_base_cong by blast
  with \<open>conn_base c\<close> show ?thesis by (simp add: destroy_def Let_def conn_base_def)
qed

lemma limits_destroy: "conn_base c \<Longrightarrow> limits_ok (destroy c e)"
  using base_destroy destroy_closed by (simp add: limits_iff)

lemma limits_connectionError: "conn_base c \<Longrightarrow> limits_ok (connectionError c e)"
  using conn_base_cong [of "send c _" c] by (simp add: connectionError_def Let_def limits_destroy)

lemma hpack_decode_table:
  assumes "table_ok d" and "hpack_decode d block limits = (d', res)"
  shows "table_ok d'"
proof -
  obtain d1 r1 where r: "decode_loop limits d (new_ByteReader block) ([], no_budget) = (d1, r1)" by fastforce
  from assms(2) r have "d' = d1" by (cases r1) (auto simp: hpack_decode_def)
  with decode_loop_ok [OF assms(1) r] show ?thesis by simp
qed

text \<open>The outcome of a frame handler: bounds kept, except that the header block may have overflowed when
  a connection error is thrown.\<close>

fun fatal :: "exn option \<Rightarrow> bool" where
  "fatal None = False"
| "fatal (Some (H2Exn e)) = (err_streamId e = None)"
| "fatal (Some _) = True"

definition outcome_ok :: "h2conn \<times> exn option \<Rightarrow> bool" where
  "outcome_ok r \<longleftrightarrow> conn_base (fst r) \<and> (fatal (snd r) \<or> limits_ok (fst r))"

lemma outcome_cong: "core c' = core c \<Longrightarrow> limits_ok c \<Longrightarrow> outcome_ok (c', x)"
  using conn_base_cong [of c' c] limits_cong [of c' c] by (simp add: outcome_ok_def limits_iff)

lemma outcome_limits: "limits_ok c \<Longrightarrow> outcome_ok (c, x)"
  by (rule outcome_cong [OF refl])

lemma core_deliver [simp]: "core (deliver_block proto c pb hs) = core c"
  by (simp add: deliver_block_def Let_def split: block_kind.split option.split)

lemma outcome_complete:
  assumes "conn_base c"
  shows "outcome_ok (completeHeaderBlock proto c pb)"
proof -
  obtain d res where d: "hpack_decode (c_decoder c) (block_bytes pb)
      (Some \<lparr>l_maxHeaderListBytes = DEFAULT_MAX_HEADER_LIST_BYTES,
             l_maxHeaderCount = DEFAULT_MAX_HEADER_COUNT, l_streamId = Some (pb_streamId pb)\<rparr>) = (d, res)"
    by fastforce
  let ?c2 = "c\<lparr>c_pending := None, c_decoder := d\<rparr>"
  have "table_ok d" using hpack_decode_table [OF _ d] assms by (simp add: conn_base_def base_ok_def)
  then have l: "limits_ok ?c2" using assms by (simp add: limits_iff conn_base_def base_ok_def block_ok_def)
  have "\<exists>c' x. completeHeaderBlock proto c pb = (c', x) \<and> core c' = core ?c2"
    using d by (cases res) (simp_all add: completeHeaderBlock_def)
  with outcome_cong [OF _ l] show ?thesis by auto
qed

lemma outcome_accept:
  assumes "conn_base c" and "c_closedFlag c \<or> pb_size pb = sum_list (map length (pb_fragments pb))"
  shows "outcome_ok (accept_block proto c pb e)"
proof -
  have b: "conn_base (c\<lparr>c_pending := Some pb\<rparr>)" using assms(1) by (simp add: conn_base_def)
  show ?thesis
    using outcome_complete [OF b] assms(2) b
    by (auto simp: accept_block_def Let_def outcome_ok_def limits_iff block_ok_def new_H2Error_def)
qed

lemma outcome_settings:
  assumes "limits_ok c"
  shows "outcome_ok (applyRemoteSettings c s)"
proof -
  have r: "limits_ok (upd_remote c f)" if "limits_ok c" "rs_maxFrameSize (f (c_remote c)) = rs_maxFrameSize (c_remote c)"
    for c f using that by (simp add: limits_iff conn_base_def base_ok_def upd_remote_def)
  have "limits_ok (fst (apply_initial_window c v))" "fatal (snd (apply_initial_window c v)) \<or> snd (apply_initial_window c v) = None" for v
    using assms r [OF assms] limits_cong [OF core_folds(2)]
    by (auto simp: apply_initial_window_def Let_def new_H2Error_def split: option.split)
  moreover have "limits_ok (fst (apply_max_frame c v))" if "limits_ok c" for c v
    using that by (auto simp: apply_max_frame_def upd_remote_def limits_iff conn_base_def base_ok_def split: option.split)
  moreover have "limits_ok (apply_other_settings c s)" if "limits_ok c" for c
    using that r by (auto simp: apply_other_settings_def Let_def intro!: limits_cong [OF core_prims(4)] split: option.split)
  ultimately show ?thesis
    by (auto simp: applyRemoteSettings_def outcome_ok_def limits_iff split: prod.split option.split) 
       (metis (no_types, lifting) fst_conv limits_iff)+
qed

lemma core_data: "core (fst (handle_data c sid data n e)) = core c"
  by (auto simp: handle_data_def Let_def split: option.split)

lemma outcome_window_update:
  assumes "limits_ok c"
  shows "outcome_ok (handle_window_update c sid n)"
proof -
  have "limits_ok (c\<lparr>c_connSendWindow := fst (sw_update (c_connSendWindow c) (int n))\<rparr>)"
    using assms window_ok_adjust(2)
    by (simp add: limits_iff conn_base_def base_ok_def) (simp add: sw_update_def sw_wake_def Let_def)
  then show ?thesis
    using assms
    by (auto simp: handle_window_update_def split: option.split intro!: outcome_limits)
       (simp_all add: limits_ok_def)
qed

lemma limits_goaway: "limits_ok c \<Longrightarrow> limits_ok (handle_goaway c lastId code)"
proof -
  assume l: "limits_ok c"
  let ?c1 = "c\<lparr>c_goawayReceived := True, c_draining := True\<rparr>"
  have "limits_ok (wakeStreamSlots (exclude_streams ?c1 ss lastId x))" for ss x
    using limits_cong [of "wakeStreamSlots (exclude_streams ?c1 ss lastId x)" c] l by simp
  moreover from this have "conn_base (wakeStreamSlots (exclude_streams ?c1 ss lastId x))" for ss x
    by (simp add: limits_iff)
  ultimately show ?thesis by (simp add: handle_goaway_def Let_def limits_destroy)
qed

lemma outcome_dispatch:
  assumes "limits_ok c"
  shows "outcome_ok (dispatch proto now c f)"
proof (cases "c_pending c \<noteq> None \<and> \<not> is_continuation f")
  case True
  with outcome_cong [OF refl assms] show ?thesis by (simp add: dispatch_def)
next
  case False
  have b: "conn_base c" using assms(1) by (simp add: limits_iff)
  have s: "outcome_ok (case applyRemoteSettings c s of (c1, Some e) \<Rightarrow> (c1, Some e)
      | (c1, None) \<Rightarrow> (send c1 (SettingsF True empty_settings), None))" for s
  proof -
    obtain c1 x where "applyRemoteSettings c s = (c1, x)" by fastforce
    with outcome_settings [OF assms(1), of s] outcome_cong [of "send c1 (SettingsF True empty_settings)" c1 None]
    show ?thesis by (cases x) (simp_all add: outcome_ok_def)
  qed
  have k: "outcome_ok (accept_block proto c (pb\<lparr>pb_fragments := pb_fragments pb @ [fr],
      pb_size := pb_size pb + length fr\<rparr>) e)" if "c_pending c = Some pb" for pb fr e
    by (rule outcome_accept [OF b]) (use assms that in \<open>auto simp: limits_iff block_ok_def\<close>)
  have d: "outcome_ok (handle_data c sid data n e)" for sid data n e
    using outcome_cong [OF core_data assms(1)] by (metis prod.collapse)
  show ?thesis
    using False s k d
    by (cases f)
       (simp_all add: dispatch_def outcome_accept [OF b] outcome_window_update [OF assms]
          outcome_limits [OF assms] outcome_limits [OF limits_goaway [OF assms]]
          outcome_cong [OF _ assms] split: option.split)
qed

lemma limits_dispatch_all: "limits_ok c \<Longrightarrow> limits_ok (dispatch_all proto now c fs)"
proof (induction fs arbitrary: c)
  case (Cons f fs)
  obtain c1 x where d: "dispatch proto now c f = (c1, x)" by fastforce
  have o1: "conn_base c1" "fatal x \<or> limits_ok c1"
    using outcome_dispatch [OF Cons.prems, of proto now f] d by (simp_all add: outcome_ok_def)
  have r: "limits_ok c1 \<Longrightarrow> limits_ok (resetStream c1 sid code)" for sid code
    by (rule limits_cong [OF core_reset])
  show ?case
    using d o1 r Cons.IH limits_connectionError [OF o1(1)]
    by (auto split: option.split exn.split)
qed simp

lemma limits_onBytes: "limits_ok c \<Longrightarrow> limits_ok (onBytes proto now c chunk)"
proof -
  assume l: "limits_ok c"
  then have "limits_ok (c\<lparr>c_frameDecoder := fd\<rparr>)" for fd by (rule limits_cong [rotated]) simp
  moreover have "conn_base c" using l by (simp add: limits_iff)
  ultimately show ?thesis
    by (auto simp: onBytes_def limits_dispatch_all limits_connectionError split: sum.split)
qed

lemma limits_new: "new_H2Connection opts = Inr c \<Longrightarrow> limits_ok c"
proof -
  assume "new_H2Connection opts = Inr c"
  then obtain n where "core c = (new_HpackDecoder n,
      \<lparr>rs_initialWindowSize = SPEC_INITIAL_WINDOW, rs_maxFrameSize = DEFAULT_MAX_FRAME_SIZE,
       rs_headerTableSize = 4096, rs_enablePush = True, rs_maxConcurrentStreams = None\<rparr>,
      new_SendWindow (int SPEC_INITIAL_WINDOW), None, False)"
    by (auto simp: new_H2Connection_def Let_def core_def split: if_splits) (auto simp: send_def writeRaw_def)
  then show ?thesis
    by (simp add: limits_ok_def base_ok_def block_ok_def table_ok_def size_ok_def new_HpackDecoder_def
        DEFAULT_MAX_FRAME_SIZE_def window_ok_def new_SendWindow_def)
qed

interpretation limits: connection_invariant limits_ok
proof unfold_locales
  fix c a k and g :: int and piece e assume l: "limits_ok c"
  show "limits_ok (wait_conn c k)"
    using l window_ok_wait(1) by (auto simp: wait_conn_def limits_iff conn_base_def base_ok_def)
      (simp_all add: sw_waitPositive_def)
  show "limits_ok (send_slice c a g piece)" if "0 < g" "g \<le> sw_available (c_connSendWindow c)"
  proof -
    have "limits_ok (c\<lparr>c_connSendWindow := sw_consume (c_connSendWindow c) g\<rparr>)"
      using l that window_ok_wait(2) [of "c_connSendWindow c" g]
      by (auto simp: limits_iff conn_base_def base_ok_def) (simp_all add: sw_consume_def)
    then show ?thesis unfolding send_slice_def Let_def by (rule limits_cong [rotated]) simp
  qed
  show "limits_ok (destroy c e)" by (rule limits_destroy) (use l in \<open>simp add: limits_iff\<close>)
  have "conn_base (c\<lparr>c_closing := k\<rparr>)" for k using l by (simp add: limits_iff conn_base_def)
  then show "limits_ok (close_end c)" unfolding close_end_def by (rule limits_destroy)
qed (auto simp: limits_onBytes limits_new intro: limits_cong [rotated])

subsection \<open>Invariants by primitive updates\<close>

text \<open>A predicate that the primitive updates of a connection and the handling of DATA keep is kept by every operation.\<close>

locale primitive_step =
  fixes Q :: "h2conn \<Rightarrow> bool"
  assumes Q_prims [simp]: "Q c \<Longrightarrow> Q (send c f)" "Q c \<Longrightarrow> Q (upd_obj c a g)" "Q c \<Longrightarrow> Q (delete_stream c sid)"
      "Q c \<Longrightarrow> Q (wakeStreamSlots c)" "Q c \<Longrightarrow> Q (replenishConnectionWindow c n)" "Q c \<Longrightarrow> Q (close_begin c)"
      "Q c \<Longrightarrow> Q (upd_remote c r)" "Q c \<Longrightarrow> Q (destroy c e)"
    and Q_fields [simp]: "Q c \<Longrightarrow> Q (c\<lparr>c_slotWaiters := ws\<rparr>)" "Q c \<Longrightarrow> Q (c\<lparr>c_closing := k\<rparr>)" "Q c \<Longrightarrow> Q (c\<lparr>c_frameDecoder := fd\<rparr>)"
      "Q c \<Longrightarrow> Q (c\<lparr>c_highestPromised := k\<rparr>)" "Q c \<Longrightarrow> Q (c\<lparr>c_goawayReceived := x, c_draining := x\<rparr>)"
      "Q c \<Longrightarrow> Q (c\<lparr>c_pingCounter := k\<rparr>)" "Q c \<Longrightarrow> Q (c\<lparr>c_pingResults := pr\<rparr>)" "Q c \<Longrightarrow> Q (c\<lparr>c_pings := ps\<rparr>)"
      "Q c \<Longrightarrow> Q (c\<lparr>c_pings := ps, c_pingResults := pr\<rparr>)" "Q c \<Longrightarrow> Q (c\<lparr>c_objs := os, c_streams := ss, c_pushes := pu\<rparr>)"
      "Q c \<Longrightarrow> Q (c\<lparr>c_nextStreamId := k, c_objs := os, c_streams := ss\<rparr>)" "Q c \<Longrightarrow> Q (c\<lparr>c_connSendWindow := w\<rparr>)"
      "Q c \<Longrightarrow> Q (c\<lparr>c_pending := p\<rparr>)" "Q c \<Longrightarrow> Q (c\<lparr>c_pending := p, c_decoder := d\<rparr>)"
    and Q_data [simp]: "Q c \<Longrightarrow> Q (fst (handle_data c sid data fl en))"
begin

lemma Q_ops [simp]:
  assumes "Q c"
  shows "Q (replenishRecvWindow c sid n)" "Q (discard_obj c a)" "Q (retireIfFullyClosed c sid)" "Q (handlePush proto c pid hs)"
    "Q (mark_sent c a b)" "Q (reserve_stream c)" "Q (wait_stream c a k)" "Q (wait_conn c k)" "Q (ping now c)"
    "Q (handle_ping now c ack opaque)" "Q (send_slice c a g piece)" "Q (connectionError c e)" "Q (close_end c)"
  using assms
  by (simp_all add: replenishRecvWindow_def discard_obj_def retireIfFullyClosed_def handlePush_def mark_sent_def
      reserve_stream_def wait_stream_def wait_conn_def ping_def handle_ping_def send_slice_def
      connectionError_def close_end_def Let_def split: option.split)

lemma Q_reset [simp]: "Q c \<Longrightarrow> Q (resetStream c sid code)"
  by (simp add: resetStream_def Let_def split: option.split)

lemma Q_folds [simp]: "Q c \<Longrightarrow> Q (adjust_all c as n)"
  by (induction as arbitrary: c) (simp_all add: adjust_all_def)

lemma Q_exclude [simp]: "Q c \<Longrightarrow> Q (exclude_streams c ss lastId code)"
  by (induction c ss lastId code rule: exclude_streams.induct) simp_all

lemma Q_consumer [simp]:
  assumes "Q c"
  shows "Q (fst (pull_stream c a))" "Q (cancel_stream c a)" "Q (fail_and_reset c a e)" "Q (handle_rst_stream c sid k)"
    "Q (handle_goaway c lastId code)" "Q (deliver_block proto c pb hs)" "Q (fst (handle_window_update c sid n))"
  using assms
  by (simp_all add: pull_stream_def cancel_stream_def fail_and_reset_def handle_rst_stream_def handle_goaway_def
      deliver_block_def handle_window_update_def Let_def split: prod.split pull_outcome.split option.split block_kind.split)

lemma Q_settings [simp]: "Q c \<Longrightarrow> Q (fst (applyRemoteSettings c s))"
  by (simp add: applyRemoteSettings_def apply_initial_window_def apply_max_frame_def apply_other_settings_def
      Let_def split: option.split prod.split)

lemma Q_accept [simp]: "Q c \<Longrightarrow> Q (fst (accept_block proto c pb e))"
  by (simp add: accept_block_def completeHeaderBlock_def Let_def split: prod.split sum.split)

lemma Q_dispatch: "Q c \<Longrightarrow> Q (fst (dispatch proto now c f))"
proof -
  assume q: "Q c"
  have s: "Q (fst (case applyRemoteSettings c s of (c1, Some e) \<Rightarrow> (c1, Some e)
      | (c1, None) \<Rightarrow> (send c1 (SettingsF True empty_settings), None)))" for s
    using Q_settings [OF q, of s] by (auto split: prod.split option.split)
  show ?thesis
    using q s by (cases f) (simp_all add: dispatch_def split: option.split)
qed

lemma Q_dispatch_all: "Q c \<Longrightarrow> Q (dispatch_all proto now c fs)"
proof (induction fs arbitrary: c)
  case (Cons f fs)
  obtain c1 x where d: "dispatch proto now c f = (c1, x)" by fastforce
  then have "Q c1" using Q_dispatch [OF Cons.prems, of proto now f] by simp
  with Cons d show ?case by (auto split: option.split exn.split)
qed simp

lemma Q_onBytes: "Q c \<Longrightarrow> Q (onBytes proto now c chunk)"
  by (auto simp: onBytes_def Q_dispatch_all split: sum.split)

end

sublocale primitive_step \<subseteq> connection_step Q
  by unfold_locales (simp_all add: Q_onBytes)

subsection \<open>A closed connection is silent\<close>

definition silent :: "out_item list \<Rightarrow> h2conn \<Rightarrow> bool" where
  "silent out c \<longleftrightarrow> c_closedFlag c \<and> c_out c = out"

lemma silent_prims [simp]:
  "silent out c \<Longrightarrow> silent out (send c f)" "silent out c \<Longrightarrow> silent out (upd_obj c a g)"
  "silent out c \<Longrightarrow> silent out (delete_stream c sid)" "silent out c \<Longrightarrow> silent out (wakeStreamSlots c)"
  "silent out c \<Longrightarrow> silent out (replenishConnectionWindow c n)" "silent out c \<Longrightarrow> silent out (close_begin c)"
  "silent out c \<Longrightarrow> silent out (upd_remote c r)" "silent out c \<Longrightarrow> silent out (destroy c e)"
  by (simp_all add: silent_def send_def writeRaw_def upd_obj_def delete_stream_def wakeStreamSlots_def
      close_begin_def replenishConnectionWindow_def upd_remote_def destroy_def Let_def)

lemma silent_data: "silent out c \<Longrightarrow> silent out (fst (handle_data c sid data fl en))"
proof -
  have f: "silent out (c\<lparr>c_connRecvAvailable := n\<rparr>) = silent out c" for c n by (simp add: silent_def)
  have "silent out c \<Longrightarrow> silent out (replenishRecvWindow c sid n)" "silent out c \<Longrightarrow> silent out (retireIfFullyClosed c sid)"
    "silent out c \<Longrightarrow> silent out (resetStream c sid code)" for c sid n code
    by (simp_all add: replenishRecvWindow_def retireIfFullyClosed_def resetStream_def discard_obj_def Let_def split: option.split)
  then show "silent out c \<Longrightarrow> silent out (fst (handle_data c sid data fl en))" by (simp add: handle_data_def Let_def f split: option.split)
qed

interpretation quiet: primitive_step "silent out" for out
  by unfold_locales (simp_all add: silent_data, simp_all add: silent_def)

subsection \<open>Sending headers\<close>

fun fragment_of :: "frame \<Rightarrow> byte list" where
  "fragment_of (HeadersF sid frag es eh p) = frag"
| "fragment_of (ContinuationF sid frag eh) = frag"
| "fragment_of _ = []"

fun ends_headers :: "frame \<Rightarrow> bool" where
  "ends_headers (HeadersF sid frag es eh p) = eh"
| "ends_headers (ContinuationF sid frag eh) = eh"
| "ends_headers _ = False"

lemma continuation_frames_total:
  assumes "0 < m" and "offset < length block"
  shows "\<exists>fs last. continuation_frames sid block m offset = Some (fs @ [last]) \<and>
     concat (map fragment_of (fs @ [last])) = drop offset block \<and>
     list_all (\<lambda>f. length (fragment_of f) \<le> m \<and> is_continuation f) (fs @ [last]) \<and>
     \<not> list_ex ends_headers fs \<and> ends_headers last"
  using assms(2)
proof (induction "length block - offset" arbitrary: offset rule: less_induct)
  case less
  let ?next = "min (offset + m) (length block)"
  let ?f = "ContinuationF sid (take (?next - offset) (drop offset block)) (?next \<ge> length block)"
  have split: "drop offset block = take (?next - offset) (drop offset block) @ drop ?next block"
  proof -
    have "offset \<le> ?next" using less.prems by simp
    then have "drop ?next block = drop (?next - offset) (drop offset block)"
      by (metis drop_drop le_add_diff_inverse2)
    then show ?thesis by (metis append_take_drop_id)
  qed
  have len: "length (take (?next - offset) (drop offset block)) \<le> m" by simp
  show ?case
  proof (cases "?next < length block")
    case True
    with assms(1) have "length block - ?next < length block - offset" by auto
    from less.hyps [OF this True] obtain fs last where
      IH: "continuation_frames sid block m ?next = Some (fs @ [last])"
          "concat (map fragment_of (fs @ [last])) = drop ?next block"
          "list_all (\<lambda>f. length (fragment_of f) \<le> m \<and> is_continuation f) (fs @ [last])"
          "\<not> list_ex ends_headers fs" "ends_headers last" by auto
    have "continuation_frames sid block m offset = Some ((?f # fs) @ [last])"
      using less.prems IH(1) by (subst continuation_frames.simps) (simp add: Let_def)
    moreover have "concat (map fragment_of ((?f # fs) @ [last])) = drop offset block"
      using IH(2) split by simp
    moreover have "list_all (\<lambda>f. length (fragment_of f) \<le> m \<and> is_continuation f) ((?f # fs) @ [last])"
      using IH(3) len by simp
    moreover have "\<not> list_ex ends_headers (?f # fs)" using IH(4) True by simp
    ultimately show ?thesis using IH(5) by blast
  next
    case False
    then have "continuation_frames sid block m ?next = Some []" by (subst continuation_frames.simps) simp
    then have "continuation_frames sid block m offset = Some ([] @ [?f])"
      using less.prems by (subst continuation_frames.simps) (simp add: Let_def)
    moreover have "concat (map fragment_of ([] @ [?f])) = drop offset block" using split False by simp
    ultimately show ?thesis using len False
      by (intro exI [of _ "[]"] exI [of _ ?f]) simp
  qed
qed

lemma header_frames_total:
  assumes "0 < m"
  shows "\<exists>fs last. header_frames sid block m es = Some (fs @ [last]) \<and>
     concat (map fragment_of (fs @ [last])) = block \<and>
     list_all (\<lambda>f. length (fragment_of f) \<le> m) (fs @ [last]) \<and>
     (\<exists>frag eh. hd (fs @ [last]) = HeadersF sid frag es eh None) \<and>
     list_all is_continuation (tl (fs @ [last])) \<and> \<not> list_ex ends_headers fs \<and> ends_headers last"
proof (cases "length block \<le> m")
  case True
  then show ?thesis
    by (intro exI [of _ "[]"] exI [of _ "HeadersF sid block es True None"]) (auto simp: header_frames_def)
next
  case False
  then have "m < length block" by simp
  from continuation_frames_total [OF assms this, of sid] obtain fs last where
    c: "continuation_frames sid block m m = Some (fs @ [last])"
       "concat (map fragment_of (fs @ [last])) = drop m block"
       "list_all (\<lambda>f. length (fragment_of f) \<le> m \<and> is_continuation f) (fs @ [last])"
       "\<not> list_ex ends_headers fs" "ends_headers last" by blast
  let ?h = "HeadersF sid (take m block) es False None"
  show ?thesis
    using False c
    by (intro exI [of _ "?h # fs"] exI [of _ last]) (auto simp: header_frames_def list_all_iff)
qed

lemma sendHeaders_total: "0 < rs_maxFrameSize (c_remote c) \<Longrightarrow> \<exists>c'. sendHeaders pf c sid hs es = Some c'"
proof -
  assume "0 < rs_maxFrameSize (c_remote c)"
  then obtain fs where "header_frames sid (emits (concat (map (encode_header (pf_toLowerCase pf)) hs)))
      (rs_maxFrameSize (c_remote c)) es = Some fs"
    using header_frames_total by blast
  then show ?thesis by (simp add: sendHeaders_def hpack_encode_def written_emit)
qed

subsection \<open>Opening streams\<close>

lemma sendHeaders_streams:
  assumes "sendHeaders pf c sid hs es = Some c'"
  shows "c_streams c' = c_streams c" "c_objs c' = c_objs c" "core c' = core c" "\<exists>out. c' = c\<lparr>c_out := out\<rparr>"
proof -
  have "\<exists>out. foldl send c fs = c\<lparr>c_out := out\<rparr>" for fs
  proof (induction fs arbitrary: c)
    case Nil
    have "c = c\<lparr>c_out := c_out c\<rparr>" by simp
    then show ?case by (metis foldl_Nil)
  next
    case (Cons f fs)
    have "send c f = c\<lparr>c_out := if c_closedFlag c then c_out c else c_out c @ [OutFrame f]\<rparr>"
      by (simp add: send_def writeRaw_def)
    with Cons [of "send c f"] show ?case by auto
  qed
  with assms show out: "\<exists>out. c' = c\<lparr>c_out := out\<rparr>"
    by (auto simp: sendHeaders_def split: option.splits)
  then show "c_streams c' = c_streams c" "c_objs c' = c_objs c" "core c' = core c" by (auto simp: core_def)
qed

lemma filter_update:
  "length (filter (\<lambda>k. k mod 2 = 1) (map fst (AList.update sid a ss)))
   \<le> Suc (length (filter (\<lambda>k. k mod 2 = 1) (map fst ss)))" for sid :: nat
  by (induction ss) auto

lemma filter_delete:
  "length (filter (\<lambda>k. k mod 2 = 1) (map fst (AList.delete sid ss)))
   \<le> length (filter (\<lambda>k. k mod 2 = 1) (map fst ss))" for sid :: nat
  by (induction ss) auto

lemma active_reserve: "activeStreams (reserve_stream c) \<le> Suc (activeStreams c)"
  using filter_update by (simp add: activeStreams_def reserve_stream_def Let_def)

lemma active_cong: "c_streams c' = c_streams c \<Longrightarrow> activeStreams c' = activeStreams c"
  by (simp add: activeStreams_def)

lemma request_check_aborted: "request_check c rq = None \<Longrightarrow> rq_aborted rq = None"
  by (simp add: request_check_def split: option.splits)

lemma open_stream_active:
  assumes "open_stream pf y r rq = Some y'" and "rq_aborted rq = None"
  shows "activeStreams (y_conn y') \<le> Suc (activeStreams (y_conn y))"
proof -
  obtain c2 where c2: "sendHeaders pf (reserve_stream (y_conn y)) (c_nextStreamId (y_conn y))
      (buildRequestHeaders pf (rq_init rq)) (bodyIsEmpty (ri_body (rq_init rq))) = Some c2"
      "c_streams (y_conn y') = c_streams c2"
    using assms by (auto simp: open_stream_def Let_def set_request_def mark_sent_def split: option.splits)
  with sendHeaders_streams(1) [OF c2(1)] active_reserve [of "y_conn y"]
  show "activeStreams (y_conn y') \<le> Suc (activeStreams (y_conn y))" by (simp add: activeStreams_def)
qed

lemma request_resume_active:
  assumes "request_resume pf y r ok = Some y'" and "rs_maxConcurrentStreams (c_remote (y_conn y)) = Some m"
  shows "activeStreams (y_conn y') \<le> max m (activeStreams (y_conn y))"
proof (cases "request_check (y_conn y) (y_requests y ! r) = None \<and> ok \<and> canOpenStream (y_conn y)")
  case True
  then have o: "open_stream pf y r (y_requests y ! r) = Some y'"
    using assms(1) by (simp add: request_resume_def request_loop_def Let_def)
  have "activeStreams (y_conn y) < m" using True assms(2) by (simp add: canOpenStream_def)
  moreover have "rq_aborted (y_requests y ! r) = None" using True request_check_aborted by blast
  ultimately show ?thesis using open_stream_active [OF o] by simp
next
  case False
  have "c_streams (y_conn y') = c_streams (y_conn y)"
  proof (cases "request_check (y_conn y) (y_requests y ! r)")
    case None
    with False assms(1) show ?thesis
      by (cases ok) (auto simp: request_resume_def request_loop_def set_request_def Let_def)
  next
    case (Some e)
    with assms(1) show ?thesis by (auto simp: request_resume_def set_request_def Let_def)
  qed
  from active_cong [OF this] show ?thesis by simp
qed

lemma request_resume_threw:
  assumes "request_resume pf y r ok = Some y'" and "r < length (y_requests y)"
    and "rq_phase (y_requests y' ! r) = Threw e"
  shows "y_conn y' = y_conn y"
  using assms
  by (auto simp: request_resume_def request_loop_def open_stream_def set_request_def Let_def
      request_check_def split: option.splits if_splits)

subsection \<open>GOAWAY and teardown\<close>

lemma exclude_streams_map:
  "c_streams (exclude_streams c ss lastId code) =
     filter (\<lambda>x. \<not> (fst x \<in> fst ` set ss \<and> fst x > lastId)) (c_streams c)"
proof (induction c ss lastId code rule: exclude_streams.induct)
  case (2 c sid a ss lastId code)
  have "c_streams (if sid > lastId then delete_stream (upd_obj c a (\<lambda>s. fail s (goaway_error code sid))) sid else c)
      = filter (\<lambda>x. \<not> (fst x = sid \<and> sid > lastId)) (c_streams c)"
    by (auto simp: delete_stream_def AList.delete_eq case_prod_beta intro!: filter_cong)
  with "2.IH" show ?case by (auto intro!: filter_cong)
qed simp

lemma exclude_streams_obj:
  assumes "distinct (map snd ss)" and "\<forall>x \<in> set ss. snd x < length (c_objs c)"
  shows "((sid, a) \<in> set ss \<longrightarrow> obj (exclude_streams c ss lastId code) a =
       (if sid > lastId then fail (obj c a) (goaway_error code sid) else obj c a)) \<and>
     (a \<notin> snd ` set ss \<longrightarrow> obj (exclude_streams c ss lastId code) a = obj c a)"
  using assms
proof (induction c ss lastId code rule: exclude_streams.induct)
  case (2 c k b ss lastId code)
  let ?c = "if k > lastId then delete_stream (upd_obj c b (\<lambda>s. fail s (goaway_error code k))) k else c"
  have pre: "distinct (map snd ss)" "\<forall>x \<in> set ss. snd x < length (c_objs ?c)" using "2.prems" by auto
  have b: "b < length (c_objs c)" "b \<notin> snd ` set ss" using "2.prems" by auto
  have other: "obj ?c x = obj c x" if "x \<noteq> b" for x using that by simp
  have self: "obj ?c b = (if k > lastId then fail (obj c b) (goaway_error code k) else obj c b)"
    using b(1) by simp
  have step: "exclude_streams c ((k, b) # ss) lastId code = exclude_streams ?c ss lastId code" by simp
  note IH = "2.IH" [OF pre]
  show ?case
  proof (cases "a = b")
    case True
    with b(2) have "(sid, b) \<notin> set ss" by force
    with True IH b(2) self show ?thesis unfolding step by auto
  next
    case False
    with IH other [OF False] show ?thesis unfolding step by auto
  qed
qed simp

lemma map_addresses:
  assumes "flow_inv c"
  shows "distinct (map snd (c_streams c))" "\<forall>x \<in> set (c_streams c). snd x < length (c_objs c)"
proof -
  have id: "st_id (obj c b) = k" if "(k, b) \<in> set (c_streams c)" for k b
    using assms that by (auto simp: invx_def INV_def obj_def)
  have "distinct (c_streams c)" using assms by (auto simp: invx_def INV_def distinct_map)
  moreover have "inj_on snd (set (c_streams c))"
    by (rule inj_onI) (metis id prod.collapse)
  ultimately show "distinct (map snd (c_streams c))" by (simp add: distinct_map)
  show "\<forall>x \<in> set (c_streams c). snd x < length (c_objs c)" using assms by (auto simp: invx_def INV_def)
qed

lemma goaway_graceful:
  assumes "flow_inv c"
  shows "c_streams (handle_goaway c lastId 0) = filter (\<lambda>x. fst x \<le> lastId) (c_streams c)"
    and "(sid, a) \<in> set (c_streams c) \<Longrightarrow> obj (handle_goaway c lastId 0) a =
      (if sid \<le> lastId then obj c a else fail (obj c a) (goaway_error NO_ERROR sid))"
    and "c_goawayReceived (handle_goaway c lastId 0)" and "c_slotWaiters (handle_goaway c lastId 0) = []"
proof -
  let ?c1 = "c\<lparr>c_goawayReceived := True, c_draining := True\<rparr>"
  let ?c2 = "exclude_streams ?c1 (c_streams c) lastId NO_ERROR"
  have e0: "errorCodeName 0 = Some NO_ERROR" by (simp add: errorCodeName_def ERROR_CODES_def)
  have h: "handle_goaway c lastId 0 = wakeStreamSlots ?c2"
    by (simp add: handle_goaway_def Let_def e0 or_default_def)
  have o1: "obj ?c1 = obj c" by (simp add: obj_def fun_eq_iff)
  show "c_streams (handle_goaway c lastId 0) = filter (\<lambda>x. fst x \<le> lastId) (c_streams c)"
    unfolding h by (auto simp: exclude_streams_map intro!: filter_cong)
  show "(sid, a) \<in> set (c_streams c) \<Longrightarrow> obj (handle_goaway c lastId 0) a =
      (if sid \<le> lastId then obj c a else fail (obj c a) (goaway_error NO_ERROR sid))"
    unfolding h using exclude_streams_obj [of "c_streams c" ?c1 sid a lastId NO_ERROR] map_addresses [OF assms] o1
    by simp
  have "c_goawayReceived (exclude_streams d ss lastId x) = c_goawayReceived d" for d ss x
    by (induction d ss lastId x rule: exclude_streams.induct) (simp_all add: delete_stream_def upd_obj_def)
  then show "c_goawayReceived (handle_goaway c lastId 0)" "c_slotWaiters (handle_goaway c lastId 0) = []"
    unfolding h by (simp_all add: wakeStreamSlots_def close_begin_def Let_def)
qed

lemma fail_all_obj:
  "a \<notin> set as \<Longrightarrow> obj (fail_all c as e) a = obj c a"
  "distinct as \<Longrightarrow> \<forall>b \<in> set as. b < length (c_objs c) \<Longrightarrow> a \<in> set as \<Longrightarrow>
   obj (fail_all c as e) a = fail (obj c a) e"
proof -
  show n: "a \<notin> set as \<Longrightarrow> obj (fail_all c as e) a = obj c a" for c as
    by (induction as arbitrary: c) (simp_all add: fail_all_def)
  show "distinct as \<Longrightarrow> \<forall>b \<in> set as. b < length (c_objs c) \<Longrightarrow> a \<in> set as \<Longrightarrow>
   obj (fail_all c as e) a = fail (obj c a) e"
  proof (induction as arbitrary: c)
    case (Cons b as)
    have step: "fail_all c (b # as) e = fail_all (upd_obj c b (\<lambda>s. fail s e)) as e" by (simp add: fail_all_def)
    show ?case
    proof (cases "a = b")
      case True
      with Cons.prems n [of as "upd_obj c b (\<lambda>s. fail s e)"] show ?thesis by (simp add: step)
    next
      case False
      with Cons.prems Cons.IH [of "upd_obj c b (\<lambda>s. fail s e)"] show ?thesis by (simp add: step)
    qed
  qed simp
qed

lemma destroy_spec:
  assumes "flow_inv c" and "\<not> c_closedFlag c"
  shows "(sid, a) \<in> set (c_streams c) \<Longrightarrow> obj (destroy c e) a = fail (obj c a) e"
    and "c_streams (destroy c e) = []" and "c_slotWaiters (destroy c e) = []" and "c_pings (destroy c e) = []"
    and "c_pingResults (destroy c e) = c_pingResults c @ map (\<lambda>(k, n, t). (n, Inl e)) (c_pings c)"
    and "c_out (destroy c e) = c_out c @ [OutClose]"
proof -
  define c1 where "c1 = c\<lparr>c_closedFlag := True, c_closeError := Some e,
      c_connSendWindow := fst (sw_close (c_connSendWindow c))\<rparr>"
  define c2 where "c2 = (fail_all c1 (map snd (c_streams c1)) e)\<lparr>c_streams := []\<rparr>"
  have d: "destroy c e = (wakeStreamSlots c2)\<lparr>
      c_pingResults := c_pingResults (wakeStreamSlots c2) @ map (\<lambda>(k, n, t). (n, Inl e)) (c_pings (wakeStreamSlots c2)),
      c_pings := [], c_out := c_out (wakeStreamSlots c2) @ [OutClose]\<rparr>"
    using assms(2) by (simp add: destroy_def Let_def c1_def c2_def)
  have f: "c_pings (fail_all c' as e) = c_pings c' \<and> c_pingResults (fail_all c' as e) = c_pingResults c' \<and>
      c_out (fail_all c' as e) = c_out c' \<and> c_closedFlag (fail_all c' as e) = c_closedFlag c'" for c' as
    by (induction as arbitrary: c') (simp_all add: fail_all_def upd_obj_def)
  have w: "wakeStreamSlots c2 = c2\<lparr>c_slotWaiters := []\<rparr>"
    using f [of c1] by (simp add: wakeStreamSlots_def c2_def c1_def)
  show "obj (destroy c e) a = fail (obj c a) e" if "(sid, a) \<in> set (c_streams c)"
  proof -
    have "obj (destroy c e) a = obj (fail_all c1 (map snd (c_streams c1)) e) a"
      by (simp add: d w c2_def obj_def)
    also have "\<dots> = fail (obj c1 a) e"
    proof (rule fail_all_obj(2))
      show "distinct (map snd (c_streams c1))" using map_addresses(1) [OF assms(1)] by (simp add: c1_def)
      show "\<forall>b \<in> set (map snd (c_streams c1)). b < length (c_objs c1)"
        using map_addresses(2) [OF assms(1)] by (auto simp: c1_def)
      show "a \<in> set (map snd (c_streams c1))" using that by (force simp: c1_def)
    qed
    finally show ?thesis by (simp add: c1_def obj_def)
  qed
  show "c_streams (destroy c e) = []" "c_slotWaiters (destroy c e) = []" "c_pings (destroy c e) = []"
    "c_pingResults (destroy c e) = c_pingResults c @ map (\<lambda>(k, n, t). (n, Inl e)) (c_pings c)"
    "c_out (destroy c e) = c_out c @ [OutClose]"
    unfolding d w using f [of c1 "map snd (c_streams c1)"] by (simp_all add: c2_def) (simp_all add: c1_def)
qed

subsection \<open>A response that ends without a head\<close>

lemma end_without_head:
  assumes "flow_inv c" and "get_stream c sid = Some a" and "st_localClosed (obj c a)"
    and "\<not> st_remoteClosed (obj c a)" and "0 \<le> st_recvWindow (obj c a)" and "0 \<le> c_connRecvAvailable c"
  shows "get_stream (fst (handle_data c sid [] (Some 0) True)) sid = None"
    and "st_head (obj (fst (handle_data c sid [] (Some 0) True)) a) = st_head (obj c a)"
    and "st_id (obj (fst (handle_data c sid [] (Some 0) True)) a) = sid"
proof -
  let ?c1 = "c\<lparr>c_connRecvAvailable := c_connRecvAvailable c - 0\<rparr>"
  have c1: "?c1 = c" by simp
  note g = get_stream_Some [OF assms(1,2)]
  have h: "handle_data c sid [] (Some 0) True =
      (retireIfFullyClosed (upd_obj c a (\<lambda>s. (receiveData (s\<lparr>st_recvWindow := st_recvWindow s\<rparr>) [] True)
         \<lparr>st_remoteClosed := True\<rparr>)) sid, None)"
    using assms(2-6) by (simp add: handle_data_def or_default_def Let_def upd_obj_twice)
  show "get_stream (fst (handle_data c sid [] (Some 0) True)) sid = None"
    "st_head (obj (fst (handle_data c sid [] (Some 0) True)) a) = st_head (obj c a)"
    "st_id (obj (fst (handle_data c sid [] (Some 0) True)) a) = sid"
    unfolding h using assms(2,3) g(2,3)
    by (simp_all add: retireIfFullyClosed_def receiveData_fields receiveData_def wakeRecv_def)
qed

subsection \<open>An example: one bodyless request in flight\<close>

definition example_request :: request where
  "example_request =
     \<lparr>rq_init = \<lparr>ri_method = None, ri_path = None, ri_authority = None, ri_scheme = None,
                 ri_headers = NoHeaders, ri_body = NoBody, ri_signal = False\<rparr>,
      rq_phase = AwaitReady, rq_aborted = None\<rparr>"

definition example_state :: h2sys where
  "example_state =
     the (request_resume ascii_platform \<lparr>y_conn = fresh_conn, y_requests = [example_request], y_pumps = []\<rparr> 0 True)"

lemma example_state_facts:
  "reachable ascii_platform default_options example_state"
  "c_streams (y_conn example_state) = [(1, 0)]" "c_closedFlag (y_conn example_state) = False"
  "c_objs (y_conn example_state) =
     [(new_H2Stream 1 65535 Open (1024 * 1024))\<lparr>st_state := HalfClosedLocal, st_localClosed := True\<rparr>]"
  "c_pending (y_conn example_state) = None" "c_frameDecoder (y_conn example_state) = new_FrameDecoder 16384"
  "y_pumps example_state = []"
proof -
  let ?y = "\<lparr>y_conn = fresh_conn, y_requests = [example_request], y_pumps = []\<rparr>"
  have start: "fire ascii_platform \<lparr>y_conn = fresh_conn, y_requests = [], y_pumps = []\<rparr>
      (RequestStart (rq_init example_request) None) = Some ?y"
    by (simp add: request_start_def request_check_def example_request_def fresh_conn_fields)
  let ?c1 = "reserve_stream fresh_conn"
  have c1: "c_streams ?c1 = [(1, 0)]" "\<not> c_closedFlag ?c1"
    "c_objs ?c1 = [new_H2Stream 1 65535 Open (1024 * 1024)]" "0 < rs_maxFrameSize (c_remote ?c1)"
    by (simp_all add: reserve_stream_def Let_def fresh_conn_fields)
  from sendHeaders_total [OF c1(4)] obtain c2 where
    c2: "sendHeaders ascii_platform ?c1 1 (buildRequestHeaders ascii_platform (rq_init example_request)) True = Some c2"
    by blast
  note s = sendHeaders_streams [OF c2]
  have cl: "c_closedFlag c2 = c_closedFlag ?c1" using s(3) by (simp add: core_def)
  obtain rqs where res: "request_resume ascii_platform ?y 0 True =
      Some \<lparr>y_conn = mark_sent c2 0 False, y_requests = rqs, y_pumps = []\<rparr>"
    using c2
    by (simp add: request_resume_def request_loop_def request_check_def canOpenStream_def open_stream_def
        set_request_def example_request_def fresh_conn_fields)
  then have ex: "example_state = \<lparr>y_conn = mark_sent c2 0 False, y_requests = rqs, y_pumps = []\<rparr>"
    by (simp add: example_state_def)
  have "fire ascii_platform ?y (RequestReady 0 True) = Some example_state"
    using res by (simp add: ex) (simp add: example_request_def)
  with reachable.step [OF reachable.step [OF fresh_reachable start]]
  show "reachable ascii_platform default_options example_state" by blast
  show "c_streams (y_conn example_state) = [(1, 0)]" "c_closedFlag (y_conn example_state) = False"
    using c1 s cl by (simp_all add: ex mark_sent_def)
  show "c_objs (y_conn example_state) =
     [(new_H2Stream 1 65535 Open (1024 * 1024))\<lparr>st_state := HalfClosedLocal, st_localClosed := True\<rparr>]"
    using c1(3) s(2) by (simp add: ex mark_sent_def upd_obj_def obj_def)
  show "c_pending (y_conn example_state) = None" "c_frameDecoder (y_conn example_state) = new_FrameDecoder 16384"
    "y_pumps example_state = []"
    using s(4) by (auto simp: ex mark_sent_def upd_obj_def reserve_stream_def Let_def fresh_conn_fields)
qed

text \<open>A connection whose peer allows one stream, with a request in flight, a second one parked and a ping under way.\<close>

definition one_stream :: settings where
  "one_stream = empty_settings\<lparr>s_maxConcurrentStreams := Some 1\<rparr>"

definition limited_conn :: h2conn where
  "limited_conn = onBytes (\<lambda>_. None) 0 fresh_conn (wire_bytes [SettingsF False one_stream])"

lemma limited_conn_eq:
  "limited_conn = send (fresh_conn\<lparr>c_frameDecoder := new_FrameDecoder 16384,
     c_remote := (c_remote fresh_conn)\<lparr>rs_maxConcurrentStreams := Some 1\<rparr>, c_slotWaiters := []\<rparr>)
     (SettingsF True empty_settings)" "wire_bytes [SettingsF False one_stream] \<noteq> []"
proof -
  let ?b = "wire_bytes [SettingsF False one_stream]"
  have p: "push (new_FrameDecoder 16384) ?b = Inr ([SettingsF False one_stream], new_FrameDecoder 16384)"
    using drain_serialized [of 16384 "[SettingsF False one_stream]"]
    by (simp add: push_drain new_FrameDecoder_def frame_ok_def one_stream_def empty_settings_def settings_ok_def settings_ops_def
        setting_ok_def setting_ops_def)
  then show "?b \<noteq> []" by (auto simp: push_drain new_FrameDecoder_def codec.drain_unfold frame_at_def FRAME_HEADER_SIZE_def)
  show "limited_conn = send (fresh_conn\<lparr>c_frameDecoder := new_FrameDecoder 16384,
     c_remote := (c_remote fresh_conn)\<lparr>rs_maxConcurrentStreams := Some 1\<rparr>, c_slotWaiters := []\<rparr>)
     (SettingsF True empty_settings)"
    using p by (simp add: limited_conn_def onBytes_def fresh_conn_fields dispatch_def applyRemoteSettings_def one_stream_def
        empty_settings_def apply_initial_window_def apply_max_frame_def apply_other_settings_def upd_remote_def wakeStreamSlots_def Let_def)
qed

lemma busy_example:
  "\<exists>y. reachable ascii_platform default_options y \<and> \<not> c_closedFlag (y_conn y) \<and> c_streams (y_conn y) = [(1, 0)] \<and>
     c_slotWaiters (y_conn y) = [1] \<and> map (fst \<circ> snd) (c_pings (y_conn y)) = [1] \<and> c_pingResults (y_conn y) = []"
proof -
  let ?y = "\<lambda>c rqs. \<lparr>y_conn = c, y_requests = rqs, y_pumps = []\<rparr>"
  let ?init = "rq_init example_request" and ?rq1 = "example_request\<lparr>rq_phase := Opened 0\<rparr>"
  let ?c1 = "reserve_stream limited_conn"
  note lim = limited_conn_eq(1) fresh_conn_fields
  have "0 < rs_maxFrameSize (c_remote ?c1)" by (simp add: reserve_stream_def Let_def lim send_def writeRaw_def)
  from sendHeaders_total [OF this] obtain c2 where
    c2: "sendHeaders ascii_platform ?c1 1 (buildRequestHeaders ascii_platform ?init) True = Some c2" by blast
  from sendHeaders_streams(4) [OF c2] obtain out where out: "c2 = ?c1\<lparr>c_out := out\<rparr>" by blast
  define c3 where "c3 = mark_sent c2 0 False"
  have c3: "c_streams c3 = [(1, 0)]" "\<not> c_closedFlag c3" "\<not> c_goawayReceived c3" "c_slotWaiters c3 = []" "c_pings c3 = []"
    "c_pingCounter c3 = 0" "c_pingResults c3 = []" "rs_maxConcurrentStreams (c_remote c3) = Some 1"
    by (simp_all add: c3_def out mark_sent_def upd_obj_def reserve_stream_def Let_def lim send_def writeRaw_def)
  let ?c4 = "c3\<lparr>c_slotWaiters := [1]\<rparr>"
  let ?y4 = "?y ?c4 [?rq1, example_request\<lparr>rq_phase := AwaitSlot\<rparr>]"
  have "fire ascii_platform (?y fresh_conn []) (Bytes 0 (wire_bytes [SettingsF False one_stream])) = Some (?y limited_conn [])"
    using limited_conn_eq(2) by (simp add: with_conn_def limited_conn_def ascii_platform_def)
  moreover have "fire ascii_platform (?y limited_conn []) (RequestStart ?init None) = Some (?y limited_conn [example_request])"
    by (simp add: request_start_def request_check_def example_request_def lim send_def writeRaw_def)
  moreover have "fire ascii_platform (?y limited_conn [example_request]) (RequestReady 0 True) = Some (?y c3 [?rq1])"
    using c2 by (simp add: request_resume_def request_loop_def request_check_def canOpenStream_def activeStreams_def open_stream_def
        set_request_def example_request_def c3_def lim send_def writeRaw_def)
  moreover have "fire ascii_platform (?y c3 [?rq1]) (RequestStart ?init None) = Some (?y c3 [?rq1, example_request])"
    by (simp add: request_start_def request_check_def example_request_def c3)
  moreover have "fire ascii_platform (?y c3 [?rq1, example_request]) (RequestReady 1 True) = Some ?y4"
    by (simp add: request_resume_def request_loop_def request_check_def canOpenStream_def activeStreams_def set_request_def
        example_request_def c3)
  moreover have "fire ascii_platform ?y4 (Ping 5) = Some (?y4\<lparr>y_conn := ping 5 ?c4\<rparr>)" by (simp add: with_conn_def)
  ultimately have "reachable ascii_platform default_options (?y4\<lparr>y_conn := ping 5 ?c4\<rparr>)"
    using fresh_reachable by (meson reachable.step)
  moreover have "\<not> c_closedFlag (ping 5 ?c4) \<and> c_streams (ping 5 ?c4) = [(1, 0)] \<and> c_slotWaiters (ping 5 ?c4) = [1] \<and>
      map (fst \<circ> snd) (c_pings (ping 5 ?c4)) = [1] \<and> c_pingResults (ping 5 ?c4) = []"
    by (simp add: ping_def Let_def c3 send_def writeRaw_def)
  ultimately show ?thesis by (intro exI [of _ "?y4\<lparr>y_conn := ping 5 ?c4\<rparr>"]) simp
qed

subsection \<open>Properties\<close>

text \<open>C23: Resource bounds hold in every reachable state: while the connection is open, an unfinished header block
  never holds more than 1 MiB and its counter is exact (a closed connection may still hold the block that
  exceeded the limit and caused the close); and, open or closed, the HPACK table is within the limits announced to the peer, the
  peer's maximum frame size is in the legal range, the connection send window is never overdrawn,
  and an upload is parked on it only while it is open and has no credit.\<close>

theorem connection_bounds:
  assumes "reachable pf opts y"
  shows "(c_closedFlag (y_conn y) \<or> block_ok (c_pending (y_conn y))) \<and> table_ok (c_decoder (y_conn y)) \<and>
     16384 \<le> rs_maxFrameSize (c_remote (y_conn y)) \<and> rs_maxFrameSize (c_remote (y_conn y)) \<le> 16777215 \<and>
     0 \<le> sw_available (c_connSendWindow (y_conn y)) \<and>
     (sw_waiters (c_connSendWindow (y_conn y)) = [] \<or>
      sw_available (c_connSendWindow (y_conn y)) = 0 \<and> \<not> sw_closed (c_connSendWindow (y_conn y)))"
  using limits.P_reachable [OF assms] by (auto simp: limits_iff conn_base_def base_ok_def window_ok_def)

theorem connection_bounds_witness:
  "let c = fresh_conn in
   (c_closedFlag c \<or> block_ok (c_pending c)) \<and> table_ok (c_decoder c) \<and>
     16384 \<le> rs_maxFrameSize (c_remote c) \<and> rs_maxFrameSize (c_remote c) \<le> 16777215 \<and>
     0 \<le> sw_available (c_connSendWindow c) \<and>
     (sw_waiters (c_connSendWindow c) = [] \<or>
      sw_available (c_connSendWindow c) = 0 \<and> \<not> sw_closed (c_connSendWindow c))"
  using connection_bounds [OF fresh_reachable] by (simp add: Let_def)

text \<open>C21: A closed connection is silent: once it is closed, no event (late frames, reads, cancellations,
  pumps, pings, aborts) writes another frame, and it stays closed.\<close>

theorem closed_is_silent:
  assumes "c_closedFlag (y_conn y)" and "fire pf y ev = Some y'"
  shows "c_closedFlag (y_conn y') \<and> c_out (y_conn y') = c_out (y_conn y)"
  using quiet.P_fire [of "c_out (y_conn y)" y pf ev y'] assms by (simp add: silent_def)

theorem closed_is_silent_witness:
  "let y = \<lparr>y_conn = destroy fresh_conn RangeErr, y_requests = [], y_pumps = []\<rparr>;
       y' = \<lparr>y_conn = ping 7 (destroy fresh_conn RangeErr), y_requests = [], y_pumps = []\<rparr>
   in c_closedFlag (y_conn y') \<and> c_out (y_conn y') = c_out (y_conn y)"
  unfolding Let_def
  by (rule closed_is_silent [where ev = "Ping 7" and pf = ascii_platform]) (simp_all add: destroy_closed with_conn_def)

text \<open>The peer's limit on concurrent streams is respected: a request that resumes (after setup or after
  being woken) never raises the number of active streams above the limit in force; wake-ups cannot
  over-allocate, because the check and the reservation run without interruption.\<close>

theorem admission_respects_limit:
  assumes "request_resume pf y r ok = Some y'" and "rs_maxConcurrentStreams (c_remote (y_conn y)) = Some m"
  shows "activeStreams (y_conn y') \<le> max m (activeStreams (y_conn y))"
  using assms by (rule request_resume_active)

theorem admission_respects_limit_witness:
  "let c = upd_remote fresh_conn (\<lambda>r. r\<lparr>rs_maxConcurrentStreams := Some 0\<rparr>);
       rq = \<lparr>rq_init = \<lparr>ri_method = None, ri_path = None, ri_authority = None, ri_scheme = None,
                         ri_headers = NoHeaders, ri_body = NoBody, ri_signal = False\<rparr>,
             rq_phase = AwaitReady, rq_aborted = None\<rparr>;
       y = \<lparr>y_conn = c, y_requests = [rq], y_pumps = []\<rparr>
   in activeStreams (y_conn (the (request_resume ascii_platform y 0 True))) \<le> max 0 (activeStreams (y_conn y))"
  unfolding Let_def
  by (rule admission_respects_limit [where pf = ascii_platform and r = 0 and ok = True])
     (simp_all add: upd_remote_def request_resume_def request_loop_def request_check_def canOpenStream_def
        fresh_conn_fields)

text \<open>The evidence \<^verbatim>\<open>unsent\<close> is sound: a request that throws before its stream exists has not touched
  the connection at all, so no frame of it was sent and no stream id was used.\<close>

theorem thrown_request_unsent:
  assumes "request_resume pf y r ok = Some y'" and "r < length (y_requests y)"
    and "rq_phase (y_requests y' ! r) = Threw e"
  shows "y_conn y' = y_conn y"
  using assms by (rule request_resume_threw)

theorem thrown_request_unsent_witness:
  "let c = fresh_conn\<lparr>c_goawayReceived := True\<rparr>;
       rq = \<lparr>rq_init = \<lparr>ri_method = None, ri_path = None, ri_authority = None, ri_scheme = None,
                         ri_headers = NoHeaders, ri_body = NoBody, ri_signal = False\<rparr>,
             rq_phase = AwaitReady, rq_aborted = None\<rparr>;
       y = \<lparr>y_conn = c, y_requests = [rq], y_pumps = []\<rparr>
   in y_conn (the (request_resume ascii_platform y 0 True)) = y_conn y"
  unfolding Let_def
  by (rule thrown_request_unsent [where pf = ascii_platform and r = 0 and ok = True
        and e = "H2Exn ((new_H2Error REFUSED_STREAM None)\<lparr>err_retry := Some Unsent\<rparr>)"])
     (simp_all add: request_resume_def request_check_def set_request_def)

text \<open>A header block of any size is sent completely: for a positive frame size the splitting loop
  ends, the fragments concatenate to the block, none exceeds the frame size, a HEADERS frame comes
  first and only CONTINUATION frames follow, and END_HEADERS is on the last one only.\<close>

theorem header_block_split:
  assumes "0 < m"
  shows "\<exists>fs last. header_frames sid block m es = Some (fs @ [last]) \<and>
     concat (map fragment_of (fs @ [last])) = block \<and>
     list_all (\<lambda>f. length (fragment_of f) \<le> m) (fs @ [last]) \<and>
     (\<exists>frag eh. hd (fs @ [last]) = HeadersF sid frag es eh None) \<and>
     list_all is_continuation (tl (fs @ [last])) \<and> \<not> list_ex ends_headers fs \<and> ends_headers last"
  using assms by (rule header_frames_total)

theorem header_block_split_witness:
  "\<exists>fs last. header_frames 1 [1, 2, 3, 4, 5] 2 True = Some (fs @ [last]) \<and>
     concat (map fragment_of (fs @ [last])) = [1, 2, 3, 4, 5] \<and>
     list_all (\<lambda>f. length (fragment_of f) \<le> 2) (fs @ [last]) \<and>
     (\<exists>frag eh. hd (fs @ [last]) = HeadersF 1 frag True eh None) \<and>
     list_all is_continuation (tl (fs @ [last])) \<and> \<not> list_ex ends_headers fs \<and> ends_headers last"
  by (rule header_block_split) simp

text \<open>A graceful GOAWAY drains precisely: streams up to the peer's last id stay in the map untouched,
  every later stream is removed and failed with the evidence \<^verbatim>\<open>refused\<close>, and all parked requests
  are woken (to throw).\<close>

theorem goaway_drains:
  assumes "reachable pf opts y"
  shows "(let c = y_conn y; c' = handle_goaway c lastId 0 in
      c_streams c' = filter (\<lambda>x. fst x \<le> lastId) (c_streams c) \<and>
      ((sid, a) \<in> set (c_streams c) \<longrightarrow> obj c' a =
        (if sid \<le> lastId then obj c a else fail (obj c a) (goaway_error NO_ERROR sid))) \<and>
      c_goawayReceived c' \<and> c_slotWaiters c' = [])"
  using goaway_graceful [OF reachable_flow [OF assms]] by (simp add: Let_def)

theorem goaway_drains_witness:
  "let c = fresh_conn; c' = handle_goaway c 3 0 in
      c_streams c' = filter (\<lambda>x. fst x \<le> 3) (c_streams c) \<and>
      ((1, 0) \<in> set (c_streams c) \<longrightarrow> obj c' 0 =
        (if 1 \<le> (3 :: nat) then obj c 0 else fail (obj c 0) (goaway_error NO_ERROR 1))) \<and>
      c_goawayReceived c' \<and> c_slotWaiters c' = []"
  using goaway_drains [OF fresh_reachable, of 3 1 0] by simp

text \<open>C29: Teardown leaves nothing of the connection's tables waiting: destroying an open connection fails every
  stream that is still in the map with the cause, so that its head is settled, empties the map,
  wakes all parked requests, rejects every pending ping with the cause, and closes the writer after
  what was queued. (A stream that left the map before its head came is not reached: see
  \<^verbatim>\<open>H2_Hang\<close>.)\<close>

theorem destroy_settles_everything:
  assumes "reachable pf opts y" and "\<not> c_closedFlag (y_conn y)"
  shows "(let c = y_conn y; c' = destroy c e in
      (\<forall>(sid, a) \<in> set (c_streams c). obj c' a = fail (obj c a) e \<and> st_head (obj c' a) \<noteq> Pending) \<and>
      c_streams c' = [] \<and> c_slotWaiters c' = [] \<and> c_pings c' = [] \<and>
      c_pingResults c' = c_pingResults c @ map (\<lambda>(k, n, t). (n, Inl e)) (c_pings c) \<and>
      c_out c' = c_out c @ [OutClose])"
proof -
  note i = reachable_flow [OF assms(1)]
  have "st_head (fail (obj (y_conn y) a) e) \<noteq> Pending" if "(sid, a) \<in> set (c_streams (y_conn y))" for sid a
  proof -
    have "stream_ok (obj (y_conn y) a)" using i that by (auto simp: invx_def INV_def obj_def list_all_iff)
    then show ?thesis by (auto simp: fail_def stream_ok_def settle_head_def wakeRecv_def Let_def)
  qed
  with destroy_spec [OF i assms(2)] show ?thesis by (auto simp: Let_def)
qed

theorem destroy_settles_everything_witness:
  "\<exists>y. reachable ascii_platform default_options y \<and>
     c_streams (y_conn y) = [(1, 0)] \<and> c_slotWaiters (y_conn y) = [1] \<and> map (fst \<circ> snd) (c_pings (y_conn y)) = [1] \<and>
     st_head (obj (destroy (y_conn y) RangeErr) 0) \<noteq> Pending \<and> c_slotWaiters (destroy (y_conn y) RangeErr) = [] \<and>
     c_pingResults (destroy (y_conn y) RangeErr) = [(1, Inl RangeErr)]"
proof -
  from busy_example obtain y where y: "reachable ascii_platform default_options y" "\<not> c_closedFlag (y_conn y)"
    "c_streams (y_conn y) = [(1, 0)]" "c_slotWaiters (y_conn y) = [1]" "map (fst \<circ> snd) (c_pings (y_conn y)) = [1]"
    "c_pingResults (y_conn y) = []" by (elim exE conjE)
  obtain k t where ping: "c_pings (y_conn y) = [(k, 1, t)]" using y(5) by (auto simp: map_eq_Cons_conv)
  note d = destroy_settles_everything [OF y(1,2), of RangeErr, unfolded Let_def]
  have "(1, 0) \<in> set (c_streams (y_conn y))" using y(3) by simp
  from bspec [OF conjunct1 [OF d] this] have "st_head (obj (destroy (y_conn y) RangeErr) 0) \<noteq> Pending"
    unfolding prod.case by (elim conjE)
  moreover have "c_slotWaiters (destroy (y_conn y) RangeErr) = []" using d by (elim conjE)
  moreover have "c_pingResults (destroy (y_conn y) RangeErr) =
      c_pingResults (y_conn y) @ map (\<lambda>(k, n, t). (n, Inl RangeErr)) (c_pings (y_conn y))" using d by (elim conjE)
  then have "c_pingResults (destroy (y_conn y) RangeErr) = [(1, Inl RangeErr)]" by (simp only: y(6) ping) simp
  ultimately show ?thesis using y(1,3-5) by (intro exI [of _ y] conjI)
qed

end
