(* ===== verification/H2_Upload.thy ===== *)
theory H2_Upload
  imports H2_Safety "HOL-Library.Sublist"
begin

text \<open>
  What a connection writes for a request body (\<^verbatim>\<open>pumpBody\<close> in \<^verbatim>\<open>web/src/h2/connection.ts\<close>): over every history of events
  the DATA frames of a stream carry the bytes handed to its pump, once and in order, and END_STREAM comes only after all of
  them.

  The predicate \<open>keep c0\<close> is what every operation except the pump's own sending keeps of the written DATA frames, the
  stream ids and the identity of stream objects.
\<close>

subsection \<open>What is written\<close>

fun is_data :: "out_item \<Rightarrow> bool" where
  "is_data (OutFrame (DataF sid d fl e)) = True"
| "is_data _ = False"

fun data_on :: "nat \<Rightarrow> out_item \<Rightarrow> byte list" where
  "data_on sid (OutFrame (DataF k d fl e)) = (if k = sid then d else [])"
| "data_on sid _ = []"

fun ends_on :: "nat \<Rightarrow> out_item \<Rightarrow> bool" where
  "ends_on sid (OutFrame (DataF k d fl e)) = (k = sid \<and> e)"
| "ends_on sid _ = False"

definition datas :: "h2conn \<Rightarrow> out_item list" where
  "datas c = filter is_data (c_out c)"

definition sent_on :: "nat \<Rightarrow> h2conn \<Rightarrow> byte list" where
  "sent_on sid c = concat (map (data_on sid) (datas c))"

definition ended_on :: "nat \<Rightarrow> h2conn \<Rightarrow> bool" where
  "ended_on sid c \<longleftrightarrow> list_ex (ends_on sid) (datas c)"

definition keep :: "h2conn \<Rightarrow> h2conn \<Rightarrow> bool" where
  "keep c0 c \<longleftrightarrow> datas c = datas c0 \<and> c_nextStreamId c0 \<le> c_nextStreamId c \<and> length (c_objs c0) \<le> length (c_objs c) \<and>
     (\<forall>a < length (c_objs c0). st_id (obj c a) = st_id (obj c0 a))"

lemma keep_refl [simp]: "keep c c"
  by (simp add: keep_def)

lemma keep_cong:
  "keep c0 c \<Longrightarrow> c_out c' = c_out c \<Longrightarrow> c_nextStreamId c' = c_nextStreamId c \<Longrightarrow> c_objs c' = c_objs c \<Longrightarrow> keep c0 c'"
  by (simp add: keep_def datas_def obj_def)

lemma keep_fields [simp]:
  "keep c0 (c\<lparr>c_slotWaiters := ws\<rparr>) = keep c0 c" "keep c0 (c\<lparr>c_connRecvAvailable := n\<rparr>) = keep c0 c"
  "keep c0 (c\<lparr>c_closing := k\<rparr>) = keep c0 c" "keep c0 (c\<lparr>c_frameDecoder := fd\<rparr>) = keep c0 c"
  "keep c0 (c\<lparr>c_highestPromised := k\<rparr>) = keep c0 c"
  "keep c0 (c\<lparr>c_goawayReceived := x, c_draining := x\<rparr>) = keep c0 c"
  "keep c0 (c\<lparr>c_pingCounter := k\<rparr>) = keep c0 c" "keep c0 (c\<lparr>c_pingResults := pr\<rparr>) = keep c0 c"
  "keep c0 (c\<lparr>c_pings := ps\<rparr>) = keep c0 c" "keep c0 (c\<lparr>c_pings := ps, c_pingResults := pr\<rparr>) = keep c0 c"
  "keep c0 (c\<lparr>c_connSendWindow := w\<rparr>) = keep c0 c" "keep c0 (c\<lparr>c_pending := p\<rparr>) = keep c0 c"
  "keep c0 (c\<lparr>c_pending := p, c_decoder := d\<rparr>) = keep c0 c" "keep c0 (c\<lparr>c_streams := ss\<rparr>) = keep c0 c"
  "keep c0 (c\<lparr>c_closedFlag := b\<rparr>) = keep c0 c" "keep c0 (c\<lparr>c_closeError := e\<rparr>) = keep c0 c" "keep c0 (c\<lparr>c_decoder := d\<rparr>) = keep c0 c"
  by (simp_all add: keep_def datas_def obj_def)

lemma keep_send: "keep c0 c \<Longrightarrow> \<not> is_data (OutFrame f) \<Longrightarrow> keep c0 (send c f)"
  by (simp add: keep_def send_def writeRaw_def datas_def obj_def)

lemma keep_sends: "keep c0 c \<Longrightarrow> list_all (\<lambda>f. \<not> is_data (OutFrame f)) fs \<Longrightarrow> keep c0 (foldl send c fs)"
  by (induction fs arbitrary: c) (simp_all add: keep_send)

lemma keep_upd: "keep c0 c \<Longrightarrow> st_id (f (obj c a)) = st_id (obj c a) \<Longrightarrow> keep c0 (upd_obj c a f)"
  by (cases "a < length (c_objs c)") (auto simp: keep_def upd_obj_def datas_def obj_def nth_list_update list_update_beyond)

lemma st_id_ops [simp]:
  "st_id (snd (discardBuffered s)) = st_id s" "st_id (fst (pullBody s)) = st_id s" "st_id (fst (cancelBody s)) = st_id s"
  by (auto simp: discardBuffered_def pullBody_def cancelBody_def Let_def split: list.splits option.splits prod.splits)

lemma keep_upd_all: "keep c0 c \<Longrightarrow> (\<And>s. st_id (f s) = st_id s) \<Longrightarrow> keep c0 (upd_obj c a f)"
  by (simp add: keep_upd)

lemma keep_prims [simp]:
  assumes "keep c0 c"
  shows "keep c0 (delete_stream c sid)" "keep c0 (close_begin c)" "keep c0 (wakeStreamSlots c)"
    "keep c0 (replenishConnectionWindow c n)" "keep c0 (upd_remote c r)" "keep c0 (wait_conn c k)" "keep c0 (wait_stream c a k)"
    "keep c0 (mark_sent c a b)"
proof -
  show b: "keep c0 (close_begin c)" using assms by (simp add: close_begin_def keep_send)
  show "keep c0 (wakeStreamSlots c)" using assms b by (simp add: wakeStreamSlots_def Let_def)
  show "keep c0 (delete_stream c sid)" using assms by (simp add: delete_stream_def)
  show "keep c0 (replenishConnectionWindow c n)" using assms by (simp add: replenishConnectionWindow_def keep_send)
  show "keep c0 (upd_remote c r)" using assms by (rule keep_cong) (simp_all add: upd_remote_def)
  show "keep c0 (wait_conn c k)" using assms by (simp add: wait_conn_def)
  show "keep c0 (wait_stream c a k)" using assms by (simp add: wait_stream_def keep_upd_all)
  show "keep c0 (mark_sent c a b)" using assms by (simp add: mark_sent_def keep_upd_all)
qed

lemma keep_fail [simp]: "keep c0 c \<Longrightarrow> keep c0 (upd_obj c a (\<lambda>s. fail s e))"
  by (simp add: keep_upd_all fail_fields)

lemma keep_fail_all [simp]: "keep c0 c \<Longrightarrow> keep c0 (fail_all c as e)"
  unfolding fail_all_def by (induction as arbitrary: c) simp_all

lemma keep_destroy [simp]: "keep c0 c \<Longrightarrow> keep c0 (destroy c e)"
proof -
  assume k: "keep c0 c"
  let ?c3 = "wakeStreamSlots ((fail_all (c\<lparr>c_closedFlag := True, c_closeError := Some e,
      c_connSendWindow := fst (sw_close (c_connSendWindow c))\<rparr>) (map snd (c_streams c)) e)\<lparr>c_streams := []\<rparr>)"
  have "keep c0 ?c3" using k by simp
  then show ?thesis using k by (auto simp: destroy_def Let_def keep_def datas_def obj_def)
qed

lemma keep_ops [simp]:
  assumes "keep c0 c"
  shows "keep c0 (replenishRecvWindow c sid n)" "keep c0 (discard_obj c a)" "keep c0 (retireIfFullyClosed c sid)"
    "keep c0 (ping now c)" "keep c0 (handle_ping now c ack opaque)" "keep c0 (connectionError c e)" "keep c0 (close_end c)"
  using assms
  by (auto simp: replenishRecvWindow_def discard_obj_def retireIfFullyClosed_def ping_def handle_ping_def
      connectionError_def close_end_def Let_def keep_send keep_upd_all split: option.split)

lemma keep_reset [simp]: "keep c0 c \<Longrightarrow> keep c0 (resetStream c sid code)"
  by (simp add: resetStream_def Let_def keep_send keep_upd_all fail_fields split: option.split)

lemma keep_reserve [simp]: "keep c0 c \<Longrightarrow> keep c0 (reserve_stream c)"
  by (auto simp: reserve_stream_def Let_def keep_def datas_def obj_def nth_append)

lemma keep_push [simp]: "keep c0 c \<Longrightarrow> keep c0 (handlePush proto c pid hs)"
  by (auto simp: handlePush_def Let_def keep_send) (auto simp: keep_def datas_def obj_def nth_append)

lemma keep_adjust [simp]: "keep c0 c \<Longrightarrow> keep c0 (adjust_all c as n)"
  unfolding adjust_all_def by (induction as arbitrary: c) (simp_all add: keep_upd_all)

lemma keep_exclude [simp]: "keep c0 c \<Longrightarrow> keep c0 (exclude_streams c ss lastId code)"
  by (induction c ss lastId code rule: exclude_streams.induct) simp_all

lemmas keep_ids = fail_fields(1) receiveHeaders_fields(1) receiveData_fields(1) receiveReset_fields(1)

lemma keep_pull [simp]: "keep c0 c \<Longrightarrow> keep c0 (fst (pull_stream c a))"
proof -
  assume k: "keep c0 c"
  obtain s r where p: "pullBody (obj c a) = (s, r)" by fastforce
  have "keep c0 (upd_obj c a (\<lambda>_. s))" using k pullBody_fields(1) [OF p] by (simp add: keep_upd)
  then show ?thesis by (simp add: pull_stream_def p Let_def split: pull_outcome.split)
qed

lemma keep_cancel [simp]: "keep c0 c \<Longrightarrow> keep c0 (cancel_stream c a)"
proof -
  assume k: "keep c0 c"
  obtain s n live where p: "cancelBody (obj c a) = (s, n, live)" using prod_cases3 by blast
  have "st_id s = st_id (obj c a)" using st_id_ops(3) [of "obj c a"] by (simp add: p)
  then have "keep c0 (upd_obj c a (\<lambda>_. s))" using k by (simp add: keep_upd)
  then show ?thesis by (simp add: cancel_stream_def p Let_def)
qed

lemma keep_handlers [simp]:
  assumes "keep c0 c"
  shows "keep c0 (fail_and_reset c a e)" "keep c0 (handle_rst_stream c sid k)" "keep c0 (handle_goaway c lastId code)"
    "keep c0 (deliver_block proto c pb hs)" "keep c0 (fst (handle_window_update c sid n))" "keep c0 (fst (handle_data c sid data fl en))"
  using assms
  by (simp_all add: fail_and_reset_def handle_rst_stream_def handle_goaway_def deliver_block_def handle_window_update_def
      handle_data_def Let_def keep_upd_all keep_ids keep_send split: option.split block_kind.split)

lemma keep_settings [simp]: "keep c0 c \<Longrightarrow> keep c0 (fst (applyRemoteSettings c s))"
  by (simp add: applyRemoteSettings_def apply_initial_window_def apply_max_frame_def apply_other_settings_def
      Let_def split: option.split prod.split)

lemma keep_accept [simp]: "keep c0 c \<Longrightarrow> keep c0 (fst (accept_block proto c pb e))"
  by (simp add: accept_block_def completeHeaderBlock_def Let_def split: prod.split sum.split)

lemma keep_dispatch: "keep c0 c \<Longrightarrow> keep c0 (fst (dispatch proto now c f))"
proof -
  assume q: "keep c0 c"
  have s: "keep c0 (fst (case applyRemoteSettings c s of (c1, Some e) \<Rightarrow> (c1, Some e)
      | (c1, None) \<Rightarrow> (send c1 (SettingsF True empty_settings), None)))" for s
    using keep_settings [OF q, of s] by (auto simp: keep_send split: prod.split option.split)
  show ?thesis
    using q s by (cases f) (simp_all add: dispatch_def split: option.split)
qed

lemma keep_dispatch_all: "keep c0 c \<Longrightarrow> keep c0 (dispatch_all proto now c fs)"
proof (induction fs arbitrary: c)
  case (Cons f fs)
  obtain c1 x where d: "dispatch proto now c f = (c1, x)" by fastforce
  then have "keep c0 c1" using keep_dispatch [OF Cons.prems, of proto now f] by simp
  with Cons d show ?case by (auto split: option.split exn.split)
qed simp

lemma keep_onBytes [simp]: "keep c0 c \<Longrightarrow> keep c0 (onBytes proto now c chunk)"
  by (auto simp: onBytes_def keep_dispatch_all split: sum.split)

lemma continuation_no_data:
  assumes "continuation_frames sid block m off = Some fs"
  shows "list_all (\<lambda>f. \<not> is_data (OutFrame f)) fs"
  by (rule continuation_frames.raw_induct [OF _ assms]) (auto simp: bind_eq_Some_conv Let_def split: if_splits)

lemma keep_headers: "keep c0 c \<Longrightarrow> sendHeaders pf c sid hs e = Some c' \<Longrightarrow> keep c0 c'"
  by (auto simp: sendHeaders_def header_frames_def split: option.splits if_splits
      intro!: keep_sends keep_send dest: continuation_no_data)

subsection \<open>One pump\<close>

abbreviation pump_id :: "h2conn \<Rightarrow> pump \<Rightarrow> nat" where
  "pump_id c p \<equiv> st_id (obj c (pu_addr p))"

text \<open>\<open>G\<close> are the bytes handed to the pump so far.\<close>

definition pump_ok :: "h2conn \<Rightarrow> byte list \<Rightarrow> pump \<Rightarrow> bool" where
  "pump_ok c G p \<longleftrightarrow> pu_addr p < length (c_objs c) \<and> pump_id c p < c_nextStreamId c \<and>
     (case pu_phase p of
        NeedChunk \<Rightarrow> sent_on (pump_id c p) c = G
      | AwaitConn \<Rightarrow> sent_on (pump_id c p) c @ drop (pu_offset p) (pu_chunk p) = G
      | AwaitStream \<Rightarrow> sent_on (pump_id c p) c @ drop (pu_offset p) (pu_chunk p) = G
      | AwaitWrite g \<Rightarrow> sent_on (pump_id c p) c @ drop (pu_offset p + g) (pu_chunk p) = G
      | AwaitEnd \<Rightarrow> sent_on (pump_id c p) c = G
      | Finished \<Rightarrow> prefix (sent_on (pump_id c p) c) G) \<and>
     (ended_on (pump_id c p) c \<longrightarrow> pu_phase p \<in> {AwaitEnd, Finished} \<and> sent_on (pump_id c p) c = G)"

text \<open>Like \<open>keep\<close>, except that DATA may have been written on one stream.\<close>

definition keep_but :: "nat \<Rightarrow> h2conn \<Rightarrow> h2conn \<Rightarrow> bool" where
  "keep_but sid c0 c \<longleftrightarrow> c_nextStreamId c0 \<le> c_nextStreamId c \<and> length (c_objs c0) \<le> length (c_objs c) \<and>
     (\<forall>a < length (c_objs c0). st_id (obj c a) = st_id (obj c0 a)) \<and>
     (\<forall>k. k \<noteq> sid \<longrightarrow> sent_on k c = sent_on k c0 \<and> ended_on k c = ended_on k c0)"

lemma keep_sent: "keep c0 c \<Longrightarrow> sent_on k c = sent_on k c0" "keep c0 c \<Longrightarrow> ended_on k c = ended_on k c0"
  by (simp_all add: keep_def sent_on_def ended_on_def)

lemma keep_keep_but: "keep c0 c \<Longrightarrow> keep_but sid c0 c"
  by (auto simp: keep_but_def keep_sent) (simp_all add: keep_def)

lemma pump_ok_keep_but:
  assumes "keep_but sid c0 c" "pump_ok c0 G p" "pump_id c0 p \<noteq> sid"
  shows "pump_ok c G p"
proof -
  have "pump_id c p = pump_id c0 p" using assms(1,2) by (simp add: keep_but_def pump_ok_def)
  then show ?thesis using assms by (cases "pu_phase p") (simp_all add: pump_ok_def keep_but_def)
qed

lemma pump_ok_keep:
  assumes "keep c0 c" "pump_ok c0 G p"
  shows "pump_ok c G p"
proof -
  have "keep_but (Suc (pump_id c0 p)) c0 c" by (rule keep_keep_but [OF assms(1)])
  from pump_ok_keep_but [OF this assms(2)] show ?thesis by simp
qed

lemma send_data:
  assumes "\<not> c_closedFlag c"
  shows "sent_on k (send c (DataF sid d fl e)) = sent_on k c @ (if k = sid then d else [])"
    "ended_on k (send c (DataF sid d fl e)) \<longleftrightarrow> ended_on k c \<or> k = sid \<and> e"
    "keep_but sid c (send c (DataF sid d fl e))"
  using assms by (auto simp: keep_but_def send_def writeRaw_def sent_on_def ended_on_def datas_def obj_def)

lemma send_slice_data:
  assumes "\<not> c_closedFlag c" "a < length (c_objs c)"
  shows "sent_on k (send_slice c a g d) = sent_on k c @ (if k = st_id (obj c a) then d else [])"
    "ended_on k (send_slice c a g d) = ended_on k c" "keep_but (st_id (obj c a)) c (send_slice c a g d)"
    "st_id (obj (send_slice c a g d) a) = st_id (obj c a)"
proof -
  let ?c2 = "upd_obj (c\<lparr>c_connSendWindow := sw_consume (c_connSendWindow c) g\<rparr>) a (\<lambda>s. s\<lparr>st_sendWindow := sw_consume (st_sendWindow s) g\<rparr>)"
  have k: "keep c ?c2" by (simp add: keep_upd_all)
  have o: "\<not> c_closedFlag ?c2" "st_id (obj ?c2 a) = st_id (obj c a)"
    using assms k by (auto simp: keep_def upd_obj_def)
  have s: "send_slice c a g d = send ?c2 (DataF (st_id (obj c a)) d None False)" by (simp add: send_slice_def Let_def o(2))
  show "sent_on k (send_slice c a g d) = sent_on k c @ (if k = st_id (obj c a) then d else [])"
    "ended_on k (send_slice c a g d) = ended_on k c"
    unfolding s by (simp_all add: send_data [OF o(1)] keep_sent [OF k])
  have b: "keep_but (st_id (obj c a)) ?c2 (send_slice c a g d)" unfolding s by (rule send_data(3) [OF o(1)])
  then show "keep_but (st_id (obj c a)) c (send_slice c a g d)"
    using k by (auto simp: keep_but_def keep_sent [OF k] keep_def)
  show "st_id (obj (send_slice c a g d) a) = st_id (obj c a)" using b o(2) assms(2) k by (simp add: keep_but_def keep_def)
qed

subsection \<open>All pumps, over a history of events\<close>

fun chunk_for :: "nat \<Rightarrow> event \<Rightarrow> byte list" where
  "chunk_for k (PumpChunk j chunk) = (if j = k then chunk else [])"
| "chunk_for k _ = []"

definition given :: "event list \<Rightarrow> nat \<Rightarrow> byte list" where
  "given evs k = concat (map (chunk_for k) evs)"

lemma given_snoc [simp]: "given (evs @ [ev]) k = given evs k @ chunk_for k ev"
  by (simp add: given_def)

inductive history :: "platform \<Rightarrow> connect_options \<Rightarrow> event list \<Rightarrow> h2sys \<Rightarrow> bool" for pf opts where
  history_start: "new_H2Connection opts = Inr c \<Longrightarrow> history pf opts [] \<lparr>y_conn = c, y_requests = [], y_pumps = []\<rparr>"
| history_step: "history pf opts evs y \<Longrightarrow> fire pf y ev = Some y' \<Longrightarrow> history pf opts (evs @ [ev]) y'"

lemma history_reachable: "history pf opts evs y \<Longrightarrow> reachable pf opts y"
  by (induction rule: history.induct) (auto intro: reachable.intros)

definition uploads_ok :: "event list \<Rightarrow> h2sys \<Rightarrow> bool" where
  "uploads_ok evs y \<longleftrightarrow>
     (\<forall>k < length (y_pumps y). pump_ok (y_conn y) (given evs k) (y_pumps y ! k)) \<and>
     (\<forall>k \<ge> length (y_pumps y). given evs k = []) \<and>
     (\<forall>j < length (y_pumps y). \<forall>k < length (y_pumps y).
        pump_id (y_conn y) (y_pumps y ! j) = pump_id (y_conn y) (y_pumps y ! k) \<longrightarrow> j = k) \<and>
     (\<forall>sid \<ge> c_nextStreamId (y_conn y). sent_on sid (y_conn y) = [] \<and> \<not> ended_on sid (y_conn y))"

lemma pump_id_keep: "keep c0 c \<Longrightarrow> pump_ok c0 G p \<Longrightarrow> pump_id c p = pump_id c0 p"
  by (simp add: keep_def pump_ok_def)

lemma uploads_keep:
  assumes "uploads_ok evs y" "keep (y_conn y) (y_conn y')" "y_pumps y' = y_pumps y" "\<And>k. chunk_for k ev = []"
  shows "uploads_ok (evs @ [ev]) y'"
proof -
  let ?c = "y_conn y" and ?c' = "y_conn y'"
  have ok: "pump_ok ?c (given evs j) (y_pumps y ! j)" if "j < length (y_pumps y)" for j
    using assms(1) that by (simp add: uploads_ok_def)
  have "sent_on sid ?c' = [] \<and> \<not> ended_on sid ?c'" if "sid \<ge> c_nextStreamId ?c'" for sid
  proof -
    have "sid \<ge> c_nextStreamId ?c" using that assms(2) by (simp add: keep_def)
    then show ?thesis using assms(1) by (simp add: uploads_ok_def keep_sent [OF assms(2)])
  qed
  moreover have "pump_id ?c' (y_pumps y ! j) = pump_id ?c (y_pumps y ! j)" if "j < length (y_pumps y)" for j
    by (rule pump_id_keep [OF assms(2) ok [OF that]])
  ultimately show ?thesis
    using assms(1,3,4) pump_ok_keep [OF assms(2) ok] by (simp add: uploads_ok_def)
qed

text \<open>A step of the pump \<open>k\<close>, which may write DATA on its own stream.\<close>

lemma uploads_pump:
  assumes "uploads_ok evs y" "k < length (y_pumps y)" "keep_but (pump_id (y_conn y) (y_pumps y ! k)) (y_conn y) c'"
    and "y' = y\<lparr>y_conn := c', y_pumps := (y_pumps y)[k := p']\<rparr>" "pu_addr p' = pu_addr (y_pumps y ! k)"
    and "pump_ok c' (given evs k @ chunk_for k ev) p'" "\<And>j. j \<noteq> k \<Longrightarrow> chunk_for j ev = []"
  shows "uploads_ok (evs @ [ev]) y'"
proof -
  let ?c = "y_conn y" and ?p = "y_pumps y ! k"
  have ok: "pump_ok ?c (given evs j) (y_pumps y ! j)" if "j < length (y_pumps y)" for j
    using assms(1) that by (simp add: uploads_ok_def)
  have inj: "j = k" if "j < length (y_pumps y)" "pump_id ?c (y_pumps y ! j) = pump_id ?c ?p" for j
    using assms(1,2) that by (auto simp: uploads_ok_def)
  have ids: "pump_id c' ((y_pumps y)[k := p'] ! j) = pump_id ?c (y_pumps y ! j)" if "j < length (y_pumps y)" for j
    using ok [OF that] assms(2,3,5) that ok [OF assms(2)] by (cases "j = k") (simp_all add: keep_but_def pump_ok_def)
  have "pump_ok c' (given (evs @ [ev]) j) ((y_pumps y)[k := p'] ! j)" if "j < length (y_pumps y)" for j
  proof (cases "j = k")
    case False
    then have "pump_id ?c (y_pumps y ! j) \<noteq> pump_id ?c ?p" using inj that by blast
    then show ?thesis using pump_ok_keep_but [OF assms(3) ok [OF that]] False assms(7) by simp
  qed (use assms(2,6) in simp)
  moreover have "sent_on sid c' = [] \<and> \<not> ended_on sid c'" if "sid \<ge> c_nextStreamId c'" for sid
  proof -
    have "sid \<ge> c_nextStreamId ?c" "sid \<noteq> pump_id ?c ?p"
      using that assms(3) ok [OF assms(2)] by (auto simp: keep_but_def pump_ok_def)
    then show ?thesis using assms(1,3) by (simp add: uploads_ok_def keep_but_def)
  qed
  ultimately show ?thesis using assms(1,2,4,7) ids by (auto simp: uploads_ok_def)
qed

lemma pump_top_step:
  assumes "sent_on (pump_id (y_conn y) p) (y_conn y) @ drop (pu_offset p) (pu_chunk p) = G" "\<not> ended_on (pump_id (y_conn y) p) (y_conn y)"
    "pu_addr p < length (c_objs (y_conn y))" "pump_id (y_conn y) p < c_nextStreamId (y_conn y)"
  shows "\<exists>c' p'. pump_top y k p = y\<lparr>y_conn := c', y_pumps := (y_pumps y)[k := p']\<rparr> \<and> keep (y_conn y) c' \<and>
    pu_addr p' = pu_addr p \<and> pump_ok c' G p'"
proof -
  let ?c = "y_conn y"
  let ?ph = "if pu_offset p < length (pu_chunk p) then if send_closed ?c (pu_addr p) then Finished else AwaitConn else NeedChunk"
  let ?c' = "if ?ph = AwaitConn then wait_conn ?c k else ?c"
  have "pump_ok ?c G (p\<lparr>pu_phase := ?ph\<rparr>)" using assms by (auto simp: pump_ok_def prefix_def)
  moreover have k: "keep ?c ?c'" by simp
  ultimately have "pump_ok ?c' G (p\<lparr>pu_phase := ?ph\<rparr>)" by (blast intro: pump_ok_keep)
  moreover have "pump_top y k p = y\<lparr>y_conn := ?c', y_pumps := (y_pumps y)[k := p\<lparr>pu_phase := ?ph\<rparr>]\<rparr>"
    by (simp add: pump_top_def set_pump_def Let_def)
  ultimately show ?thesis using k by (intro exI [of _ ?c'] exI [of _ "p\<lparr>pu_phase := ?ph\<rparr>"]) simp
qed

lemma uploads_top:
  assumes u: "uploads_ok evs y" "k < length (y_pumps y)" "pu_addr p = pu_addr (y_pumps y ! k)"
    and s: "sent_on (pump_id (y_conn y) p) (y_conn y) @ drop (pu_offset p) (pu_chunk p) = given evs k @ chunk_for k ev"
      "\<not> ended_on (pump_id (y_conn y) p) (y_conn y)" and e: "\<And>j. j \<noteq> k \<Longrightarrow> chunk_for j ev = []"
  shows "uploads_ok (evs @ [ev]) (pump_top y k p)"
proof -
  have "pump_ok (y_conn y) (given evs k) (y_pumps y ! k)" using u(1,2) by (simp add: uploads_ok_def)
  then have "pu_addr p < length (c_objs (y_conn y))" "pump_id (y_conn y) p < c_nextStreamId (y_conn y)"
    using u(3) by (simp_all add: pump_ok_def)
  from pump_top_step [OF s this] obtain c' p' where
    t: "pump_top y k p = y\<lparr>y_conn := c', y_pumps := (y_pumps y)[k := p']\<rparr>" "keep (y_conn y) c'" "pu_addr p' = pu_addr p"
      "pump_ok c' (given evs k @ chunk_for k ev) p'" by blast
  show ?thesis using t u(3) by (intro uploads_pump [OF u(1,2) keep_keep_but [OF t(2)] t(1) _ t(4) e]) simp_all
qed

lemma uploads_set:
  assumes u: "uploads_ok evs y" "k < length (y_pumps y)" and k: "keep (y_conn y) c'"
    and p: "pump_ok (y_conn y) (given evs k) (y_pumps y ! k) \<Longrightarrow> pump_ok (y_conn y) (given evs k) ((y_pumps y ! k)\<lparr>pu_phase := ph\<rparr>)"
    and e: "\<And>j. chunk_for j ev = []"
  shows "uploads_ok (evs @ [ev]) (set_pump (y\<lparr>y_conn := c'\<rparr>) k ((y_pumps y ! k)\<lparr>pu_phase := ph\<rparr>))"
proof -
  have "pump_ok (y_conn y) (given evs k) ((y_pumps y ! k)\<lparr>pu_phase := ph\<rparr>)" using u p by (simp add: uploads_ok_def)
  from pump_ok_keep [OF k this] show ?thesis
    using e by (intro uploads_pump [OF u keep_keep_but [OF k]]) (simp_all add: set_pump_def)
qed

lemma pump_finished: "pump_ok c G p \<Longrightarrow> pump_ok c G (p\<lparr>pu_phase := Finished\<rparr>)"
  by (cases "pu_phase p") (auto simp: pump_ok_def prefix_def)

lemma uploads_stream:
  assumes u: "uploads_ok evs y" "k < length (y_pumps y)" and ph: "pu_phase (y_pumps y ! k) = AwaitStream"
  shows "uploads_ok (evs @ [PumpStream k]) (pump_stream y k)"
proof -
  let ?p = "y_pumps y ! k" and ?c = "y_conn y"
  let ?g = "pump_grant ?c ?p" and ?a = "pu_addr ?p"
  let ?piece = "take (nat ?g) (drop (pu_offset ?p) (pu_chunk ?p))"
  have ok: "pump_ok ?c (given evs k) ?p" using u by (simp add: uploads_ok_def)
  then have s: "sent_on (pump_id ?c ?p) ?c @ drop (pu_offset ?p) (pu_chunk ?p) = given evs k" "\<not> ended_on (pump_id ?c ?p) ?c"
    "?a < length (c_objs ?c)" using ph by (auto simp: pump_ok_def)
  consider (closed) "send_closed ?c ?a" | (again) "\<not> send_closed ?c ?a" "?g \<le> 0" | (send) "\<not> send_closed ?c ?a" "\<not> ?g \<le> 0" by blast
  then show ?thesis
  proof cases
    case closed
    then show ?thesis using uploads_set [OF u keep_refl pump_finished, where ev = "PumpStream k"] by (simp add: pump_stream_def Let_def)
  next
    case again
    then show ?thesis using uploads_top [OF u refl, where ev = "PumpStream k"] s by (simp add: pump_stream_def Let_def)
  next
    case send
    then have "\<not> c_closedFlag ?c" by (simp add: send_closed_def)
    note d = send_slice_data [OF this s(3), where g = ?g and d = ?piece]
    let ?p' = "?p\<lparr>pu_phase := AwaitWrite (nat ?g)\<rparr>" and ?c' = "send_slice ?c ?a ?g ?piece"
    have "?piece @ drop (pu_offset ?p + nat ?g) (pu_chunk ?p) = drop (pu_offset ?p) (pu_chunk ?p)"
      by (metis add.commute append_take_drop_id drop_drop)
    then have "pump_ok ?c' (given evs k) ?p'" using ok s d(1,2,4) d(3) by (simp add: pump_ok_def keep_but_def)
    then show ?thesis using send
      by (intro uploads_pump [OF u d(3), where p' = ?p']) (simp_all add: pump_stream_def set_pump_def Let_def)
  qed
qed

lemma uploads_end:
  assumes u: "uploads_ok evs y" "k < length (y_pumps y)" and ph: "pu_phase (y_pumps y ! k) = NeedChunk"
  shows "uploads_ok (evs @ [PumpEnd k]) (pump_end y k)"
proof -
  let ?p = "y_pumps y ! k" and ?c = "y_conn y"
  let ?sid = "pump_id ?c ?p"
  have ok: "pump_ok ?c (given evs k) ?p" using u by (simp add: uploads_ok_def)
  show ?thesis
  proof (cases "send_closed ?c (pu_addr ?p) \<or> get_stream ?c ?sid = None")
    case True
    then show ?thesis using uploads_set [OF u keep_refl pump_finished, where ev = "PumpEnd k"] by (simp add: pump_end_def Let_def)
  next
    case False
    then have "\<not> c_closedFlag ?c" by (simp add: send_closed_def)
    note d = send_data [OF this, where sid = ?sid and d = "[]" and fl = None and e = True]
    let ?p' = "?p\<lparr>pu_phase := AwaitEnd\<rparr>" and ?c' = "send ?c (DataF ?sid [] None True)"
    have "pump_id ?c' ?p = ?sid" by (simp add: send_def writeRaw_def obj_def)
    then have "pump_ok ?c' (given evs k) ?p'" using ok ph d by (auto simp: pump_ok_def keep_but_def)
    then show ?thesis using False
      by (intro uploads_pump [OF u d(3), where p' = ?p']) (auto simp: pump_end_def set_pump_def Let_def)
  qed
qed

lemma uploads_opened:
  assumes u: "uploads_ok evs y" and k: "keep (y_conn y) (y_conn y')" and e: "\<And>j. chunk_for j ev = []"
    and p: "y_pumps y' = y_pumps y @ [\<lparr>pu_addr = length (c_objs (y_conn y)), pu_chunk = [], pu_offset = 0, pu_phase = NeedChunk\<rparr>]"
    and n: "length (c_objs (y_conn y)) < length (c_objs (y_conn y'))"
      "st_id (obj (y_conn y') (length (c_objs (y_conn y)))) = c_nextStreamId (y_conn y)"
      "c_nextStreamId (y_conn y) < c_nextStreamId (y_conn y')"
  shows "uploads_ok (evs @ [ev]) y'"
proof -
  let ?c = "y_conn y" and ?c' = "y_conn y'" and ?n = "length (y_pumps y)"
  let ?y1 = "y\<lparr>y_conn := ?c'\<rparr>"
  have o: "uploads_ok (evs @ [ev]) ?y1" using u k e by (intro uploads_keep [OF u]) simp_all
  have new: "pump_ok ?c' [] (y_pumps y' ! ?n)" "pump_id ?c' (y_pumps y' ! ?n) = c_nextStreamId ?c"
    using u n by (simp_all add: p pump_ok_def uploads_ok_def keep_sent [OF k])
  have "pump_id ?c' (y_pumps y ! j) < c_nextStreamId ?c" if "j < ?n" for j
    using u that pump_id_keep [OF k, of "given evs j" "y_pumps y ! j"] by (simp add: uploads_ok_def pump_ok_def)
  then have "pump_id ?c' (y_pumps y ! j) \<noteq> c_nextStreamId ?c" "c_nextStreamId ?c \<noteq> pump_id ?c' (y_pumps y ! j)" if "j < ?n" for j
    using that by force+
  then show ?thesis using o new e u
    by (auto simp: uploads_ok_def p nth_append less_Suc_eq split: if_splits)
qed

lemma obj_reserve: "obj (reserve_stream c) (length (c_objs c)) = new_H2Stream (c_nextStreamId c) (int (rs_initialWindowSize (c_remote c))) Open (int (c_localInitialWindow c))"
  "length (c_objs (reserve_stream c)) = Suc (length (c_objs c))" "c_nextStreamId (reserve_stream c) = c_nextStreamId c + 2"
  by (simp_all add: reserve_stream_def Let_def obj_def)

lemma st_id_new [simp]: "st_id (new_H2Stream sid w st rw) = sid"
  by (simp add: new_H2Stream_def)

lemma uploads_open:
  assumes u: "uploads_ok evs y" and o: "open_stream pf y r rq = Some y'" and e: "\<And>j. chunk_for j ev = []"
  shows "uploads_ok (evs @ [ev]) y'"
proof (cases "rq_aborted rq")
  case None
  let ?c = "y_conn y" and ?a = "length (c_objs (y_conn y))" and ?b = "\<not> bodyIsEmpty (ri_body (rq_init rq))"
  from o None obtain c2 where
    h: "sendHeaders pf (reserve_stream ?c) (c_nextStreamId ?c) (buildRequestHeaders pf (rq_init rq)) (\<not> ?b) = Some c2"
    and y': "y_conn y' = mark_sent c2 ?a ?b"
      "y_pumps y' = y_pumps y @ (if ?b then [\<lparr>pu_addr = ?a, pu_chunk = [], pu_offset = 0, pu_phase = NeedChunk\<rparr>] else [])"
    by (auto simp: open_stream_def set_request_def Let_def split: option.splits)
  have k1: "keep (reserve_stream ?c) (y_conn y')" unfolding y' by (rule keep_prims(8) [OF keep_headers [OF keep_refl h]])
  have k: "keep ?c (y_conn y')" unfolding y' by (rule keep_prims(8) [OF keep_headers [OF keep_reserve [OF keep_refl] h]])
  show ?thesis
  proof (cases ?b)
    case True
    show ?thesis
      by (rule uploads_opened [OF u k e]) (use k1 True in \<open>simp_all add: y'(2) keep_def obj_reserve\<close>)
  next
    case False
    then show ?thesis by (intro uploads_keep [OF u k _ e]) (simp add: y')
  qed
next
  case (Some x)
  with o show ?thesis
    by (intro uploads_keep [OF u _ _ e]) (auto simp: open_stream_def set_request_def Let_def)
qed

lemma uploads_resume:
  assumes u: "uploads_ok evs y" and o: "request_resume pf y r ok = Some y'" and e: "\<And>j. chunk_for j ev = []"
  shows "uploads_ok (evs @ [ev]) y'"
proof -
  consider "open_stream pf y r (y_requests y ! r) = Some y'" | "keep (y_conn y) (y_conn y')" "y_pumps y' = y_pumps y"
    using o by (auto simp: request_resume_def request_loop_def set_request_def Let_def split: option.splits if_splits)
  then show ?thesis by cases (auto intro: uploads_open [OF u _ e] uploads_keep [OF u _ _ e])
qed

lemma uploads_chunk:
  assumes u: "uploads_ok evs y" "k < length (y_pumps y)" and ph: "pu_phase (y_pumps y ! k) = NeedChunk"
  shows "uploads_ok (evs @ [PumpChunk k chunk]) (pump_chunk y k chunk)"
proof -
  have "pump_ok (y_conn y) (given evs k) (y_pumps y ! k)" using u by (simp add: uploads_ok_def)
  then show ?thesis unfolding pump_chunk_def using ph by (intro uploads_top [OF u]) (auto simp: pump_ok_def)
qed

lemma uploads_written:
  assumes u: "uploads_ok evs y" "k < length (y_pumps y)" and ph: "pu_phase (y_pumps y ! k) = AwaitWrite g"
  shows "uploads_ok (evs @ [PumpWritten k]) (pump_written y k g)"
proof -
  have "pump_ok (y_conn y) (given evs k) (y_pumps y ! k)" using u by (simp add: uploads_ok_def)
  then show ?thesis unfolding pump_written_def using ph by (intro uploads_top [OF u]) (auto simp: pump_ok_def)
qed

lemma uploads_conn:
  assumes u: "uploads_ok evs y" "k < length (y_pumps y)" and ph: "pu_phase (y_pumps y ! k) = AwaitConn"
  shows "uploads_ok (evs @ [PumpConn k]) (pump_conn y k)"
  unfolding pump_conn_def Let_def by (rule uploads_set [OF u]) (use ph in \<open>simp_all add: pump_ok_def\<close>)

lemma uploads_ended:
  assumes u: "uploads_ok evs y" "k < length (y_pumps y)"
  shows "uploads_ok (evs @ [PumpEnded k]) (pump_ended y k)" "uploads_ok (evs @ [PumpError k e]) (pump_error y k e)"
  unfolding pump_ended_def pump_error_def Let_def by (rule uploads_set [OF u _ pump_finished]; simp)+

lemma keep_request: "keep (y_conn y) (y_conn (request_abort y r e))" "y_pumps (request_abort y r e) = y_pumps y"
  "y_conn (request_start y init ab) = y_conn y" "y_pumps (request_start y init ab) = y_pumps y"
  by (simp_all add: request_abort_def request_start_def set_request_def Let_def split: request_phase.split)

lemma uploads_step:
  assumes "uploads_ok evs y" "fire pf y ev = Some y'"
  shows "uploads_ok (evs @ [ev]) y'"
proof -
  note keeps = uploads_keep [OF assms(1)] and resumes = uploads_resume [OF assms(1)]
  note pumps = uploads_chunk [OF assms(1)] uploads_written [OF assms(1)] uploads_conn [OF assms(1)] uploads_ended [OF assms(1)]
    uploads_stream [OF assms(1)] uploads_end [OF assms(1)]
  show ?thesis using assms(2)
    by (cases ev; ((auto simp: with_conn_def keep_request split: if_splits intro!: keeps; fail)
      | (auto simp: in_phase_def split: if_splits pump_phase.splits intro: pumps resumes)))
qed

lemma uploads_history: "history pf opts evs y \<Longrightarrow> uploads_ok evs y"
proof (induction rule: history.induct)
  case (history_start c)
  then have "datas c = []" by (auto simp: new_H2Connection_def datas_def send_def writeRaw_def Let_def split: if_splits)
  then show ?case by (simp add: uploads_ok_def given_def sent_on_def ended_on_def)
qed (rule uploads_step)

lemma pump_ok_sent:
  "pump_ok c G p \<Longrightarrow> prefix (sent_on (pump_id c p) c) G \<and> (ended_on (pump_id c p) c \<or> pu_phase p = NeedChunk \<longrightarrow> sent_on (pump_id c p) c = G)"
  by (cases "pu_phase p") (auto simp: pump_ok_def prefix_def)

text \<open>An upload of one chunk on a fresh connection, from the call to END_STREAM.\<close>

definition upload_init :: request_init where
  "upload_init = (rq_init example_request)\<lparr>ri_body := StreamBody\<rparr>"

definition upload_events :: "event list" where
  "upload_events = [RequestStart upload_init None, RequestReady 0 True, PumpChunk 0 [0, 0, 0, 0, 1, 9], PumpConn 0, PumpStream 0,
     PumpWritten 0, PumpEnd 0]"

fun play :: "platform \<Rightarrow> h2sys \<Rightarrow> event list \<Rightarrow> h2sys option" where
  "play pf y [] = Some y"
| "play pf y (ev # evs) = (case fire pf y ev of None \<Rightarrow> None | Some y' \<Rightarrow> play pf y' evs)"

lemma history_play: "history pf opts evs y \<Longrightarrow> play pf y evs' = Some y' \<Longrightarrow> history pf opts (evs @ evs') y'"
proof (induction evs' arbitrary: evs y)
  case (Cons ev evs')
  then obtain y1 where "fire pf y ev = Some y1" "play pf y1 evs' = Some y'" by (auto split: option.splits)
  with Cons.IH [OF history_step [OF Cons.prems(1)]] show ?case by simp
qed simp

lemma upload_pumped:
  assumes c: "\<not> c_closedFlag c" "c_objs c = [new_H2Stream 1 65535 Open w]" "c_connSendWindow c = new_SendWindow 65535"
      "rs_maxFrameSize (c_remote c) = 16384" "c_streams c = [(1, 0)]"
  shows "\<exists>y. play pf \<lparr>y_conn = c, y_requests = rqs, y_pumps = [\<lparr>pu_addr = 0, pu_chunk = [], pu_offset = 0, pu_phase = NeedChunk\<rparr>]\<rparr>
      [PumpChunk 0 [0, 0, 0, 0, 1, 9], PumpConn 0, PumpStream 0, PumpWritten 0, PumpEnd 0] = Some y \<and>
     length (y_pumps y) = 1 \<and> pu_addr (y_pumps y ! 0) = 0 \<and> st_id (obj (y_conn y) 0) = 1 \<and> ended_on 1 (y_conn y)"
  by (simp add: c in_phase_def pump_chunk_def pump_top_def pump_conn_def pump_stream_def pump_grant_def pump_written_def pump_end_def
      send_slice_def send_def writeRaw_def send_closed_def set_pump_def wait_conn_def wait_stream_def new_SendWindow_def
      sw_waitPositive_def sw_consume_def new_H2Stream_def obj_def upd_obj_def get_stream_def ended_on_def datas_def)

lemma upload_example:
  "\<exists>y. history ascii_platform default_options upload_events y \<and>
     length (y_pumps y) = 1 \<and> pu_addr (y_pumps y ! 0) = 0 \<and> st_id (obj (y_conn y) 0) = 1 \<and> ended_on 1 (y_conn y)"
proof -
  let ?rq = "example_request\<lparr>rq_init := upload_init\<rparr>"
  let ?y0 = "\<lparr>y_conn = fresh_conn, y_requests = [], y_pumps = []\<rparr>"
  let ?y1 = "\<lparr>y_conn = fresh_conn, y_requests = [?rq], y_pumps = []\<rparr>"
  let ?c1 = "reserve_stream fresh_conn"
  let ?pumps = "[\<lparr>pu_addr = 0, pu_chunk = [], pu_offset = 0, pu_phase = NeedChunk\<rparr>]"
  have start: "fire ascii_platform ?y0 (RequestStart upload_init None) = Some ?y1"
    by (simp add: request_start_def request_check_def example_request_def upload_init_def fresh_conn_fields)
  have c1: "c_streams ?c1 = [(1, 0)]" "\<not> c_closedFlag ?c1" "c_objs ?c1 = [new_H2Stream 1 65535 Open (1024 * 1024)]"
    "rs_maxFrameSize (c_remote ?c1) = 16384" "c_connSendWindow ?c1 = new_SendWindow 65535"
    by (simp_all add: reserve_stream_def Let_def fresh_conn_fields)
  have "0 < rs_maxFrameSize (c_remote ?c1)" by (simp add: c1(4))
  from sendHeaders_total [OF this] obtain c2 where
    c2: "sendHeaders ascii_platform ?c1 1 (buildRequestHeaders ascii_platform upload_init) False = Some c2" by blast
  obtain rqs where res: "request_resume ascii_platform ?y1 0 True =
      Some \<lparr>y_conn = mark_sent c2 0 True, y_requests = rqs, y_pumps = ?pumps\<rparr>"
    using c2
    by (simp add: request_resume_def request_loop_def request_check_def canOpenStream_def open_stream_def
        set_request_def example_request_def upload_init_def fresh_conn_fields)
  have "history ascii_platform default_options [] ?y0" by (rule history_start [OF fresh_conn_new])
  moreover have "play ascii_platform ?y0 [RequestStart upload_init None, RequestReady 0 True] =
      Some \<lparr>y_conn = mark_sent c2 0 True, y_requests = rqs, y_pumps = ?pumps\<rparr>"
    using start res by (simp add: example_request_def)
  ultimately have h: "history ascii_platform default_options [RequestStart upload_init None, RequestReady 0 True]
      \<lparr>y_conn = mark_sent c2 0 True, y_requests = rqs, y_pumps = ?pumps\<rparr>" using history_play by fastforce
  note s = sendHeaders_streams [OF c2]
  have "\<exists>y. play ascii_platform \<lparr>y_conn = mark_sent c2 0 True, y_requests = rqs, y_pumps = ?pumps\<rparr>
      [PumpChunk 0 [0, 0, 0, 0, 1, 9], PumpConn 0, PumpStream 0, PumpWritten 0, PumpEnd 0] = Some y \<and>
     length (y_pumps y) = 1 \<and> pu_addr (y_pumps y ! 0) = 0 \<and> st_id (obj (y_conn y) 0) = 1 \<and> ended_on 1 (y_conn y)"
    by (rule upload_pumped [where w = "1024 * 1024"])
       (use c1 s in \<open>simp_all add: mark_sent_def upd_obj_def obj_def core_def new_H2Stream_def\<close>)
  then show ?thesis using history_play [OF h] unfolding upload_events_def by fastforce
qed

subsection \<open>The property\<close>

text \<open>C5: An upload arrives as it was given: over every history of a connection, the DATA frames written for the stream of a
  request body carry a prefix of the bytes the body produced, each byte once and in order, whatever frames, window updates,
  resets, other uploads and aborts come in between; when the pump asks for the next chunk all bytes so far are written, and
  END_STREAM is only written after all of them.\<close>

theorem upload_in_order:
  assumes "history pf opts evs y" and "k < length (y_pumps y)"
  shows "let c = y_conn y; p = y_pumps y ! k; sid = st_id (obj c (pu_addr p)) in
     prefix (sent_on sid c) (given evs k) \<and>
     (ended_on sid c \<or> pu_phase p = NeedChunk \<longrightarrow> sent_on sid c = given evs k)"
  using uploads_history [OF assms(1)] assms(2) by (simp add: Let_def uploads_ok_def pump_ok_sent)

theorem upload_in_order_witness:
  "\<exists>y. history ascii_platform default_options upload_events y \<and> sent_on 1 (y_conn y) = [0, 0, 0, 0, 1, 9] \<and> ended_on 1 (y_conn y)"
proof -
  obtain y where y: "history ascii_platform default_options upload_events y" "length (y_pumps y) = 1" "pu_addr (y_pumps y ! 0) = 0"
      "st_id (obj (y_conn y) 0) = 1" "ended_on 1 (y_conn y)" using upload_example by blast
  then have "sent_on 1 (y_conn y) = given upload_events 0"
    using upload_in_order [OF y(1), of 0] by (simp add: Let_def)
  then show ?thesis using y by (auto simp: given_def upload_events_def)
qed

end
