(* ===== verification/Framing.thy ===== *)
theory Framing
  imports H2_Stream
begin

text \<open>
  \<^verbatim>\<open>web/src/framing.ts\<close>: gRPC message framing on top of a response body, and the check of the
  final status. \<open>connect_error\<close> is a \<^verbatim>\<open>ConnectError\<close>: its status code (the number of the gRPC code),
  its message and its metadata.

  The generator \<^verbatim>\<open>unframe\<close> is the list of records it yields together with how it ends; its inner
  loop only makes progress while the current buffer has room, so it returns an \<open>option\<close>, and it is
  proved to return from every state the generator can be in. \<open>records\<close> is the reference
  definition: it reads the concatenated bytes with no regard to chunks.
\<close>

record connect_error =
  ce_code :: nat
  ce_message :: jsstring
  ce_metadata :: header_object

definition new_ConnectError :: "string \<Rightarrow> nat \<Rightarrow> connect_error" where
  "new_ConnectError msg code = \<lparr>ce_code = code, ce_message = js msg, ce_metadata = (\<lambda>_. None)\<rparr>"

abbreviation (input) Canceled :: nat where "Canceled \<equiv> 1"
abbreviation (input) Unknown :: nat where "Unknown \<equiv> 2"
abbreviation (input) DeadlineExceeded :: nat where "DeadlineExceeded \<equiv> 4"
abbreviation (input) ResourceExhausted :: nat where "ResourceExhausted \<equiv> 8"
abbreviation (input) Unimplemented :: nat where "Unimplemented \<equiv> 12"
abbreviation (input) Unavailable :: nat where "Unavailable \<equiv> 14"
abbreviation (input) DataLoss :: nat where "DataLoss \<equiv> 15"

definition MAX_MESSAGE :: nat where "MAX_MESSAGE = 1024 * 1024"

definition too_large :: connect_error where
  "too_large = new_ConnectError ''Message exceeds 1 MiB'' ResourceExhausted"

definition compressed :: connect_error where
  "compressed = new_ConnectError ''Compressed messages are unsupported'' Unimplemented"

definition truncated :: connect_error where
  "truncated = new_ConnectError ''Truncated gRPC record'' DataLoss"

subsection \<open>frame\<close>

definition grpc_frame :: "byte list \<Rightarrow> connect_error + byte list" where
  "grpc_frame data =
     (if length data > MAX_MESSAGE then Inl too_large
      else let result = replicate (5 + length data) 0;
               result = set_at result (be32 (length data)) 1
           in Inr (set_at result data 5))"

subsection \<open>unframe\<close>

record unframer =
  u_current :: "byte list"
  u_offset :: nat
  u_readingHeader :: bool

definition new_unframer :: unframer where
  "new_unframer = \<lparr>u_current = replicate 5 0, u_offset = 0, u_readingHeader = True\<rparr>"

definition fill :: "unframer \<Rightarrow> byte list \<Rightarrow> unframer" where
  "fill u bytes = u\<lparr>u_current := set_at (u_current u) bytes (u_offset u), u_offset := u_offset u + length bytes\<rparr>"

definition record_length :: "unframer \<Rightarrow> connect_error + nat" where
  "record_length u =
     (if u_current u ! 0 \<noteq> 0 then Inl compressed
      else let len = be_value (take 4 (drop 1 (u_current u))) in
           if len > MAX_MESSAGE then Inl too_large else Inr len)"

text \<open>The loop \<^verbatim>\<open>while (position < value.length)\<close>.\<close>

partial_function (option) unframe_loop ::
  "unframer \<Rightarrow> byte list \<Rightarrow> nat \<Rightarrow> (byte list list \<times> (connect_error + unframer)) option" where
  "unframe_loop u val position =
     (if position < length val then
        let n = min (length (u_current u) - u_offset u) (length val - position);
            u1 = fill u (take n (drop position val));
            position1 = position + n
        in if u_offset u1 \<noteq> length (u_current u1) then unframe_loop u1 val position1
           else if u_readingHeader u1 then
             (case record_length u1 of
                Inl e \<Rightarrow> Some ([], Inl e)
              | Inr len \<Rightarrow>
                  if len \<noteq> 0
                  then unframe_loop \<lparr>u_current = replicate len 0, u_offset = 0, u_readingHeader = False\<rparr> val position1
                  else Option.bind (unframe_loop new_unframer val position1) (\<lambda>(ms, r). Some ([] # ms, r)))
           else Option.bind (unframe_loop new_unframer val position1) (\<lambda>(ms, r). Some (u_current u1 # ms, r))
      else Some ([], Inr u))"

fun unframe_run ::
  "unframer \<Rightarrow> byte list list \<Rightarrow> (byte list list \<times> (connect_error + unframer)) option" where
  "unframe_run u [] = Some ([], Inr u)"
| "unframe_run u (val # chunks) =
     Option.bind (unframe_loop u val 0) (\<lambda>(ms, r).
       case r of
         Inl e \<Rightarrow> Some (ms, Inl e)
       | Inr u1 \<Rightarrow> Option.bind (unframe_run u1 chunks) (\<lambda>(ns, r). Some (ms @ ns, r)))"

text \<open>The whole generator on a body that delivers \<open>chunks\<close> and then ends.\<close>

definition unframe_finish :: "unframer \<Rightarrow> connect_error option" where
  "unframe_finish u = (if u_offset u \<noteq> 0 \<or> \<not> u_readingHeader u then Some truncated else None)"

definition unframe :: "byte list list \<Rightarrow> (byte list list \<times> connect_error option) option" where
  "unframe chunks = Option.bind (unframe_run new_unframer chunks) (\<lambda>(ms, r).
     Some (ms, case r of Inl e \<Rightarrow> Some e | Inr u \<Rightarrow> unframe_finish u))"

subsection \<open>validateStatus\<close>

text \<open>\<^verbatim>\<open>decodeURIComponent\<close>: \<^verbatim>\<open>%XX\<close> escapes are the octets of UTF-8 sequences, decoded strictly; every
  malformed escape, over-long form, surrogate or value above U+10FFFF is a \<^verbatim>\<open>URIError\<close> (\<open>None\<close>).\<close>

definition hex_value :: "codeunit \<Rightarrow> nat option" where
  "hex_value u =
     (let c = unat u in
      if 48 \<le> c \<and> c \<le> 57 then Some (c - 48)
      else if 65 \<le> c \<and> c \<le> 70 then Some (c - 55)
      else if 97 \<le> c \<and> c \<le> 102 then Some (c - 87)
      else None)"

fun escape_octet :: "jsstring \<Rightarrow> (nat \<times> jsstring) option" where
  "escape_octet (p # h # l # rest) =
     (if p = 37 then
        (case (hex_value h, hex_value l) of (Some a, Some b) \<Rightarrow> Some (16 * a + b, rest) | _ \<Rightarrow> None)
      else None)"
| "escape_octet _ = None"

fun continuation_octets :: "nat \<Rightarrow> nat \<Rightarrow> jsstring \<Rightarrow> (nat \<times> jsstring) option" where
  "continuation_octets 0 acc s = Some (acc, s)"
| "continuation_octets (Suc k) acc s =
     (case escape_octet s of
        Some (b, rest) \<Rightarrow> if b div 64 = 2 then continuation_octets k (64 * acc + b mod 64) rest else None
      | None \<Rightarrow> None)"

definition scalar_ok :: "nat \<Rightarrow> nat \<Rightarrow> bool" where
  "scalar_ok k c \<longleftrightarrow>
     (if k = 1 then 0x80 \<le> c else if k = 2 then 0x800 \<le> c \<and> \<not> (0xD800 \<le> c \<and> c \<le> 0xDFFF)
      else 0x10000 \<le> c \<and> c \<le> 0x10FFFF)"

definition escape_char :: "jsstring \<Rightarrow> (jsstring \<times> jsstring) option" where
  "escape_char s =
     (case escape_octet s of
        None \<Rightarrow> None
      | Some (b, rest) \<Rightarrow>
          if b < 0x80 then Some (utf16_cp b, rest)
          else let (k, acc) = (if b div 32 = 6 then (1, b mod 32) else if b div 16 = 14 then (2, b mod 16)
                               else if b div 8 = 30 then (3, b mod 8) else (0, 0)) in
               if k = 0 then None
               else case continuation_octets k acc rest of
                      Some (c, rest') \<Rightarrow> if scalar_ok k c then Some (utf16_cp c, rest') else None
                    | None \<Rightarrow> None)"

lemma escape_octet_shorter: "escape_octet s = Some (b, rest) \<Longrightarrow> length rest < length s"
  by (cases s rule: escape_octet.cases) (auto split: if_splits option.splits)

lemma continuation_octets_shorter: "continuation_octets k acc s = Some (c, rest) \<Longrightarrow> length rest \<le> length s"
  by (induction k arbitrary: acc s)
     (auto split: option.splits prod.splits if_splits dest: escape_octet_shorter, meson escape_octet_shorter less_imp_le order_trans)

lemma escape_char_shorter: "escape_char s = Some (c, rest) \<Longrightarrow> length rest < length s"
  by (auto simp: escape_char_def split: option.splits prod.splits if_splits
      dest!: escape_octet_shorter continuation_octets_shorter)

function decodeURIComponent :: "jsstring \<Rightarrow> jsstring option" where
  "decodeURIComponent [] = Some []"
| "decodeURIComponent (u # us) =
     (if u \<noteq> 37 then map_option (Cons u) (decodeURIComponent us)
      else case escape_char (u # us) of
             None \<Rightarrow> None
           | Some (c, rest) \<Rightarrow> map_option (append c) (decodeURIComponent rest))"
  by pat_completeness auto
termination
  by (relation "measure length") (auto dest: escape_char_shorter)

text \<open>The regular expression \<^verbatim>\<open>^(?:[0-9]|1[0-6])$\<close>, and \<^verbatim>\<open>validateStatus\<close>: the trailers are absent when
  there was no trailer block.\<close>

definition status_pattern :: "jsstring \<Rightarrow> bool" where
  "status_pattern raw \<longleftrightarrow>
     (case raw of
        [d] \<Rightarrow> js_digit d
      | [d, e] \<Rightarrow> d = 49 \<and> 48 \<le> unat e \<and> unat e \<le> 54
      | _ \<Rightarrow> False)"

definition trailer_or_header :: "header_object \<Rightarrow> header_object option \<Rightarrow> jsstring \<Rightarrow> jsstring option" where
  "trailer_or_header headers trailers name =
     (case Option.bind trailers (\<lambda>t. t name) of Some v \<Rightarrow> Some v | None \<Rightarrow> headers name)"

definition validateStatus :: "header_object \<Rightarrow> header_object option \<Rightarrow> connect_error option" where
  "validateStatus headers trailers =
     (case trailer_or_header headers trailers (js ''grpc-status'') of
        None \<Rightarrow> Some (new_ConnectError ''Missing grpc-status'' Unknown)
      | Some raw \<Rightarrow>
          if \<not> status_pattern raw then Some (new_ConnectError ''Invalid grpc-status'' Unknown)
          else if raw \<noteq> js ''0'' then
            let encoded = (case trailer_or_header headers trailers (js ''grpc-message'') of
                             Some m \<Rightarrow> m | None \<Rightarrow> js ''RPC failed'');
                message = (case decodeURIComponent encoded of Some m \<Rightarrow> m | None \<Rightarrow> encoded)
            in Some \<lparr>ce_code = nat (decimal raw), ce_message = message,
                     ce_metadata = headers ++ (case trailers of Some t \<Rightarrow> t | None \<Rightarrow> (\<lambda>_. None))\<rparr>
          else None)"

subsection \<open>Reference reader\<close>

text \<open>The records of a byte sequence, and the error or the bytes of the unfinished record.\<close>

definition record_at :: "byte list \<Rightarrow> (connect_error + byte list \<times> byte list) option" where
  "record_at bs =
     (if length bs < 5 then None
      else if hd bs \<noteq> 0 then Some (Inl compressed)
      else let len = be_value (take 4 (tl bs)) in
           if len > MAX_MESSAGE then Some (Inl too_large)
           else if length bs < 5 + len then None
           else Some (Inr (take len (drop 5 bs), drop (5 + len) bs)))"

function records :: "byte list \<Rightarrow> byte list list \<times> (connect_error + byte list)" where
  "records bs =
     (case record_at bs of
        None \<Rightarrow> ([], Inr bs)
      | Some (Inl e) \<Rightarrow> ([], Inl e)
      | Some (Inr (m, rest)) \<Rightarrow> (case records rest of (ms, r) \<Rightarrow> (m # ms, r)))"
  by auto
termination
  by (relation "measure length") (auto simp: record_at_def Let_def split: if_splits)

declare records.simps [simp del]

definition read_records :: "byte list \<Rightarrow> byte list list \<times> connect_error option" where
  "read_records bs = (case records bs of (ms, r) \<Rightarrow>
     (ms, case r of Inl e \<Rightarrow> Some e | Inr rest \<Rightarrow> if rest = [] then None else Some truncated))"


subsection \<open>The chunked reader against the reference\<close>

text \<open>The bytes of the unfinished record that a reader state stands for, and the states of the generator
  between two iterations.\<close>

definition pend :: "unframer \<Rightarrow> byte list" where
  "pend u = (if u_readingHeader u then take (u_offset u) (u_current u)
     else 0 # be32 (length (u_current u)) @ take (u_offset u) (u_current u))"

definition uok :: "unframer \<Rightarrow> bool" where
  "uok u \<longleftrightarrow> u_offset u < length (u_current u) \<and>
     (if u_readingHeader u then length (u_current u) = 5 else length (u_current u) \<le> MAX_MESSAGE)"

fun same_state :: "connect_error + unframer \<Rightarrow> connect_error + byte list \<Rightarrow> bool" where
  "same_state (Inl e) r \<longleftrightarrow> r = Inl e"
| "same_state (Inr u) r \<longleftrightarrow> uok u \<and> r = Inr (pend u)"

lemma new_unframer_ok [simp]: "uok new_unframer" "pend new_unframer = []"
  by (simp_all add: uok_def pend_def new_unframer_def)

lemma max_message_less: "n \<le> MAX_MESSAGE \<Longrightarrow> n < 4294967296"
  by (simp add: MAX_MESSAGE_def)

lemma be32_be_value: "length bs = 4 \<Longrightarrow> be32 (be_value bs) = bs"
proof -
  assume "length bs = 4"
  then obtain a b c d where bs: "bs = [a, b, c, d]"
    by (auto simp: length_Suc_conv eval_nat_numeral)
  have dv: "(A * 256 + unat x) div 256 = A" for A and x :: byte using unat_byte_less [of x] by linarith
  have md: "(of_nat (A * 256 + unat x) :: byte) = x" for A and x :: byte
  proof -
    have "unat (of_nat (A * 256 + unat x) :: byte) = unat x" by (simp only: unat_of_nat_byte) simp
    then show ?thesis by (simp only: word_unat_eq_iff)
  qed
  let ?v = "((unat a * 256 + unat b) * 256 + unat c) * 256 + unat d"
  have v: "be_value bs = ?v" by (simp add: bs be_value_def)
  have d1: "?v div 256 = (unat a * 256 + unat b) * 256 + unat c" by (rule dv)
  have k: "(65536 :: nat) = 256 * 256" "(16777216 :: nat) = 256 * 256 * 256" by simp_all
  have d2: "?v div 65536 = unat a * 256 + unat b" unfolding k by (simp only: div_mult2_eq dv)
  have d3: "?v div 16777216 = unat a" unfolding k by (simp only: div_mult2_eq dv)
  have "be32 (be_value bs) = [of_nat (?v div 16777216), of_nat (?v div 65536), of_nat (?v div 256), of_nat ?v]"
    by (simp add: v be32_def drop_bit_eq_div)
  also have "\<dots> = bs" by (simp only: d1 d2 d3 md of_nat_unat_byte bs)
  finally show ?thesis .
qed

lemma record_at_pend: "uok u \<Longrightarrow> record_at (pend u) = None"
  by (auto simp: record_at_def pend_def uok_def max_message_less Let_def)

lemma record_at_record:
  "length m \<le> MAX_MESSAGE \<Longrightarrow> record_at (0 # be32 (length m) @ m @ tail) = Some (Inr (m, tail))"
  using drop_drop [of "length m" 5 "0 # be32 (length m) @ m @ tail"]
  by (simp add: record_at_def max_message_less Let_def add.commute)

lemma fill_current:
  "u_offset u + length bs \<le> length (u_current u) \<Longrightarrow>
   u_current (fill u bs) = take (u_offset u) (u_current u) @ bs @ drop (u_offset u + length bs) (u_current u)"
  by (simp add: fill_def set_at_def)

lemma fill_simps [simp]:
  "u_offset (fill u bs) = u_offset u + length bs" "u_readingHeader (fill u bs) = u_readingHeader u"
  by (simp_all add: fill_def)

lemma fill_partial:
  assumes "uok u" "u_offset u + length bs < length (u_current u)"
  shows "uok (fill u bs) \<and> pend (fill u bs) = pend u @ bs"
  using assms by (auto simp: uok_def pend_def fill_current)

lemma header_complete:
  assumes "length h = 5" "u_current u = h"
  shows "record_at (h @ tail) =
     (case record_length u of Inl e \<Rightarrow> Some (Inl e)
      | Inr len \<Rightarrow> if length tail < len then None else Some (Inr (take len tail, drop len tail)))"
proof -
  have "drop (5 + k) (h @ tail) = drop k tail" for k
    using assms(1) drop_drop [of k 5 "h @ tail"] by (simp add: add.commute)
  with assms show ?thesis by (cases h) (auto simp: record_at_def record_length_def Let_def)
qed

lemma record_length_Inr:
  assumes "length (u_current u) = 5" "record_length u = Inr len"
  shows "u_current u = 0 # be32 len" "len \<le> MAX_MESSAGE"
  using assms by (cases "u_current u"; auto simp: record_length_def Let_def be32_be_value split: if_splits)+

text \<open>One chunk: the loop returns, yields the records that the reference reads from the unfinished record
  and the chunk, and stops where the reference stops.\<close>

lemma unframe_loop_records:
  assumes "uok u" and "position \<le> length val"
  shows "\<exists>r. unframe_loop u val position = Some (fst (records (pend u @ drop position val)), r) \<and>
     same_state r (snd (records (pend u @ drop position val)))"
  using assms
proof (induction "length val - position" arbitrary: u position rule: less_induct)
  case less
  show ?case
  proof (cases "position < length val")
    case False
    with less.prems show ?thesis
      by (simp add: unframe_loop.simps records.simps [of "pend u"] record_at_pend)
  next
    case True
    define n where "n = min (length (u_current u) - u_offset u) (length val - position)"
    define bs where "bs = take n (drop position val)"
    define u1 where "u1 = fill u bs"
    let ?tail = "drop (position + n) val"
    have n: "0 < n" "length bs = n" "u_offset u + n \<le> length (u_current u)" "position + n \<le> length val"
      using True less.prems(1) by (auto simp: n_def bs_def uok_def)
    have val: "drop position val = bs @ ?tail"
      by (simp add: bs_def add.commute flip: drop_drop)
    have smaller: "length val - (position + n) < length val - position" using n(1) True by linarith
    note IH = less.hyps [OF smaller _ n(4)]
    have step: "unframe_loop u val position =
        (if u_offset u1 \<noteq> length (u_current u1) then unframe_loop u1 val (position + n)
         else if u_readingHeader u then
           (case record_length u1 of
              Inl e \<Rightarrow> Some ([], Inl e)
            | Inr len \<Rightarrow>
                if len \<noteq> 0
                then unframe_loop \<lparr>u_current = replicate len 0, u_offset = 0, u_readingHeader = False\<rparr> val (position + n)
                else Option.bind (unframe_loop new_unframer val (position + n)) (\<lambda>(ms, r). Some ([] # ms, r)))
         else Option.bind (unframe_loop new_unframer val (position + n)) (\<lambda>(ms, r). Some (u_current u1 # ms, r)))"
      using True by (subst unframe_loop.simps) (simp only: Let_def u1_def bs_def n_def if_True fill_simps)
    show ?thesis
    proof (cases "u_offset u + n = length (u_current u)")
      case False
      with n have "uok u1 \<and> pend u1 = pend u @ bs" unfolding u1_def by (intro fill_partial less.prems) simp
      moreover have "length (u_current u1) = length (u_current u)" using n by (simp add: u1_def fill_current)
      ultimately show ?thesis using IH [of u1] True False n(2)
        by (simp add: step val u1_def)
    next
      case full: True
      have cur: "u_current u1 = take (u_offset u) (u_current u) @ bs" and full1: "u_offset u1 = length (u_current u1)"
        using full n by (simp_all add: u1_def fill_current)
      note IHnew = IH [of new_unframer, simplified]
      show ?thesis
      proof (cases "u_readingHeader u")
        case header: True
        have h: "length (u_current u1) = 5" using full less.prems(1) header n cur by (simp add: uok_def)
        have pend: "pend u @ drop position val = u_current u1 @ ?tail"
          using header cur val by (simp add: pend_def)
        show ?thesis
        proof (cases "record_length u1")
          case (Inl e)
          with header full1 show ?thesis
            by (simp add: step pend records.simps [of "_ @ _"] header_complete [OF h refl])
        next
          case (Inr len)
          note rl = record_length_Inr [OF h Inr]
          show ?thesis
          proof (cases "len = 0")
            case zero: True
            with Inr show ?thesis using IHnew header full1
              by (auto simp: step pend records.simps [of "_ @ _"] header_complete [OF h refl] split: prod.splits)
          next
            case False
            let ?u2 = "\<lparr>u_current = replicate len 0, u_offset = 0, u_readingHeader = False\<rparr>"
            have "uok ?u2" "pend ?u2 = u_current u1" using rl False by (simp_all add: uok_def pend_def)
            with Inr IH [of ?u2] header full1 False show ?thesis by (simp add: step pend)
          qed
        qed
      next
        case body: False
        have pend: "pend u @ drop position val = 0 # be32 (length (u_current u1)) @ u_current u1 @ ?tail"
          using body cur val full n by (simp add: pend_def)
        have "length (u_current u1) \<le> MAX_MESSAGE" using less.prems(1) body cur full n by (simp add: uok_def)
        then show ?thesis using IHnew body full1
          by (auto simp: step pend records.simps [of "_ # _"] record_at_record split: prod.splits)
      qed
    qed
  qed
qed

text \<open>A whole body: the records of its chunks are the records of their concatenation.\<close>

lemma record_at_append:
  assumes "record_at a = Some r"
  shows "record_at (a @ b) = Some (case r of Inl e \<Rightarrow> Inl e | Inr (m, rest) \<Rightarrow> Inr (m, rest @ b))"
proof -
  have len: "\<not> length a < 5" using assms by (auto simp: record_at_def)
  then have a: "hd (a @ b) = hd a" "take 4 (tl (a @ b)) = take 4 (tl a)" "\<not> length (a @ b) < 5"
    by (cases a; simp)+
  show ?thesis
    using assms unfolding record_at_def Let_def a
    by (simp only: len if_False split: if_splits) (use len in auto)
qed

lemma records_append:
  "records (a @ b) = (case records a of
      (ms, Inl e) \<Rightarrow> (ms, Inl e)
    | (ms, Inr rest) \<Rightarrow> (case records (rest @ b) of (ns, r) \<Rightarrow> (ms @ ns, r)))"
proof (induction a rule: records.induct)
  case (1 a)
  show ?case
  proof (cases "record_at a")
    case None
    then show ?thesis by (simp add: records.simps [of a] split: prod.splits)
  next
    case (Some res)
    then show ?thesis
      using 1 record_at_append [OF Some, of b]
      by (cases res) (auto simp: records.simps [of a] records.simps [of "a @ b"] split: prod.splits sum.splits)
  qed
qed

lemma unframe_run_records:
  assumes "uok u"
  shows "\<exists>r. unframe_run u chunks = Some (fst (records (pend u @ concat chunks)), r) \<and>
     same_state r (snd (records (pend u @ concat chunks)))"
  using assms
proof (induction chunks arbitrary: u)
  case Nil
  then show ?case by (simp add: records.simps [of "pend u"] record_at_pend)
next
  case (Cons val chunks)
  obtain r where r: "unframe_loop u val 0 = Some (fst (records (pend u @ val)), r)"
    "same_state r (snd (records (pend u @ val)))"
    using unframe_loop_records [OF Cons.prems, of 0 val] by auto
  show ?case
  proof (cases r)
    case (Inl e)
    with r show ?thesis
      by (auto simp: records_append [of "pend u @ val", simplified] split: prod.splits sum.splits)
  next
    case (Inr u1)
    with r Cons.IH [of u1] show ?thesis
      by (auto simp: records_append [of "pend u @ val", simplified] split: prod.splits sum.splits)
  qed
qed

lemma unframe_eq: "unframe chunks = Some (read_records (concat chunks))"
proof -
  obtain r where r: "unframe_run new_unframer chunks = Some (fst (records (concat chunks)), r)"
    "same_state r (snd (records (concat chunks)))"
    using unframe_run_records [of new_unframer chunks] by auto
  then show ?thesis
    by (cases r) (auto simp: unframe_def read_records_def unframe_finish_def uok_def pend_def split: prod.splits)
qed

subsection \<open>Properties\<close>

lemma grpc_frame_bytes: "length m \<le> MAX_MESSAGE \<Longrightarrow> grpc_frame m = Inr (0 # be32 (length m) @ m)"
  by (simp add: grpc_frame_def set_at_def eval_nat_numeral be32_def Let_def)

lemma read_framed:
  "list_all (\<lambda>m. length m \<le> MAX_MESSAGE) ms \<Longrightarrow>
   read_records (concat (map (\<lambda>m. 0 # be32 (length m) @ m) ms) @ rest) =
     (case read_records rest of (ns, e) \<Rightarrow> (ms @ ns, e))"
  by (induction ms)
     (auto simp: read_records_def records.simps [of "_ # _"] record_at_record split: prod.splits)

lemma read_records_partial: "record_at rest = None \<Longrightarrow> read_records rest = ([], if rest = [] then None else Some truncated)"
  by (simp add: read_records_def records.simps [of rest])

text \<open>GRPC framing loses nothing, whatever the chunks: messages of at most 1 MiB are framed, and when the
  framed bytes, followed by \<open>rest\<close>, the bytes of an unfinished record, arrive cut into chunks in any
  way, \<^verbatim>\<open>unframe\<close> returns after yielding exactly those messages, with no error if nothing follows
  them and with the error DATA_LOSS if the stream ended inside a record.\<close>

theorem framing_roundtrip:
  assumes "list_all (\<lambda>m. length m \<le> MAX_MESSAGE) ms" and "record_at rest = None"
    and "concat chunks = concat (map (\<lambda>m. projr (grpc_frame m)) ms) @ rest"
  shows "unframe chunks = Some (ms, if rest = [] then None else Some truncated)"
proof -
  have "map (\<lambda>m. projr (grpc_frame m)) ms = map (\<lambda>m. 0 # be32 (length m) @ m) ms"
    using assms(1) by (auto simp: list_all_iff grpc_frame_bytes)
  with assms show ?thesis by (simp add: unframe_eq read_framed read_records_partial)
qed

theorem framing_roundtrip_witness:
  "unframe [[0, 0, 0], [0, 0, 0, 0, 0, 0], [2, 7, 8, 0]] = Some ([[], [7, 8]], Some truncated)"
  using framing_roundtrip [of "[[], [7, 8]]" "[0]" "[[0, 0, 0], [0, 0, 0, 0, 0, 0], [2, 7, 8, 0]]"]
  by (simp add: MAX_MESSAGE_def record_at_def grpc_frame_bytes be32_def drop_bit_eq_div)

text \<open>C28: The incremental reader is the reference reader: on every byte stream, well formed or not, and for
  every way of cutting it into chunks, \<^verbatim>\<open>unframe\<close> returns, and yields the records and ends with the
  outcome of reading the concatenated bytes record by record; no record longer than 1 MiB is ever
  yielded.\<close>

theorem unframe_reference:
  "unframe chunks = Some (read_records (concat chunks)) \<and>
   list_all (\<lambda>m. length m \<le> MAX_MESSAGE) (fst (read_records (concat chunks)))"
proof -
  have "list_all (\<lambda>m. length m \<le> MAX_MESSAGE) (fst (records bs))" for bs
  proof (induction bs rule: records.induct)
    case (1 bs)
    then show ?case
      by (subst records.simps) (auto simp: record_at_def Let_def split: prod.splits if_splits)
  qed
  from this [of "concat chunks"] show ?thesis by (auto simp: unframe_eq read_records_def split: prod.splits)
qed

lemma zero_text: "js ''0'' = [48]"
  by (simp add: js_def of_char_def)

lemma status_pattern_code:
  assumes "status_pattern raw"
  shows "0 \<le> decimal raw \<and> decimal raw \<le> 16 \<and> (raw = js ''0'' \<or> 0 < decimal raw)"
proof -
  have eq: "unat d = 48 \<Longrightarrow> d = 48" for d :: codeunit by (simp add: word_unat_eq_iff)
  consider d where "raw = [d]" "js_digit d" | e where "raw = [49, e]" "48 \<le> unat e" "unat e \<le> 54"
    using assms by (auto simp: status_pattern_def split: list.splits)
  then show ?thesis
  proof cases
    case (1 d)
    then show ?thesis using eq [of d] by (cases "unat d = 48") (auto simp: decimal_def js_digit_def zero_text simp del: of_nat_unat)
  next
    case 2
    then show ?thesis by (auto simp: decimal_def simp del: of_nat_unat)
  qed
qed

lemma status_pattern_zero: "status_pattern (js ''0'')"
  by (simp add: zero_text status_pattern_def js_digit_def)

text \<open>A call succeeds only on an explicit status 0: \<^verbatim>\<open>validateStatus\<close> accepts exactly when the trailers'
  \<^verbatim>\<open>grpc-status\<close> (or, when the trailers have none, the header's) is the text 0; otherwise the error
  it throws carries a code from 1 to 16: the received status if that is well formed, UNKNOWN if it is
  missing or malformed.\<close>

theorem status_accepted:
  "(validateStatus headers trailers = None \<longleftrightarrow>
      trailer_or_header headers trailers (js ''grpc-status'') = Some (js ''0'')) \<and>
   (case validateStatus headers trailers of None \<Rightarrow> True | Some e \<Rightarrow>
      ce_code e \<in> {1..16} \<and>
      (case trailer_or_header headers trailers (js ''grpc-status'') of
         Some raw \<Rightarrow> if status_pattern raw then int (ce_code e) = decimal raw else ce_code e = Unknown
       | None \<Rightarrow> ce_code e = Unknown))"
proof (cases "trailer_or_header headers trailers (js ''grpc-status'')")
  case None
  then show ?thesis by (simp add: validateStatus_def new_ConnectError_def)
next
  case (Some raw)
  then show ?thesis using status_pattern_code [of raw] status_pattern_zero
    by (cases "status_pattern raw")
       (auto simp: validateStatus_def new_ConnectError_def Let_def)
qed

end
