(* ===== verification/Channel.thy ===== *)
theory Channel
  imports Framing "HOL-Library.Sublist"
begin

text \<open>
  \<^verbatim>\<open>web/src/channel.ts\<close>: target labels, the WebSocket handshake, and the two byte streams over an open WebSocket.

  The WebSocket and the clock are the environment: what they report is an event or a poll. The URL is parsed by the
  platform; \<open>targets\<close> is the list of its query parameters named \<^verbatim>\<open>target\<close>.
\<close>

subsection \<open>Target labels\<close>

definition label_start :: "codeunit \<Rightarrow> bool" where
  "label_start u \<longleftrightarrow> 97 \<le> unat u \<and> unat u \<le> 122"

definition label_unit :: "codeunit \<Rightarrow> bool" where
  "label_unit u \<longleftrightarrow> label_start u \<or> js_digit u \<or> unat u = 95 \<or> unat u = 45"

text \<open>\<^verbatim>\<open>^[a-z][a-z0-9_-]{0,62}(?![\s\S])\<close>\<close>

definition TARGET_LABEL :: "jsstring \<Rightarrow> bool" where
  "TARGET_LABEL s \<longleftrightarrow> (case s of [] \<Rightarrow> False | u # us \<Rightarrow> label_start u \<and> length us \<le> 62 \<and> list_all label_unit us)"

datatype label_error = InvalidUrl | InvalidLabel | RepeatedTarget

definition targetLabel :: "jsstring list option \<Rightarrow> jsstring option \<Rightarrow> label_error + jsstring option" where
  "targetLabel targets override =
     (case targets of
        None \<Rightarrow> Inl InvalidUrl
      | Some values \<Rightarrow>
          (case override of
             Some label \<Rightarrow> if TARGET_LABEL label then Inr (Some label) else Inl InvalidLabel
           | None \<Rightarrow>
               if length values > 1 then Inl RepeatedTarget
               else case values of
                 [] \<Rightarrow> Inr None
               | label # _ \<Rightarrow> if TARGET_LABEL label then Inr (Some label) else Inl InvalidLabel))"

subsection \<open>Handshake\<close>

definition PROFILE :: jsstring where "PROFILE = js ''grpc-tunnel.v1''"

definition protocols :: "jsstring \<Rightarrow> jsstring list" where
  "protocols token = (if token \<noteq> [] then [PROFILE, js ''auth.'' @ token] else [PROFILE])"

record handshake =
  hs_result :: "(connect_error + unit) option"
  hs_timer :: bool
  hs_listening :: bool
  hs_closed :: bool

datatype hs_event = HsAbort | HsTimeout | HsOpen jsstring | HsError | HsClose

definition hs_start :: handshake where
  "hs_start = \<lparr>hs_result = None, hs_timer = True, hs_listening = True, hs_closed = False\<rparr>"

text \<open>\<^verbatim>\<open>resolve\<close> and \<^verbatim>\<open>reject\<close>: a promise settles once.\<close>

definition hs_settle :: "connect_error + unit \<Rightarrow> handshake \<Rightarrow> handshake" where
  "hs_settle r h = (if hs_result h = None then h\<lparr>hs_result := Some r\<rparr> else h)"

definition release_hs :: "handshake \<Rightarrow> handshake" where
  "release_hs h = h\<lparr>hs_timer := False, hs_listening := False\<rparr>"

fun hs_step :: "hs_event \<Rightarrow> handshake \<Rightarrow> handshake" where
  "hs_step HsAbort h =
     (if hs_listening h then
        hs_settle (Inl (new_ConnectError ''Tunnel opening canceled'' Canceled)) (h\<lparr>hs_timer := False, hs_listening := False, hs_closed := True\<rparr>)
      else h)"
| "hs_step HsTimeout h =
     (if hs_timer h then
        hs_settle (Inl (new_ConnectError ''Tunnel handshake timed out'' Unavailable)) (h\<lparr>hs_timer := False, hs_listening := False, hs_closed := True\<rparr>)
      else h)"
| "hs_step (HsOpen protocol) h =
     (if protocol \<noteq> PROFILE then
        hs_settle (Inl (new_ConnectError ''Unsupported tunnel profile'' Unavailable)) ((release_hs h)\<lparr>hs_closed := True\<rparr>)
      else hs_settle (Inr ()) (release_hs h))"
| "hs_step HsError h = hs_settle (Inl (new_ConnectError ''Tunnel handshake failed'' Unavailable)) (release_hs h)"
| "hs_step HsClose h = hs_settle (Inl (new_ConnectError ''Tunnel handshake failed'' Unavailable)) (release_hs h)"

subsection \<open>Receiving\<close>

definition MAX_QUEUE :: nat where "MAX_QUEUE = 1024 * 1024"

text \<open>The readable stream: queued chunks, chunks handed to the reader, whether a read is pending, and how it ended.\<close>

record receiver =
  rx_queue :: "byte list list"
  rx_out :: "byte list list"
  rx_pending :: bool
  rx_ended :: bool
  rx_error :: "connect_error option"
  rx_socket_closed :: bool

datatype rx_event = RxBinary "byte list" | RxText | RxClose | RxError | RxRead | RxCancel

definition rx_start :: receiver where
  "rx_start = \<lparr>rx_queue = [], rx_out = [], rx_pending = False, rx_ended = False, rx_error = None, rx_socket_closed = False\<rparr>"

definition rx_queued :: "receiver \<Rightarrow> nat" where
  "rx_queued s = sum_list (map length (rx_queue s))"

definition desiredSize :: "receiver \<Rightarrow> int" where
  "desiredSize s = int MAX_QUEUE - int (rx_queued s)"

text \<open>An errored stream drops its queue and fails the pending read.\<close>

definition rx_fail :: "string \<Rightarrow> receiver \<Rightarrow> receiver" where
  "rx_fail message s =
     (if rx_ended s then s
      else s\<lparr>rx_ended := True, rx_error := Some (new_ConnectError message Unavailable), rx_queue := [],
             rx_pending := False, rx_socket_closed := True\<rparr>)"

definition rx_enqueue :: "byte list \<Rightarrow> receiver \<Rightarrow> receiver" where
  "rx_enqueue data s =
     (if rx_pending s then s\<lparr>rx_pending := False, rx_out := rx_out s @ [data]\<rparr>
      else s\<lparr>rx_queue := rx_queue s @ [data]\<rparr>)"

definition rx_message :: "byte list \<Rightarrow> receiver \<Rightarrow> receiver" where
  "rx_message data s =
     (if rx_ended s then s
      else if int (length data) > desiredSize s then rx_fail ''Tunnel receive queue exceeded'' s
      else rx_enqueue data s)"

definition rx_read :: "receiver \<Rightarrow> receiver" where
  "rx_read s =
     (case rx_queue s of
        data # rest \<Rightarrow> s\<lparr>rx_queue := rest, rx_out := rx_out s @ [data]\<rparr>
      | [] \<Rightarrow> if rx_error s = None \<and> \<not> rx_ended s then s\<lparr>rx_pending := True\<rparr> else s)"

fun rx_step :: "rx_event \<Rightarrow> receiver \<Rightarrow> receiver" where
  "rx_step (RxBinary data) s = rx_message data s"
| "rx_step RxText s = rx_fail ''Non-binary tunnel data'' s"
| "rx_step RxClose s = rx_fail ''Tunnel closed; in-flight calls were not replayed'' s"
| "rx_step RxError s = rx_fail ''Tunnel transport failed'' s"
| "rx_step RxRead s = rx_read s"
| "rx_step RxCancel s = s\<lparr>rx_ended := True, rx_queue := [], rx_pending := False, rx_socket_closed := True\<rparr>"

subsection \<open>Sending\<close>

text \<open>One evaluation of the loop condition: \<^verbatim>\<open>bufferedAmount\<close>, whether the socket is open, and whether the 30 s deadline
  of the piece has passed. The last poll of a piece is the check after the loop.\<close>

record tx_poll =
  px_buffered :: nat
  px_open :: bool
  px_late :: bool

datatype wait_result = Ready | Stalled | SocketClosed

text \<open>The polling loop on the polls it makes; \<open>None\<close> when it is still waiting after the last of them.\<close>

fun wait_loop :: "tx_poll list \<Rightarrow> (wait_result \<times> tx_poll list) option" where
  "wait_loop [] = None"
| "wait_loop (p # ps) =
     (if px_buffered p > 65536 \<and> px_open p then (if px_late p then Some (Stalled, ps) else wait_loop ps)
      else Some (if px_open p then Ready else SocketClosed, ps))"

lemma wait_loop_shorter: "wait_loop ps = Some (r, qs) \<Longrightarrow> length qs < length ps"
  by (induction ps) (auto split: if_splits)

text \<open>The pieces sent, and \<open>None\<close> for success or the error.\<close>

function write_loop :: "byte list \<Rightarrow> nat \<Rightarrow> tx_poll list \<Rightarrow> (byte list list \<times> connect_error option) option" where
  "write_loop bytes offset polls =
     (if offset < length bytes then
        (case wait_loop polls of
           None \<Rightarrow> None
         | Some (Stalled, _) \<Rightarrow> Some ([], Some (new_ConnectError ''Tunnel send stalled'' Unavailable))
         | Some (SocketClosed, _) \<Rightarrow> Some ([], Some (new_ConnectError ''Tunnel closed'' Unavailable))
         | Some (Ready, rest) \<Rightarrow>
             map_option (\<lambda>(pieces, e). (take 16384 (drop offset bytes) # pieces, e)) (write_loop bytes (offset + 16384) rest))
      else Some ([], None))"
  by auto
termination by (relation "measure (\<lambda>(bytes, offset, polls). length polls)") (auto dest: wait_loop_shorter)

declare write_loop.simps [simp del]

subsection \<open>Properties\<close>

fun rx_data :: "rx_event \<Rightarrow> byte list list" where
  "rx_data (RxBinary data) = [data]"
| "rx_data _ = []"

definition binaries :: "rx_event list \<Rightarrow> byte list list" where
  "binaries evs = concat (map rx_data evs)"

definition rx_run :: "rx_event list \<Rightarrow> receiver" where
  "rx_run evs = fold rx_step evs rx_start"

definition rx_inv :: "byte list list \<Rightarrow> receiver \<Rightarrow> bool" where
  "rx_inv sent s \<longleftrightarrow> rx_queued s \<le> MAX_QUEUE \<and> prefix (rx_out s @ rx_queue s) sent \<and>
     (\<not> rx_ended s \<longrightarrow> rx_out s @ rx_queue s = sent \<and> rx_error s = None) \<and>
     (rx_ended s \<longrightarrow> rx_queue s = [] \<and> \<not> rx_pending s \<and> rx_socket_closed s) \<and> (rx_pending s \<longrightarrow> rx_queue s = [])"

lemma rx_inv_more: "rx_inv sent s \<Longrightarrow> rx_ended s \<Longrightarrow> rx_inv (sent @ extra) s"
  by (auto simp: rx_inv_def intro: prefix_prefix)

lemma rx_fail_inv: "rx_inv sent s \<Longrightarrow> rx_inv (sent @ extra) (rx_fail m s)"
  using rx_inv_more [of sent s extra]
  by (cases "rx_ended s") (auto simp: rx_fail_def rx_inv_def rx_queued_def prefix_def)

lemma rx_enqueue_inv:
  "rx_inv sent s \<Longrightarrow> \<not> rx_ended s \<Longrightarrow> int (length data) \<le> desiredSize s \<Longrightarrow> rx_inv (sent @ [data]) (rx_enqueue data s)"
  by (auto simp: rx_inv_def rx_enqueue_def desiredSize_def rx_queued_def)

lemma rx_step_inv: "rx_inv sent s \<Longrightarrow> rx_inv (sent @ rx_data e) (rx_step e s)"
proof (cases e)
  case (RxBinary data)
  assume i: "rx_inv sent s"
  show ?thesis
    using i rx_inv_more [OF i] rx_fail_inv [OF i] rx_enqueue_inv [OF i, of data] by (auto simp: RxBinary rx_message_def)
next
  case RxRead
  assume i: "rx_inv sent s"
  then show ?thesis by (auto simp: RxRead rx_read_def rx_inv_def rx_queued_def split: list.splits)
next
  case RxCancel
  assume i: "rx_inv sent s"
  then show ?thesis by (auto simp: RxCancel rx_inv_def rx_queued_def prefix_def)
qed (use rx_fail_inv [of sent s "[]"] in auto)

lemma rx_run_inv: "rx_inv (binaries evs) (rx_run evs)"
proof (induction evs rule: rev_induct)
  case Nil
  then show ?case by (simp add: rx_inv_def binaries_def rx_run_def rx_start_def rx_queued_def)
next
  case (snoc e evs)
  then show ?case using rx_step_inv [of "binaries evs" "rx_run evs" e] by (simp add: binaries_def rx_run_def)
qed

text \<open>C36: The receive side of the tunnel hands every WebSocket message to the HTTP/2 layer once and in order, buffers at
  most 1 MiB, and is lossless until it ends; when it ends (overflow, non-binary data, close, error or cancellation) the
  socket is closed and nothing more is delivered.\<close>

theorem channel_receives_in_order:
  "rx_queued (rx_run evs) \<le> MAX_QUEUE \<and> prefix (rx_out (rx_run evs) @ rx_queue (rx_run evs)) (binaries evs) \<and>
   (rx_ended (rx_run evs) \<or> rx_out (rx_run evs) @ rx_queue (rx_run evs) = binaries evs) \<and>
   (if rx_ended (rx_run evs) then rx_socket_closed (rx_run evs) \<and> rx_out (rx_run (evs @ extra)) = rx_out (rx_run evs) else rx_error (rx_run evs) = None)"
proof -
  have keep: "rx_out (rx_run (evs @ extra)) = rx_out (rx_run evs) \<and> rx_ended (rx_run (evs @ extra)) \<and> rx_queue (rx_run (evs @ extra)) = []"
    if "rx_ended (rx_run evs)"
  proof (induction extra rule: rev_induct)
    case Nil
    then show ?case using that rx_run_inv [of evs] by (simp add: rx_inv_def)
  next
    case (snoc e extra)
    then show ?case by (cases e) (auto simp: rx_run_def rx_message_def rx_fail_def rx_read_def)
  qed
  show ?thesis using rx_run_inv [of evs] keep unfolding rx_inv_def by auto
qed

text \<open>A write sends pieces of at most 16 KiB that are, in order, the bytes written; if it fails they are a proper
  prefix.\<close>

lemma write_loop_pieces:
  "write_loop bytes offset polls = Some (pieces, e) \<Longrightarrow>
    list_all (\<lambda>p. p \<noteq> [] \<and> length p \<le> 16384) pieces \<and>
    (case e of None \<Rightarrow> concat pieces = drop offset bytes | Some _ \<Rightarrow> strict_prefix (concat pieces) (drop offset bytes))"
proof (induction bytes offset polls arbitrary: pieces e rule: write_loop.induct)
  case (1 bytes offset polls)
  show ?case
  proof (cases "offset < length bytes")
    case False
    then show ?thesis using "1.prems" by (auto simp: write_loop.simps)
  next
    case True
    have ne: "strict_prefix [] (drop offset bytes)" using True by (simp add: strict_prefix_def)
    show ?thesis
    proof (cases "\<exists>rest. wait_loop polls = Some (Ready, rest)")
      case False
      then show ?thesis using "1.prems" True ne
        by (subst (asm) write_loop.simps) (auto split: option.splits prod.splits wait_result.splits)
    next
      case True
      then obtain rest where rest: "wait_loop polls = Some (Ready, rest)" by blast
      with "1.prems" \<open>offset < length bytes\<close> obtain ps where
        ps: "write_loop bytes (offset + 16384) rest = Some (ps, e)" "pieces = take 16384 (drop offset bytes) # ps"
        by (subst (asm) write_loop.simps) auto
      define x where "x = take 16384 (drop offset bytes)"
      have x: "x \<noteq> []" "length x \<le> 16384" using \<open>offset < length bytes\<close> by (auto simp: x_def)
      have p: "pieces = x # ps" using ps(2) by (simp add: x_def)
      have split: "drop offset bytes = x @ drop (offset + 16384) bytes"
        unfolding x_def by (metis append_take_drop_id drop_drop add.commute)
      from "1.IH" [OF \<open>offset < length bytes\<close> rest _ refl ps(1)] x show ?thesis
        unfolding p split by (cases e) (auto simp: strict_prefix_def)
    qed
  qed
qed

theorem channel_write_prefix:
  "write_loop bytes 0 polls = Some (pieces, e) \<Longrightarrow>
    list_all (\<lambda>p. p \<noteq> [] \<and> length p \<le> 16384) pieces \<and>
    (case e of None \<Rightarrow> concat pieces = bytes | Some _ \<Rightarrow> strict_prefix (concat pieces) bytes)"
  using write_loop_pieces [of bytes 0 polls pieces e] by (cases e) simp_all

text \<open>The handshake succeeds only on a socket that speaks the profile; every outcome releases the timer and the abort
  listener.\<close>

theorem handshake_outcome:
  "hs_result (fold hs_step evs hs_start) = Some r \<Longrightarrow>
    \<not> hs_timer (fold hs_step evs hs_start) \<and> \<not> hs_listening (fold hs_step evs hs_start) \<and>
    (r = Inr () \<longrightarrow> HsOpen PROFILE \<in> set evs)"
proof (induction evs arbitrary: r rule: rev_induct)
  case (snoc e evs)
  then show ?case
    by (cases e; cases "hs_result (fold hs_step evs hs_start)") (auto simp: hs_settle_def release_hs_def split: if_splits)
qed (simp add: hs_start_def)

end
