(* ===== verification/H2_Memory.thy ===== *)
theory H2_Memory
  imports H2_Safety Channel
begin

text \<open>
  The memory that unread response bodies can take. The options with which \<^verbatim>\<open>openChannel\<close> constructs the connection
  (\<^verbatim>\<open>web/src/channel.ts\<close>) bound it: the receive credit of the connection never becomes negative, and what is buffered is the credit
  that was used. Before it, the whole of \<^verbatim>\<open>openChannel\<close>: the checks, the handshake and the construction.
\<close>

subsection \<open>Opening a channel\<close>

text \<open>The options of \<^verbatim>\<open>new H2Connection\<close> at the end of \<^verbatim>\<open>openChannel\<close>.\<close>

definition channel_options :: connect_options where
  "channel_options = \<lparr>o_headerTableSize = None, o_enablePush = Some False, o_initialWindowSize = Some 65535,
     o_maxFrameSize = None, o_connectionWindowSize = Some 262144, o_onPush = False\<rparr>"

datatype open_error = OpenAborted | OpenLabel label_error | OpenFailed connect_error | OpenThrew exn

text \<open>The query parameters \<^verbatim>\<open>target\<close> of the endpoint after \<^verbatim>\<open>searchParams.set\<close>, and the subprotocols offered.\<close>

definition open_request :: "jsstring list \<Rightarrow> jsstring option \<Rightarrow> jsstring \<Rightarrow> jsstring list \<times> jsstring list" where
  "open_request targets target token = ((case target of Some t \<Rightarrow> [t] | None \<Rightarrow> targets), protocols token)"

text \<open>\<open>events\<close> is what the WebSocket, the timer and the signal report, \<open>None\<close> while the handshake is undecided.\<close>

definition openChannel ::
    "bool \<Rightarrow> jsstring list option \<Rightarrow> jsstring option \<Rightarrow> jsstring \<Rightarrow> hs_event list \<Rightarrow>
     open_error + (jsstring list \<times> jsstring list) \<times> (open_error + h2conn) option" where
  "openChannel aborted targets target token events =
     (if aborted then Inl OpenAborted
      else case (targetLabel targets target, targets) of
             (Inl e, _) \<Rightarrow> Inl (OpenLabel e)
           | (Inr _, None) \<Rightarrow> Inl (OpenLabel InvalidUrl)
           | (Inr _, Some values) \<Rightarrow>
               Inr (open_request values target token,
                 (case hs_result (fold hs_step events hs_start) of
                    None \<Rightarrow> None
                  | Some (Inl e) \<Rightarrow> Some (Inl (OpenFailed e))
                  | Some (Inr _) \<Rightarrow>
                      Some (case new_H2Connection channel_options of Inl e \<Rightarrow> Inl (OpenThrew e) | Inr c \<Rightarrow> Inr c))))"

subsection \<open>Credit and memory\<close>

definition credit_ok :: "nat \<Rightarrow> h2conn \<Rightarrow> bool" where
  "credit_ok W c \<longleftrightarrow> 0 \<le> c_connRecvAvailable c \<and> c_connRecvWindow c = W"

lemma credit_prims [simp]:
  "credit_ok W (send c f) = credit_ok W c" "credit_ok W (upd_obj c a g) = credit_ok W c"
  "credit_ok W (delete_stream c sid) = credit_ok W c" "credit_ok W (wakeStreamSlots c) = credit_ok W c"
  "credit_ok W c \<Longrightarrow> credit_ok W (replenishConnectionWindow c n)" "credit_ok W (close_begin c) = credit_ok W c"
  "credit_ok W (upd_remote c r) = credit_ok W c"
  by (auto simp: credit_ok_def send_def writeRaw_def upd_obj_def delete_stream_def wakeStreamSlots_def
      close_begin_def replenishConnectionWindow_def upd_remote_def Let_def)

lemma credit_fail_all [simp]: "credit_ok W (fail_all c as e) = credit_ok W c"
  unfolding fail_all_def by (induction as arbitrary: c) simp_all

lemma credit_destroy: "credit_ok W c \<Longrightarrow> credit_ok W (destroy c e)"
proof -
  assume k: "credit_ok W c"
  let ?c1 = "c\<lparr>c_closedFlag := True, c_closeError := Some e, c_connSendWindow := fst (sw_close (c_connSendWindow c))\<rparr>"
  have f: "credit_ok W (d\<lparr>c_streams := ss\<rparr>) = credit_ok W d" for d ss by (simp add: credit_ok_def)
  have "credit_ok W ?c1" using k by (simp add: credit_ok_def)
  then have "credit_ok W (wakeStreamSlots ((fail_all ?c1 (map snd (c_streams ?c1)) e)\<lparr>c_streams := []\<rparr>))" by (simp add: f)
  then show ?thesis using k by (simp add: destroy_def Let_def credit_ok_def)
qed

lemma credit_data: "credit_ok W c \<Longrightarrow> credit_ok W (fst (handle_data c sid data fl en))"
proof -
  have r: "credit_ok W c \<Longrightarrow> credit_ok W (replenishRecvWindow c sid n)" "credit_ok W c \<Longrightarrow> credit_ok W (retireIfFullyClosed c sid)"
    "credit_ok W c \<Longrightarrow> credit_ok W (resetStream c sid code)" for c sid n code
    by (simp_all add: replenishRecvWindow_def retireIfFullyClosed_def resetStream_def discard_obj_def Let_def split: option.split)
  assume k: "credit_ok W c"
  show ?thesis
  proof (cases "int (or_default fl (length data)) > c_connRecvAvailable c")
    case False
    then have "credit_ok W (c\<lparr>c_connRecvAvailable := c_connRecvAvailable c - int (or_default fl (length data))\<rparr>)" using k by (simp add: credit_ok_def)
    then show ?thesis using False by (simp add: handle_data_def Let_def r split: option.split)
  qed (use k in \<open>simp add: handle_data_def\<close>)
qed

interpretation credit: primitive_step "credit_ok W" for W
  by unfold_locales (simp_all add: credit_data credit_destroy, simp_all add: credit_ok_def)

lemma credit_reachable:
  assumes "new_H2Connection opts = Inr c0"
  shows "reachable pf opts y \<Longrightarrow> credit_ok (c_connRecvWindow c0) (y_conn y)"
proof (induction rule: reachable.induct)
  case (start c)
  then have "c = c0" using assms by simp
  moreover have "0 \<le> c_connRecvAvailable c0"
    using assms by (auto simp: new_H2Connection_def validConnectionWindow_def send_def writeRaw_def Let_def split: if_splits)
  ultimately show ?case by (simp add: credit_ok_def)
qed (rule credit.P_fire)

lemma channel_connection:
  "\<exists>c. new_H2Connection channel_options = Inr c \<and> c_connRecvWindow c = 262144 \<and> \<not> c_closedFlag c"
  by (simp add: new_H2Connection_def channel_options_def or_default_def validWindow_def validConnectionWindow_def
      SPEC_INITIAL_WINDOW_def Let_def send_def writeRaw_def)

lemma hs_opened: "hs_result (fold hs_step events h) = Some (Inr u) \<Longrightarrow> hs_result h = None \<Longrightarrow> HsOpen PROFILE \<in> set events"
proof (induction events arbitrary: h)
  case (Cons e es)
  have keeps: "hs_result (fold hs_step es k) = Some r" if "hs_result k = Some r" for k r
    using that
  proof (induction es arbitrary: k)
    case (Cons e es)
    then show ?case by (cases e) (simp_all add: hs_settle_def release_hs_def)
  qed simp
  show ?case
  proof (cases "hs_result (hs_step e h)")
    case None
    then show ?thesis using Cons.IH Cons.prems(1) by simp
  next
    case (Some r)
    then have "r = Inr u" using keeps Cons.prems(1) by simp
    then show ?thesis using Some Cons.prems(2) by (cases e) (auto simp: hs_settle_def release_hs_def split: if_splits)
  qed
qed simp

text \<open>A channel that opens has a valid target, was offered the tunnel profile and got it, and its connection has announced that it takes no
  pushes and 256 KiB of response bodies.\<close>

theorem opened_channel:
  assumes "openChannel aborted targets target token events = Inr ((query, offered), Some (Inr c))"
  shows "\<not> aborted \<and> (\<exists>label. targetLabel targets target = Inr label) \<and> hd offered = PROFILE \<and> HsOpen PROFILE \<in> set events \<and>
    (target \<noteq> None \<longrightarrow> query = [the target]) \<and> reachable pf channel_options \<lparr>y_conn = c, y_requests = [], y_pumps = []\<rparr> \<and>
    c_out c = [OutBytes CONNECTION_PREFACE,
      OutFrame (SettingsF False \<lparr>s_headerTableSize = Some 4096, s_enablePush = Some False, s_maxConcurrentStreams = None,
        s_initialWindowSize = Some 65535, s_maxFrameSize = Some DEFAULT_MAX_FRAME_SIZE, s_maxHeaderListSize = Some DEFAULT_MAX_HEADER_LIST_BYTES\<rparr>),
      OutFrame (WindowUpdateF 0 196609)]"
proof -
  obtain vals label u where o: "\<not> aborted" "targets = Some vals" "targetLabel targets target = Inr label"
      "(query, offered) = open_request vals target token" "hs_result (fold hs_step events hs_start) = Some (Inr u)"
      "new_H2Connection channel_options = Inr c"
    using assms by (auto simp: openChannel_def split: if_splits sum.splits option.splits)
  have "c_out c = [OutBytes CONNECTION_PREFACE,
      OutFrame (SettingsF False \<lparr>s_headerTableSize = Some 4096, s_enablePush = Some False, s_maxConcurrentStreams = None,
        s_initialWindowSize = Some 65535, s_maxFrameSize = Some DEFAULT_MAX_FRAME_SIZE, s_maxHeaderListSize = Some DEFAULT_MAX_HEADER_LIST_BYTES\<rparr>),
      OutFrame (WindowUpdateF 0 196609)]"
    using o(6) by (auto simp: new_H2Connection_def channel_options_def or_default_def validWindow_def validConnectionWindow_def
        SPEC_INITIAL_WINDOW_def Let_def send_def writeRaw_def)
  moreover have "HsOpen PROFILE \<in> set events" using hs_opened [OF o(5)] by (simp add: hs_start_def)
  moreover have "hd offered = PROFILE" "target \<noteq> None \<longrightarrow> query = [the target]"
    using o(4) by (auto simp: open_request_def protocols_def)
  ultimately show ?thesis using o(1,3) reachable.start [OF o(6)] by blast
qed

lemma buffered_bound:
  assumes "new_H2Connection opts = Inr c0" "reachable pf opts y" "\<not> c_closedFlag (y_conn y)"
  shows "sum_list (map st_recvBuffered (c_objs (y_conn y))) \<le> int (c_connRecvWindow c0)"
  using credit_reachable [OF assms(1,2)] reachable_flow [OF assms(2)] assms(3) by (simp add: credit_ok_def invx_def INV_def buffered_def)

text \<open>C22: The memory for unread responses is bounded: on an open connection of a tunnel, whatever the bridge sends and however slowly
  the responses are read, the bytes buffered over all streams together are never more than 256 KiB, the window that
  \<^verbatim>\<open>openChannel\<close> announces; a peer that sends more is refused.\<close>

theorem tunnel_memory_bounded:
  assumes "reachable pf channel_options y" and "\<not> c_closedFlag (y_conn y)"
  shows "sum_list (map st_recvBuffered (c_objs (y_conn y))) \<le> 262144 \<and>
    0 \<le> c_connRecvAvailable (y_conn y) \<and> c_connRecvAvailable (y_conn y) \<le> 262144"
proof -
  obtain c0 where c0: "new_H2Connection channel_options = Inr c0" "c_connRecvWindow c0 = 262144" using channel_connection by blast
  have "list_all stream_ok (c_objs (y_conn y))" using reachable_flow [OF assms(1)] by (simp add: invx_def INV_def)
  then have "0 \<le> sum_list (map st_recvBuffered (c_objs (y_conn y)))"
    by (intro sum_list_nonneg) (auto simp: list_all_iff stream_ok_def)
  then show ?thesis
    using buffered_bound [OF c0(1) assms] credit_reachable [OF c0(1) assms(1)] c0(2) reachable_flow [OF assms(1)] assms(2)
    by (simp add: credit_ok_def invx_def INV_def buffered_def)
qed

theorem tunnel_memory_bounded_witness:
  "\<exists>y. reachable ascii_platform channel_options y \<and> sum_list (map st_recvBuffered (c_objs (y_conn y))) \<le> 262144"
proof -
  obtain c where c: "new_H2Connection channel_options = Inr c" "\<not> c_closedFlag c" using channel_connection by blast
  from reachable.start [OF c(1)] have "reachable ascii_platform channel_options \<lparr>y_conn = c, y_requests = [], y_pumps = []\<rparr>" .
  with tunnel_memory_bounded [OF this] c(2) show ?thesis by auto
qed

end
