(* ===== verification/H2_Hang.thy ===== *)
theory H2_Hang
  imports H2_Upload H2_Memory
begin

text \<open>
  What becomes of a stream that has left the connection's map (\<^verbatim>\<open>this.streams\<close> in \<^verbatim>\<open>web/src/h2/connection.ts\<close>) while its response
  head is still pending. The connection reaches the objects of its streams through the map; besides that, the coroutines of a request
  hold the object of their own stream. The locale \<open>mapped_step\<close> states this discipline once: a predicate that is kept by updates of
  objects in the map, of objects that a coroutine may still fail, and by updates that leave ids and heads alone, is kept by every event.
  It is interpreted on the bound of the stream ids in the map and on being forgotten.
\<close>

subsection \<open>Updates through the map\<close>

text \<open>The pumps that still run belong to free objects.\<close>

definition pumps_in :: "(nat \<Rightarrow> bool) \<Rightarrow> pump list \<Rightarrow> bool" where
  "pumps_in free ps \<longleftrightarrow> (\<forall>p \<in> set ps. pu_phase p \<noteq> Finished \<longrightarrow> free (pu_addr p))"

definition system_ok :: "(h2conn \<Rightarrow> bool) \<Rightarrow> (nat \<Rightarrow> bool) \<Rightarrow> h2sys \<Rightarrow> bool" where
  "system_ok R free y \<longleftrightarrow> R (y_conn y) \<and> pumps_in free (y_pumps y)"

lemma system_set_pump:
  assumes "R (y_conn y)" and "pumps_in free (y_pumps y)" and "pu_phase p = Finished \<or> free (pu_addr p)"
  shows "system_ok R free (set_pump y k p)"
  using assms set_update_subset_insert [of "y_pumps y" k p]
  by (auto simp: system_ok_def set_pump_def pumps_in_def)

text \<open>\<open>free\<close> are the addresses of the objects that may be changed in any way.\<close>

locale mapped_step =
  fixes R :: "h2conn \<Rightarrow> bool" and free :: "nat \<Rightarrow> bool"
  assumes R_cong: "R c \<Longrightarrow> c_objs c' = c_objs c \<Longrightarrow> c_streams c' = c_streams c \<Longrightarrow> c_nextStreamId c' = c_nextStreamId c \<Longrightarrow>
      c_onPush c' = c_onPush c \<Longrightarrow> R c'"
    and R_shrink: "R c \<Longrightarrow> set ss \<subseteq> set (c_streams c) \<Longrightarrow> R (c\<lparr>c_streams := ss\<rparr>)"
    and R_upd: "R c \<Longrightarrow> free b \<Longrightarrow> R (upd_obj c b f)"
    and R_soft: "R c \<Longrightarrow> st_id (f (obj c b)) = st_id (obj c b) \<Longrightarrow> st_head (f (obj c b)) = st_head (obj c b) \<Longrightarrow> R (upd_obj c b f)"
    and R_mapped: "R c \<Longrightarrow> (k, b) \<in> set (c_streams c) \<Longrightarrow> free b"
    and R_guard: "R c \<Longrightarrow> get_stream c (st_id (obj c b)) \<noteq> None \<Longrightarrow> free b"
    and R_fresh: "R c \<Longrightarrow> free (length (c_objs c))"
    and R_reserve [simp]: "R c \<Longrightarrow> R (reserve_stream c)"
    and R_push [simp]: "R c \<Longrightarrow> R (handlePush proto c pid hs)"
begin

lemma R_get: "R c \<Longrightarrow> get_stream c k = Some b \<Longrightarrow> free b"
  by (auto simp: get_stream_def dest: map_of_SomeD R_mapped)

lemma R_fields [simp]:
  assumes "R c"
  shows "R (c\<lparr>c_slotWaiters := ws\<rparr>)" "R (c\<lparr>c_connRecvAvailable := n\<rparr>)" "R (c\<lparr>c_closing := k\<rparr>)" "R (c\<lparr>c_frameDecoder := fd\<rparr>)"
    "R (c\<lparr>c_goawayReceived := x, c_draining := x\<rparr>)" "R (c\<lparr>c_pingCounter := k\<rparr>)" "R (c\<lparr>c_pingResults := pr\<rparr>)" "R (c\<lparr>c_pings := ps\<rparr>)"
    "R (c\<lparr>c_pings := ps, c_pingResults := pr\<rparr>)" "R (c\<lparr>c_connSendWindow := w\<rparr>)" "R (c\<lparr>c_pending := p\<rparr>)" "R (c\<lparr>c_decoder := d\<rparr>)"
    "R (c\<lparr>c_pending := p, c_decoder := d\<rparr>)" "R (c\<lparr>c_closedFlag := y, c_closeError := e, c_connSendWindow := w\<rparr>)"
    "R (send c f)" "R (upd_remote c r)"
  by (rule R_cong [OF assms]; simp add: send_def writeRaw_def upd_remote_def)+

lemma R_sends [simp]: "R c \<Longrightarrow> R (foldl send c fs)"
  by (induction fs arbitrary: c) simp_all

lemma R_prims [simp]:
  assumes "R c"
  shows "R (delete_stream c sid)" "R (close_begin c)" "R (wakeStreamSlots c)" "R (replenishConnectionWindow c n)" "R (wait_conn c k)"
    "R (wait_stream c b k)" "R (mark_sent c b h)" "R (upd_obj c b (\<lambda>s. snd (discardBuffered s)))"
proof -
  show b: "R (close_begin c)" using assms by (simp add: close_begin_def)
  show "R (wakeStreamSlots c)" using assms b by (simp add: wakeStreamSlots_def Let_def)
  show "R (delete_stream c sid)" using assms unfolding delete_stream_def by (rule R_shrink) (auto simp: AList.delete_eq)
  show "R (replenishConnectionWindow c n)" using assms by (simp add: replenishConnectionWindow_def)
  show "R (wait_conn c k)" using assms by (simp add: wait_conn_def)
  show "R (wait_stream c b k)" using assms unfolding wait_stream_def by (rule R_soft) simp_all
  show "R (mark_sent c b h)" using assms unfolding mark_sent_def by (rule R_soft) simp_all
  show "R (upd_obj c b (\<lambda>s. snd (discardBuffered s)))" using assms by (rule R_soft) (simp_all add: discardBuffered_def)
qed

lemma R_fail_all: "R c \<Longrightarrow> \<forall>b \<in> set bs. free b \<Longrightarrow> R (fail_all c bs e)"
  unfolding fail_all_def by (induction bs arbitrary: c) (simp_all add: R_upd)

lemma R_destroy [simp]: "R c \<Longrightarrow> R (destroy c e)"
proof -
  assume r: "R c"
  let ?c1 = "c\<lparr>c_closedFlag := True, c_closeError := Some e, c_connSendWindow := fst (sw_close (c_connSendWindow c))\<rparr>"
  let ?c2 = "(fail_all ?c1 (map snd (c_streams ?c1)) e)\<lparr>c_streams := []\<rparr>"
  have "R (fail_all ?c1 (map snd (c_streams ?c1)) e)"
    using r by (intro R_fail_all) (auto dest: R_mapped)
  then have "R ?c2" by (rule R_shrink) simp
  then have "R (wakeStreamSlots ?c2)" by simp
  then have "R ((wakeStreamSlots ?c2)\<lparr>c_pingResults := pr, c_pings := [], c_out := out\<rparr>)" for pr out
    by (rule R_cong) simp_all
  then show ?thesis using r by (simp add: destroy_def Let_def)
qed

lemma R_ops [simp]:
  assumes "R c"
  shows "R (replenishRecvWindow c sid n)" "R (discard_obj c b)" "R (retireIfFullyClosed c sid)" "R (ping now c)"
    "R (handle_ping now c ack opaque)" "R (connectionError c e)" "R (close_end c)" "R (send_slice c b g piece)" "R (adjust_all c bs n)"
proof -
  show "R (adjust_all c bs n)" using assms unfolding adjust_all_def by (induction bs arbitrary: c) (simp_all add: R_soft)
  show "R (discard_obj c b)" using assms by (simp add: discard_obj_def)
qed (use assms in \<open>simp_all add: replenishRecvWindow_def retireIfFullyClosed_def ping_def handle_ping_def connectionError_def close_end_def
      send_slice_def Let_def R_soft split: option.split\<close>)

lemma R_reset [simp]: "R c \<Longrightarrow> R (resetStream c sid code)"
proof (cases "get_stream c sid")
  case (Some b)
  assume r: "R c"
  from R_get [OF r Some] show ?thesis using r Some by (simp add: resetStream_def Let_def R_upd R_soft)
qed (simp add: resetStream_def)

lemma R_exclude: "R c \<Longrightarrow> \<forall>(k, b) \<in> set ss. free b \<Longrightarrow> R (exclude_streams c ss lastId code)"
  by (induction c ss lastId code rule: exclude_streams.induct) (simp_all add: R_upd)

lemma R_consumer [simp]:
  assumes "R c"
  shows "R (fst (pull_stream c b))" "R (cancel_stream c b)"
proof -
  obtain s r where p: "pullBody (obj c b) = (s, r)" by fastforce
  have "R (upd_obj c b (\<lambda>_. s))"
    using assms by (rule R_soft) (use p in \<open>auto simp: pullBody_def split: list.splits option.splits if_splits\<close>)
  then show "R (fst (pull_stream c b))" by (simp add: pull_stream_def p Let_def split: pull_outcome.split)
  obtain s n live where q: "cancelBody (obj c b) = (s, n, live)" using prod_cases3 by blast
  have "R (upd_obj c b (\<lambda>_. s))"
    using assms by (rule R_soft) (use q in \<open>auto simp: cancelBody_def Let_def\<close>)
  then show "R (cancel_stream c b)" by (simp add: cancel_stream_def q Let_def)
qed

lemma R_fail_and_reset: "R c \<Longrightarrow> free b \<Longrightarrow> R (fail_and_reset c b e)"
  by (simp add: fail_and_reset_def Let_def R_upd)

subsection \<open>Frames and events\<close>

lemma R_rst [simp]: "R c \<Longrightarrow> R (handle_rst_stream c sid k)"
  by (simp add: handle_rst_stream_def Let_def R_upd R_get split: option.split)

lemma R_goaway [simp]: "R c \<Longrightarrow> R (handle_goaway c lastId code)"
proof -
  assume r: "R c"
  let ?c1 = "c\<lparr>c_goawayReceived := True, c_draining := True\<rparr>"
  have "R (exclude_streams ?c1 (c_streams ?c1) lastId code')" for code'
    using r by (intro R_exclude) (auto dest: R_mapped)
  then show ?thesis by (simp add: handle_goaway_def Let_def)
qed

lemma R_handlers [simp]:
  assumes "R c"
  shows "R (deliver_block proto c pb hs)" "R (fst (handle_window_update c sid n))" "R (fst (handle_data c sid data fl en))"
  using assms
  by (simp_all add: deliver_block_def handle_window_update_def handle_data_def Let_def R_upd R_soft R_get [OF assms] R_get [of "c\<lparr>c_connRecvAvailable := _\<rparr>"]
      split: option.split block_kind.split)

lemma R_settings [simp]: "R c \<Longrightarrow> R (fst (applyRemoteSettings c s))"
  by (simp add: applyRemoteSettings_def apply_initial_window_def apply_max_frame_def apply_other_settings_def
      Let_def split: option.split prod.split)

lemma R_accept [simp]: "R c \<Longrightarrow> R (fst (accept_block proto c pb e))"
  by (simp add: accept_block_def completeHeaderBlock_def Let_def split: prod.split sum.split)

lemma R_dispatch: "R c \<Longrightarrow> R (fst (dispatch proto now c f))"
proof -
  assume r: "R c"
  have s: "R (fst (case applyRemoteSettings c s of (c1, Some e) \<Rightarrow> (c1, Some e)
      | (c1, None) \<Rightarrow> (send c1 (SettingsF True empty_settings), None)))" for s
    using R_settings [OF r, of s] by (auto split: prod.split option.split)
  show ?thesis
    using r s by (cases f) (simp_all add: dispatch_def split: option.split)
qed

lemma R_dispatch_all: "R c \<Longrightarrow> R (dispatch_all proto now c fs)"
proof (induction fs arbitrary: c)
  case (Cons f fs)
  obtain c1 x where d: "dispatch proto now c f = (c1, x)" by fastforce
  then have "R c1" using R_dispatch [OF Cons.prems, of proto now f] by simp
  with Cons d show ?case by (auto split: option.split exn.split)
qed simp

lemma R_onBytes [simp]: "R c \<Longrightarrow> R (onBytes proto now c chunk)"
  by (auto simp: onBytes_def R_dispatch_all split: sum.split)

lemma R_sendHeaders: "R c \<Longrightarrow> sendHeaders pf c sid hs e = Some c' \<Longrightarrow> R c'"
  by (auto simp: sendHeaders_def split: option.splits)

lemma R_open_stream:
  assumes "system_ok R free y" and "open_stream pf y r rq = Some y'"
  shows "system_ok R free y'"
proof -
  have r: "R (y_conn y)" and p: "pumps_in free (y_pumps y)" using assms(1) by (simp_all add: system_ok_def)
  show ?thesis
    using r p assms(2) R_fresh [OF r] R_sendHeaders [OF R_reserve [OF r]]
    by (auto simp: open_stream_def set_request_def system_ok_def pumps_in_def Let_def split: option.splits if_splits)
qed

lemma R_request_resume:
  assumes "system_ok R free y" and "request_resume pf y r ok = Some y'"
  shows "system_ok R free y'"
  using assms R_open_stream [OF assms(1)]
  by (auto simp: request_resume_def request_loop_def set_request_def system_ok_def Let_def split: option.splits if_splits)

lemma R_abort: "system_ok R free y \<Longrightarrow> system_ok R free (request_abort y r e)"
  by (auto simp: system_ok_def request_abort_def set_request_def Let_def R_guard R_fail_and_reset split: request_phase.split)

lemma R_pump_top:
  assumes "system_ok R free y" and "free (pu_addr p)"
  shows "system_ok R free (pump_top y k p)"
  using assms by (auto simp: pump_top_def Let_def system_ok_def [of R free y] intro!: system_set_pump)

lemma R_pump_steps:
  assumes "system_ok R free y" and "free (pu_addr (y_pumps y ! k))"
  shows "system_ok R free (pump_chunk y k chunk)" "system_ok R free (pump_conn y k)" "system_ok R free (pump_stream y k)"
    "system_ok R free (pump_written y k g)" "system_ok R free (pump_end y k)" "system_ok R free (pump_ended y k)"
    "system_ok R free (pump_error y k e)"
proof -
  note s = assms(1) [unfolded system_ok_def]
  show "system_ok R free (pump_chunk y k chunk)" "system_ok R free (pump_written y k g)"
    using assms by (auto simp: pump_chunk_def pump_written_def intro!: R_pump_top)
  show "system_ok R free (pump_stream y k)"
    using assms s by (auto simp: pump_stream_def Let_def intro!: system_set_pump R_pump_top)
  show "system_ok R free (pump_conn y k)" "system_ok R free (pump_end y k)" "system_ok R free (pump_ended y k)"
    "system_ok R free (pump_error y k e)"
    using assms(2) s
    by (auto simp: pump_conn_def pump_end_def pump_ended_def pump_error_def Let_def R_fail_and_reset intro!: system_set_pump)
qed

lemma R_fire:
  assumes "system_ok R free y" and "fire pf y ev = Some y'"
  shows "system_ok R free y'"
proof -
  note s = assms(1) [unfolded system_ok_def]
  have running: "free (pu_addr (y_pumps y ! k))" if "k < length (y_pumps y)" "pu_phase (y_pumps y ! k) \<noteq> Finished" for k
    using s that by (auto simp: pumps_in_def)
  note pumps = R_pump_steps [OF assms(1) running]
  have conn: "system_ok R free (with_conn y c)" if "R c" for c
    using s that by (simp add: system_ok_def with_conn_def)
  show ?thesis
  proof (cases ev)
    case (RequestStart init ab)
    with assms s show ?thesis by (auto simp: system_ok_def request_start_def Let_def)
  next
    case (Bytes now chunk)
    with assms s show ?thesis by (auto intro: conn split: if_splits)
  qed (use assms(2) s in \<open>auto simp: in_phase_def split: if_splits pump_phase.splits
      intro!: conn assms(1) pumps R_abort elim!: R_request_resume [OF assms(1)]\<close>)
qed

lemma R_play: "system_ok R free y \<Longrightarrow> play pf y evs = Some y' \<Longrightarrow> system_ok R free y'"
  by (induction evs arbitrary: y) (auto split: option.splits intro: R_fire)

end

subsection \<open>The ids in the map\<close>

text \<open>Without a push handler all streams are the connection's own, with ids below the next one.\<close>

definition ids_ok :: "h2conn \<Rightarrow> bool" where
  "ids_ok c \<longleftrightarrow> \<not> c_onPush c \<and> (\<forall>(k, b) \<in> set (c_streams c). k < c_nextStreamId c)"

interpretation ids: mapped_step ids_ok "\<lambda>_. True"
proof unfold_locales
  show "ids_ok (reserve_stream c)" if "ids_ok c" for c
    using that by (fastforce simp: ids_ok_def reserve_stream_def Let_def dest: set_update_alist)
  show "ids_ok (handlePush proto c pid hs)" if "ids_ok c" for proto c pid hs
    using that by (auto simp: ids_ok_def handlePush_def send_def writeRaw_def Let_def)
qed (auto simp: ids_ok_def upd_obj_def)

lemma ids_reachable:
  assumes "reachable pf opts y" and "\<not> o_onPush opts"
  shows "ids_ok (y_conn y)"
proof -
  from assms(1) have "system_ok ids_ok (\<lambda>_. True) y"
  proof (induction rule: reachable.induct)
    case (start c)
    with assms(2) show ?case
      by (auto simp: system_ok_def ids_ok_def pumps_in_def new_H2Connection_def writeRaw_def send_def Let_def split: if_splits)
  qed (rule ids.R_fire)
  then show ?thesis by (simp add: system_ok_def)
qed

subsection \<open>A forgotten stream\<close>

text \<open>The object at \<open>a\<close> belongs to the id \<open>sid\<close>, neither is in the map, the id will not be used again and the head is pending.\<close>

definition forgotten :: "nat \<Rightarrow> nat \<Rightarrow> h2conn \<Rightarrow> bool" where
  "forgotten sid a c \<longleftrightarrow>
     \<not> c_onPush c \<and> sid < c_nextStreamId c \<and> a < length (c_objs c) \<and> st_id (obj c a) = sid \<and> st_head (obj c a) = Pending \<and>
     (\<forall>(k, b) \<in> set (c_streams c). k \<noteq> sid \<and> b \<noteq> a)"

interpretation gone: mapped_step "forgotten sid a" "\<lambda>b. b \<noteq> a" for sid a
proof unfold_locales
  fix c :: h2conn
  assume f: "forgotten sid a c"
  show "forgotten sid a (reserve_stream c)"
    using f by (fastforce simp: forgotten_def reserve_stream_def Let_def obj_def nth_append dest: set_update_alist)
  show "forgotten sid a (handlePush proto c pid hs)" for proto pid hs
    using f by (auto simp: forgotten_def handlePush_def send_def writeRaw_def obj_def Let_def)
  show "forgotten sid a (upd_obj c b g)" if "b \<noteq> a" for b g
    using f that by (auto simp: forgotten_def upd_obj_def obj_def)
  show "forgotten sid a (upd_obj c b g)"
    if "st_id (g (obj c b)) = st_id (obj c b)" "st_head (g (obj c b)) = st_head (obj c b)" for b g
    using f that by (cases "b = a") (auto simp: forgotten_def upd_obj_def obj_def)
  show "b \<noteq> a" if "get_stream c (st_id (obj c b)) \<noteq> None" for b
    using f that by (auto simp: forgotten_def get_stream_def dest!: map_of_SomeD)
qed (auto simp: forgotten_def obj_def)

lemma forgotten_facts: "forgotten sid a c \<Longrightarrow> get_stream c sid = None \<and> st_head (obj c a) = Pending"
  by (auto simp: forgotten_def get_stream_def map_of_eq_None_iff)

lemma end_forgets:
  assumes "flow_inv c" and "ids_ok c" and "get_stream c sid = Some a" and "st_localClosed (obj c a)"
    and "\<not> st_remoteClosed (obj c a)" and "0 \<le> st_recvWindow (obj c a)" and "0 \<le> c_connRecvAvailable c"
    and "st_head (obj c a) = Pending"
  shows "forgotten sid a (fst (handle_data c sid [] (Some 0) True))"
proof -
  let ?c' = "fst (handle_data c sid [] (Some 0) True)"
  note h = end_without_head [OF assms(1,3-7)]
  have "flow_inv ?c'" by (rule flow_data [OF assms(1)]) (simp add: or_default_def)
  then have ids: "st_id (obj ?c' b) = k" if "(k, b) \<in> set (c_streams ?c')" for k b
    using that by (auto simp: invx_def INV_def obj_def)
  have "k \<noteq> sid" if "(k, b) \<in> set (c_streams ?c')" for k b
    using h(1) that by (force simp: get_stream_def map_of_eq_None_iff)
  moreover from this have "b \<noteq> a" if "(k, b) \<in> set (c_streams ?c')" for k b
    using ids [OF that] h(3) that by auto
  moreover have "keep c ?c'" by simp
  then have "c_nextStreamId c \<le> c_nextStreamId ?c'" "length (c_objs c) \<le> length (c_objs ?c')" by (simp_all add: keep_def)
  moreover have "ids_ok ?c'" using assms(2) by simp
  moreover have "sid < c_nextStreamId c" using assms(2,3) by (auto simp: ids_ok_def get_stream_def dest!: map_of_SomeD)
  ultimately show ?thesis
    using h assms(8) get_stream_Some [OF assms(1,3)] by (auto simp: forgotten_def ids_ok_def)
qed

lemma reachable_credit: "reachable pf opts y \<Longrightarrow> 0 \<le> c_connRecvAvailable (y_conn y)"
proof -
  assume r: "reachable pf opts y"
  then obtain c0 where "new_H2Connection opts = Inr c0" by (induction rule: reachable.induct) auto
  from credit_reachable [OF this r] show ?thesis by (simp add: credit_ok_def)
qed

subsection \<open>The property\<close>

text \<open>C31: A response that ends before its head hangs for ever. On a connection without a push handler, let the request of a stream be
  complete (its END_STREAM is sent and its upload, if it has one, is over) and its head pending, and let bytes arrive that hold an
  empty DATA frame with END_STREAM for it. Then, whatever happens afterwards, in any order and number (late frames for the stream,
  GOAWAY, an abort of the request, cancelling or reading the body, closing or destroying the connection, failing writes), the stream
  is not in the map and its head is still pending: the call of \<^verbatim>\<open>request\<close> neither returns nor throws.\<close>

theorem end_before_head_hangs:
  assumes "reachable pf opts y" and "\<not> o_onPush opts" and "get_stream (y_conn y) sid = Some a"
    and "st_localClosed (obj (y_conn y) a)" and "\<not> st_remoteClosed (obj (y_conn y) a)"
    and "0 \<le> st_recvWindow (obj (y_conn y) a)" and "st_head (obj (y_conn y) a) = Pending"
    and "\<forall>p \<in> set (y_pumps y). pu_addr p = a \<longrightarrow> pu_phase p = Finished"
    and "c_pending (y_conn y) = None" and "chunk \<noteq> []"
    and "push (c_frameDecoder (y_conn y)) chunk = Inr ([DataF sid [] (Some 0) True], fd)"
    and "play pf y (Bytes now chunk # evs) = Some y'"
  shows "get_stream (y_conn y') sid = None \<and> st_head (obj (y_conn y') a) = Pending"
proof -
  let ?c = "(y_conn y)\<lparr>c_frameDecoder := fd\<rparr>"
  let ?c' = "fst (handle_data ?c sid [] (Some 0) True)"
  have fields: "get_stream ?c = get_stream (y_conn y)" "obj ?c = obj (y_conn y)"
    by (simp_all add: get_stream_def obj_def fun_eq_iff)
  have inv: "flow_inv ?c" "ids_ok ?c"
    using reachable_flow [OF assms(1)] ids_reachable [OF assms(1,2)] by (simp_all add: invx_def)
  have "handle_data ?c sid [] (Some 0) True = (?c', None)"
    using assms(3,5,6) reachable_credit [OF assms(1)] by (simp add: handle_data_def or_default_def fields Let_def get_stream_def obj_def)
  then have "dispatch (pf_proto pf) now ?c (DataF sid [] (Some 0) True) = (?c', None)"
    using assms(9) by (simp add: dispatch_def)
  then have "onBytes (pf_proto pf) now (y_conn y) chunk = ?c'"
    using assms(11) by (simp add: onBytes_def)
  moreover have "forgotten sid a ?c'"
    using assms(3-7) reachable_credit [OF assms(1)] by (intro end_forgets inv) (simp_all add: fields)
  ultimately have "system_ok (forgotten sid a) (\<lambda>b. b \<noteq> a) (with_conn y (onBytes (pf_proto pf) now (y_conn y) chunk))"
    using assms(8) by (auto simp: system_ok_def with_conn_def pumps_in_def)
  moreover have "play pf (with_conn y (onBytes (pf_proto pf) now (y_conn y) chunk)) evs = Some y'"
    using assms(10,12) by simp
  ultimately have "system_ok (forgotten sid a) (\<lambda>b. b \<noteq> a) y'" by (rule gone.R_play)
  then show ?thesis using forgotten_facts by (auto simp: system_ok_def)
qed

theorem end_before_head_hangs_witness:
  "\<exists>y'. play ascii_platform example_state
      [Bytes 0 (wire_bytes [DataF 1 [] None True]), CancelBody 0, Ping 1, TransportError RangeErr] = Some y' \<and>
    c_closedFlag (y_conn y') \<and> st_head (obj (y_conn y') 0) = Pending"
proof -
  let ?b = "wire_bytes [DataF 1 [] None True]"
  let ?evs = "[CancelBody 0, Ping 1, TransportError RangeErr]"
  have "push (new_FrameDecoder 16384) ?b = Inr ([DataF 1 [] (Some 0) True], new_FrameDecoder 16384)"
    using drain_serialized [of 16384 "[DataF 1 [] None True]"]
    by (simp add: push_drain new_FrameDecoder_def frame_ok_def)
  then have p: "push (c_frameDecoder (y_conn example_state)) ?b = Inr ([DataF 1 [] (Some 0) True], new_FrameDecoder 16384)"
    by (simp add: example_state_facts)
  have ne: "?b \<noteq> []" using p by (auto simp: example_state_facts push_drain new_FrameDecoder_def codec.drain_unfold frame_at_def
      FRAME_HEADER_SIZE_def)
  obtain y1 where y1: "fire ascii_platform example_state (Bytes 0 ?b) = Some y1" by simp
  have "length (c_objs (y_conn example_state)) \<le> length (c_objs (y_conn y1))"
    using y1 keep_onBytes [OF keep_refl] by (auto simp: with_conn_def keep_def split: if_splits)
  then have "0 < length (c_objs (y_conn y1))" by (auto simp: example_state_facts)
  then obtain y' where y': "play ascii_platform example_state (Bytes 0 ?b # ?evs) = Some y'" and "c_closedFlag (y_conn y')"
    using y1 by (simp add: with_conn_def destroy_closed)
  moreover have "st_head (obj (y_conn y') 0) = Pending"
    by (rule end_before_head_hangs [OF example_state_facts(1) _ _ _ _ _ _ _ _ ne p y', THEN conjunct2])
       (simp_all add: get_stream_def example_state_facts obj_def new_H2Stream_def default_options_def)
  ultimately show ?thesis by blast
qed

end
