(* ===== verification/Scope.thy ===== *)
theory Scope
  imports Main
begin

text \<open>
  The contract of an abort controller with its timer and listeners, as \<^verbatim>\<open>transport.ts\<close> (\<open>call_state\<close>), \<^verbatim>\<open>retry.ts\<close>
  (\<open>run_scope\<close>) and the body reader of \<^verbatim>\<open>h2/connection.ts\<close> (\<open>body_reader\<close>) use one.
\<close>

text \<open>A scope: its steps keep the first reason, and never take a timer or listener back after they were released.
  \<open>finish\<close> is the end of the call.\<close>

locale abort_scope =
  fixes step :: "'s \<Rightarrow> 's \<Rightarrow> bool"
    and reason :: "'s \<Rightarrow> 'r option"
    and held :: "'s \<Rightarrow> bool"
    and finish :: "'s \<Rightarrow> 's"
  assumes step_reason: "step s s' \<Longrightarrow> reason s = Some r \<Longrightarrow> reason s' = Some r"
    and step_released: "step s s' \<Longrightarrow> \<not> held s \<Longrightarrow> \<not> held s'"
    and finish_released: "\<not> held (finish s)"
begin

lemma reason_stays: "step\<^sup>*\<^sup>* s s' \<Longrightarrow> reason s = Some r \<Longrightarrow> reason s' = Some r"
  by (induction rule: rtranclp_induct) (auto intro: step_reason)

lemma released_stays: "step\<^sup>*\<^sup>* s s' \<Longrightarrow> \<not> held s \<Longrightarrow> \<not> held s'"
  by (induction rule: rtranclp_induct) (auto dest: step_released)

lemma finished_stays: "step\<^sup>*\<^sup>* (finish s) s' \<Longrightarrow> \<not> held s'"
  by (rule released_stays [OF _ finish_released])

end

end
