(* ===== verification/H2_Body.thy ===== *)
theory H2_Body
  imports H2_System Scope
begin

text \<open>
  The two ends of a message body in \<^verbatim>\<open>web/src/h2/connection.ts\<close>: \<^verbatim>\<open>iterateBody\<close>, which feeds the body pump, and the
  response object of \<^verbatim>\<open>buildResponse\<close> with \<^verbatim>\<open>drain\<close>. A \<^verbatim>\<open>ReadableStream\<close> is the list of what its reads return, a list
  without an end being a stream that stays open.
\<close>

subsection \<open>The request body\<close>

datatype body_read = ReadValue "byte list" | ReadDone | ReadFails exn

datatype body_finish = Exhausted | Unended | Failing exn

fun read_chunks :: "body_read list \<Rightarrow> byte list list \<times> body_finish" where
  "read_chunks [] = ([], Unended)"
| "read_chunks (ReadDone # rs) = ([], Exhausted)"
| "read_chunks (ReadFails e # rs) = ([], Failing e)"
| "read_chunks (ReadValue v # rs) =
     (case read_chunks rs of (cs, f) \<Rightarrow> (if length v > 0 then v # cs else cs, f))"

definition iterateBody :: "body_init \<Rightarrow> body_read list \<Rightarrow> byte list list \<times> body_finish" where
  "iterateBody body reads =
     (case body of
        NoBody \<Rightarrow> ([], Exhausted)
      | TextBody s \<Rightarrow> ([encodeUtf8 s], Exhausted)
      | BytesBody b \<Rightarrow> ([b], Exhausted)
      | StreamBody \<Rightarrow> read_chunks reads)"

text \<open>The listener that cancels the reader when the stream is stopped: held from the start of the loop until the generator
  ends; a signal that is aborted already cancels at once.\<close>

record body_reader =
  bd_listening :: bool
  bd_canceled :: bool
  bd_locked :: bool

definition reader_start :: "bool \<Rightarrow> body_reader" where
  "reader_start aborted = \<lparr>bd_listening = True, bd_canceled = aborted, bd_locked = True\<rparr>"

definition reader_stopped :: "body_reader \<Rightarrow> body_reader" where
  "reader_stopped r = (if bd_listening r then r\<lparr>bd_canceled := True, bd_listening := False\<rparr> else r)"

definition reader_end :: "body_reader \<Rightarrow> body_reader" where
  "reader_end r = r\<lparr>bd_listening := False, bd_locked := False\<rparr>"

inductive reader_step :: "body_reader \<Rightarrow> body_reader \<Rightarrow> bool" where
  reader_stops: "reader_step r (reader_stopped r)"
| reader_ends: "reader_step r (reader_end r)"

lemmas reader_defs = reader_stopped_def reader_end_def

interpretation reader: abort_scope reader_step "\<lambda>r. if bd_canceled r then Some () else None" bd_listening reader_end
proof unfold_locales
  show "(if bd_canceled r' then Some () else None) = Some u" if "reader_step r r'" "(if bd_canceled r then Some () else None) = Some u" for r r' u
    using that by cases (auto simp: reader_defs split: if_splits)
  show "\<not> bd_listening r'" if "reader_step r r'" "\<not> bd_listening r" for r r'
    using that by cases (auto simp: reader_defs)
  show "\<not> bd_listening (reader_end r)" for r by (simp add: reader_defs)
qed

subsection \<open>The response body\<close>

text \<open>\<^verbatim>\<open>drain\<close>: \<open>None\<close> while the stream stays open.\<close>

fun drain_loop :: "byte list list \<Rightarrow> body_read list \<Rightarrow> (exn + byte list) option" where
  "drain_loop chunks [] = None"
| "drain_loop chunks (ReadDone # rs) = Some (Inr (concatBytes chunks))"
| "drain_loop chunks (ReadFails e # rs) = Some (Inl e)"
| "drain_loop chunks (ReadValue v # rs) = drain_loop (chunks @ [v]) rs"

definition drain :: "body_read list \<Rightarrow> (exn + byte list) option" where
  "drain reads = drain_loop [] reads"

text \<open>The closure variable \<^verbatim>\<open>consumed\<close> holds the promise of the first \<^verbatim>\<open>drain\<close>. A stream can be locked by one reader only:
  a second \<^verbatim>\<open>getReader\<close> throws the platform's \<^verbatim>\<open>TypeError\<close>, here \<open>OpaqueErr 0\<close>.\<close>

record response_body =
  rb_reads :: "body_read list"
  rb_locked :: bool
  rb_consumed :: "(exn + byte list) option option"

definition new_response_body :: "body_read list \<Rightarrow> response_body" where
  "new_response_body reads = \<lparr>rb_reads = reads, rb_locked = False, rb_consumed = None\<rparr>"

definition consume :: "response_body \<Rightarrow> (exn + byte list) option \<times> response_body" where
  "consume rb =
     (case rb_consumed rb of
        Some p \<Rightarrow> (p, rb)
      | None \<Rightarrow>
          (let p = (if rb_locked rb then Some (Inl (OpaqueErr 0)) else drain (rb_reads rb))
           in (p, rb\<lparr>rb_consumed := Some p, rb_locked := True\<rparr>)))"

datatype accessor = BytesOf | ArrayBufferOf | TextOf | JsonOf
datatype 'j body_value = BytesValue "byte list" | TextValue jsstring | JsonValue 'j

fun convert :: "(jsstring \<Rightarrow> exn + 'j) \<Rightarrow> accessor \<Rightarrow> byte list \<Rightarrow> exn + 'j body_value" where
  "convert parse BytesOf bs = Inr (BytesValue bs)"
| "convert parse ArrayBufferOf bs = Inr (BytesValue bs)"
| "convert parse TextOf bs = Inr (TextValue (decodeUtf8 bs))"
| "convert parse JsonOf bs = (case parse (decodeUtf8 bs) of Inl e \<Rightarrow> Inl e | Inr j \<Rightarrow> Inr (JsonValue j))"

text \<open>One call of an accessor; \<open>parse\<close> is \<^verbatim>\<open>JSON.parse\<close>.\<close>

definition access ::
    "(jsstring \<Rightarrow> exn + 'j) \<Rightarrow> accessor \<Rightarrow> response_body \<Rightarrow> (exn + 'j body_value) option \<times> response_body" where
  "access parse a rb =
     (case consume rb of (p, rb') \<Rightarrow>
        (map_option (\<lambda>r. case r of Inl e \<Rightarrow> Inl e | Inr bs \<Rightarrow> convert parse a bs) p, rb'))"

fun access_all ::
    "(jsstring \<Rightarrow> exn + 'j) \<Rightarrow> accessor list \<Rightarrow> response_body \<Rightarrow> (exn + 'j body_value) option list \<times> response_body" where
  "access_all parse [] rb = ([], rb)"
| "access_all parse (a # as) rb =
     (case access parse a rb of (v, rb1) \<Rightarrow> (case access_all parse as rb1 of (vs, rb2) \<Rightarrow> (v # vs, rb2)))"

subsection \<open>Facts\<close>

text \<open>The bytes a stream carries before its end.\<close>

fun values_before :: "body_read list \<Rightarrow> byte list list" where
  "values_before (ReadValue v # rs) = v # values_before rs"
| "values_before _ = []"

fun finish_of :: "body_read list \<Rightarrow> body_finish" where
  "finish_of [] = Unended"
| "finish_of (ReadDone # rs) = Exhausted"
| "finish_of (ReadFails e # rs) = Failing e"
| "finish_of (ReadValue v # rs) = finish_of rs"

lemma read_chunks_eq: "read_chunks rs = (filter (\<lambda>c. c \<noteq> []) (values_before rs), finish_of rs)"
  by (induction rs rule: read_chunks.induct) auto

lemma concat_filter_nonempty: "concat (filter (\<lambda>c. c \<noteq> []) cs) = concat cs"
  by (induction cs) auto

lemma drain_loop_eq:
  "drain_loop chunks rs =
    (case finish_of rs of Unended \<Rightarrow> None | Failing e \<Rightarrow> Some (Inl e) | Exhausted \<Rightarrow> Some (Inr (concat (chunks @ values_before rs))))"
  by (induction chunks rs rule: drain_loop.induct) (simp_all add: concatBytes_concat split: body_finish.split)

lemma drain_eq:
  "drain rs = (case finish_of rs of Unended \<Rightarrow> None | Failing e \<Rightarrow> Some (Inl e) | Exhausted \<Rightarrow> Some (Inr (concat (values_before rs))))"
  by (simp add: drain_def drain_loop_eq split: body_finish.split)

text \<open>A response body nobody else has locked: every accessor sees the drained bytes.\<close>

definition own_body :: "response_body \<Rightarrow> bool" where
  "own_body rb \<longleftrightarrow> (case rb_consumed rb of None \<Rightarrow> \<not> rb_locked rb | Some p \<Rightarrow> p = drain (rb_reads rb))"

lemma own_new: "own_body (new_response_body rs)"
  by (simp add: own_body_def new_response_body_def)

lemma access_own:
  assumes "own_body rb"
  shows "fst (access parse a rb) = map_option (\<lambda>r. case r of Inl e \<Rightarrow> Inl e | Inr bs \<Rightarrow> convert parse a bs) (drain (rb_reads rb))"
    "own_body (snd (access parse a rb))" "rb_reads (snd (access parse a rb)) = rb_reads rb"
  using assms by (auto simp: access_def consume_def own_body_def Let_def split: option.splits)

lemma access_all_own:
  "own_body rb \<Longrightarrow> fst (access_all parse as rb) =
    map (\<lambda>a. map_option (\<lambda>r. case r of Inl e \<Rightarrow> Inl e | Inr bs \<Rightarrow> convert parse a bs) (drain (rb_reads rb))) as"
proof (induction as arbitrary: rb)
  case (Cons a as)
  then show ?case using Cons.IH [OF access_own(2) [OF Cons.prems, of parse a]] access_own(1,3) [OF Cons.prems, of parse a]
    by (simp split: prod.split) (metis fst_conv snd_conv)
qed simp

subsection \<open>Properties\<close>

text \<open>The body pump is fed exactly the bytes of the request body, and never an empty chunk unless the body is an empty text or
  array.\<close>

theorem upload_exact:
  "concat (fst (iterateBody body reads)) =
     (case body of NoBody \<Rightarrow> [] | TextBody s \<Rightarrow> encodeUtf8 s | BytesBody b \<Rightarrow> b | StreamBody \<Rightarrow> concat (values_before reads)) \<and>
   (body = StreamBody \<longrightarrow> [] \<notin> set (fst (iterateBody body reads)))"
  by (simp add: iterateBody_def read_chunks_eq concat_filter_nonempty split: body_init.split)

text \<open>The accessors of a response agree: however its body is cut into chunks, and whichever accessors are called how often
  and in which order, each gives the converted bytes of the whole body; text that was uploaded as UTF-8 and sent back in any
  chunks is read as that text.\<close>

theorem response_accessors_agree:
  assumes "concat (values_before reads) = concat (fst (iterateBody (TextBody s) []))" "finish_of reads = Exhausted"
    and "well_formed s" "s = [] \<or> hd s \<noteq> 0xFEFF"
  shows "fst (access_all parse as (new_response_body reads)) =
    map (\<lambda>a. Some (case a of
        TextOf \<Rightarrow> Inr (TextValue s)
      | JsonOf \<Rightarrow> (case parse s of Inl e \<Rightarrow> Inl e | Inr j \<Rightarrow> Inr (JsonValue j))
      | _ \<Rightarrow> Inr (BytesValue (encodeUtf8 s)))) as"
proof -
  have d: "drain reads = Some (Inr (encodeUtf8 s))" using assms(1,2) by (simp add: drain_eq iterateBody_def)
  have "rb_reads (new_response_body reads) = reads" by (simp add: new_response_body_def)
  then show ?thesis using decode_encode_utf8 [OF assms(3,4)]
    by (auto simp: access_all_own [OF own_new] d split: accessor.split)
qed

theorem response_accessors_agree_witness:
  "fst (access_all (\<lambda>s. Inr (length s)) [TextOf, JsonOf, TextOf] (new_response_body [ReadValue [104], ReadValue [], ReadValue [105], ReadDone])) =
    [Some (Inr (TextValue [104, 105])), Some (Inr (JsonValue 2)), Some (Inr (TextValue [104, 105]))]"
proof -
  have e: "encodeUtf8 [104, 105] = [104, 105]" by (simp add: encodeUtf8_def is_high_def is_low_def utf8_cp_def)
  show ?thesis
    using response_accessors_agree [of "[ReadValue [104], ReadValue [], ReadValue [105], ReadDone]" "[104, 105]" "\<lambda>s. Inr (length s)" "[TextOf, JsonOf, TextOf]"]
    by (simp add: iterateBody_def e is_high_def is_low_def)
qed

end
