(* ===== verification/Recovery.thy ===== *)
theory Recovery
  imports Complex_Main Framing
begin

text \<open>
  \<^verbatim>\<open>web/src/recovery.ts\<close>: \<^verbatim>\<open>RecoveringConnection\<close>, the durable channel that redials after a loss and
  lets sessions that received a GOAWAY drain.

  The object is an event system: each method, promise continuation and timer callback is an event,
  and an asynchronous method is split at its awaits. A session is a number; \<open>rc_opened\<close>,
  \<open>rc_ended\<close> and \<open>rc_closeCalls\<close> record the sessions that were dialled, that ended on their own and
  on which \<^verbatim>\<open>close\<close> was called. An observer runs inside \<^verbatim>\<open>emit\<close> and may call \<^verbatim>\<open>close\<close>, so every event
  that emits carries whether one does (\<open>rude\<close>). A \<open>waiter\<close> is an RPC inside \<^verbatim>\<open>select\<close>, parked on
  \<^verbatim>\<open>changes\<close> or settled.
\<close>

datatype bridge_state = Connecting | OpenState | TransientFailure | ClosedState

datatype promise = Unsettled | Fulfilled | Rejected_promise

datatype wait_result = Parked | Ready | Refused_call nat

record waiter =
  wt_wait :: bool
  wt_result :: wait_result

record recovering =
  rc_session :: "nat option"
  rc_draining :: "nat list"
  rc_state :: bridge_state
  rc_stopped :: bool
  rc_booted :: bool
  rc_dials :: nat
  rc_timer :: "real option"
  rc_delay :: real
  rc_initial :: promise
  rc_finished :: bool
  rc_waiters :: "waiter list"
  rc_opened :: "nat list"
  rc_ended :: "nat list"
  rc_closeCalls :: "nat list"

text \<open>After the constructor, with its microtask queued.\<close>

definition new_RecoveringConnection :: recovering where
  "new_RecoveringConnection = \<lparr>rc_session = None, rc_draining = [], rc_state = Connecting, rc_stopped = False,
     rc_booted = False, rc_dials = 0, rc_timer = None, rc_delay = 1000, rc_initial = Unsettled, rc_finished = False,
     rc_waiters = [], rc_opened = [], rc_ended = [], rc_closeCalls = []\<rparr>"

subsection \<open>select\<close>

text \<open>\<^verbatim>\<open>check\<close> of one call, without its signal: what the state of the channel means for it.\<close>

definition check_waiter :: "recovering \<Rightarrow> waiter \<Rightarrow> waiter" where
  "check_waiter rc w =
     (if wt_result w \<noteq> Parked then w
      else if rc_state rc = ClosedState then w\<lparr>wt_result := Refused_call Unavailable\<rparr>
      else if rc_session rc \<noteq> None then w\<lparr>wt_result := Ready\<rparr>
      else if \<not> wt_wait w \<and> rc_state rc = TransientFailure then w\<lparr>wt_result := Refused_call Unavailable\<rparr>
      else w)"

definition select_start :: "recovering \<Rightarrow> bool \<Rightarrow> bool \<Rightarrow> recovering" where
  "select_start rc aborted wait =
     rc\<lparr>rc_waiters := rc_waiters rc @
       [if aborted then \<lparr>wt_wait = wait, wt_result = Refused_call Canceled\<rparr>
        else check_waiter rc \<lparr>wt_wait = wait, wt_result = Parked\<rparr>]\<rparr>"

text \<open>The abort listener (CANCELED) and the timer (DEADLINE_EXCEEDED) of a parked call.\<close>

definition refuse_waiter :: "recovering \<Rightarrow> nat \<Rightarrow> nat \<Rightarrow> recovering" where
  "refuse_waiter rc i code =
     rc\<lparr>rc_waiters := (rc_waiters rc)[i :=
       if wt_result (rc_waiters rc ! i) = Parked then (rc_waiters rc ! i)\<lparr>wt_result := Refused_call code\<rparr>
       else rc_waiters rc ! i]\<rparr>"

text \<open>The rest of \<^verbatim>\<open>select\<close> once its promise is fulfilled: the session's transport and the time left, or the
  code it throws.\<close>

definition select_finish :: "recovering \<Rightarrow> bool \<Rightarrow> real option \<Rightarrow> real \<Rightarrow> nat + nat \<times> real option" where
  "select_finish rc aborted timeoutMs elapsed =
     (let remaining = (case timeoutMs of Some t \<Rightarrow> Some (if t > 0 then t - elapsed else t) | None \<Rightarrow> None) in
      if aborted then Inl Canceled
      else if (case timeoutMs of Some t \<Rightarrow> t > 0 \<and> t - elapsed \<le> 0 | None \<Rightarrow> False) then Inl DeadlineExceeded
      else case rc_session rc of
             None \<Rightarrow> Inl Unavailable
           | Some s \<Rightarrow> Inr (s, remaining))"

subsection \<open>Lifecycle\<close>

definition settle_initial :: "recovering \<Rightarrow> promise \<Rightarrow> recovering" where
  "settle_initial rc p = (if rc_initial rc = Unsettled then rc\<lparr>rc_initial := p\<rparr> else rc)"

text \<open>\<^verbatim>\<open>emit\<close> up to its observers: the state, then the checks of the parked calls.\<close>

definition announce :: "recovering \<Rightarrow> bridge_state \<Rightarrow> recovering" where
  "announce rc st =
     (let rc1 = rc\<lparr>rc_state := st\<rparr> in rc1\<lparr>rc_waiters := map (check_waiter rc1) (rc_waiters rc1)\<rparr>)"

text \<open>\<^verbatim>\<open>close\<close> up to its await.\<close>

definition close_channel :: "recovering \<Rightarrow> recovering" where
  "close_channel rc =
     (if rc_stopped rc then rc
      else let session = rc_session rc;
               rc1 = settle_initial (rc\<lparr>rc_stopped := True, rc_timer := None, rc_session := None\<rparr>) Rejected_promise;
               rc2 = announce rc1 ClosedState
           in rc2\<lparr>rc_closeCalls := rc_closeCalls rc2 @ (case session of None \<Rightarrow> [] | Some s \<Rightarrow> [s]) @ rc_draining rc2\<rparr>)"

definition close_settled :: "recovering \<Rightarrow> bool \<Rightarrow> recovering" where
  "close_settled rc ok =
     (if rc_stopped rc then rc\<lparr>rc_draining := if ok then [] else rc_draining rc, rc_finished := True\<rparr> else rc)"

definition emit :: "recovering \<Rightarrow> bridge_state \<Rightarrow> bool \<Rightarrow> recovering" where
  "emit rc st rude = (let rc1 = announce rc st in if rude then close_channel rc1 else rc1)"

text \<open>\<^verbatim>\<open>connect\<close> up to the await of \<^verbatim>\<open>dial\<close>; when an observer stopped the channel, \<^verbatim>\<open>throwIfAborted\<close> leads to
  the handler, which only rejects \<^verbatim>\<open>initial\<close>.\<close>

definition connect :: "recovering \<Rightarrow> bool \<Rightarrow> recovering" where
  "connect rc rude =
     (let rc1 = emit rc Connecting rude in
      if rc_stopped rc1 then settle_initial rc1 Rejected_promise
      else rc1\<lparr>rc_dials := Suc (rc_dials rc1)\<rparr>)"

definition retry :: "recovering \<Rightarrow> bool \<Rightarrow> real \<Rightarrow> recovering" where
  "retry rc rude random =
     (let rc1 = emit rc TransientFailure rude in
      if rc_stopped rc1 then rc1
      else rc1\<lparr>rc_timer := Some (rc_delay rc1 * (0.8 + random * 0.4)), rc_delay := min (rc_delay rc1 * 1.6) 30000\<rparr>)"

definition dial_ok :: "recovering \<Rightarrow> nat \<Rightarrow> bool \<Rightarrow> recovering" where
  "dial_ok rc s rude =
     (let rc0 = rc\<lparr>rc_dials := rc_dials rc - 1, rc_opened := rc_opened rc @ [s]\<rparr> in
      if rc_stopped rc0 then rc0\<lparr>rc_closeCalls := rc_closeCalls rc0 @ [s]\<rparr>
      else settle_initial (emit (rc0\<lparr>rc_session := Some s, rc_delay := 1000\<rparr>) OpenState rude) Fulfilled)"

definition dial_failed :: "recovering \<Rightarrow> bool \<Rightarrow> real \<Rightarrow> recovering" where
  "dial_failed rc rude random =
     (let rc0 = settle_initial (rc\<lparr>rc_dials := rc_dials rc - 1\<rparr>) Rejected_promise in
      if rc_stopped rc0 then rc0 else retry rc0 rude random)"

definition lost :: "recovering \<Rightarrow> nat \<Rightarrow> bool \<Rightarrow> real \<Rightarrow> recovering" where
  "lost rc s rude random =
     (if rc_stopped rc \<or> rc_session rc \<noteq> Some s then rc
      else retry (rc\<lparr>rc_session := None\<rparr>) rude random)"

text \<open>A session ended: \<^verbatim>\<open>lost\<close>, and the removal from the draining set.\<close>

definition session_closed :: "recovering \<Rightarrow> nat \<Rightarrow> bool \<Rightarrow> real \<Rightarrow> recovering" where
  "session_closed rc s rude random =
     lost (rc\<lparr>rc_ended := rc_ended rc @ [s], rc_draining := removeAll s (rc_draining rc)\<rparr>) s rude random"

definition session_draining :: "recovering \<Rightarrow> nat \<Rightarrow> bool \<Rightarrow> recovering" where
  "session_draining rc s rude =
     (if rc_stopped rc \<or> rc_session rc \<noteq> Some s then rc
      else connect (rc\<lparr>rc_draining := rc_draining rc @ [s], rc_session := None\<rparr>) rude)"

subsection \<open>Events\<close>

datatype channel_event =
    Boot bool | TimerFires bool | DialOk nat bool | DialFailed bool real
  | SessionClosed nat bool real | SessionDraining nat bool
  | SelectStart bool bool | WaiterCanceled nat | WaiterTimedOut nat
  | CloseCall | CloseSettled bool

text \<open>The microtask of the constructor runs once; a timer callback runs while its timer is set; a dial that
  settles was outstanding, and returns a session of its own. \<^verbatim>\<open>Math.random()\<close> is in the half-open unit
  interval.\<close>

fun channel_step :: "recovering \<Rightarrow> channel_event \<Rightarrow> recovering option" where
  "channel_step rc (Boot rude) =
     (if rc_booted rc then None
      else Some (let rc1 = rc\<lparr>rc_booted := True\<rparr> in if rc_stopped rc1 then rc1 else connect rc1 rude))"
| "channel_step rc (TimerFires rude) =
     (if rc_timer rc = None then None else Some (connect (rc\<lparr>rc_timer := None\<rparr>) rude))"
| "channel_step rc (DialOk s rude) =
     (if rc_dials rc = 0 \<or> s \<in> set (rc_opened rc) then None else Some (dial_ok rc s rude))"
| "channel_step rc (DialFailed rude random) =
     (if rc_dials rc \<noteq> 0 \<and> 0 \<le> random \<and> random < 1 then Some (dial_failed rc rude random) else None)"
| "channel_step rc (SessionClosed s rude random) =
     (if s \<in> set (rc_opened rc) \<and> 0 \<le> random \<and> random < 1 then Some (session_closed rc s rude random) else None)"
| "channel_step rc (SessionDraining s rude) =
     (if s \<in> set (rc_opened rc) then Some (session_draining rc s rude) else None)"
| "channel_step rc (SelectStart aborted wait) = Some (select_start rc aborted wait)"
| "channel_step rc (WaiterCanceled i) =
     (if i < length (rc_waiters rc) then Some (refuse_waiter rc i Canceled) else None)"
| "channel_step rc (WaiterTimedOut i) =
     (if i < length (rc_waiters rc) then Some (refuse_waiter rc i DeadlineExceeded) else None)"
| "channel_step rc CloseCall = Some (close_channel rc)"
| "channel_step rc (CloseSettled ok) = Some (close_settled rc ok)"

inductive channel_reachable :: "recovering \<Rightarrow> bool" where
  start: "channel_reachable new_RecoveringConnection"
| step: "channel_reachable rc \<Longrightarrow> channel_step rc e = Some rc' \<Longrightarrow> channel_reachable rc'"

subsection \<open>Invariants\<close>

text \<open>Exactly one thing drives the channel forward: the queued microtask or an outstanding dial while it is
  connecting, the timer after a failure, the session while it is open; none once it is stopped.\<close>

definition driver_ok :: "recovering \<Rightarrow> bool" where
  "driver_ok rc \<longleftrightarrow>
     (case rc_state rc of
        Connecting \<Rightarrow> \<not> rc_stopped rc \<and> rc_session rc = None \<and> rc_timer rc = None \<and>
          rc_dials rc = (if rc_booted rc then 1 else 0)
      | OpenState \<Rightarrow> \<not> rc_stopped rc \<and> rc_session rc \<noteq> None \<and> rc_timer rc = None \<and> rc_dials rc = 0 \<and> rc_booted rc
      | TransientFailure \<Rightarrow> \<not> rc_stopped rc \<and> rc_session rc = None \<and> rc_timer rc \<noteq> None \<and> rc_dials rc = 0 \<and> rc_booted rc
      | ClosedState \<Rightarrow> rc_stopped rc \<and> rc_session rc = None \<and> rc_timer rc = None \<and> rc_dials rc \<le> 1)"

definition must_park :: "recovering \<Rightarrow> waiter \<Rightarrow> bool" where
  "must_park rc w \<longleftrightarrow> rc_state rc \<noteq> ClosedState \<and> rc_session rc = None \<and> (wt_wait w \<or> rc_state rc \<noteq> TransientFailure)"

definition waiters_ok :: "recovering \<Rightarrow> bool" where
  "waiters_ok rc \<longleftrightarrow> list_all (\<lambda>w. wt_result w = Parked \<longrightarrow> must_park rc w) (rc_waiters rc)"

definition sessions_ok :: "recovering \<Rightarrow> bool" where
  "sessions_ok rc \<longleftrightarrow> set_option (rc_session rc) \<union> set (rc_draining rc) \<subseteq> set (rc_opened rc) \<and>
     set (rc_opened rc) \<subseteq>
       (if rc_stopped rc then {} else set_option (rc_session rc) \<union> set (rc_draining rc))
       \<union> set (rc_ended rc) \<union> set (rc_closeCalls rc)"

definition timing_ok :: "recovering \<Rightarrow> bool" where
  "timing_ok rc \<longleftrightarrow> 1000 \<le> rc_delay rc \<and> rc_delay rc \<le> 30000 \<and> pred_option (\<lambda>d. 800 \<le> d \<and> d \<le> 36000) (rc_timer rc) \<and>
     (rc_initial rc = Unsettled \<longrightarrow> rc_state rc = Connecting)"

definition channel_ok :: "recovering \<Rightarrow> bool" where
  "channel_ok rc \<longleftrightarrow> driver_ok rc \<and> waiters_ok rc \<and> sessions_ok rc \<and> timing_ok rc"

lemma check_waiter_cong:
  "rc_state rc' = rc_state rc \<Longrightarrow> rc_session rc' = rc_session rc \<Longrightarrow> check_waiter rc' = check_waiter rc"
  by (simp add: check_waiter_def fun_eq_iff)

lemma check_waiter_parks: "wt_result (check_waiter rc w) = Parked \<Longrightarrow> must_park rc (check_waiter rc w)"
  by (auto simp: check_waiter_def must_park_def split: if_splits)

lemma announce_fields [simp]:
  "rc_session (announce rc st) = rc_session rc" "rc_draining (announce rc st) = rc_draining rc"
  "rc_state (announce rc st) = st" "rc_stopped (announce rc st) = rc_stopped rc"
  "rc_booted (announce rc st) = rc_booted rc" "rc_dials (announce rc st) = rc_dials rc"
  "rc_timer (announce rc st) = rc_timer rc" "rc_delay (announce rc st) = rc_delay rc"
  "rc_initial (announce rc st) = rc_initial rc" "rc_finished (announce rc st) = rc_finished rc"
  "rc_opened (announce rc st) = rc_opened rc" "rc_ended (announce rc st) = rc_ended rc"
  "rc_closeCalls (announce rc st) = rc_closeCalls rc"
  by (simp_all add: announce_def Let_def)

lemma waiters_cong:
  "rc_state rc' = rc_state rc \<Longrightarrow> rc_session rc' = rc_session rc \<Longrightarrow> rc_waiters rc' = rc_waiters rc \<Longrightarrow>
   waiters_ok rc' = waiters_ok rc"
  by (simp add: waiters_ok_def must_park_def)

lemma waiters_announce: "waiters_ok (announce rc st)"
proof -
  have "check_waiter (rc\<lparr>rc_state := st\<rparr>) = check_waiter (announce rc st)" by (rule check_waiter_cong) simp_all
  then have "rc_waiters (announce rc st) = map (check_waiter (announce rc st)) (rc_waiters rc)"
    by (simp add: announce_def Let_def)
  then show ?thesis by (auto simp: waiters_ok_def list_all_iff check_waiter_parks)
qed

lemma settle_initial_fields [simp]:
  "rc_session (settle_initial rc p) = rc_session rc" "rc_draining (settle_initial rc p) = rc_draining rc"
  "rc_state (settle_initial rc p) = rc_state rc" "rc_stopped (settle_initial rc p) = rc_stopped rc"
  "rc_booted (settle_initial rc p) = rc_booted rc" "rc_dials (settle_initial rc p) = rc_dials rc"
  "rc_timer (settle_initial rc p) = rc_timer rc" "rc_delay (settle_initial rc p) = rc_delay rc"
  "rc_waiters (settle_initial rc p) = rc_waiters rc" "rc_finished (settle_initial rc p) = rc_finished rc"
  "rc_opened (settle_initial rc p) = rc_opened rc" "rc_ended (settle_initial rc p) = rc_ended rc"
  "rc_closeCalls (settle_initial rc p) = rc_closeCalls rc"
  "rc_initial (settle_initial rc p) = (if rc_initial rc = Unsettled then p else rc_initial rc)"
  by (simp_all add: settle_initial_def)

lemma waiters_settle [simp]: "waiters_ok (settle_initial rc p) = waiters_ok rc"
  by (simp add: waiters_ok_def must_park_def)

text \<open>Closing from any state whose sessions are accounted for.\<close>

lemma close_channel_ok:
  assumes "\<not> rc_stopped rc" "sessions_ok rc" "rc_dials rc \<le> 1" "1000 \<le> rc_delay rc" "rc_delay rc \<le> 30000"
  shows "channel_ok (close_channel rc)" "rc_stopped (close_channel rc)"
proof -
  let ?rc1 = "settle_initial (rc\<lparr>rc_stopped := True, rc_timer := None, rc_session := None\<rparr>) Rejected_promise"
  have "waiters_ok (close_channel rc)"
    using assms(1) waiters_cong [of "close_channel rc" "announce ?rc1 ClosedState"] waiters_announce
    by (simp add: close_channel_def Let_def)
  then show "channel_ok (close_channel rc)"
    using assms by (auto simp: channel_ok_def close_channel_def Let_def driver_ok_def sessions_ok_def timing_ok_def
        split: option.splits)
  show "rc_stopped (close_channel rc)" using assms(1) by (simp add: close_channel_def Let_def)
qed

text \<open>A channel between two drivers: nothing outstanding, about to redial or to arm the timer.\<close>

definition idle :: "recovering \<Rightarrow> bool" where
  "idle rc \<longleftrightarrow> \<not> rc_stopped rc \<and> sessions_ok rc \<and> rc_session rc = None \<and> rc_timer rc = None \<and> rc_dials rc = 0 \<and>
     rc_booted rc \<and> 1000 \<le> rc_delay rc \<and> rc_delay rc \<le> 30000"

lemma sessions_cong:
  "rc_session rc' = rc_session rc \<Longrightarrow> rc_draining rc' = rc_draining rc \<Longrightarrow> rc_stopped rc' = rc_stopped rc \<Longrightarrow>
   rc_opened rc' = rc_opened rc \<Longrightarrow> rc_ended rc' = rc_ended rc \<Longrightarrow> rc_closeCalls rc' = rc_closeCalls rc \<Longrightarrow>
   sessions_ok rc' = sessions_ok rc"
  by (simp add: sessions_ok_def)

lemma sessions_announce [simp]:
  "sessions_ok (announce rc st) = sessions_ok rc" "sessions_ok (settle_initial rc p) = sessions_ok rc"
  by (rule sessions_cong; simp)+

lemma connect_ok:
  assumes "idle rc"
  shows "channel_ok (connect rc rude)"
proof (cases rude)
  case True
  have "channel_ok (close_channel (announce rc Connecting))" "rc_stopped (close_channel (announce rc Connecting))"
    using assms by (simp_all add: idle_def close_channel_ok)
  then show ?thesis using True
    by (auto simp: connect_def emit_def Let_def channel_ok_def driver_ok_def timing_ok_def settle_initial_def
        split: bridge_state.splits)
next
  case False
  have "waiters_ok (connect rc rude)"
    using False assms waiters_announce [of rc Connecting] waiters_cong [of "connect rc rude" "announce rc Connecting"]
    by (simp add: connect_def emit_def idle_def)
  moreover have "sessions_ok (connect rc rude)"
    using False assms sessions_cong [of "connect rc rude" rc] by (simp add: connect_def emit_def idle_def)
  ultimately show ?thesis using False assms
    by (simp add: channel_ok_def connect_def emit_def driver_ok_def timing_ok_def idle_def)
qed

lemma retry_ok:
  assumes "idle rc" "rc_initial rc \<noteq> Unsettled" "0 \<le> random" "random < 1"
  shows "channel_ok (retry rc rude random)"
proof (cases rude)
  case True
  have "channel_ok (close_channel (announce rc TransientFailure))" "rc_stopped (close_channel (announce rc TransientFailure))"
    using assms by (simp_all add: idle_def close_channel_ok)
  then show ?thesis using True by (simp add: retry_def emit_def)
next
  case False
  have "waiters_ok (retry rc rude random)"
    using False assms waiters_announce [of rc TransientFailure]
      waiters_cong [of "retry rc rude random" "announce rc TransientFailure"]
    by (simp add: retry_def emit_def idle_def)
  moreover have "sessions_ok (retry rc rude random)"
    using False assms sessions_cong [of "retry rc rude random" rc] by (simp add: retry_def emit_def idle_def)
  moreover have "800 \<le> rc_delay rc * (0.8 + random * 0.4)" "rc_delay rc * (0.8 + random * 0.4) \<le> 36000"
    using assms mult_mono [of 1000 "rc_delay rc" "0.8" "0.8 + random * 0.4"]
      mult_mono [of "rc_delay rc" 30000 "0.8 + random * 0.4" "1.2"] by (auto simp: idle_def)
  ultimately show ?thesis using False assms
    by (simp add: channel_ok_def retry_def emit_def driver_ok_def timing_ok_def idle_def)
qed

lemma dial_ok_ok:
  assumes "channel_ok rc" "rc_dials rc \<noteq> 0"
  shows "channel_ok (dial_ok rc s rude)"
proof (cases "rc_stopped rc")
  case True
  have "waiters_ok (dial_ok rc s rude)" using assms True waiters_cong [of "dial_ok rc s rude" rc]
    by (simp add: dial_ok_def channel_ok_def)
  then show ?thesis using True assms
    by (auto simp: channel_ok_def dial_ok_def driver_ok_def sessions_ok_def timing_ok_def split: bridge_state.splits)
next
  case False
  let ?rc0 = "rc\<lparr>rc_dials := rc_dials rc - 1, rc_opened := rc_opened rc @ [s], rc_session := Some s, rc_delay := 1000\<rparr>"
  have rc: "rc_state rc = Connecting" "rc_session rc = None" "rc_timer rc = None" "rc_dials rc = 1" "rc_booted rc"
    using assms False by (auto simp: channel_ok_def driver_ok_def split: bridge_state.splits if_splits)
  have s: "sessions_ok ?rc0" using assms False rc(2) by (auto simp: channel_ok_def sessions_ok_def)
  show ?thesis
  proof (cases rude)
    case True
    have "channel_ok (close_channel (announce ?rc0 OpenState))" "rc_stopped (close_channel (announce ?rc0 OpenState))"
      using s False rc by (simp_all add: close_channel_ok)
    then show ?thesis using True False
      by (auto simp: dial_ok_def emit_def Let_def channel_ok_def driver_ok_def timing_ok_def settle_initial_def
          split: bridge_state.splits)
  next
    case polite: False
    have "waiters_ok (dial_ok rc s rude)"
      using polite False waiters_announce [of ?rc0 OpenState] by (simp add: dial_ok_def emit_def)
    then show ?thesis using polite False s rc
      by (simp add: channel_ok_def dial_ok_def emit_def driver_ok_def timing_ok_def)
  qed
qed

lemma dial_failed_ok:
  assumes "channel_ok rc" "rc_dials rc \<noteq> 0" "0 \<le> random" "random < 1"
  shows "channel_ok (dial_failed rc rude random)"
proof (cases "rc_stopped rc")
  case True
  have "waiters_ok (dial_failed rc rude random)" using assms True waiters_cong [of "dial_failed rc rude random" rc]
    by (simp add: dial_failed_def channel_ok_def)
  then show ?thesis using True assms
    by (auto simp: channel_ok_def dial_failed_def driver_ok_def sessions_ok_def timing_ok_def split: bridge_state.splits)
next
  case False
  let ?rc0 = "settle_initial (rc\<lparr>rc_dials := rc_dials rc - 1\<rparr>) Rejected_promise"
  have "idle ?rc0" using assms False sessions_cong [of "rc\<lparr>rc_dials := rc_dials rc - 1\<rparr>" rc]
    by (auto simp: idle_def channel_ok_def driver_ok_def timing_ok_def split: bridge_state.splits if_splits)
  from retry_ok [OF this _ assms(3,4), of rude] False show ?thesis by (simp add: dial_failed_def)
qed

lemma session_closed_ok:
  assumes "channel_ok rc" "s \<in> set (rc_opened rc)" "0 \<le> random" "random < 1"
  shows "channel_ok (session_closed rc s rude random)"
proof -
  let ?rc0 = "rc\<lparr>rc_ended := rc_ended rc @ [s], rc_draining := removeAll s (rc_draining rc)\<rparr>"
  have ok: "channel_ok ?rc0" using assms waiters_cong [of ?rc0 rc]
    by (auto simp: channel_ok_def driver_ok_def sessions_ok_def timing_ok_def split: bridge_state.splits)
  show ?thesis
  proof (cases "rc_stopped rc \<or> rc_session rc \<noteq> Some s")
    case True
    with ok show ?thesis by (simp add: session_closed_def lost_def)
  next
    case False
    let ?rc1 = "?rc0\<lparr>rc_session := None\<rparr>"
    have "idle ?rc1" "rc_initial ?rc1 \<noteq> Unsettled" using assms False
      by (auto simp: idle_def channel_ok_def driver_ok_def sessions_ok_def timing_ok_def split: bridge_state.splits if_splits)
    from retry_ok [OF this assms(3,4), of rude] False show ?thesis by (simp add: session_closed_def lost_def)
  qed
qed

lemma session_draining_ok:
  assumes "channel_ok rc"
  shows "channel_ok (session_draining rc s rude)"
proof (cases "rc_stopped rc \<or> rc_session rc \<noteq> Some s")
  case True
  with assms show ?thesis by (simp add: session_draining_def)
next
  case False
  let ?rc1 = "rc\<lparr>rc_draining := rc_draining rc @ [s], rc_session := None\<rparr>"
  have "idle ?rc1" using assms False
    by (auto simp: idle_def channel_ok_def driver_ok_def sessions_ok_def timing_ok_def split: bridge_state.splits if_splits)
  from connect_ok [OF this, of rude] False show ?thesis by (simp add: session_draining_def)
qed

lemma channel_ok_waiters:
  assumes "channel_ok rc" "list_all (\<lambda>w. wt_result w = Parked \<longrightarrow> must_park rc w) ws"
  shows "channel_ok (rc\<lparr>rc_waiters := ws\<rparr>)"
  using assms
  by (auto simp: channel_ok_def driver_ok_def waiters_ok_def must_park_def sessions_ok_def timing_ok_def
      split: bridge_state.splits)

lemma select_start_ok: "channel_ok rc \<Longrightarrow> channel_ok (select_start rc aborted wait)"
  using check_waiter_parks [of rc "\<lparr>wt_wait = wait, wt_result = Parked\<rparr>"]
  unfolding select_start_def by (intro channel_ok_waiters) (auto simp: channel_ok_def waiters_ok_def)

lemma refuse_waiter_ok: "channel_ok rc \<Longrightarrow> i < length (rc_waiters rc) \<Longrightarrow> channel_ok (refuse_waiter rc i code)"
  unfolding refuse_waiter_def
  by (intro channel_ok_waiters) (auto simp: channel_ok_def waiters_ok_def list_all_length nth_list_update)

lemma close_call_ok: "channel_ok rc \<Longrightarrow> channel_ok (close_channel rc)"
  by (cases "rc_stopped rc", simp add: close_channel_def, rule close_channel_ok)
     (auto simp: channel_ok_def driver_ok_def timing_ok_def split: bridge_state.splits if_splits)

lemma channel_ok_step:
  assumes "channel_ok rc" "channel_step rc e = Some rc'"
  shows "channel_ok rc'"
proof (cases e)
  case (Boot rude)
  let ?rc1 = "rc\<lparr>rc_booted := True\<rparr>"
  have w: "waiters_ok ?rc1" "sessions_ok ?rc1"
    using assms(1) waiters_cong [of ?rc1 rc] sessions_cong [of ?rc1 rc] by (simp_all add: channel_ok_def)
  have "\<not> rc_stopped rc \<Longrightarrow> idle ?rc1" "rc_stopped rc \<Longrightarrow> channel_ok ?rc1"
    using assms w Boot by (auto simp: idle_def channel_ok_def driver_ok_def timing_ok_def split: bridge_state.splits if_splits)
  with connect_ok [of ?rc1 rude] assms(2) Boot show ?thesis by (auto simp: Let_def split: if_splits)
next
  case (TimerFires rude)
  let ?rc1 = "rc\<lparr>rc_timer := None\<rparr>"
  have "idle ?rc1" using assms TimerFires sessions_cong [of ?rc1 rc]
    by (auto simp: idle_def channel_ok_def driver_ok_def timing_ok_def split: bridge_state.splits if_splits)
  with connect_ok [of ?rc1 rude] assms(2) TimerFires show ?thesis by (auto split: if_splits)
next
  case (CloseSettled ok)
  then have rc': "rc' = close_settled rc ok" using assms(2) by simp
  have "waiters_ok rc'" using assms(1) waiters_cong [of rc' rc] by (simp add: rc' close_settled_def channel_ok_def)
  then show ?thesis using assms(1)
    by (auto simp: rc' close_settled_def channel_ok_def driver_ok_def sessions_ok_def timing_ok_def split: bridge_state.splits)
qed (use assms dial_ok_ok dial_failed_ok session_closed_ok session_draining_ok select_start_ok
    refuse_waiter_ok close_call_ok in \<open>auto split: if_splits\<close>)

lemma channel_ok_reachable: "channel_reachable rc \<Longrightarrow> channel_ok rc"
proof (induction rule: channel_reachable.induct)
  case start
  show ?case by (simp add: channel_ok_def driver_ok_def waiters_ok_def sessions_ok_def timing_ok_def new_RecoveringConnection_def)
next
  case (step rc e rc')
  then show ?case by (blast intro: channel_ok_step)
qed

lemma stopped_step: "rc_stopped rc \<Longrightarrow> channel_step rc e = Some rc' \<Longrightarrow> rc_timer rc = None \<Longrightarrow>
    rc_stopped rc' \<and> rc_dials rc' \<le> rc_dials rc"
  by (cases e)
     (auto simp: Let_def dial_ok_def dial_failed_def session_closed_def lost_def session_draining_def select_start_def
        refuse_waiter_def close_channel_def close_settled_def split: if_splits)

subsection \<open>Properties\<close>

text \<open>A channel that was booted, failed its first dial, redialled and is open, with one call parked since the
  start and one cancelled.\<close>

definition healed :: recovering where
  "healed = \<lparr>rc_session = Some 7, rc_draining = [], rc_state = OpenState, rc_stopped = False,
     rc_booted = True, rc_dials = 0, rc_timer = None, rc_delay = 1000, rc_initial = Rejected_promise, rc_finished = False,
     rc_waiters = [\<lparr>wt_wait = True, wt_result = Ready\<rparr>, \<lparr>wt_wait = False, wt_result = Refused_call Canceled\<rparr>],
     rc_opened = [7], rc_ended = [], rc_closeCalls = []\<rparr>"

fun channel_run :: "recovering \<Rightarrow> channel_event list \<Rightarrow> recovering option" where
  "channel_run rc [] = Some rc"
| "channel_run rc (e # es) = Option.bind (channel_step rc e) (\<lambda>rc'. channel_run rc' es)"

lemma channel_run_reachable: "channel_reachable rc \<Longrightarrow> channel_run rc es = Some rc' \<Longrightarrow> channel_reachable rc'"
  by (induction es arbitrary: rc) (auto simp: Option.bind_eq_Some_conv dest: channel_reachable.step)

lemma healed_reachable: "channel_reachable healed"
  by (rule channel_run_reachable [OF channel_reachable.start, where es = "[SelectStart False True, Boot False,
        SelectStart True False, DialFailed False (1 / 2), TimerFires False, DialOk 7 False]"])
     (simp add: healed_def new_RecoveringConnection_def select_start_def check_waiter_def connect_def emit_def announce_def
        dial_failed_def retry_def settle_initial_def dial_ok_def Let_def)

text \<open>C14: A durable channel always heals: in every reachable state that was not closed, exactly one thing will
  move it forward (the first connection attempt, an outstanding dial, the reconnect timer, or the
  open session), even if observers close the channel or sessions end in the middle of a transition;
  it is never stuck without one and never dials twice at once, and the reconnect timer is between
  0.8 and 36 seconds.\<close>

theorem channel_heals:
  assumes "channel_reachable rc" and "\<not> rc_stopped rc"
  shows "(if rc_booted rc then 0 else 1) + rc_dials rc + (if rc_timer rc = None then 0 else 1) +
           (if rc_session rc = None then 0 else 1) = (1 :: nat) \<and>
         pred_option (\<lambda>d. 800 \<le> d \<and> d \<le> 36000) (rc_timer rc) \<and>
         (rc_state rc = OpenState \<longleftrightarrow> rc_session rc \<noteq> None)"
  using channel_ok_reachable [OF assms(1)] assms(2)
  by (auto simp: channel_ok_def driver_ok_def timing_ok_def split: bridge_state.splits)

theorem channel_heals_witness: "rc_session healed = Some 7 \<and> rc_state healed = OpenState"
  using channel_heals [OF healed_reachable] by (simp add: healed_def)

text \<open>C25: No call waits in vain: in every reachable state a call that is parked in \<^verbatim>\<open>select\<close> has no session to use
  and the channel is not closed, and if it is not waiting for readiness the channel is still
  connecting; so it is woken by the very event that gives it a session, an error or the end, and it
  could not have proceeded: \<^verbatim>\<open>select\<close> would throw CANCELED, DEADLINE_EXCEEDED or UNAVAILABLE.\<close>

theorem parked_calls_justified:
  assumes "channel_reachable rc" and "w \<in> set (rc_waiters rc)" and "wt_result w = Parked"
  shows "rc_session rc = None \<and> rc_state rc \<in> {Connecting, TransientFailure} \<and> (wt_wait w \<or> rc_state rc = Connecting) \<and>
    (case select_finish rc aborted timeoutMs elapsed of Inl code \<Rightarrow> code \<in> {Canceled, DeadlineExceeded, Unavailable} | Inr _ \<Rightarrow> False)"
proof -
  have "must_park rc w" "rc_state rc = OpenState \<longrightarrow> rc_session rc \<noteq> None"
    using channel_ok_reachable [OF assms(1)] assms(2,3)
    by (auto simp: channel_ok_def waiters_ok_def list_all_iff driver_ok_def)
  then show ?thesis
    by (cases "rc_state rc"; cases timeoutMs) (auto simp: must_park_def select_finish_def Let_def)
qed

lemma parked_reachable:
  "channel_reachable (new_RecoveringConnection\<lparr>rc_waiters := [\<lparr>wt_wait = False, wt_result = Parked\<rparr>]\<rparr>)"
  by (rule channel_run_reachable [OF channel_reachable.start, where es = "[SelectStart False False]"])
     (simp add: new_RecoveringConnection_def select_start_def check_waiter_def)

theorem parked_calls_justified_witness:
  "let rc = new_RecoveringConnection\<lparr>rc_waiters := [\<lparr>wt_wait = False, wt_result = Parked\<rparr>]\<rparr>
   in rc_session rc = None \<and> rc_state rc \<in> {Connecting, TransientFailure}"
  using parked_calls_justified [OF parked_reachable, of "\<lparr>wt_wait = False, wt_result = Parked\<rparr>" False None 0] by simp

text \<open>C24: Closing is final and leaks nothing: from any reachable state, \<^verbatim>\<open>close\<close> stops the channel; every session
  ever dialled has then ended or been closed, no call stays parked, \<^verbatim>\<open>initial\<close> is settled, and
  whatever happens next the channel stays closed and starts no dial (a dial still outstanding has its
  session closed when it returns).\<close>

theorem close_is_final:
  assumes "channel_reachable rc" and "channel_run (close_channel rc) es = Some rc'"
  shows "rc_stopped rc' \<and> rc_state rc' = ClosedState \<and> rc_dials rc' \<le> rc_dials (close_channel rc) \<and>
    set (rc_opened rc') \<subseteq> set (rc_ended rc') \<union> set (rc_closeCalls rc') \<and>
    list_all (\<lambda>w. wt_result w \<noteq> Parked) (rc_waiters rc') \<and> rc_initial rc' \<noteq> Unsettled"
proof -
  have r: "channel_reachable (close_channel rc)" by (rule channel_reachable.step [OF assms(1), of CloseCall]) simp
  have st: "rc_stopped (close_channel rc)" by (simp add: close_channel_def Let_def)
  have main: "rc_stopped q' \<and> rc_dials q' \<le> rc_dials q"
    if "channel_reachable q" "rc_stopped q" "channel_run q es = Some q'" for q q'
    using that
  proof (induction es arbitrary: q)
    case (Cons e es)
    from Cons.prems(3) obtain q1 where q1: "channel_step q e = Some q1" "channel_run q1 es = Some q'"
      by (auto simp: Option.bind_eq_Some_conv)
    have "rc_timer q = None" using channel_ok_reachable [OF Cons.prems(1)] Cons.prems(2)
      by (auto simp: channel_ok_def driver_ok_def split: bridge_state.splits)
    from stopped_step [OF Cons.prems(2) q1(1) this] Cons.IH [OF channel_reachable.step [OF Cons.prems(1) q1(1)] _ q1(2)]
    show ?case by auto
  qed simp
  have "channel_ok rc'" by (rule channel_ok_reachable [OF channel_run_reachable [OF r assms(2)]])
  moreover have "rc_stopped rc' \<and> rc_dials rc' \<le> rc_dials (close_channel rc)" by (rule main [OF r st assms(2)])
  ultimately show ?thesis
    by (auto simp: channel_ok_def driver_ok_def waiters_ok_def must_park_def sessions_ok_def timing_ok_def list_all_iff
        split: bridge_state.splits)
qed

theorem close_is_final_witness:
  "set (rc_opened (close_channel healed)) \<subseteq> set (rc_ended (close_channel healed)) \<union> set (rc_closeCalls (close_channel healed))"
  using close_is_final [OF healed_reachable, of "[]"] by simp

end
