(* ===== verification/Routing.thy ===== *)
theory Routing
  imports Recovery
begin

text \<open>
  The two sides of \<^verbatim>\<open>RecoveringConnection\<close> (\<^verbatim>\<open>web/src/recovery.ts\<close>) towards its users: the observers that \<^verbatim>\<open>emit\<close>
  and \<^verbatim>\<open>subscribe\<close> call, and the transport that a call of the retry layer is sent to.

  In the theory \<open>Recovery\<close> an emission only says whether an observer closes the channel; here the observers are written
  out. What an observer does may depend on everything that was delivered before: it returns, throws, closes the channel or
  ends its subscription.
\<close>

subsection \<open>Observers\<close>

datatype reaction = Stays | Throws | Closes | Leaves

record observers =
  ob_listeners :: "nat list"
  ob_state :: bridge_state
  ob_stopped :: bool
  ob_seen :: "(nat \<times> bridge_state) list"

type_synonym behaviour = "(nat \<times> bridge_state) list \<Rightarrow> nat \<Rightarrow> bridge_state \<Rightarrow> reaction"

definition new_observers :: "nat option \<Rightarrow> observers" where
  "new_observers listener = \<lparr>ob_listeners = (case listener of None \<Rightarrow> [] | Some l \<Rightarrow> [l]), ob_state = Connecting,
     ob_stopped = False, ob_seen = []\<rparr>"

text \<open>One call of a listener, with what it does to the channel; \<open>close\<close> is the channel's method.\<close>

definition call_listener :: "behaviour \<Rightarrow> (observers \<Rightarrow> observers) \<Rightarrow> bridge_state \<Rightarrow> nat \<Rightarrow> observers \<Rightarrow> observers" where
  "call_listener react close st l ob =
     (let ob1 = ob\<lparr>ob_seen := ob_seen ob @ [(l, st)]\<rparr> in
      case react (ob_seen ob) l st of
        Stays \<Rightarrow> ob1
      | Throws \<Rightarrow> ob1
      | Closes \<Rightarrow> close ob1
      | Leaves \<Rightarrow> ob1\<lparr>ob_listeners := removeAll l (ob_listeners ob1)\<rparr>)"

fun deliver :: "behaviour \<Rightarrow> (observers \<Rightarrow> observers) \<Rightarrow> bridge_state \<Rightarrow> nat list \<Rightarrow> observers \<Rightarrow> observers" where
  "deliver react close st [] ob = ob"
| "deliver react close st (l # ls) ob = deliver react close st ls (call_listener react close st l ob)"

text \<open>\<^verbatim>\<open>emit\<close> runs over a copy of the listeners.\<close>

definition ob_emit :: "behaviour \<Rightarrow> (observers \<Rightarrow> observers) \<Rightarrow> bridge_state \<Rightarrow> observers \<Rightarrow> observers" where
  "ob_emit react close st ob = deliver react close st (ob_listeners ob) (ob\<lparr>ob_state := st\<rparr>)"

text \<open>A \<^verbatim>\<open>close\<close> inside the emission of \<^verbatim>\<open>close\<close> finds the channel stopped and does nothing.\<close>

definition ob_close :: "behaviour \<Rightarrow> observers \<Rightarrow> observers" where
  "ob_close react ob =
     (if ob_stopped ob then ob else ob_emit react (\<lambda>ob. ob) ClosedState (ob\<lparr>ob_stopped := True\<rparr>))"

definition subscribe :: "behaviour \<Rightarrow> nat \<Rightarrow> observers \<Rightarrow> observers" where
  "subscribe react l ob =
     call_listener react (ob_close react) (ob_state ob) l
       (ob\<lparr>ob_listeners := (if l \<in> set (ob_listeners ob) then ob_listeners ob else ob_listeners ob @ [l])\<rparr>)"

definition unsubscribe :: "nat \<Rightarrow> observers \<Rightarrow> observers" where
  "unsubscribe l ob = ob\<lparr>ob_listeners := removeAll l (ob_listeners ob)\<rparr>"

text \<open>The states one listener was told, and the emissions of a channel, each of which happens only while it is not
  stopped.\<close>

definition told :: "observers \<Rightarrow> nat \<Rightarrow> bridge_state list" where
  "told ob l = map snd (filter (\<lambda>p. fst p = l) (ob_seen ob))"

fun emit_all :: "behaviour \<Rightarrow> bridge_state list \<Rightarrow> observers \<Rightarrow> observers" where
  "emit_all react [] ob = ob"
| "emit_all react (st # sts) ob =
     (let ob1 = ob_emit react (ob_close react) st ob in if ob_stopped ob1 then ob1 else emit_all react sts ob1)"

lemma told_append [simp]: "told (ob\<lparr>ob_seen := ob_seen ob @ [(k, st)]\<rparr>) l = told ob l @ (if k = l then [st] else [])"
  by (simp add: told_def)

lemma told_cong [simp]:
  "told (ob\<lparr>ob_listeners := ls\<rparr>) l = told ob l" "told (ob\<lparr>ob_state := st\<rparr>) l = told ob l" "told (ob\<lparr>ob_stopped := b\<rparr>) l = told ob l"
  by (simp_all add: told_def)

text \<open>Observers that neither close nor leave: each is called once per emission, and the channel is untouched.\<close>

definition quiet :: "behaviour \<Rightarrow> bool" where
  "quiet react \<longleftrightarrow> (\<forall>seen l st. react seen l st \<in> {Stays, Throws})"

lemma deliver_quiet:
  assumes "quiet react"
  shows "deliver react close st ls ob = ob\<lparr>ob_seen := ob_seen ob @ map (\<lambda>l. (l, st)) ls\<rparr>"
proof (induction ls arbitrary: ob)
  case (Cons l ls)
  have "react (ob_seen ob) l st = Stays \<or> react (ob_seen ob) l st = Throws" using assms by (simp add: quiet_def)
  then have "call_listener react close st l ob = ob\<lparr>ob_seen := ob_seen ob @ [(l, st)]\<rparr>"
    by (auto simp: call_listener_def)
  then show ?case using Cons.IH by simp
qed simp

lemma filter_listener: "distinct ls \<Longrightarrow> l \<in> set ls \<Longrightarrow> filter (\<lambda>k. k = l) ls = [l]"
  by (induction ls) (auto simp: filter_empty_conv)

lemma emit_all_quiet:
  assumes "quiet react" "\<not> ob_stopped ob" "distinct (ob_listeners ob)" "l \<in> set (ob_listeners ob)"
  shows "told (emit_all react sts ob) l = told ob l @ sts"
  using assms(2-4)
proof (induction sts arbitrary: ob)
  case (Cons st sts)
  let ?ob1 = "ob\<lparr>ob_state := st, ob_seen := ob_seen ob @ map (\<lambda>l. (l, st)) (ob_listeners ob)\<rparr>"
  have e: "ob_emit react (ob_close react) st ob = ?ob1" by (simp add: ob_emit_def deliver_quiet [OF assms(1)])
  have "told ?ob1 l = told ob l @ [st]"
    using filter_listener [OF Cons.prems(2,3)] by (simp add: told_def filter_map o_def)
  moreover have "told (emit_all react sts ?ob1) l = told ?ob1 l @ sts" using Cons.prems by (intro Cons.IH) simp_all
  ultimately show ?case using Cons.prems by (simp add: e Let_def)
qed simp

text \<open>After a close every listener was told so; only the emission in progress, if any, still runs.\<close>

lemma call_listener_inner:
  "told (call_listener react (\<lambda>ob. ob) st k ob) l = told ob l @ (if k = l then [st] else [])"
  "ob_stopped (call_listener react (\<lambda>ob. ob) st k ob) = ob_stopped ob"
  "ob_state (call_listener react (\<lambda>ob. ob) st k ob) = ob_state ob"
  by (auto simp: call_listener_def Let_def split: reaction.split)

lemma deliver_inner:
  "distinct ls \<Longrightarrow> told (deliver react (\<lambda>ob. ob) st ls ob) l = told ob l @ (if l \<in> set ls then [st] else []) \<and>
    ob_stopped (deliver react (\<lambda>ob. ob) st ls ob) = ob_stopped ob \<and>
    ob_state (deliver react (\<lambda>ob. ob) st ls ob) = ob_state ob"
  by (induction ls arbitrary: ob) (auto simp: call_listener_inner)

lemma ob_close_told:
  assumes "\<not> ob_stopped ob" "distinct (ob_listeners ob)"
  shows "told (ob_close react ob) l = told ob l @ (if l \<in> set (ob_listeners ob) then [ClosedState] else [])"
    "ob_stopped (ob_close react ob)" "ob_state (ob_close react ob) = ClosedState"
  using assms deliver_inner [of "ob_listeners ob" react ClosedState "ob\<lparr>ob_stopped := True, ob_state := ClosedState\<rparr>" l]
  by (simp_all add: ob_close_def ob_emit_def)

lemma deliver_stopped:
  assumes "ob_stopped ob" "distinct ls"
  shows "told (deliver react (ob_close react) st ls ob) l = told ob l @ (if l \<in> set ls then [st] else []) \<and>
    ob_stopped (deliver react (ob_close react) st ls ob) \<and> ob_state (deliver react (ob_close react) st ls ob) = ob_state ob"
  using assms
proof (induction ls arbitrary: ob)
  case (Cons k ls)
  have "call_listener react (ob_close react) st k ob = call_listener react (\<lambda>ob. ob) st k ob"
    using Cons.prems(1) by (simp add: call_listener_def Let_def ob_close_def split: reaction.split)
  then show ?case using Cons by (auto simp: call_listener_inner)
qed simp

subsection \<open>Where a call goes\<close>

text \<open>The first pass of a retried call goes to the transport \<^verbatim>\<open>direct\<close>, which selects a session with the call's own
  \<^verbatim>\<open>waitForReady\<close>; a later pass has selected one before, always waiting.\<close>

definition direct_wait :: "bool option \<Rightarrow> bool" where
  "direct_wait waitForReady = (case waitForReady of Some b \<Rightarrow> b | None \<Rightarrow> False)"

definition pass_waits :: "bool \<Rightarrow> bool option \<Rightarrow> bool" where
  "pass_waits retrying waitForReady = (if \<not> retrying then direct_wait waitForReady else True)"

text \<open>The session and the timeout that the tunnel transport gets: \<open>before\<close> is the time left when the retry loop selects,
  \<open>after\<close> when it invokes, \<open>elapsed\<close> the time spent in \<^verbatim>\<open>select\<close>, and \<open>rc\<close> the channel at its end. An error is its code.\<close>

definition direct_call :: "recovering \<Rightarrow> bool \<Rightarrow> real option \<Rightarrow> real \<Rightarrow> nat + nat \<times> real option" where
  "direct_call rc aborted timeoutMs elapsed = select_finish rc aborted timeoutMs elapsed"

definition pass_call :: "bool \<Rightarrow> recovering \<Rightarrow> bool \<Rightarrow> real option \<Rightarrow> real \<Rightarrow> real option \<Rightarrow> nat + nat \<times> real option" where
  "pass_call retrying rc aborted before elapsed after =
     (if \<not> retrying then direct_call rc aborted after elapsed
      else case select_finish rc aborted before elapsed of Inl code \<Rightarrow> Inl code | Inr (session, _) \<Rightarrow> Inr (session, after))"

lemma pass_call_session:
  assumes "pass_call retrying rc aborted before elapsed after = Inr (session, left)" "0 \<le> elapsed"
  shows "rc_session rc = Some session \<and> \<not> aborted \<and>
    (\<forall>t. after = Some t \<and> t > 0 \<longrightarrow> (\<exists>t'. left = Some t' \<and> 0 < t' \<and> t' \<le> t))"
  using assms by (auto simp: pass_call_def direct_call_def select_finish_def Let_def split: if_splits option.splits sum.splits)

subsection \<open>Properties\<close>

text \<open>Observers that do not close the channel are told every state of the channel in the order in which it takes them,
  whether or not observers throw.\<close>

theorem observers_told_in_order:
  assumes "quiet react" "\<not> ob_stopped ob" "distinct (ob_listeners ob)" "l \<in> set (ob_listeners ob)"
  shows "told (emit_all react sts ob) l = told ob l @ sts"
  by (rule emit_all_quiet [OF assms])

theorem observers_told_in_order_witness:
  "told (emit_all (\<lambda>_ _ _. Throws) [Connecting, OpenState] (new_observers (Some 3))) 3 = [Connecting, OpenState]"
  using observers_told_in_order [of "\<lambda>_ _ _. Throws" "new_observers (Some 3)" 3]
  by (simp add: quiet_def new_observers_def told_def del: emit_all.simps)

text \<open>C37: An observer that closes the channel while a state is announced makes the observers after it see the past: they
  are told that the channel is closed and afterwards the state that was being announced, which is then the last thing they
  ever hear, although the channel is closed.\<close>

theorem later_observers_told_stale_state:
  assumes "\<not> ob_stopped ob" "ob_listeners ob = k # ls" "distinct (k # ls)" "react (ob_seen ob) k st = Closes" "l \<in> set ls"
  shows "told (emit_all react (st # sts) ob) l = told ob l @ [ClosedState, st] \<and>
    ob_state (emit_all react (st # sts) ob) = ClosedState \<and> ob_stopped (emit_all react (st # sts) ob)"
proof -
  let ?ob1 = "ob\<lparr>ob_state := st, ob_seen := ob_seen ob @ [(k, st)]\<rparr>"
  have k: "ob_emit react (ob_close react) st ob = deliver react (ob_close react) st ls (ob_close react ?ob1)"
    using assms(2,4) by (simp add: ob_emit_def call_listener_def)
  have c: "told (ob_close react ?ob1) l = told ob l @ [ClosedState]" "ob_stopped (ob_close react ?ob1)"
    "ob_state (ob_close react ?ob1) = ClosedState"
    using ob_close_told [where ob = ?ob1 and react = react] assms by (auto simp: told_def)
  then show ?thesis using deliver_stopped [OF c(2), where ls = ls and st = st and l = l] assms(3,5) by (simp add: k Let_def)
qed

definition closes_on_open :: behaviour where
  "closes_on_open seen l st = (if l = 1 \<and> st = OpenState then Closes else Stays)"

theorem later_observers_told_stale_state_witness:
  "told (emit_all closes_on_open [OpenState] \<lparr>ob_listeners = [1, 2], ob_state = Connecting, ob_stopped = False, ob_seen = []\<rparr>) 2 =
    [ClosedState, OpenState]"
  using later_observers_told_stale_state [where ob = "\<lparr>ob_listeners = [1, 2], ob_state = Connecting, ob_stopped = False, ob_seen = []\<rparr>"
      and k = 1 and ls = "[2]" and react = closes_on_open and st = OpenState and l = 2 and sts = "[]"]
  by (simp add: closes_on_open_def told_def)

text \<open>What selecting a connection means for a call is decided by the state of the channel alone: it goes ahead on an open
  channel, fails on a closed one, and waits while the channel is connecting; while the channel is backing off after a failure
  it fails at once on its first attempt unless it asked to wait for readiness, and waits on every later attempt.\<close>

theorem selection_by_state:
  assumes "channel_reachable rc"
  shows "wt_result (check_waiter rc \<lparr>wt_wait = pass_waits retrying waitForReady, wt_result = Parked\<rparr>) =
    (case rc_state rc of
       OpenState \<Rightarrow> Ready
     | ClosedState \<Rightarrow> Refused_call Unavailable
     | Connecting \<Rightarrow> Parked
     | TransientFailure \<Rightarrow> if retrying \<or> waitForReady = Some True then Parked else Refused_call Unavailable)"
  using channel_ok_reachable [OF assms]
  by (auto simp: channel_ok_def driver_ok_def check_waiter_def pass_waits_def direct_wait_def split: bridge_state.splits option.splits)

theorem selection_by_state_witness:
  "wt_result (check_waiter new_RecoveringConnection \<lparr>wt_wait = pass_waits False None, wt_result = Parked\<rparr>) = Parked"
  using selection_by_state [OF channel_reachable.start, of False None] by (simp add: new_RecoveringConnection_def)

end
