(* ===== verification/Shared.thy ===== *)
theory Shared
  imports Recovery
begin

text \<open>
  \<^verbatim>\<open>web/src/client.ts\<close>: \<^verbatim>\<open>openBridgeConnection\<close> and \<^verbatim>\<open>SharedBridgeConnection\<close>, the reference-counted
  connection behind leases.

  The locale \<open>durable_channel\<close> is what sharing relies on: a channel that can be closed, whose closing
  is final and whose initial promise never changes once it is settled. The recovering connection
  implements it. Entries (\<^verbatim>\<open>SharedEntry\<close> objects) are numbered, each with a channel of its own;
  \<open>en_closed\<close> records that \<^verbatim>\<open>closeEntry\<close> was called, and \<open>sh_closing\<close> the closings not yet settled.
\<close>

locale durable_channel =
  fixes valid :: "'c \<Rightarrow> bool" and fresh :: 'c and close :: "'c \<Rightarrow> 'c" and stopped :: "'c \<Rightarrow> bool"
    and ready :: "'c \<Rightarrow> promise" and step :: "'c \<Rightarrow> 'e \<Rightarrow> 'c option"
  assumes fresh_valid: "valid fresh"
    and close_valid: "valid c \<Longrightarrow> valid (close c)"
    and step_valid: "valid c \<Longrightarrow> step c e = Some c' \<Longrightarrow> valid c'"
    and close_stops: "stopped (close c)"
    and step_stopped: "valid c \<Longrightarrow> stopped c \<Longrightarrow> step c e = Some c' \<Longrightarrow> stopped c'"
    and close_ready: "ready c \<noteq> Unsettled \<Longrightarrow> ready (close c) = ready c"
    and step_ready: "ready c \<noteq> Unsettled \<Longrightarrow> step c e = Some c' \<Longrightarrow> ready c' = ready c"
begin

text \<open>What a holder of a reference can rely on, whatever the channel does on its own and however often it is
  closed.\<close>

definition grows :: "'c \<Rightarrow> 'c \<Rightarrow> bool" where
  "grows c c' \<longleftrightarrow> (valid c \<longrightarrow> valid c' \<and> (stopped c \<longrightarrow> stopped c') \<and> (ready c \<noteq> Unsettled \<longrightarrow> ready c' = ready c))"

lemma grows_refl: "grows c c"
  by (simp add: grows_def)

lemma grows_close: "grows c (close c)"
  by (simp add: grows_def close_valid close_stops close_ready)

lemma grows_step: "step c e = Some c' \<Longrightarrow> grows c c'"
  unfolding grows_def using step_valid step_stopped step_ready by blast

end

lemma settled_emit:
  "rc_initial rc \<noteq> Unsettled \<Longrightarrow> rc_initial (close_channel rc) = rc_initial rc"
  "rc_initial rc \<noteq> Unsettled \<Longrightarrow> rc_initial (emit rc st rude) = rc_initial rc"
  "rc_initial rc \<noteq> Unsettled \<Longrightarrow> rc_initial (connect rc rude) = rc_initial rc"
  "rc_initial rc \<noteq> Unsettled \<Longrightarrow> rc_initial (retry rc rude random) = rc_initial rc"
  by (simp_all add: close_channel_def emit_def connect_def retry_def Let_def)

lemma settled_step: "rc_initial rc \<noteq> Unsettled \<Longrightarrow> channel_step rc e = Some rc' \<Longrightarrow> rc_initial rc' = rc_initial rc"
  by (cases e)
     (auto simp: Let_def dial_ok_def dial_failed_def session_closed_def lost_def session_draining_def select_start_def
        refuse_waiter_def close_settled_def settled_emit split: if_splits)

lemma channel_timer: "channel_ok rc \<Longrightarrow> rc_stopped rc \<Longrightarrow> rc_timer rc = None"
  by (auto simp: channel_ok_def driver_ok_def split: bridge_state.splits)

interpretation rec: durable_channel channel_ok new_RecoveringConnection close_channel rc_stopped rc_initial channel_step
proof
  show "channel_ok new_RecoveringConnection" by (rule channel_ok_reachable [OF channel_reachable.start])
  show "rc_stopped (close_channel c)" for c by (simp add: close_channel_def Let_def)
  show "channel_ok c \<Longrightarrow> rc_stopped c \<Longrightarrow> channel_step c e = Some c' \<Longrightarrow> rc_stopped c'" for c e c'
    using stopped_step channel_timer by blast
qed (auto simp: close_call_ok channel_ok_step settled_emit settled_step)

subsection \<open>openBridgeConnection\<close>

text \<open>While \<^verbatim>\<open>initial\<close> is unsettled it waits (\<open>None\<close>); a failed first attempt closes the channel and throws.\<close>

definition openBridgeConnection :: "recovering \<Rightarrow> (recovering \<times> bool) option" where
  "openBridgeConnection rc =
     (case rc_initial rc of
        Unsettled \<Rightarrow> None
      | Fulfilled \<Rightarrow> Some (rc, True)
      | Rejected_promise \<Rightarrow> Some (close_channel rc, False))"

subsection \<open>SharedBridgeConnection\<close>

record entry =
  en_references :: int
  en_closed :: bool
  en_connection :: recovering

datatype acquisition = AwaitReady nat | Leased nat | AcquireFailed

record lease =
  ls_entry :: nat
  ls_released :: bool

record shared =
  sh_entries :: "entry list"
  sh_entry :: "nat option"
  sh_disposed :: bool
  sh_disposal :: "nat list option"
  sh_closing :: "nat list"
  sh_acquires :: "acquisition list"
  sh_leases :: "lease list"

definition new_SharedBridgeConnection :: shared where
  "new_SharedBridgeConnection = \<lparr>sh_entries = [], sh_entry = None, sh_disposed = False, sh_disposal = None,
     sh_closing = [], sh_acquires = [], sh_leases = []\<rparr>"

definition upd_entry :: "shared \<Rightarrow> nat \<Rightarrow> (entry \<Rightarrow> entry) \<Rightarrow> shared" where
  "upd_entry sh e f = sh\<lparr>sh_entries := (sh_entries sh)[e := f (sh_entries sh ! e)]\<rparr>"

definition closeEntry :: "shared \<Rightarrow> nat \<Rightarrow> shared" where
  "closeEntry sh e =
     (upd_entry sh e (\<lambda>en. en\<lparr>en_connection := close_channel (en_connection en), en_closed := True\<rparr>))
       \<lparr>sh_closing := sh_closing sh @ [e]\<rparr>"

definition forget_entry :: "shared \<Rightarrow> nat \<Rightarrow> shared" where
  "forget_entry sh e = (if sh_entry sh = Some e then sh\<lparr>sh_entry := None\<rparr> else sh)"

definition add_reference :: "shared \<Rightarrow> nat \<Rightarrow> int \<Rightarrow> shared" where
  "add_reference sh e n = upd_entry sh e (\<lambda>en. en\<lparr>en_references := en_references en + n\<rparr>)"

text \<open>\<^verbatim>\<open>acquire\<close> up to its await; \<open>None\<close> when it throws because the object is disposed.\<close>

definition acquire_start :: "shared \<Rightarrow> shared option" where
  "acquire_start sh =
     (if sh_disposed sh then None
      else let (sh1, e) = (case sh_entry sh of
               Some e \<Rightarrow> (sh, e)
             | None \<Rightarrow>
                 (sh\<lparr>sh_entries := sh_entries sh @
                      [\<lparr>en_references = 0, en_closed = False, en_connection = new_RecoveringConnection\<rparr>],
                    sh_entry := Some (length (sh_entries sh))\<rparr>, length (sh_entries sh)));
               sh2 = add_reference sh1 e 1
           in Some (sh2\<lparr>sh_acquires := sh_acquires sh2 @ [AwaitReady e]\<rparr>))"

text \<open>\<^verbatim>\<open>acquire\<close> after its await, once \<^verbatim>\<open>initial\<close> is settled.\<close>

definition acquire_resume :: "shared \<Rightarrow> nat \<Rightarrow> nat \<Rightarrow> shared" where
  "acquire_resume sh a e =
     (if rc_initial (en_connection (sh_entries sh ! e)) = Fulfilled \<and> \<not> sh_disposed sh then
        sh\<lparr>sh_acquires := (sh_acquires sh)[a := Leased (length (sh_leases sh))],
           sh_leases := sh_leases sh @ [\<lparr>ls_entry = e, ls_released = False\<rparr>]\<rparr>
      else
        (let sh1 = closeEntry (forget_entry (add_reference sh e (- 1)) e) e
         in sh1\<lparr>sh_acquires := (sh_acquires sh1)[a := AcquireFailed]\<rparr>))"

definition lease_release :: "shared \<Rightarrow> nat \<Rightarrow> shared" where
  "lease_release sh l =
     (let e = ls_entry (sh_leases sh ! l) in
      if ls_released (sh_leases sh ! l) then sh
      else let sh1 = add_reference (sh\<lparr>sh_leases := (sh_leases sh)[l := \<lparr>ls_entry = e, ls_released = True\<rparr>]\<rparr>) e (- 1)
           in if en_references (sh_entries sh1 ! e) = 0 then closeEntry (forget_entry sh1 e) e else sh1)"

definition dispose :: "shared \<Rightarrow> shared" where
  "dispose sh =
     (if sh_disposal sh \<noteq> None then sh
      else let sh1 = sh\<lparr>sh_disposed := True, sh_entry := None\<rparr>;
               sh2 = (case sh_entry sh of None \<Rightarrow> sh1 | Some e \<Rightarrow> closeEntry sh1 e)
           in sh2\<lparr>sh_disposal := Some (sh_closing sh2)\<rparr>)"

datatype shared_event =
  Acquire | AcquireResume nat | Release nat | Dispose | OnConnection nat channel_event | CloseDone nat

fun shared_step :: "shared \<Rightarrow> shared_event \<Rightarrow> shared option" where
  "shared_step sh Acquire = acquire_start sh"
| "shared_step sh (AcquireResume a) =
     (if a < length (sh_acquires sh) then
        case sh_acquires sh ! a of
          AwaitReady e \<Rightarrow>
            if rc_initial (en_connection (sh_entries sh ! e)) \<noteq> Unsettled then Some (acquire_resume sh a e) else None
        | _ \<Rightarrow> None
      else None)"
| "shared_step sh (Release l) = (if l < length (sh_leases sh) then Some (lease_release sh l) else None)"
| "shared_step sh Dispose = Some (dispose sh)"
| "shared_step sh (OnConnection e ev) =
     (if e < length (sh_entries sh) then
        map_option (\<lambda>rc. upd_entry sh e (\<lambda>en. en\<lparr>en_connection := rc\<rparr>)) (channel_step (en_connection (sh_entries sh ! e)) ev)
      else None)"
| "shared_step sh (CloseDone e) =
     (if e \<in> set (sh_closing sh) then Some (sh\<lparr>sh_closing := remove1 e (sh_closing sh)\<rparr>) else None)"

inductive shared_reachable :: "shared \<Rightarrow> bool" where
  start: "shared_reachable new_SharedBridgeConnection"
| step: "shared_reachable sh \<Longrightarrow> shared_step sh ev = Some sh' \<Longrightarrow> shared_reachable sh'"

subsection \<open>Reference counting\<close>

text \<open>The references that exist to an entry: acquisitions that wait for it and leases that were not released.\<close>

definition holders :: "shared \<Rightarrow> nat \<Rightarrow> nat" where
  "holders sh e = length (filter (\<lambda>a. a = AwaitReady e) (sh_acquires sh)) +
     length (filter (\<lambda>l. ls_entry l = e \<and> \<not> ls_released l) (sh_leases sh))"

text \<open>One entry: its counter is exact, and it is the current entry exactly until it is closed.\<close>

definition entry_ok :: "nat \<Rightarrow> bool \<Rightarrow> bool \<Rightarrow> entry \<Rightarrow> bool" where
  "entry_ok n disposed current en \<longleftrightarrow> en_references en = int n \<and> channel_ok (en_connection en) \<and>
     (en_closed en \<longrightarrow> rc_stopped (en_connection en)) \<and> en_closed en = (\<not> current) \<and> (current \<longrightarrow> 0 < n) \<and>
     (current \<or> disposed \<or> n = 0 \<or> rc_initial (en_connection en) = Rejected_promise)"

definition lease_ok :: "shared \<Rightarrow> lease \<Rightarrow> bool" where
  "lease_ok sh l \<longleftrightarrow> ls_entry l < length (sh_entries sh) \<and>
     rc_initial (en_connection (sh_entries sh ! ls_entry l)) = Fulfilled \<and>
     (ls_released l \<or> sh_disposed sh \<or> sh_entry sh = Some (ls_entry l))"

definition shared_ok :: "shared \<Rightarrow> bool" where
  "shared_ok sh \<longleftrightarrow>
     (\<forall>e < length (sh_entries sh). entry_ok (holders sh e) (sh_disposed sh) (sh_entry sh = Some e) (sh_entries sh ! e)) \<and>
     (\<forall>e. AwaitReady e \<in> set (sh_acquires sh) \<longrightarrow> e < length (sh_entries sh)) \<and>
     list_all (lease_ok sh) (sh_leases sh) \<and>
     (sh_disposed sh \<longrightarrow> sh_entry sh = None) \<and> pred_option (\<lambda>e. e < length (sh_entries sh)) (sh_entry sh)"

lemma length_filter_update:
  "a < length xs \<Longrightarrow> length (filter P (xs[a := y])) + (if P (xs ! a) then 1 else 0) =
     length (filter P xs) + (if P y then 1 else 0)"
proof (induction xs arbitrary: a)
  case (Cons x xs)
  show ?case
  proof (cases a)
    case (Suc b)
    with Cons.IH [of b] Cons.prems show ?thesis by auto
  qed simp
qed simp

lemma holders_fresh: "shared_ok sh \<Longrightarrow> length (sh_entries sh) \<le> e \<Longrightarrow> holders sh e = 0"
  by (auto simp: shared_ok_def holders_def lease_ok_def list_all_iff filter_empty_conv)

lemma upd_entry_fields [simp]:
  "sh_entry (upd_entry sh e f) = sh_entry sh" "sh_disposed (upd_entry sh e f) = sh_disposed sh"
  "sh_acquires (upd_entry sh e f) = sh_acquires sh" "sh_leases (upd_entry sh e f) = sh_leases sh"
  "sh_closing (upd_entry sh e f) = sh_closing sh" "sh_disposal (upd_entry sh e f) = sh_disposal sh"
  "length (sh_entries (upd_entry sh e f)) = length (sh_entries sh)" "holders (upd_entry sh e f) k = holders sh k"
  "k < length (sh_entries sh) \<Longrightarrow>
     sh_entries (upd_entry sh e f) ! k = (if k = e then f (sh_entries sh ! e) else sh_entries sh ! k)"
  by (simp_all add: upd_entry_def holders_def)

lemma closeEntry_fields [simp]:
  "sh_entry (closeEntry sh e) = sh_entry sh" "sh_disposed (closeEntry sh e) = sh_disposed sh"
  "sh_acquires (closeEntry sh e) = sh_acquires sh" "sh_leases (closeEntry sh e) = sh_leases sh"
  "length (sh_entries (closeEntry sh e)) = length (sh_entries sh)" "holders (closeEntry sh e) k = holders sh k"
  "k < length (sh_entries sh) \<Longrightarrow> sh_entries (closeEntry sh e) ! k =
     (if k = e then (sh_entries sh ! e)\<lparr>en_connection := close_channel (en_connection (sh_entries sh ! e)), en_closed := True\<rparr>
      else sh_entries sh ! k)"
  by (simp_all add: closeEntry_def holders_def)

lemma forget_entry_fields [simp]:
  "sh_entry (forget_entry sh e) = (if sh_entry sh = Some e then None else sh_entry sh)"
  "sh_disposed (forget_entry sh e) = sh_disposed sh" "sh_acquires (forget_entry sh e) = sh_acquires sh"
  "sh_leases (forget_entry sh e) = sh_leases sh" "sh_entries (forget_entry sh e) = sh_entries sh"
  "holders (forget_entry sh e) k = holders sh k"
  by (simp_all add: forget_entry_def holders_def)

lemma add_reference_fields [simp]:
  "sh_entry (add_reference sh e n) = sh_entry sh" "sh_disposed (add_reference sh e n) = sh_disposed sh"
  "sh_acquires (add_reference sh e n) = sh_acquires sh" "sh_leases (add_reference sh e n) = sh_leases sh"
  "length (sh_entries (add_reference sh e n)) = length (sh_entries sh)" "holders (add_reference sh e n) k = holders sh k"
  "k < length (sh_entries sh) \<Longrightarrow> sh_entries (add_reference sh e n) ! k =
     (if k = e then (sh_entries sh ! e)\<lparr>en_references := en_references (sh_entries sh ! e) + n\<rparr> else sh_entries sh ! k)"
  by (simp_all add: add_reference_def)

lemma acquire_start_ok:
  assumes "shared_ok sh" "acquire_start sh = Some sh'"
  shows "shared_ok sh'"
proof (cases "sh_entry sh")
  case (Some e)
  have e: "e < length (sh_entries sh)" using assms(1) Some by (simp add: shared_ok_def)
  have d: "\<not> sh_disposed sh" and sh': "sh' = (add_reference sh e 1)\<lparr>sh_acquires := sh_acquires sh @ [AwaitReady e]\<rparr>"
    using assms(2) Some by (auto simp: acquire_start_def Let_def split: if_splits)
  have h: "holders sh' k = holders sh k + (if k = e then 1 else 0)" for k
    by (simp add: sh' holders_def add_reference_def upd_entry_def)
  show ?thesis using assms(1) e d Some
    by (auto simp: shared_ok_def h entry_ok_def lease_ok_def list_all_iff) (auto simp: sh')
next
  case None
  let ?n = "length (sh_entries sh)"
  let ?sh1 = "sh\<lparr>sh_entries := sh_entries sh @
                      [\<lparr>en_references = 0, en_closed = False, en_connection = new_RecoveringConnection\<rparr>],
                    sh_entry := Some ?n\<rparr>"
  have d: "\<not> sh_disposed sh" and sh': "sh' = (add_reference ?sh1 ?n 1)\<lparr>sh_acquires := sh_acquires sh @ [AwaitReady ?n]\<rparr>"
    using assms(2) None by (auto simp: acquire_start_def Let_def split: if_splits)
  have h: "holders sh' k = holders sh k + (if k = ?n then 1 else 0)" for k
    by (simp add: sh' holders_def add_reference_def upd_entry_def)
  have ent: "sh_entries sh' = sh_entries sh @ [\<lparr>en_references = 1, en_closed = False, en_connection = new_RecoveringConnection\<rparr>]"
    by (simp add: sh' add_reference_def upd_entry_def)
  have f: "sh_entry sh' = Some ?n" "sh_disposed sh' = sh_disposed sh" "sh_leases sh' = sh_leases sh"
    "sh_acquires sh' = sh_acquires sh @ [AwaitReady ?n]" by (simp_all add: sh')
  have "lease_ok sh' l" if "l \<in> set (sh_leases sh)" for l
    using assms(1) that None d by (auto simp: shared_ok_def lease_ok_def list_all_iff ent f nth_append)
  moreover have "entry_ok (holders sh' k) (sh_disposed sh') (sh_entry sh' = Some k) (sh_entries sh' ! k)" if "k < length (sh_entries sh')" for k
  proof (cases "k = ?n")
    case True
    then show ?thesis using holders_fresh [OF assms(1), of ?n] rec.fresh_valid by (simp add: h ent f entry_ok_def)
  next
    case False
    then have "k < ?n" using that ent by simp
    then show ?thesis using assms(1) None by (simp add: shared_ok_def h ent f nth_append entry_ok_def)
  qed
  ultimately show ?thesis using assms(1) d
    by (simp add: shared_ok_def list_all_iff f ent) (auto simp: less_SucI)
qed

lemma on_connection_ok:
  assumes "shared_ok sh" "e < length (sh_entries sh)" "channel_step (en_connection (sh_entries sh ! e)) ev = Some rc"
  shows "shared_ok (upd_entry sh e (\<lambda>en. en\<lparr>en_connection := rc\<rparr>))"
proof -
  let ?sh' = "upd_entry sh e (\<lambda>en. en\<lparr>en_connection := rc\<rparr>)"
  have g: "rec.grows (en_connection (sh_entries sh ! e)) rc" by (rule rec.grows_step [OF assms(3)])
  have v: "channel_ok (en_connection (sh_entries sh ! e))" using assms(1,2) by (auto simp: shared_ok_def entry_ok_def)
  have "entry_ok (holders sh k) (sh_disposed sh) (sh_entry sh = Some k) (sh_entries ?sh' ! k)" if "k < length (sh_entries sh)" for k
    using assms(1) that g v by (auto simp: shared_ok_def entry_ok_def rec.grows_def)
  moreover have "lease_ok ?sh' l" if "l \<in> set (sh_leases sh)" for l
    using assms(1) that g v by (auto simp: shared_ok_def lease_ok_def list_all_iff rec.grows_def)
  ultimately show ?thesis using assms(1) by (simp add: shared_ok_def list_all_iff)
qed

text \<open>Dropping one reference to an entry and closing it, as a failed acquisition and the last release do.\<close>

lemma drop_and_close_ok:
  assumes "shared_ok sh" "e < length (sh_entries sh)"
    and why: "sh_disposed sh \<or> holders sh' e = 0 \<or> rc_initial (en_connection (sh_entries sh ! e)) = Rejected_promise"
    and sh': "\<And>k. holders sh' k + (if k = e then 1 else 0) = holders sh k"
    and ent: "length (sh_entries sh') = length (sh_entries sh)"
      "\<And>k. k < length (sh_entries sh) \<Longrightarrow> sh_entries sh' ! k = (if k = e then (sh_entries sh ! e)
          \<lparr>en_references := en_references (sh_entries sh ! e) - 1, en_connection := close_channel (en_connection (sh_entries sh ! e)),
           en_closed := True\<rparr> else sh_entries sh ! k)"
    and cur: "sh_entry sh' = (if sh_entry sh = Some e then None else sh_entry sh)" "sh_disposed sh' = sh_disposed sh"
    and aw: "\<And>k. AwaitReady k \<in> set (sh_acquires sh') \<Longrightarrow> AwaitReady k \<in> set (sh_acquires sh)"
    and le: "\<And>l. l \<in> set (sh_leases sh') \<Longrightarrow> (l \<in> set (sh_leases sh) \<or>
        (\<exists>l0\<in>set (sh_leases sh). ls_entry l = ls_entry l0 \<and> ls_released l)) \<and>
        (ls_entry l \<noteq> e \<or> ls_released l \<or> sh_disposed sh)"
  shows "shared_ok sh'"
proof -
  have "entry_ok (holders sh' k) (sh_disposed sh') (sh_entry sh' = Some k) (sh_entries sh' ! k)" if k: "k < length (sh_entries sh')" for k
  proof -
    have "entry_ok (holders sh k) (sh_disposed sh) (sh_entry sh = Some k) (sh_entries sh ! k)" using assms(1) k ent(1) by (simp add: shared_ok_def)
    then show ?thesis using sh' [of k] k ent cur why
      by (cases "k = e") (auto simp: entry_ok_def rec.close_valid rec.close_stops rec.close_ready)
  qed
  moreover have "lease_ok sh' l" if "l \<in> set (sh_leases sh')" for l
  proof -
    have "\<forall>l\<in>set (sh_leases sh). lease_ok sh l" using assms(1) by (simp add: shared_ok_def list_all_iff)
    with le [OF that] show ?thesis
      by (auto simp: lease_ok_def ent cur rec.close_ready)
  qed
  ultimately show ?thesis using assms(1) aw ent(1) cur by (auto simp: shared_ok_def list_all_iff)
qed

lemma acquire_resume_ok:
  assumes "shared_ok sh" "a < length (sh_acquires sh)" "sh_acquires sh ! a = AwaitReady e"
    "rc_initial (en_connection (sh_entries sh ! e)) \<noteq> Unsettled"
  shows "shared_ok (acquire_resume sh a e)"
proof -
  have aw: "AwaitReady e \<in> set (sh_acquires sh)" using assms(2,3) nth_mem by metis
  then have e: "e < length (sh_entries sh)" using assms(1) by (auto simp: shared_ok_def)
  let ?n = "length (sh_leases sh)"
  have cnt: "length (filter (\<lambda>x. x = AwaitReady k) ((sh_acquires sh)[a := y])) + (if k = e then 1 else 0) =
      length (filter (\<lambda>x. x = AwaitReady k) (sh_acquires sh))" if "\<And>k. y \<noteq> AwaitReady k" for k y
    using length_filter_update [OF assms(2), of "\<lambda>x. x = AwaitReady k" y] assms(3) that by auto
  have sub: "AwaitReady k \<in> set ((sh_acquires sh)[a := y]) \<Longrightarrow> AwaitReady k \<in> set (sh_acquires sh)"
    if "\<And>k. y \<noteq> AwaitReady k" for k y
    using set_update_subset_insert [of "sh_acquires sh" a y] that by auto
  show ?thesis
  proof (cases "rc_initial (en_connection (sh_entries sh ! e)) = Fulfilled \<and> \<not> sh_disposed sh")
    case True
    let ?sh' = "acquire_resume sh a e"
    have f: "sh_entries ?sh' = sh_entries sh" "sh_entry ?sh' = sh_entry sh" "sh_disposed ?sh' = sh_disposed sh"
      "sh_acquires ?sh' = (sh_acquires sh)[a := Leased ?n]" "sh_leases ?sh' = sh_leases sh @ [\<lparr>ls_entry = e, ls_released = False\<rparr>]"
      using True by (simp_all add: acquire_resume_def)
    have h: "holders ?sh' k = holders sh k" for k
      using cnt [of "Leased ?n" k] by (auto simp: holders_def f)
    have "0 < holders sh e" using aw by (auto simp: holders_def filter_empty_conv)
    moreover have "entry_ok (holders sh e) (sh_disposed sh) (sh_entry sh = Some e) (sh_entries sh ! e)"
      using assms(1) e by (simp add: shared_ok_def)
    ultimately have "sh_entry sh = Some e" using True by (auto simp: entry_ok_def)
    then have "lease_ok ?sh' \<lparr>ls_entry = e, ls_released = False\<rparr>" using True e by (simp add: lease_ok_def f)
    moreover have "lease_ok ?sh' = lease_ok sh" by (simp add: lease_ok_def f fun_eq_iff)
    ultimately show ?thesis using assms(1) sub [of "Leased ?n"] by (simp add: shared_ok_def f h)
  next
    case False
    have nl: "ls_entry l \<noteq> e \<or> ls_released l \<or> sh_disposed sh" if "l \<in> set (sh_leases sh)" for l
      using assms(1) that False by (auto simp: shared_ok_def list_all_iff lease_ok_def)
    show ?thesis
    proof (rule drop_and_close_ok [OF assms(1) e])
      show "sh_disposed sh \<or> holders (acquire_resume sh a e) e = 0 \<or> rc_initial (en_connection (sh_entries sh ! e)) = Rejected_promise"
        using False assms(4) by (cases "rc_initial (en_connection (sh_entries sh ! e))") auto
      show "holders (acquire_resume sh a e) k + (if k = e then 1 else 0) = holders sh k" for k
        using cnt [of AcquireFailed k] False by (auto simp: holders_def acquire_resume_def Let_def)
    qed (use False e nl sub [of AcquireFailed] in \<open>auto simp: acquire_resume_def Let_def\<close>)
  qed
qed

lemma lease_release_ok:
  assumes "shared_ok sh" "l < length (sh_leases sh)"
  shows "shared_ok (lease_release sh l)"
proof (cases "ls_released (sh_leases sh ! l)")
  case True
  with assms(1) show ?thesis by (simp add: lease_release_def)
next
  case False
  let ?e = "ls_entry (sh_leases sh ! l)"
  let ?ls = "(sh_leases sh)[l := \<lparr>ls_entry = ?e, ls_released = True\<rparr>]"
  let ?sh1 = "add_reference (sh\<lparr>sh_leases := ?ls\<rparr>) ?e (- 1)"
  have lok: "lease_ok sh x" if "x \<in> set (sh_leases sh)" for x using assms(1) that by (simp add: shared_ok_def list_all_iff)
  have e: "?e < length (sh_entries sh)" using lok assms(2) by (auto simp: lease_ok_def)
  have cnt: "length (filter (\<lambda>x. ls_entry x = k \<and> \<not> ls_released x) ?ls) + (if k = ?e then 1 else 0) =
      length (filter (\<lambda>x. ls_entry x = k \<and> \<not> ls_released x) (sh_leases sh))" for k
    using length_filter_update [OF assms(2), of "\<lambda>x. ls_entry x = k \<and> \<not> ls_released x" "\<lparr>ls_entry = ?e, ls_released = True\<rparr>"] False
    by auto
  have h: "holders ?sh1 k + (if k = ?e then 1 else 0) = holders sh k" for k
    using cnt [of k] by (simp add: holders_def)
  have mem: "x \<in> set ?ls \<Longrightarrow> x \<in> set (sh_leases sh) \<or> ls_entry x = ?e \<and> ls_released x" for x
    using set_update_subset_insert [of "sh_leases sh" l "\<lparr>ls_entry = ?e, ls_released = True\<rparr>"] by auto
  have l: "sh_leases sh ! l \<in> set (sh_leases sh)" using assms(2) by simp
  have refs: "en_references (sh_entries ?sh1 ! ?e) = int (holders ?sh1 ?e)"
    using assms(1) e h [of ?e] by (auto simp: shared_ok_def entry_ok_def)
  show ?thesis
  proof (cases "en_references (sh_entries ?sh1 ! ?e) = 0")
    case True
    then have zero: "holders ?sh1 ?e = 0" using refs by simp
    then have none: "ls_entry x \<noteq> ?e \<or> ls_released x" if "x \<in> set ?ls" for x
      using that by (auto simp: holders_def filter_empty_conv)
    have eq: "lease_release sh l = closeEntry (forget_entry ?sh1 ?e) ?e"
      using True False by (simp add: lease_release_def Let_def)
    show ?thesis
    proof (rule drop_and_close_ok [OF assms(1) e])
      show "holders (lease_release sh l) k + (if k = ?e then 1 else 0) = holders sh k" for k using h eq by simp
      show "sh_disposed sh \<or> holders (lease_release sh l) ?e = 0 \<or> rc_initial (en_connection (sh_entries sh ! ?e)) = Rejected_promise"
        using zero eq by simp
      fix x assume "x \<in> set (sh_leases (lease_release sh l))"
      then show "(x \<in> set (sh_leases sh) \<or> (\<exists>l0\<in>set (sh_leases sh). ls_entry x = ls_entry l0 \<and> ls_released x)) \<and>
          (ls_entry x \<noteq> ?e \<or> ls_released x \<or> sh_disposed sh)"
        using mem [of x] none [of x] l eq by auto
    qed (use e eq in auto)
  next
    case more: False
    then have "0 < holders ?sh1 ?e" using refs by simp
    then have "entry_ok (holders ?sh1 k) (sh_disposed sh) (sh_entry sh = Some k) (sh_entries ?sh1 ! k)"
      if "k < length (sh_entries sh)" for k
      using assms(1) that h [of k] by (auto simp: shared_ok_def entry_ok_def split: if_splits)
    moreover have "lease_ok ?sh1 x" if "x \<in> set ?ls" for x
      using mem [OF that] lok l e by (auto simp: lease_ok_def)
    moreover have "lease_release sh l = ?sh1" using more False by (simp add: lease_release_def Let_def)
    ultimately show ?thesis using assms(1) by (simp add: shared_ok_def list_all_iff)
  qed
qed

lemma dispose_ok:
  assumes "shared_ok sh"
  shows "shared_ok (dispose sh)"
proof (cases "sh_disposal sh")
  case None
  let ?sh1 = "sh\<lparr>sh_disposed := True, sh_entry := None\<rparr>"
  let ?sh2 = "case sh_entry sh of None \<Rightarrow> ?sh1 | Some e \<Rightarrow> closeEntry ?sh1 e"
  have h1: "holders ?sh1 k = holders sh k" for k by (simp add: holders_def)
  have ent: "entry_ok (holders ?sh2 k) True False (sh_entries ?sh2 ! k)" if "k < length (sh_entries sh)" for k
  proof -
    have "entry_ok (holders sh k) (sh_disposed sh) (sh_entry sh = Some k) (sh_entries sh ! k)"
      using assms that by (simp add: shared_ok_def)
    then show ?thesis using that
      by (cases "sh_entry sh") (auto simp: h1 entry_ok_def rec.close_valid rec.close_stops)
  qed
  have le: "lease_ok ?sh2 l" if "l \<in> set (sh_leases sh)" for l
    using assms that by (cases "sh_entry sh") (auto simp: shared_ok_def list_all_iff lease_ok_def rec.close_ready)
  have f: "sh_acquires ?sh2 = sh_acquires sh" "sh_leases ?sh2 = sh_leases sh" "sh_disposed ?sh2" "sh_entry ?sh2 = None"
    "length (sh_entries ?sh2) = length (sh_entries sh)" by (auto split: option.splits)
  have d: "dispose sh = ?sh2\<lparr>sh_disposal := Some (sh_closing ?sh2)\<rparr>" using None by (simp add: dispose_def Let_def)
  have hd: "holders (dispose sh) k = holders ?sh2 k" for k unfolding d by (simp add: holders_def)
  have ld: "lease_ok (dispose sh) = lease_ok ?sh2" unfolding d by (simp add: lease_ok_def fun_eq_iff)
  show ?thesis using ent le assms f unfolding shared_ok_def hd ld unfolding d by (simp add: list_all_iff)
next
  case (Some a)
  with assms show ?thesis by (simp add: dispose_def)
qed

lemma shared_ok_step: "shared_ok sh \<Longrightarrow> shared_step sh ev = Some sh' \<Longrightarrow> shared_ok sh'"
proof (cases ev)
  case (CloseDone e)
  assume ok: "shared_ok sh" and "shared_step sh ev = Some sh'"
  with CloseDone have sh': "sh' = sh\<lparr>sh_closing := remove1 e (sh_closing sh)\<rparr>" by (auto split: if_splits)
  have "holders sh' k = holders sh k" "lease_ok sh' = lease_ok sh" for k by (simp_all add: sh' holders_def lease_ok_def fun_eq_iff)
  with ok show ?thesis by (simp add: shared_ok_def sh')
qed (auto simp: acquire_start_ok acquire_resume_ok lease_release_ok dispose_ok on_connection_ok
       split: if_splits acquisition.splits)

lemma shared_ok_reachable: "shared_reachable sh \<Longrightarrow> shared_ok sh"
proof (induction rule: shared_reachable.induct)
  case start
  show ?case by (simp add: shared_ok_def new_SharedBridgeConnection_def)
next
  case (step sh ev sh')
  then show ?case by (blast intro: shared_ok_step)
qed

subsection \<open>Properties\<close>

text \<open>C15: Shared connections are counted exactly: in every reachable state, under any interleaving of
  acquisitions, failures, releases (repeated ones included), disposal and transport events, each
  entry's counter is the number of its waiting acquisitions and unreleased leases; an unreleased
  lease of an undisposed object holds a connection that was not closed; every entry that is no longer
  current, in particular one with no holders, has been closed and its channel is stopped; and after
  disposal all of them are.\<close>

theorem leases_counted:
  assumes "shared_reachable sh" and "e < length (sh_entries sh)"
  shows "en_references (sh_entries sh ! e) = int (holders sh e) \<and>
     (sh_disposed sh \<or> list_all (\<lambda>l. ls_entry l \<noteq> e \<or> ls_released l \<or> \<not> en_closed (sh_entries sh ! e)) (sh_leases sh)) \<and>
     (sh_disposed sh \<or> holders sh e = 0 \<or> sh_entry sh \<noteq> Some e \<longrightarrow>
        en_closed (sh_entries sh ! e) \<and> rc_stopped (en_connection (sh_entries sh ! e)))"
proof -
  have ok: "shared_ok sh" by (rule shared_ok_reachable [OF assms(1)])
  then have "entry_ok (holders sh e) (sh_disposed sh) (sh_entry sh = Some e) (sh_entries sh ! e)"
    using assms(2) by (simp add: shared_ok_def)
  moreover have "sh_disposed sh \<Longrightarrow> sh_entry sh \<noteq> Some e" using ok by (auto simp: shared_ok_def)
  moreover have "list_all (lease_ok sh) (sh_leases sh)" using ok by (simp add: shared_ok_def)
  ultimately show ?thesis by (auto simp: entry_ok_def list_all_iff lease_ok_def)
qed

definition one_waiting :: shared where
  "one_waiting = \<lparr>sh_entries = [\<lparr>en_references = 1, en_closed = False, en_connection = new_RecoveringConnection\<rparr>],
     sh_entry = Some 0, sh_disposed = False, sh_disposal = None, sh_closing = [], sh_acquires = [AwaitReady 0],
     sh_leases = []\<rparr>"

lemma one_waiting_reachable: "shared_reachable one_waiting"
  by (rule shared_reachable.step [OF shared_reachable.start, where ev = Acquire])
     (simp add: one_waiting_def acquire_start_def new_SharedBridgeConnection_def add_reference_def upd_entry_def)

theorem leases_counted_witness:
  "shared_step one_waiting Dispose = Some (dispose one_waiting) \<and>
   en_closed (sh_entries (dispose one_waiting) ! 0) \<and> en_references (sh_entries (dispose one_waiting) ! 0) = 1"
proof -
  have r: "shared_reachable (dispose one_waiting)"
    by (rule shared_reachable.step [OF one_waiting_reachable, where ev = Dispose]) simp
  have d: "0 < length (sh_entries (dispose one_waiting))" "sh_disposed (dispose one_waiting)"
    "holders (dispose one_waiting) 0 = 1"
    by (simp_all add: dispose_def one_waiting_def holders_def closeEntry_def upd_entry_def Let_def)
  show ?thesis using leases_counted [OF r d(1)] d(2,3) by simp
qed

end
