(* ===== verification/Replay.thy ===== *)
theory Replay
  imports Framing
begin

text \<open>
  \<^verbatim>\<open>web/src/retry.ts\<close>, class \<^verbatim>\<open>Replay\<close>, and the buffer accounting of \<^verbatim>\<open>RetryingTransport\<close> it draws
  on.

  A replay reads one source iterator and keeps the serialized messages while a retry is still
  possible; every attempt uploads through an iterator of its own (\<open>iter\<close>). The awaits of \<^verbatim>\<open>next\<close> are
  steps: \<open>it_next\<close> is the call up to its await, \<open>arrive\<close> the continuation that runs when the source
  answers, \<open>it_resume\<close> what an awaiting call does afterwards. A promise of \<^verbatim>\<open>this.pending\<close> is an index
  into \<open>rp_reads\<close>, so that the comparison \<^verbatim>\<open>this.pending === pending\<close> is one of identities.

  Protobuf is not part of this repository: a message is represented by the bytes \<^verbatim>\<open>toBinary\<close> gives for
  it, and the value handed to an attempt by the bytes passed to \<^verbatim>\<open>fromBinary\<close>. A source that fails
  and a message that cannot be serialized both reject the read.
\<close>

record iter =
  it_index :: nat
  it_stopped :: bool
  it_wait :: "nat option"
  it_out :: "byte list list"

datatype read_result = Waiting | Chunk "byte list" | Finished | Failed

record replay =
  rp_saved :: "byte list list"
  rp_bytes :: nat
  rp_pending :: "nat option"
  rp_ended :: bool
  rp_committed :: bool
  rp_limit :: nat
  rp_reads :: "read_result list"
  rp_iters :: "iter list"

text \<open>Every operation works on the bytes reserved on the connection (\<^verbatim>\<open>this.used\<close>) and one replay.\<close>

type_synonym pool = "int \<times> replay"

definition new_Replay :: "nat \<Rightarrow> replay" where
  "new_Replay limit = \<lparr>rp_saved = [], rp_bytes = 0, rp_pending = None, rp_ended = False, rp_committed = False,
     rp_limit = limit, rp_reads = [], rp_iters = []\<rparr>"

text \<open>The two callbacks that \<^verbatim>\<open>RetryingTransport.replay\<close> passes in.\<close>

definition reserve :: "nat \<Rightarrow> int \<Rightarrow> nat \<Rightarrow> int option" where
  "reserve bufferBytes used n = (if used + int n > int bufferBytes then None else Some (used + int n))"

definition release :: "int \<Rightarrow> nat \<Rightarrow> int" where
  "release used n = used - int n"

definition rp_commit :: "pool \<Rightarrow> pool" where
  "rp_commit p = (case p of (used, rp) \<Rightarrow>
     (release used (rp_bytes rp), rp\<lparr>rp_committed := True, rp_bytes := 0, rp_saved := []\<rparr>))"

definition new_iter :: iter where
  "new_iter = \<lparr>it_index = 0, it_stopped = False, it_wait = None, it_out = []\<rparr>"

definition iterable :: "replay \<Rightarrow> replay" where
  "iterable rp = rp\<lparr>rp_iters := rp_iters rp @ [new_iter]\<rparr>"

definition set_iter :: "replay \<Rightarrow> nat \<Rightarrow> iter \<Rightarrow> replay" where
  "set_iter rp i it = rp\<lparr>rp_iters := (rp_iters rp)[i := it]\<rparr>"

definition hand_over :: "iter \<Rightarrow> byte list \<Rightarrow> iter" where
  "hand_over it bytes = it\<lparr>it_index := Suc (it_index it), it_out := it_out it @ [bytes]\<rparr>"

text \<open>\<^verbatim>\<open>next\<close> up to its await: an answer at once, or the read it waits for (\<^verbatim>\<open>this.pending ??= ...\<close>).\<close>

definition it_next :: "replay \<Rightarrow> nat \<Rightarrow> replay" where
  "it_next rp i =
     (let it = rp_iters rp ! i in
      if it_stopped it then rp
      else if it_index it < length (rp_saved rp) then set_iter rp i (hand_over it (rp_saved rp ! it_index it))
      else if rp_ended rp then rp
      else case rp_pending rp of
             Some k \<Rightarrow> set_iter rp i (it\<lparr>it_wait := Some k\<rparr>)
           | None \<Rightarrow>
               set_iter (rp\<lparr>rp_pending := Some (length (rp_reads rp)), rp_reads := rp_reads rp @ [Waiting]\<rparr>) i
                 (it\<lparr>it_wait := Some (length (rp_reads rp))\<rparr>))"

text \<open>The continuation of \<^verbatim>\<open>this.source.next()\<close>.\<close>

definition settle :: "replay \<Rightarrow> read_result \<Rightarrow> replay" where
  "settle rp r = rp\<lparr>rp_reads := (rp_reads rp)[length (rp_reads rp) - 1 := r]\<rparr>"

definition retain :: "nat \<Rightarrow> pool \<Rightarrow> byte list \<Rightarrow> pool" where
  "retain bufferBytes p bytes = (case p of (used, rp) \<Rightarrow>
     if rp_committed rp then (used, rp)
     else let size = length bytes + 5 in
          if rp_bytes rp + size > rp_limit rp then rp_commit (used, rp)
          else case reserve bufferBytes used size of
                 None \<Rightarrow> rp_commit (used, rp)
               | Some used' \<Rightarrow>
                   (used', rp\<lparr>rp_bytes := rp_bytes rp + size, rp_saved := rp_saved rp @ [bytes]\<rparr>))"

fun arrive :: "nat \<Rightarrow> pool \<Rightarrow> read_result \<Rightarrow> pool" where
  "arrive bufferBytes (used, rp) Finished = (used, settle (rp\<lparr>rp_ended := True\<rparr>) Finished)"
| "arrive bufferBytes (used, rp) (Chunk bytes) =
     (case retain bufferBytes (used, rp) bytes of (used', rp') \<Rightarrow> (used', settle rp' (Chunk bytes)))"
| "arrive bufferBytes (used, rp) r = (used, settle rp r)"

text \<open>After the await: a rejected read is rethrown and stays \<^verbatim>\<open>this.pending\<close>.\<close>

definition clear_pending :: "replay \<Rightarrow> nat \<Rightarrow> replay" where
  "clear_pending rp k = rp\<lparr>rp_pending := if rp_pending rp = Some k then None else rp_pending rp\<rparr>"

definition it_resume :: "replay \<Rightarrow> nat \<Rightarrow> nat \<Rightarrow> replay" where
  "it_resume rp i k =
     (let it = (rp_iters rp ! i)\<lparr>it_wait := None\<rparr> in
      case rp_reads rp ! k of
        Chunk bytes \<Rightarrow>
          set_iter (clear_pending rp k) i
            (if it_stopped it then it\<lparr>it_index := Suc (it_index it)\<rparr> else hand_over it bytes)
      | Finished \<Rightarrow> set_iter (clear_pending rp k) i it
      | _ \<Rightarrow> set_iter rp i it)"

definition it_return :: "replay \<Rightarrow> nat \<Rightarrow> replay" where
  "it_return rp i = set_iter rp i ((rp_iters rp ! i)\<lparr>it_stopped := True\<rparr>)"

definition rp_close :: "pool \<Rightarrow> pool" where
  "rp_close p = (case rp_commit p of (used, rp) \<Rightarrow> (used, rp\<lparr>rp_ended := True\<rparr>))"

subsection \<open>Runs\<close>

text \<open>An event of one replay; \<open>None\<close> where it cannot happen. A consumer does not call \<^verbatim>\<open>next\<close> again before
  the last call returned, and the source answers the read that is outstanding. The continuations of
  a settled promise run before any later turn of a consumer, so no call starts while the answer of
  the pending read has not been taken; a call that was queued just before the answer is the same as
  one made before it.\<close>

datatype replay_event =
  Iterable | NextCall nat | ResumeCall nat | ReturnCall nat | Arrive read_result | Commit | CloseReplay

definition outstanding :: "replay \<Rightarrow> bool" where
  "outstanding rp \<longleftrightarrow> rp_reads rp \<noteq> [] \<and> last (rp_reads rp) = Waiting"

definition answer_taken :: "replay \<Rightarrow> bool" where
  "answer_taken rp \<longleftrightarrow> (case rp_pending rp of None \<Rightarrow> True | Some k \<Rightarrow> rp_reads rp ! k \<in> {Waiting, Failed})"

fun replay_step :: "nat \<Rightarrow> pool \<Rightarrow> replay_event \<Rightarrow> pool option" where
  "replay_step bb (used, rp) Iterable = Some (used, iterable rp)"
| "replay_step bb (used, rp) (NextCall i) =
     (if i < length (rp_iters rp) \<and> it_wait (rp_iters rp ! i) = None \<and> answer_taken rp then Some (used, it_next rp i) else None)"
| "replay_step bb (used, rp) (ResumeCall i) =
     (if i < length (rp_iters rp) then
        case it_wait (rp_iters rp ! i) of
          Some k \<Rightarrow> if rp_reads rp ! k \<noteq> Waiting then Some (used, it_resume rp i k) else None
        | None \<Rightarrow> None
      else None)"
| "replay_step bb (used, rp) (ReturnCall i) =
     (if i < length (rp_iters rp) then Some (used, it_return rp i) else None)"
| "replay_step bb (used, rp) (Arrive r) =
     (if outstanding rp \<and> r \<noteq> Waiting then Some (arrive bb (used, rp) r) else None)"
| "replay_step bb (used, rp) Commit = Some (rp_commit (used, rp))"
| "replay_step bb (used, rp) CloseReplay = Some (rp_close (used, rp))"

fun replay_run :: "nat \<Rightarrow> pool \<Rightarrow> replay_event list \<Rightarrow> pool option" where
  "replay_run bb p [] = Some p"
| "replay_run bb p (e # es) = (case replay_step bb p e of None \<Rightarrow> None | Some p' \<Rightarrow> replay_run bb p' es)"

text \<open>The messages the source has produced.\<close>

fun chunk_of :: "read_result \<Rightarrow> byte list list" where
  "chunk_of (Chunk bytes) = [bytes]"
| "chunk_of _ = []"

definition produced :: "replay \<Rightarrow> byte list list" where
  "produced rp = concat (map chunk_of (rp_reads rp))"

text \<open>All replays of one connection share the pool.\<close>

record buffers =
  b_used :: int
  b_replays :: "replay list"

datatype buffers_event = OpenReplay nat | OnReplay nat replay_event

fun buffers_step :: "nat \<Rightarrow> buffers \<Rightarrow> buffers_event \<Rightarrow> buffers option" where
  "buffers_step bb b (OpenReplay limit) = Some (b\<lparr>b_replays := b_replays b @ [new_Replay limit]\<rparr>)"
| "buffers_step bb b (OnReplay j e) =
     (if j < length (b_replays b) then
        case replay_step bb (b_used b, b_replays b ! j) e of
          Some (used, rp) \<Rightarrow> Some (b\<lparr>b_used := used, b_replays := (b_replays b)[j := rp]\<rparr>)
        | None \<Rightarrow> None
      else None)"

inductive buffers_reachable :: "nat \<Rightarrow> buffers \<Rightarrow> bool" for bb where
  start: "buffers_reachable bb \<lparr>b_used = 0, b_replays = []\<rparr>"
| step: "buffers_reachable bb b \<Longrightarrow> buffers_step bb b e = Some b' \<Longrightarrow> buffers_reachable bb b'"

subsection \<open>Invariants\<close>

definition prod_upto :: "replay \<Rightarrow> nat \<Rightarrow> byte list list" where
  "prod_upto rp k = concat (map chunk_of (take k (rp_reads rp)))"

lemma prod_upto_all: "length (rp_reads rp) \<le> k \<Longrightarrow> prod_upto rp k = produced rp"
  by (simp add: prod_upto_def produced_def)

lemma prod_upto_Suc:
  "k < length (rp_reads rp) \<Longrightarrow> prod_upto rp (Suc k) = prod_upto rp k @ chunk_of (rp_reads rp ! k)"
  by (simp add: prod_upto_def take_Suc_conv_app_nth)

lemma produced_split: "produced rp = prod_upto rp k @ concat (map chunk_of (drop k (rp_reads rp)))"
  unfolding produced_def prod_upto_def by (metis append_take_drop_id concat_append map_append)

text \<open>Only the last read can be unanswered or be the pending one, and an unanswered read is pending.\<close>

definition reads_ok :: "replay \<Rightarrow> bool" where
  "reads_ok rp \<longleftrightarrow> list_all (\<lambda>r. r \<noteq> Waiting) (butlast (rp_reads rp)) \<and>
     (rp_pending rp = None \<longrightarrow> \<not> outstanding rp) \<and> pred_option (\<lambda>k. Suc k = length (rp_reads rp)) (rp_pending rp) \<and>
     list_all (\<lambda>it. pred_option (\<lambda>k. k < length (rp_reads rp)) (it_wait it)) (rp_iters rp)"

definition account_ok :: "replay \<Rightarrow> bool" where
  "account_ok rp \<longleftrightarrow> rp_bytes rp = (\<Sum>m\<leftarrow>rp_saved rp. length m + 5) \<and> rp_bytes rp \<le> rp_limit rp \<and>
     (if rp_committed rp then rp_saved rp = [] else rp_saved rp = produced rp)"

text \<open>What every iterator has handed out is the beginning of what the source produced; a live one is exactly
  where its index says, and one that waits for read \<open>k\<close> is due the message of that read.\<close>

definition iter_ok :: "replay \<Rightarrow> iter \<Rightarrow> bool" where
  "iter_ok rp it \<longleftrightarrow> it_out it = take (length (it_out it)) (produced rp) \<and>
     (it_stopped it \<or> it_index it = length (it_out it) \<and>
        pred_option (\<lambda>k. it_out it = prod_upto rp k) (it_wait it))"

text \<open>A call that was never retried has one iterator, and that one is always up to date.\<close>

definition sole_ok :: "replay \<Rightarrow> iter \<Rightarrow> bool" where
  "sole_ok rp it \<longleftrightarrow> it_stopped it \<or>
     (it_wait it = None \<longrightarrow> it_out it = produced rp \<and> \<not> outstanding rp) \<and>
     pred_option (\<lambda>k. Suc k = length (rp_reads rp)) (it_wait it)"

definition rp_ok :: "replay \<Rightarrow> bool" where
  "rp_ok rp \<longleftrightarrow> reads_ok rp \<and> account_ok rp \<and>
     (rp_committed rp \<and> length (rp_iters rp) \<noteq> 1 \<or> list_all (iter_ok rp) (rp_iters rp)) \<and>
     (length (rp_iters rp) \<noteq> 1 \<or> list_all (sole_ok rp) (rp_iters rp)) \<and>
     (rp_iters rp = [] \<longrightarrow> rp_reads rp = [])"

lemma rp_ok_new: "rp_ok (new_Replay limit)"
  by (simp add: rp_ok_def new_Replay_def reads_ok_def account_ok_def produced_def outstanding_def)

lemma list_all_update: "list_all P xs \<Longrightarrow> P y \<Longrightarrow> list_all P (xs[i := y])"
  using set_update_subset_insert [of xs i y] by (auto simp: list_all_iff)

lemma set_iter_fields [simp]:
  "rp_saved (set_iter rp i it) = rp_saved rp" "rp_bytes (set_iter rp i it) = rp_bytes rp"
  "rp_pending (set_iter rp i it) = rp_pending rp" "rp_ended (set_iter rp i it) = rp_ended rp"
  "rp_committed (set_iter rp i it) = rp_committed rp" "rp_limit (set_iter rp i it) = rp_limit rp"
  "rp_reads (set_iter rp i it) = rp_reads rp" "rp_iters (set_iter rp i it) = (rp_iters rp)[i := it]"
  by (simp_all add: set_iter_def)

lemma set_iter_derived [simp]:
  "produced (set_iter rp i it) = produced rp" "prod_upto (set_iter rp i it) k = prod_upto rp k"
  "outstanding (set_iter rp i it) = outstanding rp"
  by (simp_all add: produced_def prod_upto_def outstanding_def)

lemma set_iter_ok [simp]:
  "account_ok (set_iter rp i it) = account_ok rp"
  "iter_ok (set_iter rp i it) it' = iter_ok rp it'" "sole_ok (set_iter rp i it) it' = sole_ok rp it'"
  by (simp_all add: account_ok_def iter_ok_def sole_ok_def)

lemma set_iter_preds [simp]: "iter_ok (set_iter rp i it) = iter_ok rp" "sole_ok (set_iter rp i it) = sole_ok rp"
  by (rule ext, simp)+

text \<open>Replacing one iterator.\<close>

lemma rp_ok_set_iter:
  assumes "rp_ok rp" and "pred_option (\<lambda>k. k < length (rp_reads rp)) (it_wait it)"
    and "rp_committed rp \<and> length (rp_iters rp) \<noteq> 1 \<or> iter_ok rp it"
    and "length (rp_iters rp) \<noteq> 1 \<or> sole_ok rp it"
  shows "rp_ok (set_iter rp i it)"
  using assms by (auto simp: rp_ok_def reads_ok_def list_all_update)

lemma iter_at:
  assumes "rp_ok rp" "i < length (rp_iters rp)"
  shows "rp_committed rp \<and> length (rp_iters rp) \<noteq> 1 \<or> iter_ok rp (rp_iters rp ! i)"
    "length (rp_iters rp) \<noteq> 1 \<or> sole_ok rp (rp_iters rp ! i)"
    "pred_option (\<lambda>k. k < length (rp_reads rp)) (it_wait (rp_iters rp ! i))"
  using assms by (auto simp: rp_ok_def reads_ok_def list_all_length)

abbreviation tracked :: "replay \<Rightarrow> bool" where
  "tracked rp \<equiv> \<not> (rp_committed rp \<and> length (rp_iters rp) \<noteq> 1)"

lemma caught_up:
  assumes "rp_ok rp" "i < length (rp_iters rp)" "tracked rp"
    and "\<not> it_stopped (rp_iters rp ! i)" "it_wait (rp_iters rp ! i) = None"
    and "\<not> it_index (rp_iters rp ! i) < length (rp_saved rp)"
  shows "it_out (rp_iters rp ! i) = produced rp"
proof (cases "rp_committed rp")
  case True
  with iter_at(2) [OF assms(1,2)] assms(3-5) show ?thesis by (auto simp: sole_ok_def)
next
  case False
  with iter_at(1) [OF assms(1,2)] assms show ?thesis
    by (auto simp: iter_ok_def rp_ok_def account_ok_def)
qed

lemma last_read_silent:
  assumes "reads_ok rp" "rp_pending rp = Some k" "answer_taken rp"
  shows "prod_upto rp k = produced rp"
proof -
  have "Suc k = length (rp_reads rp)" "chunk_of (rp_reads rp ! k) = []"
    using assms by (auto simp: reads_ok_def answer_taken_def)
  then show ?thesis using prod_upto_Suc [of k rp] prod_upto_all [of rp "Suc k"] by simp
qed

lemma replayed_next:
  assumes "rp_ok rp" "i < length (rp_iters rp)" "\<not> it_stopped (rp_iters rp ! i)"
    "it_wait (rp_iters rp ! i) = None" "it_index (rp_iters rp ! i) < length (rp_saved rp)"
  shows "rp_ok (set_iter rp i (hand_over (rp_iters rp ! i) (rp_saved rp ! it_index (rp_iters rp ! i))))"
proof -
  let ?it = "rp_iters rp ! i"
  have saved: "rp_saved rp = produced rp" "\<not> rp_committed rp"
    using assms(1,5) by (auto simp: rp_ok_def account_ok_def split: if_splits)
  with iter_at(1) [OF assms(1,2)] assms(3) have it: "it_index ?it = length (it_out ?it)"
    "it_out ?it = take (length (it_out ?it)) (produced rp)" by (auto simp: iter_ok_def)
  have "length (rp_iters rp) \<noteq> 1"
    using iter_at(2) [OF assms(1,2)] assms(3-5) it saved by (auto simp: sole_ok_def)
  moreover have "it_out ?it @ [produced rp ! length (it_out ?it)] = take (Suc (length (it_out ?it))) (produced rp)"
    using it assms(5) saved by (simp add: take_Suc_conv_app_nth)
  ultimately show ?thesis
    using assms it saved by (intro rp_ok_set_iter) (auto simp: hand_over_def iter_ok_def)
qed

lemma rp_ok_grow:
  assumes "rp_ok rp" "i < length (rp_iters rp)" "rp_pending rp = None"
    and "it_wait (rp_iters rp ! i) = None" "\<not> it_stopped (rp_iters rp ! i)"
    and "tracked rp \<Longrightarrow> it_out (rp_iters rp ! i) = produced rp"
  shows "rp_ok (set_iter (rp\<lparr>rp_pending := Some (length (rp_reads rp)), rp_reads := rp_reads rp @ [Waiting]\<rparr>) i
           ((rp_iters rp ! i)\<lparr>it_wait := Some (length (rp_reads rp))\<rparr>))"
proof -
  let ?n = "length (rp_reads rp)"
  let ?r = "rp\<lparr>rp_pending := Some ?n, rp_reads := rp_reads rp @ [Waiting]\<rparr>"
  let ?it = "(rp_iters rp ! i)\<lparr>it_wait := Some ?n\<rparr>"
  have prod: "produced ?r = produced rp" "prod_upto ?r ?n = produced rp"
    "k < ?n \<Longrightarrow> prod_upto ?r k = prod_upto rp k" for k
    by (simp_all add: produced_def prod_upto_def)
  have "list_all (\<lambda>r. r \<noteq> Waiting) (rp_reads rp)"
    using assms(1,3) by (cases "rp_reads rp" rule: rev_cases) (auto simp: rp_ok_def reads_ok_def outstanding_def)
  moreover have "list_all (\<lambda>it. pred_option (\<lambda>k. k < Suc ?n) (it_wait it)) (rp_iters rp)"
    using assms(1) by (auto simp: rp_ok_def reads_ok_def list_all_iff pred_option_def)
  ultimately have "reads_ok (set_iter ?r i ?it)"
    by (simp add: reads_ok_def outstanding_def list_all_update)
  moreover have "account_ok (set_iter ?r i ?it)"
    using assms(1) prod by (simp add: rp_ok_def account_ok_def)
  moreover have "\<not> tracked rp \<or> list_all (iter_ok ?r) ((rp_iters rp)[i := ?it])"
  proof (cases "tracked rp")
    case True
    then have ok: "list_all (iter_ok rp) (rp_iters rp)" using assms(1) by (auto simp: rp_ok_def)
    have "iter_ok ?r it" if "it \<in> set (rp_iters rp)" for it
    proof -
      have "iter_ok rp it" "pred_option (\<lambda>k. k < ?n) (it_wait it)"
        using ok assms(1) that by (auto simp: list_all_iff rp_ok_def reads_ok_def)
      then show ?thesis by (auto simp: iter_ok_def prod pred_option_def)
    qed
    moreover have "iter_ok ?r ?it"
      using ok assms(2,5,6) True prod by (auto simp: list_all_length iter_ok_def)
    ultimately show ?thesis by (intro disjI2 list_all_update) (auto simp: list_all_iff)
  qed simp
  moreover have "length (rp_iters rp) \<noteq> 1 \<or> list_all (sole_ok ?r) ((rp_iters rp)[i := ?it])"
    using assms(2) by (auto simp: length_Suc_conv sole_ok_def)
  ultimately show ?thesis using assms(1,2) by (auto simp: rp_ok_def)
qed

lemma rp_ok_next:
  assumes "rp_ok rp" "i < length (rp_iters rp)" "it_wait (rp_iters rp ! i) = None" "answer_taken rp"
  shows "rp_ok (it_next rp i)"
proof -
  let ?it = "rp_iters rp ! i"
  consider "it_stopped ?it \<or> (\<not> it_index ?it < length (rp_saved rp) \<and> rp_ended rp)"
    | "\<not> it_stopped ?it" "it_index ?it < length (rp_saved rp)"
    | (wait) "\<not> it_stopped ?it" "\<not> it_index ?it < length (rp_saved rp)" "\<not> rp_ended rp" by blast
  then show ?thesis
  proof cases
    case 1
    with assms(1) show ?thesis by (auto simp: it_next_def Let_def dest: replayed_next)
  next
    case 2
    with assms show ?thesis by (simp add: it_next_def Let_def replayed_next)
  next
    case wait
    note up = caught_up [OF assms(1,2) _ wait(1) assms(3) wait(2)]
    show ?thesis
    proof (cases "rp_pending rp")
      case None
      with rp_ok_grow [OF assms(1,2) None assms(3) wait(1) up] wait show ?thesis by (simp add: it_next_def Let_def)
    next
      case (Some k)
      have ok: "reads_ok rp" using assms(1) by (simp add: rp_ok_def)
      then have k: "Suc k = length (rp_reads rp)" using Some by (simp add: reads_ok_def)
      have "rp_ok (set_iter rp i (?it\<lparr>it_wait := Some k\<rparr>))"
      proof (rule rp_ok_set_iter [OF assms(1)])
        show "pred_option (\<lambda>k. k < length (rp_reads rp)) (it_wait (?it\<lparr>it_wait := Some k\<rparr>))" using k by simp
        show "rp_committed rp \<and> length (rp_iters rp) \<noteq> 1 \<or> iter_ok rp (?it\<lparr>it_wait := Some k\<rparr>)"
          using iter_at(1) [OF assms(1,2)] up last_read_silent [OF ok Some assms(4)] wait(1)
          by (auto simp: iter_ok_def)
        show "length (rp_iters rp) \<noteq> 1 \<or> sole_ok rp (?it\<lparr>it_wait := Some k\<rparr>)" using k by (simp add: sole_ok_def)
      qed
      with Some wait show ?thesis by (simp add: it_next_def Let_def)
    qed
  qed
qed

text \<open>The other fields of a replay do not matter to the iterators.\<close>

lemma iters_cong:
  assumes "rp_reads rp' = rp_reads rp"
  shows "iter_ok rp' = iter_ok rp" "sole_ok rp' = sole_ok rp" "produced rp' = produced rp"
    "outstanding rp' = outstanding rp"
proof -
  show p: "produced rp' = produced rp" "outstanding rp' = outstanding rp"
    using assms by (simp_all add: produced_def outstanding_def)
  have "prod_upto rp' = prod_upto rp" using assms by (intro ext) (simp add: prod_upto_def)
  with p assms show "iter_ok rp' = iter_ok rp" "sole_ok rp' = sole_ok rp"
    by (intro ext; simp add: iter_ok_def sole_ok_def)+
qed

lemma rp_ok_cong:
  assumes "rp_ok rp" "rp_reads rp' = rp_reads rp" "rp_iters rp' = rp_iters rp" "rp_pending rp' = rp_pending rp"
    "rp_committed rp \<longrightarrow> rp_committed rp'" "account_ok rp'"
  shows "rp_ok rp'"
  using assms unfolding rp_ok_def reads_ok_def iters_cong [OF assms(2)] by auto

lemma rp_ok_clear_pending:
  assumes "rp_ok rp" "k < length (rp_reads rp)" "rp_reads rp ! k \<noteq> Waiting"
  shows "rp_ok (clear_pending rp k)"
proof (cases "rp_pending rp = Some k")
  case True
  then have k: "length (rp_reads rp) = Suc k" using assms(1) by (simp add: rp_ok_def reads_ok_def)
  have r: "rp_reads (rp\<lparr>rp_pending := None\<rparr>) = rp_reads rp" by simp
  have "\<not> outstanding rp" using assms(2,3) by (auto simp: outstanding_def last_conv_nth k)
  then have "rp_ok (rp\<lparr>rp_pending := None\<rparr>)"
    using assms(1) unfolding rp_ok_def reads_ok_def account_ok_def iters_cong [OF r] by simp
  with True show ?thesis by (simp add: clear_pending_def)
next
  case False
  with assms(1) show ?thesis by (simp add: clear_pending_def)
qed

lemma waiting_due:
  assumes "rp_ok rp" "i < length (rp_iters rp)" "it_wait (rp_iters rp ! i) = Some k" "tracked rp"
    "\<not> it_stopped (rp_iters rp ! i)"
  shows "it_out (rp_iters rp ! i) @ chunk_of (rp_reads rp ! k) = prod_upto rp (Suc k)"
    "it_index (rp_iters rp ! i) = length (it_out (rp_iters rp ! i))"
  using iter_at [OF assms(1,2)] assms(3-5) by (auto simp: iter_ok_def prod_upto_Suc)

lemma prod_upto_prefix: "prod_upto rp k = take (length (prod_upto rp k)) (produced rp)"
  using produced_split [of rp k] by simp

lemma rp_ok_resume:
  assumes "rp_ok rp" "i < length (rp_iters rp)" "it_wait (rp_iters rp ! i) = Some k" "rp_reads rp ! k \<noteq> Waiting"
  shows "rp_ok (it_resume rp i k)"
proof -
  let ?it = "rp_iters rp ! i"
  let ?taken = "\<lambda>it'. it' = (case rp_reads rp ! k of
      Chunk bytes \<Rightarrow> if it_stopped ?it then ?it\<lparr>it_wait := None, it_index := Suc (it_index ?it)\<rparr>
                     else hand_over (?it\<lparr>it_wait := None\<rparr>) bytes
    | _ \<Rightarrow> ?it\<lparr>it_wait := None\<rparr>)"
  have k: "k < length (rp_reads rp)" using iter_at(3) [OF assms(1,2)] assms(3) by simp
  have silent: "\<not> outstanding rp" if "Suc k = length (rp_reads rp)"
    using assms(4) diff_Suc_1 [of k, unfolded that] by (auto simp: outstanding_def last_conv_nth)
  have ok: "rp_ok (set_iter q i it')"
    if q: "rp_ok q" "rp_reads q = rp_reads rp" "rp_iters q = rp_iters rp" "rp_committed q = rp_committed rp"
      and it': "?taken it'" for q it'
  proof (rule rp_ok_set_iter [OF q(1)])
    show "pred_option (\<lambda>k. k < length (rp_reads q)) (it_wait it')"
      using it' assms(4) by (auto simp: hand_over_def split: read_result.splits)
    show "rp_committed q \<and> length (rp_iters q) \<noteq> 1 \<or> iter_ok q it'"
    proof (cases "tracked rp")
      case True
      have "iter_ok rp it'"
      proof (cases "it_stopped ?it")
        case stopped: True
        then show ?thesis using it' iter_at(1) [OF assms(1,2)] True
          by (auto simp: iter_ok_def hand_over_def split: read_result.splits)
      next
        case False
        note due = waiting_due [OF assms(1-3) True False]
        have "it_out it' = prod_upto rp (Suc k)" "it_index it' = length (it_out it')" "it_wait it' = None"
          using it' due False assms(4) by (auto simp: hand_over_def split: read_result.splits)
        then show ?thesis using prod_upto_prefix [of rp "Suc k"] by (simp add: iter_ok_def)
      qed
      then show ?thesis by (simp add: iters_cong [OF q(2)])
    qed (simp add: q)
    show "length (rp_iters q) \<noteq> 1 \<or> sole_ok q it'"
    proof (cases "length (rp_iters rp) = 1 \<and> \<not> it_stopped ?it")
      case True
      then have "Suc k = length (rp_reads rp)" using iter_at(2) [OF assms(1,2)] assms(3) by (auto simp: sole_ok_def)
      moreover have "it_out it' = prod_upto rp (Suc k)" "it_wait it' = None"
        using it' waiting_due [OF assms(1-3)] True assms(4) by (auto simp: hand_over_def split: read_result.splits)
      ultimately show ?thesis using silent prod_upto_all [of rp "Suc k"] by (simp add: sole_ok_def iters_cong [OF q(2)])
    next
      case False
      then show ?thesis using it' by (auto simp: sole_ok_def q hand_over_def split: read_result.splits)
    qed
  qed
  have c: "rp_reads (clear_pending rp k) = rp_reads rp" "rp_iters (clear_pending rp k) = rp_iters rp"
    "rp_committed (clear_pending rp k) = rp_committed rp" by (simp_all add: clear_pending_def)
  note cleared = ok [OF rp_ok_clear_pending [OF assms(1) k assms(4)] c]
  show ?thesis
    using assms(4) ok [OF assms(1)] cleared by (auto simp: it_resume_def Let_def split: read_result.splits)
qed

lemma rp_ok_return: "rp_ok rp \<Longrightarrow> i < length (rp_iters rp) \<Longrightarrow> rp_ok (it_return rp i)"
  using iter_at [of rp i] unfolding it_return_def
  by (intro rp_ok_set_iter) (auto simp: iter_ok_def sole_ok_def)

lemma rp_ok_iterable: "rp_ok rp \<Longrightarrow> rp_ok (iterable rp)"
proof -
  assume a: "rp_ok rp"
  have c: "rp_reads (iterable rp) = rp_reads rp" by (simp add: iterable_def)
  have "iter_ok rp new_iter" by (simp add: iter_ok_def new_iter_def)
  moreover have "rp_reads rp = [] \<Longrightarrow> sole_ok rp new_iter"
    by (simp add: sole_ok_def new_iter_def produced_def outstanding_def)
  ultimately show ?thesis using a unfolding rp_ok_def reads_ok_def account_ok_def iters_cong [OF c] c
    by (auto simp: iterable_def new_iter_def)
qed

lemma rp_ok_commit: "rp_ok rp \<Longrightarrow> rp_ok (snd (rp_commit (used, rp)))"
  by (rule rp_ok_cong [of rp]) (auto simp: rp_commit_def account_ok_def)

lemma rp_ok_close: "rp_ok rp \<Longrightarrow> rp_ok (snd (rp_close (used, rp)))"
  by (rule rp_ok_cong [of rp]) (auto simp: rp_close_def rp_commit_def account_ok_def)

text \<open>An answer adds at most one message at the end.\<close>

lemma settle_reads:
  assumes "outstanding q"
  shows "rp_reads (settle q r) = butlast (rp_reads q) @ [r]" "rp_reads q = butlast (rp_reads q) @ [Waiting]"
  using assms by (auto simp: settle_def outstanding_def butlast_conv_take last_conv_nth)
     (metis append_butlast_last_id butlast_conv_take last_conv_nth length_greater_0_conv list_update_length
       length_butlast One_nat_def)+

lemma settle_prod:
  assumes "outstanding q"
  shows "produced (settle q r) = produced q @ chunk_of r"
    "k < length (rp_reads q) \<Longrightarrow> prod_upto (settle q r) k = prod_upto q k"
proof -
  obtain xs where xs: "rp_reads q = xs @ [Waiting]" "rp_reads (settle q r) = xs @ [r]"
    using settle_reads [OF assms] by metis
  then show "produced (settle q r) = produced q @ chunk_of r"
    "k < length (rp_reads q) \<Longrightarrow> prod_upto (settle q r) k = prod_upto q k"
    by (simp_all add: produced_def prod_upto_def)
qed

lemma rp_ok_settle:
  assumes "rp_ok rp" "outstanding rp" "r \<noteq> Waiting"
    and q: "rp_reads q = rp_reads rp" "rp_iters q = rp_iters rp" "rp_pending q = rp_pending rp"
    and "rp_committed rp \<longrightarrow> rp_committed q" "rp_bytes q = (\<Sum>m\<leftarrow>rp_saved q. length m + 5)" "rp_bytes q \<le> rp_limit q"
    and "if rp_committed q then rp_saved q = [] else rp_saved q = produced rp @ chunk_of r"
  shows "rp_ok (settle q r)"
proof -
  have out: "outstanding q" using assms(2) q(1) by (simp add: outstanding_def)
  obtain xs where xs: "rp_reads rp = xs @ [Waiting]" "rp_reads (settle q r) = xs @ [r]"
    using settle_reads [OF out] q(1) by metis
  have f: "rp_iters (settle q r) = rp_iters rp" "rp_pending (settle q r) = rp_pending rp"
    "rp_committed (settle q r) = rp_committed q" "rp_saved (settle q r) = rp_saved q" "rp_bytes (settle q r) = rp_bytes q"
    "rp_limit (settle q r) = rp_limit q" by (simp_all add: settle_def q)
  note cong = iters_cong [OF q(1)]
  have prod: "produced (settle q r) = produced rp @ chunk_of r"
    "k < Suc (length xs) \<Longrightarrow> prod_upto (settle q r) k = prod_upto rp k" for k
    using settle_prod [OF out] cong(3) xs q(1) by (simp_all add: prod_upto_def)
  have sil: "\<not> outstanding (settle q r)" using xs assms(3) by (simp add: outstanding_def)
  have "iter_ok (settle q r) it" if "iter_ok rp it" "pred_option (\<lambda>k. k < length (rp_reads rp)) (it_wait it)" for it
    using that by (auto simp: iter_ok_def prod pred_option_def xs(1))
  moreover have "sole_ok (settle q r) it" if "sole_ok rp it" for it
    using that assms(2) xs by (auto simp: sole_ok_def)
  ultimately show ?thesis
    using assms(1,7-10) xs prod(1) sil
    by (auto simp: rp_ok_def reads_ok_def account_ok_def f list_all_iff outstanding_def)
qed

lemma rp_ok_arrive:
  assumes "rp_ok rp" "outstanding rp" "r \<noteq> Waiting"
  shows "rp_ok (snd (arrive bb (used, rp) r))"
proof (cases r)
  case (Chunk bytes)
  obtain used' q where q: "retain bb (used, rp) bytes = (used', q)" by force
  have "rp_ok (settle q r)"
    by (rule rp_ok_settle [OF assms])
       (use assms(1) q Chunk in \<open>auto simp: retain_def rp_commit_def Let_def rp_ok_def account_ok_def
          split: if_splits option.splits\<close>)
  with q Chunk show ?thesis by simp
next
  case Finished
  then show ?thesis using assms(1)
    by (simp, intro rp_ok_settle [OF assms(1,2)]) (auto simp: rp_ok_def account_ok_def)
next
  case Failed
  then show ?thesis using assms(1)
    by (simp, intro rp_ok_settle [OF assms(1,2)]) (auto simp: rp_ok_def account_ok_def)
qed (use assms(3) in simp)

lemma rp_ok_step: "rp_ok rp \<Longrightarrow> replay_step bb (used, rp) e = Some (used', rp') \<Longrightarrow> rp_ok rp'"
  using rp_ok_commit [of rp used] rp_ok_close [of rp used] rp_ok_arrive [of rp _ bb used]
  by (cases e)
     (force simp: rp_ok_iterable rp_ok_next rp_ok_resume rp_ok_return split: if_splits option.splits)+

lemma rp_ok_run: "rp_ok rp \<Longrightarrow> replay_run bb (used, rp) es = Some (used', rp') \<Longrightarrow> rp_ok rp'"
  by (induction es arbitrary: used rp) (auto split: option.splits dest: rp_ok_step)

subsection \<open>The shared pool\<close>

text \<open>An operation on one replay changes the pool by the change of that replay's bytes, and never takes it
  above its size.\<close>

lemma replay_step_pool:
  assumes "account_ok rp" "replay_step bb (used, rp) e = Some (used', rp')" "used \<le> int bb"
  shows "used' - int (rp_bytes rp') = used - int (rp_bytes rp) \<and> used' \<le> int bb"
  using assms
  by (cases e; cases "rp_committed rp")
     (auto simp: iterable_def it_next_def it_resume_def it_return_def Let_def clear_pending_def settle_def
        rp_close_def rp_commit_def retain_def release_def reserve_def
        split: if_splits option.splits read_result.splits prod.splits elim!: arrive.elims)

definition pool_ok :: "nat \<Rightarrow> buffers \<Rightarrow> bool" where
  "pool_ok bb b \<longleftrightarrow> list_all rp_ok (b_replays b) \<and> b_used b = int (\<Sum>rp\<leftarrow>b_replays b. rp_bytes rp) \<and>
     b_used b \<le> int bb"

lemma sum_list_swap:
  "j < length xs \<Longrightarrow> int (\<Sum>x\<leftarrow>xs[j := y]. f x) = int (\<Sum>x\<leftarrow>xs. f x) - int (f (xs ! j)) + int (f y)"
  by (induction xs arbitrary: j) (auto simp: nth_Cons split: nat.splits)

lemma pool_ok_step:
  assumes "pool_ok bb b" "buffers_step bb b e = Some b'"
  shows "pool_ok bb b'"
proof (cases e)
  case (OpenReplay limit)
  with assms show ?thesis by (auto simp: pool_ok_def rp_ok_new) (simp add: new_Replay_def)
next
  case (OnReplay j ev)
  with assms(2) obtain used rp where st: "replay_step bb (b_used b, b_replays b ! j) ev = Some (used, rp)"
    and j: "j < length (b_replays b)" and b': "b' = b\<lparr>b_used := used, b_replays := (b_replays b)[j := rp]\<rparr>"
    by (auto split: if_splits option.splits)
  have ok: "rp_ok (b_replays b ! j)" using assms(1) j by (simp add: pool_ok_def list_all_length)
  then have "account_ok (b_replays b ! j)" by (simp add: rp_ok_def)
  from replay_step_pool [OF this st] rp_ok_step [OF ok st] assms(1) j sum_list_swap [OF j, of rp_bytes rp]
  show ?thesis by (simp add: b' pool_ok_def list_all_update)
qed

lemma pool_ok_reachable: "buffers_reachable bb b \<Longrightarrow> pool_ok bb b"
  by (induction rule: buffers_reachable.induct) (simp add: pool_ok_def, rule pool_ok_step)

subsection \<open>An example run\<close>

text \<open>The first attempt uploads two messages and is refused; the retry has replayed one of them.\<close>

definition first_attempt_refused :: "replay_event list" where
  "first_attempt_refused = [Iterable, NextCall 0, Arrive (Chunk [1]), ResumeCall 0, NextCall 0, Arrive (Chunk [2]),
     ResumeCall 0, ReturnCall 0, Iterable, NextCall 1]"

definition after_refusal :: replay where
  "after_refusal = \<lparr>rp_saved = [[1], [2]], rp_bytes = 12, rp_pending = None, rp_ended = False, rp_committed = False,
     rp_limit = 50, rp_reads = [Chunk [1], Chunk [2]],
     rp_iters = [\<lparr>it_index = 2, it_stopped = True, it_wait = None, it_out = [[1], [2]]\<rparr>,
                 \<lparr>it_index = 1, it_stopped = False, it_wait = None, it_out = [[1]]\<rparr>]\<rparr>"

lemmas replay_eval = iterable_def new_iter_def it_next_def set_iter_def hand_over_def retain_def settle_def reserve_def
  clear_pending_def it_resume_def it_return_def outstanding_def answer_taken_def Let_def

lemma first_attempt_refused_run: "replay_run 100 (0, new_Replay 50) first_attempt_refused = Some (12, after_refusal)"
  by (simp add: first_attempt_refused_def after_refusal_def new_Replay_def replay_eval)

fun buffers_run :: "nat \<Rightarrow> buffers \<Rightarrow> buffers_event list \<Rightarrow> buffers option" where
  "buffers_run bb b [] = Some b"
| "buffers_run bb b (e # es) = Option.bind (buffers_step bb b e) (\<lambda>b'. buffers_run bb b' es)"

lemma buffers_run_reachable: "buffers_reachable bb b \<Longrightarrow> buffers_run bb b es = Some b' \<Longrightarrow> buffers_reachable bb b'"
  by (induction es arbitrary: b) (auto simp: Option.bind_eq_Some_conv dest: buffers_reachable.step)

definition two_calls :: "buffers_event list" where
  "two_calls = [OpenReplay 50, OpenReplay 50, OnReplay 0 Iterable, OnReplay 1 Iterable, OnReplay 0 (NextCall 0),
     OnReplay 1 (NextCall 0), OnReplay 0 (Arrive (Chunk [1, 2])), OnReplay 1 (Arrive (Chunk []))]"

definition two_calls_state :: buffers where
  "two_calls_state = the (buffers_run 12 \<lparr>b_used = 0, b_replays = []\<rparr> two_calls)"

lemma two_calls_reachable: "buffers_reachable 12 two_calls_state" "b_used two_calls_state = 12"
proof -
  have r: "\<exists>b. buffers_run 12 \<lparr>b_used = 0, b_replays = []\<rparr> two_calls = Some b \<and> b_used b = 12"
    by (simp add: two_calls_def new_Replay_def replay_eval)
  then show "buffers_reachable 12 two_calls_state" "b_used two_calls_state = 12"
    using buffers_run_reachable [OF buffers_reachable.start] by (auto simp: two_calls_state_def)
qed

subsection \<open>Properties\<close>

text \<open>C26: Retry buffers are accounted exactly: in every reachable state of a logical connection with any number
  of concurrent calls, the reserved bytes are the sum over the calls of the serialized sizes (with
  the five framing bytes) of the messages they retain, no call retains more than its limit, the
  total never exceeds the connection's budget, and a call that is committed or closed retains
  nothing.\<close>

theorem retry_buffer_accounting:
  assumes "buffers_reachable bb b"
  shows "b_used b = int (\<Sum>rp\<leftarrow>b_replays b. \<Sum>m\<leftarrow>rp_saved rp. length m + 5) \<and> b_used b \<le> int bb \<and>
     list_all (\<lambda>rp. (\<Sum>m\<leftarrow>rp_saved rp. length m + 5) \<le> rp_limit rp \<and> (rp_committed rp \<longrightarrow> rp_saved rp = []))
       (b_replays b)"
proof -
  have ok: "pool_ok bb b" by (rule pool_ok_reachable [OF assms])
  then have "map rp_bytes (b_replays b) = map (\<lambda>rp. \<Sum>m\<leftarrow>rp_saved rp. length m + 5) (b_replays b)"
    by (auto simp: pool_ok_def list_all_iff rp_ok_def account_ok_def)
  with ok show ?thesis by (auto simp: pool_ok_def list_all_iff rp_ok_def account_ok_def)
qed

theorem retry_buffer_accounting_witness:
  "b_used two_calls_state = 12 \<and>
   b_used two_calls_state = int (\<Sum>rp\<leftarrow>b_replays two_calls_state. \<Sum>m\<leftarrow>rp_saved rp. length m + 5) \<and>
   b_used two_calls_state \<le> int 12 \<and>
   list_all (\<lambda>rp. (\<Sum>m\<leftarrow>rp_saved rp. length m + 5) \<le> rp_limit rp \<and> (rp_committed rp \<longrightarrow> rp_saved rp = []))
     (b_replays two_calls_state)"
  using retry_buffer_accounting [OF two_calls_reachable(1)] two_calls_reachable(2) by blast

text \<open>C3: Every attempt uploads the caller's messages in order, without loss or duplication: whatever the
  interleaving of source reads, attempts, stops and commits, what an iterator has handed out is a
  prefix of what the source produced, as long as the call can still be retried or was never retried;
  and while it can be retried, everything the source produced is retained for the next attempt.\<close>

theorem replay_delivers_prefix:
  assumes "replay_run bb (used, new_Replay limit) es = Some (used', rp)" and "it \<in> set (rp_iters rp)"
    and "\<not> rp_committed rp \<or> length (rp_iters rp) = 1"
  shows "it_out it = take (length (it_out it)) (produced rp) \<and> (rp_committed rp \<or> rp_saved rp = produced rp)"
proof -
  have ok: "rp_ok rp" by (rule rp_ok_run [OF rp_ok_new assms(1)])
  then have "iter_ok rp it" using assms(2,3) by (auto simp: rp_ok_def list_all_iff)
  with ok show ?thesis by (auto simp: rp_ok_def account_ok_def iter_ok_def split: if_splits)
qed

theorem replay_delivers_prefix_witness:
  "let rp = snd (the (replay_run 100 (0, new_Replay 50) first_attempt_refused)) in
   rp_iters rp ! 1 = \<lparr>it_index = 1, it_stopped = False, it_wait = None, it_out = [[1]]\<rparr> \<and>
   it_out (rp_iters rp ! 1) = take (length (it_out (rp_iters rp ! 1))) (produced rp) \<and>
   (rp_committed rp \<or> rp_saved rp = produced rp)"
  using replay_delivers_prefix [OF first_attempt_refused_run, of "\<lparr>it_index = 1, it_stopped = False, it_wait = None, it_out = [[1]]\<rparr>"]
  by (simp add: first_attempt_refused_run after_refusal_def)

text \<open>C33: A commit in the middle of a replay loses messages: when a retried attempt has handed out fewer than
  the retained messages and the call is committed (response headers arrived, or the other limit was
  hit), the messages it had not reached are gone: its next message is whatever the source produces
  next, so the upload the server sees skips them.\<close>

theorem commit_during_replay_skips:
  assumes "replay_run bb (used0, new_Replay limit) es = Some (used, rp)"
    and "\<not> rp_committed rp" and "i < length (rp_iters rp)"
    and "\<not> it_stopped (rp_iters rp ! i)" and "it_wait (rp_iters rp ! i) = None" and "\<not> rp_ended rp"
    and "rp_pending rp = None" and "it_index (rp_iters rp ! i) < length (produced rp)"
  shows "(case replay_run bb (used, rp) [Commit, NextCall i, Arrive (Chunk m), ResumeCall i] of
       None \<Rightarrow> False
     | Some (_, rp') \<Rightarrow>
         it_out (rp_iters rp' ! i) = take (it_index (rp_iters rp ! i)) (produced rp) @ [m] \<and>
         produced rp' = produced rp @ [m])"
proof -
  have ok: "rp_ok rp" by (rule rp_ok_run [OF rp_ok_new assms(1)])
  have it: "it_index (rp_iters rp ! i) = length (it_out (rp_iters rp ! i))"
    "it_out (rp_iters rp ! i) = take (length (it_out (rp_iters rp ! i))) (produced rp)"
    using iter_at(1) [OF ok assms(3)] assms(2,4) by (auto simp: iter_ok_def)
  then show ?thesis using assms(3-7)
    by (simp add: rp_commit_def answer_taken_def it_next_def Let_def outstanding_def retain_def settle_def
        it_resume_def hand_over_def clear_pending_def produced_def set_iter_def nth_append)
qed

theorem commit_during_replay_skips_witness:
  "case replay_run 100 (12, after_refusal) [Commit, NextCall 1, Arrive (Chunk [3]), ResumeCall 1] of
     None \<Rightarrow> False
   | Some (_, rp') \<Rightarrow> it_out (rp_iters rp' ! 1) = [[1], [3]] \<and> produced rp' = [[1], [2], [3]]"
proof -
  have p: "take (it_index (rp_iters after_refusal ! 1)) (produced after_refusal) @ [[3]] = [[1], [3]]"
    "produced after_refusal @ [[3]] = [[1], [2], [3]]" by (simp_all add: after_refusal_def produced_def)
  show ?thesis
    by (rule commit_during_replay_skips [OF first_attempt_refused_run, where i = 1 and m = "[3]", unfolded p])
       (simp_all add: after_refusal_def produced_def)
qed

end
