(* ===== verification/Retry.thy ===== *)
theory Retry
  imports Complex_Main Replay
begin

text \<open>
  \<^verbatim>\<open>web/src/retry.ts\<close>: retry policies, \<^verbatim>\<open>RetryingTransport\<close> with its throttling tokens, and the retry
  loop \<^verbatim>\<open>run\<close>.

  A JavaScript number that comes from the caller is a \<open>jsnum\<close> (it can be NaN or infinite); once
  validated it is a \<open>real\<close>. Rounding of floating-point results is not modelled.

  One pass of the loop in \<^verbatim>\<open>run\<close> is \<open>run_turn\<close>. What the pass observes of the world is a \<open>turn\<close>: the
  state of the abort signal and the clock at each point where the code looks at them, the outcomes
  of \<^verbatim>\<open>select\<close>, \<^verbatim>\<open>invoke\<close> and \<^verbatim>\<open>pause\<close>, the random number, and the values other calls share (the
  throttling tokens, whether the replay is committed). \<open>run\<close> consumes a list of turns and is \<open>None\<close>
  while the loop has not returned.
\<close>

datatype jsnum = NaN | Infinite bool | Finite real

fun isFinite :: "jsnum \<Rightarrow> bool" where
  "isFinite (Finite r) = True"
| "isFinite _ = False"

fun finite_value :: "jsnum \<Rightarrow> real" where
  "finite_value (Finite r) = r"
| "finite_value _ = 0"

definition isInteger :: "jsnum \<Rightarrow> bool" where
  "isInteger v \<longleftrightarrow> isFinite v \<and> of_int \<lfloor>finite_value v\<rfloor> = finite_value v"

definition isSafeInteger :: "jsnum \<Rightarrow> bool" where
  "isSafeInteger v \<longleftrightarrow> isInteger v \<and> \<bar>finite_value v\<bar> \<le> 2 ^ 53 - 1"

definition positive_finite :: "jsnum \<Rightarrow> bool" where
  "positive_finite v \<longleftrightarrow> isFinite v \<and> finite_value v > 0"

subsection \<open>Policies and options\<close>

record policy_init =
  pi_maxAttempts :: jsnum
  pi_initialBackoffMs :: jsnum
  pi_maxBackoffMs :: jsnum
  pi_backoffMultiplier :: jsnum
  pi_retryableStatusCodes :: "jsnum list"

record retry_policy =
  p_maxAttempts :: nat
  p_initialBackoffMs :: real
  p_maxBackoffMs :: real
  p_backoffMultiplier :: real
  p_retryableStatusCodes :: "nat list"

definition nat_value :: "jsnum \<Rightarrow> nat" where
  "nat_value v = nat \<lfloor>finite_value v\<rfloor>"

text \<open>\<open>None\<close> is the \<^verbatim>\<open>TypeError\<close>.\<close>

definition policyCopy :: "policy_init \<Rightarrow> retry_policy option" where
  "policyCopy p =
     (if \<not> isInteger (pi_maxAttempts p) \<or> finite_value (pi_maxAttempts p) < 2 \<or> finite_value (pi_maxAttempts p) > 5 \<or>
         \<not> list_all positive_finite [pi_initialBackoffMs p, pi_maxBackoffMs p, pi_backoffMultiplier p] \<or>
         finite_value (pi_maxBackoffMs p) < finite_value (pi_initialBackoffMs p) \<or>
         pi_retryableStatusCodes p = [] \<or>
         list_ex (\<lambda>v. \<not> isInteger v \<or> finite_value v < 1 \<or> finite_value v > 16) (pi_retryableStatusCodes p)
      then None
      else Some \<lparr>p_maxAttempts = nat_value (pi_maxAttempts p),
                 p_initialBackoffMs = finite_value (pi_initialBackoffMs p),
                 p_maxBackoffMs = finite_value (pi_maxBackoffMs p),
                 p_backoffMultiplier = finite_value (pi_backoffMultiplier p),
                 p_retryableStatusCodes = map nat_value (pi_retryableStatusCodes p)\<rparr>)"

text \<open>\<^verbatim>\<open>RetryOptions\<close>; in \<open>ro_methods\<close> the value \<open>None\<close> is the literal \<^verbatim>\<open>false\<close>.\<close>

record retry_options =
  ro_policy :: "policy_init option"
  ro_methods :: "(jsstring \<times> policy_init option) list"
  ro_perRpcBufferBytes :: "jsnum option"
  ro_bufferBytes :: "jsnum option"
  ro_throttling :: "(jsnum \<times> jsnum) option"

record retrying_transport =
  rt_policy :: "retry_policy option"
  rt_methods :: "jsstring \<rightharpoonup> retry_policy option"
  rt_perRpcBufferBytes :: nat
  rt_bufferBytes :: nat
  rt_throttling :: "(real \<times> real) option"
  rt_tokens :: real

fun copy_optional :: "policy_init option \<Rightarrow> retry_policy option option" where
  "copy_optional None = Some None"
| "copy_optional (Some p) = map_option Some (policyCopy p)"

fun copy_methods :: "(jsstring \<times> policy_init option) list \<Rightarrow> (jsstring \<rightharpoonup> retry_policy option) option" where
  "copy_methods [] = Some (\<lambda>_. None)"
| "copy_methods ((key, v) # ms) =
     (case (copy_optional v, copy_methods ms) of
        (Some v', Some m) \<Rightarrow> Some (case m key of None \<Rightarrow> m(key \<mapsto> v') | Some _ \<Rightarrow> m)
      | _ \<Rightarrow> None)"

definition buffer_size :: "jsnum option \<Rightarrow> nat \<Rightarrow> nat option" where
  "buffer_size v dflt =
     (case v of
        None \<Rightarrow> Some dflt
      | Some n \<Rightarrow> if \<not> isSafeInteger n \<or> finite_value n < 0 then None else Some (nat_value n))"

definition throttle_values :: "(jsnum \<times> jsnum) option \<Rightarrow> (real \<times> real) option option" where
  "throttle_values t =
     (case t of
        None \<Rightarrow> Some None
      | Some (maxTokens, tokenRatio) \<Rightarrow>
          if list_all positive_finite [maxTokens, tokenRatio]
          then Some (Some (finite_value maxTokens, finite_value tokenRatio)) else None)"

definition new_RetryingTransport :: "retry_options \<Rightarrow> retrying_transport option" where
  "new_RetryingTransport opts =
     Option.bind (copy_optional (ro_policy opts)) (\<lambda>policy.
     Option.bind (copy_methods (ro_methods opts)) (\<lambda>methods.
     Option.bind (buffer_size (ro_bufferBytes opts) 4194304) (\<lambda>bufferBytes.
     Option.bind (buffer_size (ro_perRpcBufferBytes opts) 262144) (\<lambda>perRpc.
     Option.bind (throttle_values (ro_throttling opts)) (\<lambda>throttling.
       Some \<lparr>rt_policy = policy, rt_methods = methods, rt_perRpcBufferBytes = perRpc, rt_bufferBytes = bufferBytes,
             rt_throttling = throttling,
             rt_tokens = (case throttling of None \<Rightarrow> 0 | Some (maxTokens, _) \<Rightarrow> maxTokens)\<rparr>)))))"

text \<open>\<^verbatim>\<open>this.options.methods?.[key] ?? this.options.policy\<close>; \<open>None\<close> is \<^verbatim>\<open>false\<close> or \<^verbatim>\<open>undefined\<close>.\<close>

definition policy_for :: "retrying_transport \<Rightarrow> jsstring \<Rightarrow> retry_policy option" where
  "policy_for rt key = (case rt_methods rt key of Some p \<Rightarrow> p | None \<Rightarrow> rt_policy rt)"

subsection \<open>Errors\<close>

text \<open>A thrown value: the \<^verbatim>\<open>ConnectError\<close> if it is one, and what \<^verbatim>\<open>failures\<close> records about it.\<close>

record thrown =
  te_connect :: "connect_error option"
  te_info :: "(bool \<times> retry_evidence option) option"

fun exn_evidence :: "exn \<Rightarrow> retry_evidence option" where
  "exn_evidence (H2Exn e) = err_retry e"
| "exn_evidence _ = None"

text \<open>\<^verbatim>\<open>attemptError\<close>; \<open>str\<close> gives \<^verbatim>\<open>String(error)\<close>.\<close>

fun attemptError :: "(exn \<Rightarrow> jsstring) \<Rightarrow> connect_error + exn \<Rightarrow> bool \<Rightarrow> thrown" where
  "attemptError str (Inl ce) committed = \<lparr>te_connect = Some ce, te_info = Some (committed, None)\<rparr>"
| "attemptError str (Inr e) committed =
     \<lparr>te_connect = Some \<lparr>ce_code = Unavailable, ce_message = str e, ce_metadata = (\<lambda>_. None)\<rparr>,
      te_info = Some (committed, exn_evidence e)\<rparr>"

definition evidence :: "thrown \<Rightarrow> retry_evidence option" where
  "evidence e = Option.bind (te_info e) snd"

definition info_committed :: "thrown \<Rightarrow> bool" where
  "info_committed e = (case te_info e of None \<Rightarrow> False | Some (c, _) \<Rightarrow> c)"

definition retryable :: "retry_policy option \<Rightarrow> thrown \<Rightarrow> bool" where
  "retryable policy e =
     (case (policy, te_connect e) of
        (Some p, Some ce) \<Rightarrow> ce_code ce \<in> set (p_retryableStatusCodes p)
      | _ \<Rightarrow> False)"

subsection \<open>Throttling\<close>

definition success_tokens :: "(real \<times> real) option \<Rightarrow> real \<Rightarrow> real" where
  "success_tokens throttling tokens =
     (case throttling of None \<Rightarrow> tokens | Some (maxTokens, tokenRatio) \<Rightarrow> min maxTokens (tokens + tokenRatio))"

definition failure_tokens :: "(real \<times> real) option \<Rightarrow> retry_policy option \<Rightarrow> thrown \<Rightarrow> real \<Rightarrow> real" where
  "failure_tokens throttling policy e tokens =
     (if throttling \<noteq> None \<and> retryable policy e then max 0 (tokens - 1) else tokens)"

definition success :: "retrying_transport \<Rightarrow> retrying_transport" where
  "success rt = rt\<lparr>rt_tokens := success_tokens (rt_throttling rt) (rt_tokens rt)\<rparr>"

definition failure :: "retrying_transport \<Rightarrow> retry_policy option \<Rightarrow> thrown \<Rightarrow> retrying_transport" where
  "failure rt policy e = rt\<lparr>rt_tokens := failure_tokens (rt_throttling rt) policy e (rt_tokens rt)\<rparr>"

definition throttled :: "(real \<times> real) option \<Rightarrow> real \<Rightarrow> bool" where
  "throttled throttling tokens =
     (case throttling of None \<Rightarrow> False | Some (maxTokens, _) \<Rightarrow> tokens \<le> maxTokens / 2)"

subsection \<open>run\<close>

text \<open>The loop variables, and what one pass observes.\<close>

record run_state =
  s_previous :: nat
  s_refused :: bool
  s_retry :: bool
  s_backoff :: real

record turn =
  t_aborted_top :: bool
  t_now_select :: real
  t_select :: "thrown option"
  t_aborted_selected :: bool
  t_now_invoke :: real
  t_invoke :: "thrown option"
  t_aborted_catch :: bool
  t_committed :: bool
  t_tokens :: real
  t_random :: real
  t_now_pause :: real
  t_aborted_pause :: bool

text \<open>\<^verbatim>\<open>remaining()\<close>: an infinite deadline (\<open>None\<close>) never passes.\<close>

definition passed :: "real option \<Rightarrow> real \<Rightarrow> bool" where
  "passed deadline now = (case deadline of None \<Rightarrow> False | Some d \<Rightarrow> d - now \<le> 0)"

definition deadline_error :: thrown where
  "deadline_error = \<lparr>te_connect = Some (new_ConnectError ''Deadline exceeded'' DeadlineExceeded), te_info = None\<rparr>"

text \<open>The \<^verbatim>\<open>try\<close> block.\<close>

datatype attempt = Returned | SignalAborted | Raised thrown

definition try_attempt :: "real option \<Rightarrow> turn \<Rightarrow> attempt" where
  "try_attempt deadline t =
     (if passed deadline (t_now_select t) then Raised deadline_error
      else case t_select t of
             Some e \<Rightarrow> Raised e
           | None \<Rightarrow>
               if t_aborted_selected t then SignalAborted
               else if passed deadline (t_now_invoke t) then Raised deadline_error
               else (case t_invoke t of None \<Rightarrow> Returned | Some e \<Rightarrow> Raised e))"

text \<open>\<^verbatim>\<open>error.metadata.get("grpc-retry-pushback-ms")\<close> and its validation: absent, invalid or a number of
  milliseconds.\<close>

datatype pushback = NoPushback | BadPushback | Pushback nat

definition pushback_of :: "thrown \<Rightarrow> pushback" where
  "pushback_of e =
     (case Option.bind (te_connect e) (\<lambda>ce. ce_metadata ce (js ''grpc-retry-pushback-ms'')) of
        None \<Rightarrow> NoPushback
      | Some v \<Rightarrow>
          if v = [] \<or> \<not> list_all js_digit v \<or> decimal v > 2 ^ 53 - 1 then BadPushback
          else Pushback (nat (decimal v)))"

definition next_delay :: "retry_policy \<Rightarrow> run_state \<Rightarrow> turn \<Rightarrow> pushback \<Rightarrow> real \<times> real" where
  "next_delay p s t pb =
     (case pb of
        Pushback ms \<Rightarrow> (real ms, p_initialBackoffMs p)
      | _ \<Rightarrow> (s_backoff s * (0.8 + t_random t * 0.4),
              min (p_maxBackoffMs p) (s_backoff s * p_backoffMultiplier p)))"

definition bounded_delay :: "real option \<Rightarrow> real \<Rightarrow> real \<Rightarrow> real" where
  "bounded_delay deadline now delay =
     (case deadline of None \<Rightarrow> delay | Some d \<Rightarrow> min delay (max 0 (d - now)))"

datatype run_outcome = Return | ThrowAborted | Throw thrown

text \<open>The \<^verbatim>\<open>catch\<close> block: the end of the loop, or the next state with the delay of the pause before it.\<close>

definition catch_turn ::
  "retry_policy option \<Rightarrow> (real \<times> real) option \<Rightarrow> real option \<Rightarrow> run_state \<Rightarrow> turn \<Rightarrow> thrown \<Rightarrow>
   run_outcome + run_state \<times> real" where
  "catch_turn policy throttling deadline s t e =
     (let transparent = (evidence e = Some Unsent \<or> evidence e = Some Refused \<and> \<not> s_refused s);
          tokens = (if transparent then t_tokens t else failure_tokens throttling policy e (t_tokens t))
      in if t_committed t \<or> info_committed e then Inl (Throw e)
         else if transparent then
           (let s' = s\<lparr>s_refused := s_refused s \<or> evidence e = Some Refused, s_retry := True\<rparr>
            in if t_aborted_pause t then Inl ThrowAborted else Inr (s', 0))
         else case policy of
                None \<Rightarrow> Inl (Throw e)
              | Some p \<Rightarrow>
                  if \<not> retryable policy e then Inl (Throw e)
                  else if Suc (s_previous s) \<ge> p_maxAttempts p \<or> throttled throttling tokens then Inl (Throw e)
                  else case pushback_of e of
                         BadPushback \<Rightarrow> Inl (Throw e)
                       | pb \<Rightarrow>
                           (case next_delay p s t pb of (delay, backoff) \<Rightarrow>
                              if t_aborted_pause t then Inl ThrowAborted
                              else Inr (s\<lparr>s_previous := Suc (s_previous s), s_retry := True, s_backoff := backoff\<rparr>,
                                        bounded_delay deadline (t_now_pause t) delay)))"

definition run_turn ::
  "retry_policy option \<Rightarrow> (real \<times> real) option \<Rightarrow> real option \<Rightarrow> run_state \<Rightarrow> turn \<Rightarrow>
   run_outcome + run_state \<times> real" where
  "run_turn policy throttling deadline s t =
     (if t_aborted_top t then Inl ThrowAborted
      else case try_attempt deadline t of
             Returned \<Rightarrow> Inl Return
           | SignalAborted \<Rightarrow> Inl ThrowAborted
           | Raised e \<Rightarrow>
               if t_aborted_catch t then Inl ThrowAborted
               else catch_turn policy throttling deadline s t e)"

definition initial_state :: "retry_policy option \<Rightarrow> run_state" where
  "initial_state policy = \<lparr>s_previous = 0, s_refused = False, s_retry = False,
     s_backoff = (case policy of None \<Rightarrow> 0 | Some p \<Rightarrow> p_initialBackoffMs p)\<rparr>"

fun run_from ::
  "retry_policy option \<Rightarrow> (real \<times> real) option \<Rightarrow> real option \<Rightarrow> run_state \<Rightarrow> turn list \<Rightarrow> run_outcome + run_state" where
  "run_from policy throttling deadline s [] = Inr s"
| "run_from policy throttling deadline s (t # ts) =
     (case run_turn policy throttling deadline s t of
        Inl out \<Rightarrow> Inl out
      | Inr (s', _) \<Rightarrow> run_from policy throttling deadline s' ts)"

definition run ::
  "retrying_transport \<Rightarrow> jsstring \<Rightarrow> real option \<Rightarrow> turn list \<Rightarrow> run_outcome option" where
  "run rt key deadline ts =
     (case run_from (policy_for rt key) (rt_throttling rt) deadline (initial_state (policy_for rt key)) ts of
        Inl out \<Rightarrow> Some out
      | Inr _ \<Rightarrow> None)"

text \<open>The value of the header \<^verbatim>\<open>grpc-previous-rpc-attempts\<close> of an attempt.\<close>

definition attempts_header :: "run_state \<Rightarrow> nat option" where
  "attempts_header s = (if s_previous s \<noteq> 0 then Some (s_previous s) else None)"

subsection \<open>pause\<close>

text \<open>\<^verbatim>\<open>pause\<close>: a chain of timers of at most 2^31-1 ms. A tick observes the signal and the clock.\<close>

datatype pause_step = PauseReject | PauseResolve | PauseTimer real

definition pause_tick :: "real \<Rightarrow> bool \<Rightarrow> real \<Rightarrow> pause_step" where
  "pause_tick end_time aborted now =
     (if aborted then PauseReject
      else let remaining = end_time - now in
           if remaining > 0 then PauseTimer (min remaining 2147483647) else PauseResolve)"

definition pause_start :: "real \<Rightarrow> bool \<Rightarrow> pause_step" where
  "pause_start ms aborted = (if aborted then PauseReject else PauseTimer (min ms 2147483647))"

fun pause_run :: "real \<Rightarrow> pause_step \<Rightarrow> (bool \<times> real) list \<Rightarrow> pause_step" where
  "pause_run end_time (PauseTimer ms) ((aborted, now) # ticks) = pause_run end_time (pause_tick end_time aborted now) ticks"
| "pause_run end_time st ticks = st"

subsection \<open>Invariants\<close>

definition policy_ok :: "retry_policy \<Rightarrow> bool" where
  "policy_ok p \<longleftrightarrow> 2 \<le> p_maxAttempts p \<and> p_maxAttempts p \<le> 5 \<and> 0 < p_initialBackoffMs p \<and>
     p_initialBackoffMs p \<le> p_maxBackoffMs p \<and> 0 < p_backoffMultiplier p \<and>
     p_retryableStatusCodes p \<noteq> [] \<and> set (p_retryableStatusCodes p) \<subseteq> {1..16}"

definition rt_ok :: "retrying_transport \<Rightarrow> bool" where
  "rt_ok rt \<longleftrightarrow> pred_option policy_ok (rt_policy rt) \<and> (\<forall>v\<in>ran (rt_methods rt). pred_option policy_ok v) \<and>
     (case rt_throttling rt of None \<Rightarrow> rt_tokens rt = 0
      | Some (maxTokens, tokenRatio) \<Rightarrow> 0 < tokenRatio \<and> 0 \<le> rt_tokens rt \<and> rt_tokens rt \<le> maxTokens)"

lemma nat_value_ge: "isInteger v \<Longrightarrow> of_nat k \<le> finite_value v \<Longrightarrow> k \<le> nat_value v"
  unfolding nat_value_def by (simp add: le_nat_floor)

lemma nat_value_le: "finite_value v \<le> of_nat k \<Longrightarrow> nat_value v \<le> k"
  unfolding nat_value_def by (metis floor_mono floor_of_nat nat_int nat_mono)

lemma policyCopy_ok: "policyCopy q = Some p \<Longrightarrow> policy_ok p"
  using nat_value_ge [of "pi_maxAttempts q" 2] nat_value_le [of "pi_maxAttempts q" 5]
    nat_value_ge [of _ 1] nat_value_le [of _ 16]
  by (auto simp: policyCopy_def policy_ok_def positive_finite_def list_ex_iff not_less split: if_splits)

lemma copy_optional_ok: "copy_optional v = Some p \<Longrightarrow> pred_option policy_ok p"
  by (cases v) (auto simp: policyCopy_ok)

lemma copy_methods_ok: "copy_methods ms = Some m \<Longrightarrow> \<forall>v\<in>ran m. pred_option policy_ok v"
proof (induction ms arbitrary: m)
  case (Cons x ms)
  obtain key v where x: "x = (key, v)" by force
  with Cons.prems obtain v' m' where v: "copy_optional v = Some v'" "copy_methods ms = Some m'"
    and m: "m = (case m' key of None \<Rightarrow> m'(key \<mapsto> v') | Some _ \<Rightarrow> m')"
    by (auto split: option.splits)
  show ?case using Cons.IH [OF v(2)] copy_optional_ok [OF v(1)] by (auto simp: m split: option.splits)
qed simp

lemma new_rt_ok: "new_RetryingTransport opts = Some rt \<Longrightarrow> rt_ok rt"
  by (auto simp: new_RetryingTransport_def rt_ok_def Option.bind_eq_Some_conv throttle_values_def positive_finite_def
      copy_optional_ok copy_methods_ok split: option.splits prod.splits if_splits)

lemma success_ok: "rt_ok rt \<Longrightarrow> rt_ok (success rt)"
  by (auto simp: rt_ok_def success_def success_tokens_def split: option.splits)

lemma failure_ok: "rt_ok rt \<Longrightarrow> rt_ok (failure rt policy e)"
  by (auto simp: rt_ok_def failure_def failure_tokens_def split: option.splits)

lemma policy_for_ok: "rt_ok rt \<Longrightarrow> pred_option policy_ok (policy_for rt key)"
  by (auto simp: rt_ok_def policy_for_def ran_def split: option.splits)

subsection \<open>The loop\<close>

text \<open>Why the loop may go round again: the call is not committed, and the error is evidence that nothing was
  processed (\<^verbatim>\<open>unsent\<close>, or \<^verbatim>\<open>refused\<close> for the first time), or it carries a retryable code with
  attempts and tokens left.\<close>

definition justified ::
  "retry_policy option \<Rightarrow> (real \<times> real) option \<Rightarrow> run_state \<Rightarrow> turn \<Rightarrow> thrown \<Rightarrow> run_state \<Rightarrow> bool" where
  "justified policy throttling s t e s' \<longleftrightarrow>
     evidence e = Some Unsent \<and> s_previous s' = s_previous s \<and> s_refused s' = s_refused s \<or>
     evidence e = Some Refused \<and> \<not> s_refused s \<and> s_refused s' \<and> s_previous s' = s_previous s \<or>
     (\<exists>p. policy = Some p \<and> retryable policy e \<and> s_previous s' = Suc (s_previous s) \<and>
        s_previous s' < p_maxAttempts p \<and> s_refused s' = s_refused s \<and>
        \<not> throttled throttling (failure_tokens throttling policy e (t_tokens t)))"

lemma catch_turn_justified:
  assumes "catch_turn policy throttling deadline s t e = Inr (s', d)"
  shows "\<not> t_committed t \<and> \<not> info_committed e \<and> \<not> t_aborted_pause t \<and> s_retry s' \<and>
    justified policy throttling s t e s'"
  using assms by (auto simp: catch_turn_def justified_def Let_def split: if_splits option.splits pushback.splits prod.splits)

lemma run_turn_again:
  assumes "run_turn policy throttling deadline s t = Inr (s', d)"
  obtains e where "try_attempt deadline t = Raised e" "\<not> t_aborted_top t" "\<not> t_aborted_catch t"
    "catch_turn policy throttling deadline s t e = Inr (s', d)"
  using assms by (auto simp: run_turn_def split: if_splits attempt.splits)

lemma evidence_deadline [simp]: "evidence deadline_error = None"
  by (simp add: evidence_def deadline_error_def)

text \<open>The number of passes left when no attempt reports \<^verbatim>\<open>unsent\<close>.\<close>

definition passes_left :: "retry_policy option \<Rightarrow> run_state \<Rightarrow> nat" where
  "passes_left policy s =
     (case policy of None \<Rightarrow> 0 | Some p \<Rightarrow> p_maxAttempts p - 1 - s_previous s) + (if s_refused s then 0 else 1)"

definition never_unsent :: "turn \<Rightarrow> bool" where
  "never_unsent t \<longleftrightarrow> pred_option (\<lambda>e. evidence e \<noteq> Some Unsent) (t_select t) \<and>
     pred_option (\<lambda>e. evidence e \<noteq> Some Unsent) (t_invoke t)"

lemma raised_evidence: "never_unsent t \<Longrightarrow> try_attempt deadline t = Raised e \<Longrightarrow> evidence e \<noteq> Some Unsent"
  by (auto simp: try_attempt_def never_unsent_def split: if_splits option.splits)

lemma passes_left_decreases:
  assumes "run_turn policy throttling deadline s t = Inr (s', d)" "never_unsent t"
  shows "passes_left policy s' < passes_left policy s"
proof -
  obtain e where e: "try_attempt deadline t = Raised e" "catch_turn policy throttling deadline s t e = Inr (s', d)"
    by (rule run_turn_again [OF assms(1)])
  have "evidence e \<noteq> Some Unsent" using raised_evidence [OF assms(2) e(1)] .
  then show ?thesis using catch_turn_justified [OF e(2)]
    by (auto simp: justified_def passes_left_def split: option.splits)
qed

lemma run_from_ends:
  "list_all never_unsent ts \<Longrightarrow> passes_left policy s < length ts \<Longrightarrow>
   \<exists>out. run_from policy throttling deadline s ts = Inl out"
proof (induction ts arbitrary: s)
  case (Cons t ts)
  show ?case
  proof (cases "run_turn policy throttling deadline s t")
    case (Inr r)
    obtain s' d where r: "r = (s', d)" by force
    from passes_left_decreases [OF Inr [unfolded r]] Cons.prems have "passes_left policy s' < length ts" by simp
    with Cons.IH [of s'] Cons.prems Inr r show ?thesis by simp
  qed simp
qed simp

text \<open>What holds between two passes.\<close>

definition state_ok :: "retry_policy option \<Rightarrow> run_state \<Rightarrow> bool" where
  "state_ok policy s \<longleftrightarrow>
     (case policy of None \<Rightarrow> s_previous s = 0
      | Some p \<Rightarrow> s_previous s < p_maxAttempts p \<and> 0 < s_backoff s \<and> s_backoff s \<le> p_maxBackoffMs p)"

lemma catch_turn_state:
  assumes "pred_option policy_ok policy" "state_ok policy s" "catch_turn policy throttling deadline s t e = Inr (s', d)"
  shows "state_ok policy s'"
  using assms
  by (auto simp: catch_turn_def state_ok_def policy_ok_def next_delay_def Let_def
      split: if_splits option.splits pushback.splits prod.splits)

lemma initial_state_ok: "pred_option policy_ok policy \<Longrightarrow> state_ok policy (initial_state policy)"
  by (auto simp: state_ok_def initial_state_def policy_ok_def split: option.splits)

lemma run_from_state:
  "pred_option policy_ok policy \<Longrightarrow> state_ok policy s \<Longrightarrow> run_from policy throttling deadline s ts = Inr s' \<Longrightarrow>
   state_ok policy s'"
proof (induction ts arbitrary: s)
  case (Cons t ts)
  then obtain s1 d where s1: "run_turn policy throttling deadline s t = Inr (s1, d)"
    and rest: "run_from policy throttling deadline s1 ts = Inr s'"
    by (auto split: sum.splits prod.splits)
  obtain e where "catch_turn policy throttling deadline s t e = Inr (s1, d)" by (rule run_turn_again [OF s1])
  from catch_turn_state [OF Cons.prems(1,2) this] Cons.IH [OF Cons.prems(1) _ rest] show ?case by simp
qed simp

lemma catch_turn_delay:
  assumes "pred_option policy_ok policy" "state_ok policy s" "catch_turn policy throttling deadline s t e = Inr (s', d)"
    and "0 \<le> t_random t" "t_random t < 1"
  shows "0 \<le> d \<and> pred_option (\<lambda>dl. d \<le> max 0 (dl - t_now_pause t)) deadline \<and>
    (d \<le> (case policy of None \<Rightarrow> 0 | Some p \<Rightarrow> 1.2 * p_maxBackoffMs p) \<or> (\<exists>ms. pushback_of e = Pushback ms \<and> d \<le> real ms))"
proof (cases "evidence e = Some Unsent \<or> evidence e = Some Refused \<and> \<not> s_refused s")
  case True
  then have "d = 0" using assms(3) by (auto simp: catch_turn_def Let_def split: if_splits)
  then show ?thesis using assms(1) by (cases policy; cases deadline) (auto simp: policy_ok_def)
next
  case False
  then obtain p where p: "policy = Some p" and d: "d = bounded_delay deadline (t_now_pause t)
      (fst (next_delay p s t (pushback_of e)))" and pb: "pushback_of e \<noteq> BadPushback"
    using assms(3) by (auto simp: catch_turn_def Let_def split: if_splits option.splits pushback.splits prod.splits)
  have b: "0 < s_backoff s" "s_backoff s \<le> p_maxBackoffMs p" using assms(2) by (simp_all add: p state_ok_def)
  have j: "0 \<le> s_backoff s * (0.8 + t_random t * 0.4)" "s_backoff s * (0.8 + t_random t * 0.4) \<le> 1.2 * p_maxBackoffMs p"
    using b assms(4,5) mult_mono [of "s_backoff s" "p_maxBackoffMs p" "0.8 + t_random t * 0.4" "1.2"] by auto
  show ?thesis
  proof (cases "pushback_of e")
    case (Pushback ms)
    then show ?thesis by (cases deadline) (auto simp: d p next_delay_def bounded_delay_def)
  next
    case NoPushback
    then obtain x where x: "fst (next_delay p s t (pushback_of e)) = x" "0 \<le> x" "x \<le> 1.2 * p_maxBackoffMs p"
      using j by (simp add: next_delay_def)
    show ?thesis using x(2,3) unfolding d x(1) p by (cases deadline) (auto simp: bounded_delay_def min_def)
  qed (use pb in simp)
qed

lemma pause_run_timer:
  "pause_run end_time (PauseTimer ms) ticks = PauseTimer ms' \<Longrightarrow> ms \<le> 2147483647 \<Longrightarrow> ms' \<le> 2147483647"
proof (induction ticks arbitrary: ms)
  case (Cons tick ticks)
  then show ?case by (cases tick) (auto simp: pause_tick_def Let_def split: if_splits)
qed simp

lemma pause_run_resolves:
  "pause_run end_time (PauseTimer ms) ticks = PauseResolve \<Longrightarrow> \<exists>now\<in>snd ` set ticks. end_time \<le> now"
proof (induction ticks arbitrary: ms)
  case (Cons tick ticks)
  then show ?case by (cases tick) (auto simp: pause_tick_def Let_def split: if_splits)
qed simp

subsection \<open>Properties\<close>

text \<open>C35: A transport that is constructed is well formed and stays so: every policy it uses has 2 to 5 attempts,
  positive backoffs with the initial one at most the maximum, and status codes from 1 to 16; its
  token count stays between 0 and the maximum through every sequence of successes and failures.\<close>

theorem retrying_transport_well_formed:
  assumes "new_RetryingTransport opts = Some rt"
  shows "rt_ok (fold (\<lambda>r rt. case r of None \<Rightarrow> success rt | Some (policy, e) \<Rightarrow> failure rt policy e) rs rt)"
proof -
  have "rt_ok rt" by (rule new_rt_ok [OF assms])
  then show ?thesis
    by (induction rs arbitrary: rt) (auto simp: success_ok failure_ok split: option.splits)
qed

definition sample_options :: retry_options where
  "sample_options = \<lparr>ro_policy = Some \<lparr>pi_maxAttempts = Finite 3, pi_initialBackoffMs = Finite 100,
       pi_maxBackoffMs = Finite 1000, pi_backoffMultiplier = Finite 2, pi_retryableStatusCodes = [Finite 14]\<rparr>,
     ro_methods = [], ro_perRpcBufferBytes = None, ro_bufferBytes = None,
     ro_throttling = Some (Finite 10, Finite (1 / 10))\<rparr>"

definition sample_policy :: retry_policy where
  "sample_policy = \<lparr>p_maxAttempts = 3, p_initialBackoffMs = 100, p_maxBackoffMs = 1000, p_backoffMultiplier = 2,
     p_retryableStatusCodes = [14]\<rparr>"

definition sample_rt :: retrying_transport where
  "sample_rt = \<lparr>rt_policy = Some sample_policy, rt_methods = (\<lambda>_. None), rt_perRpcBufferBytes = 262144,
     rt_bufferBytes = 4194304, rt_throttling = Some (10, 1 / 10), rt_tokens = 10\<rparr>"

lemma sample_rt_new: "new_RetryingTransport sample_options = Some sample_rt"
  by (simp add: new_RetryingTransport_def sample_options_def sample_rt_def sample_policy_def policyCopy_def isInteger_def
      positive_finite_def buffer_size_def throttle_values_def nat_value_def)

text \<open>An attempt that fails with UNAVAILABLE and no retry evidence.\<close>

definition unavailable_turn :: turn where
  "unavailable_turn = \<lparr>t_aborted_top = False, t_now_select = 0, t_select = None, t_aborted_selected = False,
     t_now_invoke = 0,
     t_invoke = Some \<lparr>te_connect = Some (new_ConnectError ''down'' Unavailable), te_info = Some (False, None)\<rparr>,
     t_aborted_catch = False, t_committed = False, t_tokens = 10, t_random = 1 / 2, t_now_pause = 0,
     t_aborted_pause = False\<rparr>"

lemma sample_rt_ok: "rt_ok sample_rt"
  by (rule new_rt_ok [OF sample_rt_new])

lemma sample_policy_for: "policy_for sample_rt key = Some sample_policy"
  by (simp add: policy_for_def sample_rt_def)

lemma sample_turn:
  "run_turn (Some sample_policy) (rt_throttling sample_rt) None (initial_state (Some sample_policy)) unavailable_turn =
     Inr (\<lparr>s_previous = 1, s_refused = False, s_retry = True, s_backoff = 200\<rparr>, 100)"
  by (simp add: run_turn_def try_attempt_def unavailable_turn_def passed_def catch_turn_def evidence_def
      info_committed_def retryable_def initial_state_def sample_policy_def sample_rt_def new_ConnectError_def
      failure_tokens_def throttled_def pushback_of_def next_delay_def bounded_delay_def Let_def)

theorem retrying_transport_well_formed_witness: "rt_ok (success sample_rt)"
  using retrying_transport_well_formed [OF sample_rt_new, of "[None]"] by simp

text \<open>C27: The retry loop ends: unless attempts keep reporting that nothing was sent (where each new attempt waits
  for a connection), a call returns or throws after at most one pass more than its policy's attempts,
  two without a policy: configured retries are limited by the policy and a refused stream is retried
  transparently once.\<close>

theorem retry_loop_ends:
  assumes "rt_ok rt" and "list_all never_unsent ts"
    and "(case policy_for rt key of None \<Rightarrow> 2 | Some p \<Rightarrow> p_maxAttempts p + 1) \<le> length ts"
  shows "\<exists>out. run rt key deadline ts = Some out"
proof -
  have "passes_left (policy_for rt key) (initial_state (policy_for rt key)) < length ts"
    using assms(3) policy_for_ok [OF assms(1), of key]
    by (auto simp: passes_left_def initial_state_def policy_ok_def split: option.splits)
  from run_from_ends [OF assms(2) this, of "rt_throttling rt" deadline] show ?thesis by (auto simp: run_def)
qed

theorem retry_loop_ends_witness:
  "\<exists>out. run sample_rt (js ''/s/m'') None (replicate 4 unavailable_turn) = Some out"
  by (rule retry_loop_ends)
     (simp_all add: list_all_iff never_unsent_def unavailable_turn_def evidence_def sample_policy_for sample_rt_ok
        sample_policy_def)

text \<open>C2: Every further attempt is justified: after any history, the loop goes round again only if the attempt
  raised an error, the call was neither committed nor aborted, and the error is evidence that the
  request was not sent, or the call's first refusal, or it has a retryable status with attempts and
  throttling tokens left; the number of configured retries stays below the policy's attempts.\<close>

theorem retry_justified:
  assumes "rt_ok rt" and "policy = policy_for rt key"
    and "run_from policy (rt_throttling rt) deadline (initial_state policy) ts = Inr s"
    and "run_turn policy (rt_throttling rt) deadline s t = Inr (s', d)"
  shows "(\<exists>e. try_attempt deadline t = Raised e \<and> \<not> t_committed t \<and> \<not> info_committed e \<and>
            \<not> t_aborted_top t \<and> \<not> t_aborted_catch t \<and> \<not> t_aborted_pause t \<and>
            justified policy (rt_throttling rt) s t e s') \<and>
         s_previous s' < (case policy of None \<Rightarrow> 1 | Some p \<Rightarrow> p_maxAttempts p) \<and>
         (s_previous s' = 0 \<longleftrightarrow> attempts_header s' = None)"
proof -
  obtain e where e: "try_attempt deadline t = Raised e" "\<not> t_aborted_top t" "\<not> t_aborted_catch t"
    "catch_turn policy (rt_throttling rt) deadline s t e = Inr (s', d)"
    by (rule run_turn_again [OF assms(4)])
  have ok: "pred_option policy_ok policy" using policy_for_ok [OF assms(1)] assms(2) by simp
  have "state_ok policy s'"
    using catch_turn_state [OF ok run_from_state [OF ok initial_state_ok [OF ok] assms(3)] e(4)] .
  then show ?thesis using catch_turn_justified [OF e(4)] e
    by (auto simp: state_ok_def attempts_header_def split: option.splits)
qed

theorem retry_justified_witness:
  "\<exists>e. try_attempt None unavailable_turn = Raised e \<and> \<not> info_committed e \<and>
     justified (Some sample_policy) (rt_throttling sample_rt) (initial_state (Some sample_policy)) unavailable_turn e
       \<lparr>s_previous = 1, s_refused = False, s_retry = True, s_backoff = 200\<rparr>"
  using retry_justified [OF sample_rt_ok sample_policy_for [symmetric], of None "[]"] sample_turn by fastforce

text \<open>C34: Backoff is bounded: the delay before a further attempt is never negative, never reaches past the
  deadline, and without a server pushback is at most 1.2 times the policy's maximum backoff; the
  pause itself, however long, uses timers that fit in 31 bits and does not resolve early.\<close>

theorem retry_delay_bounds:
  assumes "rt_ok rt" and "policy = policy_for rt key"
    and "run_from policy (rt_throttling rt) deadline (initial_state policy) ts = Inr s"
    and "run_turn policy (rt_throttling rt) deadline s t = Inr (s', d)" and "0 \<le> t_random t" and "t_random t < 1"
  shows "0 \<le> d \<and> pred_option (\<lambda>dl. d \<le> max 0 (dl - t_now_pause t)) deadline \<and>
     (\<exists>e. try_attempt deadline t = Raised e \<and>
        (d \<le> (case policy of None \<Rightarrow> 0 | Some p \<Rightarrow> 1.2 * p_maxBackoffMs p) \<or>
         (\<exists>ms. pushback_of e = Pushback ms \<and> d \<le> real ms))) \<and>
     (case pause_run (t_now_pause t + d) (pause_start d False) ticks of
        PauseResolve \<Rightarrow> \<exists>now\<in>snd ` set ticks. t_now_pause t + d \<le> now
      | PauseTimer ms \<Rightarrow> ms \<le> 2147483647
      | PauseReject \<Rightarrow> True)"
proof -
  obtain e where e: "try_attempt deadline t = Raised e" "catch_turn policy (rt_throttling rt) deadline s t e = Inr (s', d)"
    by (rule run_turn_again [OF assms(4)])
  have ok: "pred_option policy_ok policy" using policy_for_ok [OF assms(1)] assms(2) by simp
  have "state_ok policy s" by (rule run_from_state [OF ok initial_state_ok [OF ok] assms(3)])
  from catch_turn_delay [OF ok this e(2) assms(5,6)] e(1) show ?thesis
    using pause_run_resolves [of "t_now_pause t + d" _ ticks] pause_run_timer [of "t_now_pause t + d" _ ticks]
    by (auto simp: pause_start_def split: pause_step.splits)
qed

theorem retry_delay_bounds_witness:
  "case run_turn (Some sample_policy) (rt_throttling sample_rt) None (initial_state (Some sample_policy)) unavailable_turn of
     Inr (_, d) \<Rightarrow> 0 \<le> d \<and> d \<le> 1.2 * p_maxBackoffMs sample_policy
   | Inl _ \<Rightarrow> False"
proof -
  have nb: "\<nexists>ms. pushback_of e = Pushback ms" if "try_attempt None unavailable_turn = Raised e" for e
    using that by (auto simp: try_attempt_def passed_def unavailable_turn_def pushback_of_def new_ConnectError_def)
  have "0 \<le> t_random unavailable_turn" "t_random unavailable_turn < 1" by (simp_all add: unavailable_turn_def)
  from retry_delay_bounds [OF sample_rt_ok sample_policy_for [symmetric] _ sample_turn this, of "[]"] nb
  show ?thesis unfolding sample_turn by auto
qed

end
