(* ===== verification/Numerals.thy ===== *)
theory Numerals
  imports H2_Stream
begin

text \<open>
  Decimal numerals: the text of a natural number, as \<^verbatim>\<open>String(n)\<close> and template strings print it, and the reading of
  digits by \<^verbatim>\<open>Number(text)\<close>; distinct string literals are distinct strings. A numeral without leading zeros is exactly the text of its value.
\<close>

subsection \<open>String literals\<close>

lemma unat_of_char: "unat (of_char c :: codeunit) = (of_char c :: nat)"
proof -
  have "(of_char c :: nat) mod 256 < 256" by simp
  then have "(of_char c :: nat) < 65536" using of_char_mod_256 [of c, where ?'a = nat] by linarith
  moreover have "(of_char c :: codeunit) = of_nat (of_char c)" by (rule of_nat_of_char [symmetric])
  ultimately show ?thesis by (simp add: unat_of_nat_codeunit)
qed

lemma js_inj: "js s = js t \<longleftrightarrow> s = t"
proof -
  have "inj (of_char :: char \<Rightarrow> codeunit)" by (rule injI) (metis unat_of_char of_char_eq_iff)
  then show ?thesis by (simp add: js_def inj_map_eq_map)
qed

subsection \<open>Decimal text\<close>

definition digit_unit :: "nat \<Rightarrow> codeunit" where
  "digit_unit n = of_nat (48 + n)"

fun nat_text :: "nat \<Rightarrow> jsstring" where
  "nat_text n = (if n < 10 then [digit_unit n] else nat_text (n div 10) @ [digit_unit (n mod 10)])"

declare nat_text.simps [simp del]

definition canonical_numeral :: "jsstring \<Rightarrow> bool" where
  "canonical_numeral k \<longleftrightarrow> k \<noteq> [] \<and> list_all js_digit k \<and> (hd k = 48 \<longrightarrow> tl k = [])"

lemma decimal_snoc: "decimal (ds @ [u]) = 10 * decimal ds + (int (unat u) - 48)"
  by (simp add: decimal_def)

lemma decimal_Nil: "decimal [] = 0"
  by (simp add: decimal_def)

lemma unat_digit_unit: "n < 10 \<Longrightarrow> unat (digit_unit n) = 48 + n"
  unfolding digit_unit_def by (subst unat_of_nat_codeunit) simp

lemma digit_unit_exists:
  assumes "js_digit u"
  obtains n where "n < 10" "u = digit_unit n"
proof
  show "unat u - 48 < 10" using assms by (auto simp: js_digit_def)
  then show "u = digit_unit (unat u - 48)" using assms by (simp add: digit_unit_def js_digit_def)
qed

lemma js_digit_unit: "n < 10 \<Longrightarrow> js_digit (digit_unit n)"
  by (simp add: js_digit_def unat_digit_unit)

lemma decimal_digit: "n < 10 \<Longrightarrow> decimal (ds @ [digit_unit n]) = 10 * decimal ds + int n"
  by (simp add: decimal_snoc unat_digit_unit del: of_nat_unat)

lemma decimal_single: "n < 10 \<Longrightarrow> decimal [digit_unit n] = int n"
  using decimal_digit [of n "[]"] by (simp add: decimal_Nil)

lemma decimal_nat_text: "decimal (nat_text n) = int n"
proof (induction n rule: nat_text.induct)
  case (1 n)
  have "10 * int (n div 10) + int (n mod 10) = int n" by presburger
  with 1 show ?case by (subst nat_text.simps) (simp add: decimal_digit decimal_single)
qed

lemma nat_text_digits: "list_all js_digit (nat_text n) \<and> nat_text n \<noteq> []"
proof (induction n rule: nat_text.induct)
  case (1 n)
  then show ?case by (subst (1 2) nat_text.simps) (simp add: js_digit_unit)
qed

lemma nat_text_hd: "0 < n \<Longrightarrow> hd (nat_text n) \<noteq> 48"
proof (induction n rule: nat_text.induct)
  case (1 n)
  have "digit_unit n \<noteq> 48" if "n < 10" using unat_digit_unit [OF that] "1.prems" by auto
  then show ?case using 1 nat_text_digits [of "n div 10"] by (subst nat_text.simps) auto
qed

lemma digit_unit_zero: "digit_unit 0 = 48"
  by (simp add: digit_unit_def)

lemma nat_text_canonical: "canonical_numeral (nat_text n)"
proof (cases "n = 0")
  case True
  then show ?thesis by (simp add: canonical_numeral_def nat_text.simps js_digit_unit)
next
  case False
  then show ?thesis using nat_text_digits [of n] nat_text_hd [of n] by (simp add: canonical_numeral_def)
qed

lemma decimal_nonneg: "list_all js_digit ds \<Longrightarrow> 0 \<le> decimal ds"
  by (induction ds rule: rev_induct) (auto simp: decimal_digit decimal_Nil elim!: digit_unit_exists)

text \<open>A canonical numeral is the text of its value.\<close>

lemma canonical_nat_text: "canonical_numeral ds \<Longrightarrow> nat_text (nat (decimal ds)) = ds"
proof (induction ds rule: rev_induct)
  case (snoc u ds)
  have u: "js_digit u" and ds: "list_all js_digit ds" using snoc.prems by (simp_all add: canonical_numeral_def)
  from u obtain v where v: "v < 10" "u = digit_unit v" by (rule digit_unit_exists)
  show ?case
  proof (cases "ds = []")
    case True
    then show ?thesis using v by (simp add: decimal_single nat_text.simps)
  next
    case False
    then have c: "canonical_numeral ds" "hd ds \<noteq> 48" using snoc.prems by (auto simp: canonical_numeral_def)
    obtain n where n: "decimal ds = int n" using decimal_nonneg [OF ds] nonneg_int_cases by blast
    have "n \<noteq> 0"
    proof
      assume "n = 0"
      then have "ds = [48]" using snoc.IH [OF c(1)] n by (simp add: nat_text.simps digit_unit_zero)
      with c(2) show False by simp
    qed
    have "nat (decimal (ds @ [u])) = 10 * n + v" using n v by (simp add: decimal_digit)
    then show ?thesis using snoc.IH [OF c(1)] n v \<open>n \<noteq> 0\<close> by (subst nat_text.simps) simp
  qed
qed (simp add: canonical_numeral_def)

lemma length_nat_text: "0 < k \<Longrightarrow> n < 10 ^ k \<Longrightarrow> length (nat_text n) \<le> k"
proof (induction k arbitrary: n)
  case (Suc k)
  show ?case
  proof (cases "n < 10")
    case True
    then show ?thesis by (simp add: nat_text.simps)
  next
    case False
    have k: "0 < k" using False Suc.prems(2) by (cases k) auto
    have "n div 10 < 10 ^ k" using Suc.prems(2) by (simp add: less_mult_imp_div_less mult.commute)
    from Suc.IH [OF k this] False show ?thesis by (subst nat_text.simps) simp
  qed
qed simp

end
