(* ===== verification/Json.thy ===== *)
theory Json
  imports Retry Numerals H2_Connection "HOL-Library.List_Lexorder"
begin

text \<open>
  \<^verbatim>\<open>sortJson\<close> and \<^verbatim>\<open>canonicalJson\<close> of \<^verbatim>\<open>web/src/contracts.ts\<close>.

  A \<open>jsvalue\<close> is a JavaScript value as \<^verbatim>\<open>sortJson\<close> distinguishes them; an object is the list of its own
  enumerable string-keyed properties. The result of \<^verbatim>\<open>sortJson\<close> is a \<open>json\<close>, the values that
  \<^verbatim>\<open>JSON.stringify\<close> prints losslessly. The text of a number is one item \<open>Numeral\<close>: that distinct numbers
  have distinct texts is the round-trip property of \<^verbatim>\<open>Number::toString\<close>. Everything else is spelled out in
  code units.

  The order of the properties of \<^verbatim>\<open>out\<close> is the language's: array indices first, in ascending order, then the
  other keys in the order of their creation; and assigning to the key \<^verbatim>\<open>__proto__\<close> creates no property.
\<close>

unbundle bit_operations_syntax

subsection \<open>Values\<close>

datatype jsvalue =
    JNull | JUndefined | JBool bool | JString jsstring | JNumber jsnum | JMinusZero
  | JArray "jsvalue list" | JObject "(jsstring \<times> jsvalue) list" | JOther

datatype json =
    Null | Boolean bool | Str jsstring | Num real | Arr "json list" | Obj "(jsstring \<times> json) list"

subsection \<open>Properties of a fresh object\<close>

definition proto_key :: jsstring where
  "proto_key = js ''__proto__''"

definition array_index :: "jsstring \<Rightarrow> bool" where
  "array_index k \<longleftrightarrow> canonical_numeral k \<and> decimal k < 2 ^ 32 - 1"

definition own_order :: "(jsstring \<times> 'a) list \<Rightarrow> (jsstring \<times> 'a) list" where
  "own_order kvs = sort_key (\<lambda>kv. decimal (fst kv)) (filter (\<lambda>kv. array_index (fst kv)) kvs) @
     filter (\<lambda>kv. \<not> array_index (fst kv)) kvs"

definition assign_all :: "(jsstring \<times> 'a) list \<Rightarrow> (jsstring \<times> 'a) list" where
  "assign_all kvs = own_order (filter (\<lambda>kv. fst kv \<noteq> proto_key) kvs)"

subsection \<open>Sorting\<close>

lemma size_member: "kv \<in> set kvs \<Longrightarrow> size (snd kv) < Suc (size_list (size_prod (\<lambda>_. 0) size) kvs)"
  by (induction kvs) auto

text \<open>\<open>None\<close> is the \<^verbatim>\<open>TypeError\<close>.\<close>

function sortJson :: "jsvalue \<Rightarrow> json option" where
  "sortJson JNull = Some Null"
| "sortJson (JString s) = Some (Str s)"
| "sortJson (JBool b) = Some (Boolean b)"
| "sortJson (JNumber n) = (case n of Finite r \<Rightarrow> Some (Num r) | _ \<Rightarrow> None)"
| "sortJson JMinusZero = Some (Str (js ''-0''))"
| "sortJson (JArray vs) = map_option Arr (those (map sortJson vs))"
| "sortJson JOther = None"
| "sortJson JUndefined = None"
| "sortJson (JObject source) =
     map_option (\<lambda>kvs. Obj (assign_all kvs))
       (those (map (\<lambda>kv. map_option (Pair (fst kv)) (sortJson (snd kv))) (sort_key fst source)))"
  by pat_completeness auto
termination
  by (relation "measure size") (auto simp: size_list_estimation' less_Suc_eq_le dest: size_member)

subsection \<open>Text\<close>

datatype text_item = Unit codeunit | Numeral real

definition escape_unit :: "codeunit \<Rightarrow> jsstring" where
  "escape_unit u = [92, 117, hex_digit (unat u div 4096), hex_digit (unat u div 256 mod 16),
     hex_digit (unat u div 16 mod 16), hex_digit (unat u mod 16)]"

definition quote_unit :: "codeunit \<Rightarrow> jsstring" where
  "quote_unit u =
     (if u = 8 then [92, 98] else if u = 9 then [92, 116] else if u = 10 then [92, 110]
      else if u = 12 then [92, 102] else if u = 13 then [92, 114]
      else if u = 34 then [92, 34] else if u = 92 then [92, 92]
      else if unat u < 32 \<or> is_high u \<or> is_low u then escape_unit u else [u])"

text \<open>A surrogate pair is kept; a lone surrogate is escaped.\<close>

fun quote_units :: "jsstring \<Rightarrow> jsstring" where
  "quote_units [] = []"
| "quote_units [u] = quote_unit u"
| "quote_units (u # v # us) =
     (if is_high u \<and> is_low v then u # v # quote_units us else quote_unit u @ quote_units (v # us))"

definition quote :: "jsstring \<Rightarrow> text_item list" where
  "quote s = map Unit (34 # quote_units s @ [34])"

fun stringify :: "json \<Rightarrow> text_item list"
  and stringify_elements :: "json list \<Rightarrow> text_item list"
  and stringify_members :: "(jsstring \<times> json) list \<Rightarrow> text_item list" where
  "stringify Null = map Unit (js ''null'')"
| "stringify (Boolean b) = map Unit (if b then js ''true'' else js ''false'')"
| "stringify (Str s) = quote s"
| "stringify (Num r) = [Numeral r]"
| "stringify (Arr vs) = Unit 91 # stringify_elements vs @ [Unit 93]"
| "stringify (Obj kvs) = Unit 123 # stringify_members kvs @ [Unit 125]"
| "stringify_elements [] = []"
| "stringify_elements (v # vs) = stringify v @ (if vs = [] then [] else Unit 44 # stringify_elements vs)"
| "stringify_members [] = []"
| "stringify_members ((k, v) # kvs) =
     quote k @ Unit 58 # stringify v @ (if kvs = [] then [] else Unit 44 # stringify_members kvs)"

definition canonicalJson :: "jsvalue \<Rightarrow> text_item list option" where
  "canonicalJson v = map_option stringify (sortJson v)"

subsection \<open>The text of a value determines the value\<close>

text \<open>Reading a quoted string back.\<close>

definition hexv :: "codeunit \<Rightarrow> nat" where
  "hexv u = (case hex_value u of Some n \<Rightarrow> n | None \<Rightarrow> 0)"

definition unescape :: "codeunit \<Rightarrow> codeunit" where
  "unescape d = (if d = 98 then 8 else if d = 116 then 9 else if d = 110 then 10 else if d = 102 then 12
     else if d = 114 then 13 else d)"

fun unquote :: "text_item list \<Rightarrow> (jsstring \<times> text_item list) option" where
  "unquote (Unit c # r) =
     (if c = 34 then Some ([], r)
      else if c \<noteq> 92 then map_option (apfst (Cons c)) (unquote r)
      else case r of
        Unit d # r1 \<Rightarrow>
          (if d \<noteq> 117 then map_option (apfst (Cons (unescape d))) (unquote r1)
           else case r1 of
             Unit x # Unit y # Unit z # Unit w # r2 \<Rightarrow>
               map_option (apfst (Cons (of_nat (4096 * hexv x + 256 * hexv y + 16 * hexv z + hexv w)))) (unquote r2)
           | _ \<Rightarrow> None)
      | _ \<Rightarrow> None)"
| "unquote _ = None"

lemma hexv_hex_digit: "n < 16 \<Longrightarrow> hexv (hex_digit n) = n"
  by (auto simp: hexv_def hex_value_def hex_digit_def unat_of_nat_codeunit Let_def)

lemma digits16: "4096 * (n div 4096) + 256 * (n div 256 mod 16) + 16 * (n div 16 mod 16) + n mod 16 = (n :: nat)"
proof -
  have "n div 16 = 16 * (n div 256) + n div 16 mod 16" "n div 256 = 16 * (n div 4096) + n div 256 mod 16"
    using mult_div_mod_eq [of 16 "n div 16"] mult_div_mod_eq [of 16 "n div 256"] by (simp_all add: div_mult2_eq [symmetric])
  then show ?thesis using mult_div_mod_eq [of 16 n] by linarith
qed

lemma unquote_escape: "unquote (map Unit (escape_unit u) @ r) = map_option (apfst (Cons u)) (unquote r)"
proof -
  have h: "unat u div 4096 < 16" using unat_codeunit_less [of u] by (intro less_mult_imp_div_less) simp
  show ?thesis using h digits16 [of "unat u"] by (simp add: escape_unit_def hexv_hex_digit add.assoc)
qed

lemma surrogate_large: "is_high u \<or> is_low u \<Longrightarrow> u \<noteq> 34 \<and> u \<noteq> 92"
  by (auto simp: is_high_def is_low_def)

lemma unquote_unit: "unquote (map Unit (quote_unit u) @ r) = map_option (apfst (Cons u)) (unquote r)"
proof (cases "u \<in> {8, 9, 10, 12, 13, 34, 92}")
  case True
  then show ?thesis by (auto simp: quote_unit_def unescape_def)
next
  case False
  then show ?thesis by (cases "unat u < 32 \<or> is_high u \<or> is_low u") (simp_all add: quote_unit_def unquote_escape)
qed

lemma unquote_plain: "c \<noteq> 34 \<Longrightarrow> c \<noteq> 92 \<Longrightarrow> unquote (Unit c # r) = map_option (apfst (Cons c)) (unquote r)"
  by simp

lemma unquote_end: "unquote (Unit 34 # r) = Some ([], r)"
  by simp

lemma unquote_units: "unquote (map Unit (quote_units s) @ Unit 34 # r) = Some (s, r)"
proof (induction s rule: quote_units.induct)
  case (3 u v us)
  show ?case
  proof (cases "is_high u \<and> is_low v")
    case True
    then show ?thesis using 3 surrogate_large [of u] surrogate_large [of v]
      by (simp add: unquote_plain del: unquote.simps)
  next
    case False
    then show ?thesis using 3(2) by (auto simp: unquote_unit simp del: unquote.simps)
  qed
qed (simp_all add: unquote_unit unquote_end del: unquote.simps)

lemma quote_units_inj:
  "map Unit (quote_units s) @ Unit 34 # r = map Unit (quote_units s') @ Unit 34 # r' \<Longrightarrow> s = s' \<and> r = r'"
  using unquote_units [of s r] unquote_units [of s' r'] by (metis option.inject prod.inject)

lemma quote_inj: "quote s @ r = quote s' @ r' \<Longrightarrow> s = s' \<and> r = r'"
  using quote_units_inj [of s r s' r'] by (simp add: quote_def)

text \<open>No value's text starts with a separator or a closing bracket, so texts are self-delimiting.\<close>

lemma stringify_start:
  "\<exists>x xs. stringify v = x # xs \<and> x \<notin> {Unit 93, Unit 125, Unit 44}"
  by (cases v) (auto simp: quote_def js_def)

lemma stringify_elements_start: "stringify_elements vs @ Unit 93 # r = Unit 93 # r' \<Longrightarrow> vs = []"
  using stringify_start [of "hd vs"] by (cases vs) auto

lemma stringify_members_start: "stringify_members kvs @ Unit 125 # r = Unit 125 # r' \<Longrightarrow> kvs = []"
  by (cases kvs) (auto simp: quote_def)

lemma stringify_Arr_iff: "Unit 91 # xs = stringify v @ r \<longleftrightarrow> (\<exists>vs. v = Arr vs \<and> xs = stringify_elements vs @ Unit 93 # r)"
  by (cases v) (auto simp: js_def quote_def)

lemma stringify_Obj_iff: "Unit 123 # xs = stringify v @ r \<longleftrightarrow> (\<exists>kvs. v = Obj kvs \<and> xs = stringify_members kvs @ Unit 125 # r)"
  by (cases v) (auto simp: js_def quote_def)

lemma separated_inj:
  "(if vs = [] then [] else Unit 44 # f vs) @ Unit c # r = (if ws = [] then [] else Unit 44 # f ws) @ Unit c # r' \<Longrightarrow>
   c \<noteq> 44 \<Longrightarrow> (vs = [] \<and> ws = [] \<and> r = r') \<or> (vs \<noteq> [] \<and> ws \<noteq> [] \<and> f vs @ Unit c # r = f ws @ Unit c # r')"
  by (auto split: if_splits)

lemma stringify_inj:
  "stringify v @ r = stringify v' @ r' \<Longrightarrow> v = v' \<and> r = r'"
  "stringify_elements vs @ Unit 93 # r = stringify_elements vs' @ Unit 93 # r' \<Longrightarrow> vs = vs' \<and> r = r'"
  "stringify_members kvs @ Unit 125 # r = stringify_members kvs' @ Unit 125 # r' \<Longrightarrow> kvs = kvs' \<and> r = r'"
proof (induction v and vs and kvs arbitrary: v' r r' and vs' r r' and kvs' r r'
    rule: stringify_stringify_elements_stringify_members.induct)
  case 1
  then show ?case by (cases v') (auto simp: js_def quote_def split: if_splits)
next
  case (2 b)
  then show ?case by (cases v') (auto simp: js_def quote_def split: if_splits)
next
  case (3 s)
  then show ?case by (cases v') (auto simp: js_def quote_def dest: quote_units_inj split: if_splits)
next
  case (4 n)
  then show ?case by (cases v') (auto simp: js_def quote_def split: if_splits)
next
  case (5 vs)
  from "5.prems" obtain vs' where "v' = Arr vs'" "stringify_elements vs @ Unit 93 # r = stringify_elements vs' @ Unit 93 # r'"
    using stringify_Arr_iff [of _ v' r'] by auto
  with "5.IH" show ?case by blast
next
  case (6 kvs)
  from "6.prems" obtain kvs' where "v' = Obj kvs'" "stringify_members kvs @ Unit 125 # r = stringify_members kvs' @ Unit 125 # r'"
    using stringify_Obj_iff [of _ v' r'] by auto
  with "6.IH" show ?case by blast
next
  case 7
  then show ?case using stringify_elements_start [of vs' r' r] by auto
next
  case (8 v vs)
  have "vs' \<noteq> []" using "8.prems" stringify_elements_start [of "v # vs" r r'] by auto
  then obtain w ws where vs': "vs' = w # ws" by (cases vs') auto
  from "8.prems" have "stringify v @ (if vs = [] then [] else Unit 44 # stringify_elements vs) @ Unit 93 # r =
      stringify w @ (if ws = [] then [] else Unit 44 # stringify_elements ws) @ Unit 93 # r'"
    by (simp only: vs' stringify_elements.simps append_assoc)
  from "8.IH"(1) [OF this] have v: "v = w"
    and t: "(if vs = [] then [] else Unit 44 # stringify_elements vs) @ Unit 93 # r =
      (if ws = [] then [] else Unit 44 # stringify_elements ws) @ Unit 93 # r'" by blast+
  from separated_inj [OF t] "8.IH"(2) [of r ws r'] v vs' show ?case by auto
next
  case 9
  then show ?case using stringify_members_start [of kvs' r' r] by auto
next
  case (10 k v kvs)
  have "kvs' \<noteq> []" using "10.prems" stringify_members_start [of "(k, v) # kvs" r r'] by auto
  then obtain k' v' ws where kvs': "kvs' = (k', v') # ws" by (cases kvs') auto
  from "10.prems" have "quote k @ Unit 58 # stringify v @ (if kvs = [] then [] else Unit 44 # stringify_members kvs) @ Unit 125 # r =
      quote k' @ Unit 58 # stringify v' @ (if ws = [] then [] else Unit 44 # stringify_members ws) @ Unit 125 # r'"
    by (simp only: kvs' stringify_members.simps append_assoc append_Cons)
  from quote_inj [OF this] have k: "k = k'"
    and s: "stringify v @ (if kvs = [] then [] else Unit 44 # stringify_members kvs) @ Unit 125 # r =
      stringify v' @ (if ws = [] then [] else Unit 44 # stringify_members ws) @ Unit 125 # r'" by simp_all
  from "10.IH"(1) [OF s] have v: "v = v'"
    and t: "(if kvs = [] then [] else Unit 44 # stringify_members kvs) @ Unit 125 # r =
      (if ws = [] then [] else Unit 44 # stringify_members ws) @ Unit 125 # r'" by blast+
  from separated_inj [OF t] "10.IH"(2) [of r ws r'] k v kvs' show ?case by auto
qed

lemma stringify_eq_iff: "stringify v = stringify w \<longleftrightarrow> v = w"
  using stringify_inj(1) [of v "[]" w "[]"] by auto

subsection \<open>Canonical text is a complete invariant of the data\<close>

text \<open>The data a value stands for: an object is the map of its properties, in no order.\<close>

datatype jdata =
  DNull | DBool bool | DString jsstring | DNumber real | DArray "jdata list" | DObject "jsstring \<rightharpoonup> jdata" | DInvalid

function data_of :: "jsvalue \<Rightarrow> jdata" where
  "data_of JNull = DNull"
| "data_of (JBool b) = DBool b"
| "data_of (JString s) = DString s"
| "data_of (JNumber n) = (case n of Finite r \<Rightarrow> DNumber r | _ \<Rightarrow> DInvalid)"
| "data_of JMinusZero = DString (js ''-0'')"
| "data_of (JArray vs) = DArray (map data_of vs)"
| "data_of (JObject kvs) =
     DObject (map_of (map (\<lambda>kv. (fst kv, data_of (snd kv))) (filter (\<lambda>kv. fst kv \<noteq> proto_key) kvs)))"
| "data_of JUndefined = DInvalid"
| "data_of JOther = DInvalid"
  by pat_completeness auto
termination
  by (relation "measure size") (auto simp: size_list_estimation' less_Suc_eq_le dest: size_member)

lemma size_json_member: "kv \<in> set kvs \<Longrightarrow> size (snd kv) < Suc (size_list (size_prod (\<lambda>_. 0) size) kvs)"
  by (induction kvs) auto

function denote :: "json \<Rightarrow> jdata" where
  "denote Null = DNull"
| "denote (Boolean b) = DBool b"
| "denote (Str s) = DString s"
| "denote (Num r) = DNumber r"
| "denote (Arr vs) = DArray (map denote vs)"
| "denote (Obj kvs) = DObject (map_of (map (\<lambda>kv. (fst kv, denote (snd kv))) kvs))"
  by pat_completeness auto
termination
  by (relation "measure size") (auto simp: size_list_estimation' less_Suc_eq_le dest: size_json_member)

text \<open>No object has a key twice.\<close>

fun js_wf :: "jsvalue \<Rightarrow> bool" where
  "js_wf (JArray vs) \<longleftrightarrow> list_all js_wf vs"
| "js_wf (JObject kvs) \<longleftrightarrow> distinct (map fst kvs) \<and> list_all (\<lambda>(k, v). js_wf v) kvs"
| "js_wf _ \<longleftrightarrow> True"

definition own_keys :: "jsstring list \<Rightarrow> jsstring list" where
  "own_keys ks = sort_key decimal (filter array_index ks) @ filter (\<lambda>k. \<not> array_index k) ks"

fun canonical :: "json \<Rightarrow> bool" where
  "canonical (Arr vs) \<longleftrightarrow> list_all canonical vs"
| "canonical (Obj kvs) \<longleftrightarrow> distinct (map fst kvs) \<and> map fst kvs = own_keys (sort (map fst kvs)) \<and>
     list_all (\<lambda>(k, v). canonical v) kvs"
| "canonical _ \<longleftrightarrow> True"

lemma map_fst_insort: "map fst (insort_key (\<lambda>kv. f (fst kv)) x xs) = insort_key f (fst x) (map fst xs)"
  by (induction xs) auto

lemma map_fst_sort: "map fst (sort_key (\<lambda>kv. f (fst kv)) kvs) = sort_key f (map fst kvs)"
  by (induction kvs) (simp_all add: map_fst_insort)

lemma map_fst_sort_fst: "map fst (sort_key fst kvs) = sort (map fst kvs)"
  using map_fst_sort [of "\<lambda>x. x" kvs] by simp

lemma map_fst_own_order: "map fst (own_order kvs) = own_keys (map fst kvs)"
  by (simp add: own_order_def own_keys_def map_fst_sort filter_map comp_def)

lemma set_own_order [simp]: "set (own_order kvs) = set kvs"
  by (auto simp: own_order_def)

lemma own_keys_set [simp]: "set (own_keys ks) = set ks"
  by (auto simp: own_keys_def)

lemma distinct_own_keys: "distinct ks \<Longrightarrow> distinct (own_keys ks)"
  by (auto simp: own_keys_def distinct_sort)

lemma sort_own_keys: "distinct ks \<Longrightarrow> sort (own_keys ks) = sort ks"
  by (rule sorted_distinct_set_unique) (simp_all add: distinct_own_keys distinct_sort)

lemma filter_sort_keys: "sort (filter P ks) = filter P (sort ks)"
  by (simp add: filter_sort)

lemma those_Some_iff: "those xs = Some ys \<longleftrightarrow> xs = map Some ys"
proof (induction xs arbitrary: ys)
  case (Cons x xs)
  then show ?case by (cases ys) (auto split: option.splits)
qed auto

lemma those_map: "those (map f xs) = Some ys \<longleftrightarrow> list_all2 (\<lambda>x y. f x = Some y) xs ys"
  by (auto simp: those_Some_iff list_all2_conv_all_nth list_eq_iff_nth_eq)

text \<open>What \<^verbatim>\<open>sortJson\<close> makes of the sorted properties.\<close>

lemma sort_members:
  assumes "list_all2 (\<lambda>kv kv'. map_option (Pair (fst kv)) (sortJson (snd kv)) = Some kv') (sort_key fst source) kvs"
  shows "map fst kvs = sort (map fst source)"
    and "list_all2 (\<lambda>kv kv'. fst kv' = fst kv \<and> sortJson (snd kv) = Some (snd kv')) (sort_key fst source) kvs"
proof -
  show l: "list_all2 (\<lambda>kv kv'. fst kv' = fst kv \<and> sortJson (snd kv) = Some (snd kv')) (sort_key fst source) kvs"
    using assms by (rule list_all2_mono) auto
  then have "map fst (sort_key fst source) = map fst kvs" by (induction rule: list_all2_induct) auto
  then show "map fst kvs = sort (map fst source)" by (simp add: map_fst_sort_fst)
qed

lemma assign_all_keys:
  assumes "map fst kvs = sort ks" "distinct ks"
  shows "distinct (map fst (assign_all kvs))" "map fst (assign_all kvs) = own_keys (sort (map fst (assign_all kvs)))"
proof -
  have k: "map fst (assign_all kvs) = own_keys (filter (\<lambda>k. k \<noteq> proto_key) (sort ks))"
    using assms(1) by (simp add: assign_all_def map_fst_own_order filter_map comp_def flip: assms(1))
  show "distinct (map fst (assign_all kvs))" unfolding k using assms(2) by (simp add: distinct_own_keys distinct_sort)
  have "sort (own_keys (filter (\<lambda>k. k \<noteq> proto_key) (sort ks))) = filter (\<lambda>k. k \<noteq> proto_key) (sort ks)"
    using assms(2) by (simp add: sort_own_keys distinct_sort filter_sort_keys sorted_sort_id)
  then show "map fst (assign_all kvs) = own_keys (sort (map fst (assign_all kvs)))" unfolding k by simp
qed

lemma image_filter_fst:
  "{x \<in> set (map (\<lambda>kv. (fst kv, f (snd kv))) kvs). fst x \<noteq> proto_key} = (\<lambda>kv. (fst kv, f (snd kv))) ` {kv \<in> set kvs. fst kv \<noteq> proto_key}"
  by auto

lemma assign_all_data:
  assumes "map (\<lambda>kv. (fst kv, f (snd kv))) kvs = map (\<lambda>kv. (fst kv, g (snd kv))) (sort_key fst source)"
    "distinct (map fst source)"
  shows "map_of (map (\<lambda>kv. (fst kv, f (snd kv))) (assign_all kvs)) =
    map_of (map (\<lambda>kv. (fst kv, g (snd kv))) (filter (\<lambda>kv. fst kv \<noteq> proto_key) source))"
proof -
  have keys: "map fst kvs = sort (map fst source)"
    using arg_cong [OF assms(1), of "map fst"] by (simp add: comp_def map_fst_sort_fst)
  have "(\<lambda>kv. (fst kv, f (snd kv))) ` {kv \<in> set kvs. fst kv \<noteq> proto_key} =
      (\<lambda>kv. (fst kv, g (snd kv))) ` {kv \<in> set source. fst kv \<noteq> proto_key}"
    using arg_cong [OF assms(1), of "\<lambda>xs. {x \<in> set xs. fst x \<noteq> proto_key}"] image_filter_fst [of f kvs]
      image_filter_fst [of g "sort_key fst source"] by simp
  then show ?thesis
    using assign_all_keys(1) [OF keys assms(2)] assms(2)
    by (subst map_of_inject_set) (auto simp: assign_all_def comp_def distinct_map_filter)
qed

lemma sortJson_canonical: "js_wf v \<Longrightarrow> sortJson v = Some c \<Longrightarrow> canonical c \<and> denote c = data_of v"
proof (induction v arbitrary: c rule: sortJson.induct)
  case (4 n)
  then show ?case by (auto split: jsnum.splits)
next
  case (6 vs)
  then obtain cs where c: "c = Arr cs" "list_all2 (\<lambda>v c. sortJson v = Some c) vs cs" by (auto simp: those_map)
  from c(2) "6.prems"(1) "6.IH" have "list_all canonical cs \<and> map denote cs = map data_of vs"
    by (induction rule: list_all2_induct) auto
  then show ?case by (simp add: c(1))
next
  case (9 source)
  then obtain kvs where c: "c = Obj (assign_all kvs)" and
    l: "list_all2 (\<lambda>kv kv'. map_option (Pair (fst kv)) (sortJson (snd kv)) = Some kv') (sort_key fst source) kvs"
    by (auto simp: those_map)
  have wf: "distinct (map fst source)" "\<forall>kv \<in> set source. js_wf (snd kv)"
    using "9.prems"(1) by (auto simp: list_all_iff split_beta)
  note keys = assign_all_keys [OF sort_members(1) [OF l] wf(1)]
  have "list_all (\<lambda>kv. canonical (snd kv)) kvs \<and>
      map (\<lambda>kv. (fst kv, denote (snd kv))) kvs = map (\<lambda>kv. (fst kv, data_of (snd kv))) (sort_key fst source)"
    if "\<forall>kv \<in> set (sort_key fst source). js_wf (snd kv)"
      "\<And>kv c. kv \<in> set (sort_key fst source) \<Longrightarrow> sortJson (snd kv) = Some c \<Longrightarrow> canonical c \<and> denote c = data_of (snd kv)"
    using sort_members(2) [OF l] that by (induction rule: list_all2_induct) auto
  with wf(2) "9.IH" have m: "list_all (\<lambda>kv. canonical (snd kv)) kvs"
    "map (\<lambda>kv. (fst kv, denote (snd kv))) kvs = map (\<lambda>kv. (fst kv, data_of (snd kv))) (sort_key fst source)" by auto
  show ?case using keys m(1) assign_all_data [OF m(2) wf(1)]
    by (auto simp: c list_all_iff split_beta) (auto simp: assign_all_def)
qed auto

text \<open>A canonical value is determined by its data.\<close>

lemma map_of_pointwise:
  assumes "distinct (map fst xs)" "map fst xs = map fst ys"
    "map_of (map (\<lambda>kv. (fst kv, f (snd kv))) xs) = map_of (map (\<lambda>kv. (fst kv, f (snd kv))) ys)" "i < length xs"
  shows "f (snd (xs ! i)) = f (snd (ys ! i))"
proof -
  have l: "length ys = length xs" using arg_cong [OF assms(2), of length] by simp
  have k: "fst (ys ! i) = fst (xs ! i)" using arg_cong [OF assms(2), of "\<lambda>l. l ! i"] assms(4) l by simp
  have at: "map_of (map (\<lambda>kv. (fst kv, f (snd kv))) zs) (fst (zs ! i)) = Some (f (snd (zs ! i)))"
    if "distinct (map fst zs)" "i < length zs" for zs
    using that by (intro map_of_is_SomeI) (auto simp: comp_def image_iff intro!: bexI [of _ "zs ! i"])
  show ?thesis using at [of xs] at [of ys] assms l k by simp
qed

lemma denote_inj: "canonical c \<Longrightarrow> canonical d \<Longrightarrow> denote c = denote d \<Longrightarrow> c = d"
proof (induction c arbitrary: d rule: denote.induct)
  case (5 vs)
  then obtain ws where d: "d = Arr ws" "map denote vs = map denote ws" by (cases d) auto
  have "vs ! i = ws ! i" if "i < length vs" for i
  proof -
    have "length ws = length vs" using arg_cong [OF d(2), of length] by simp
    moreover have "denote (vs ! i) = denote (ws ! i)"
      using arg_cong [OF d(2), of "\<lambda>l. l ! i"] that \<open>length ws = length vs\<close> by simp
    ultimately show ?thesis using "5.IH" [of "vs ! i" "ws ! i"] "5.prems" that by (auto simp: d(1) list_all_length)
  qed
  then show ?case using d arg_cong [OF d(2), of length] by (simp add: list_eq_iff_nth_eq)
next
  case (6 xs)
  then obtain ys where d: "d = Obj ys"
    "map_of (map (\<lambda>kv. (fst kv, denote (snd kv))) xs) = map_of (map (\<lambda>kv. (fst kv, denote (snd kv))) ys)"
    by (cases d) auto
  have ok: "distinct (map fst xs)" "distinct (map fst ys)" "map fst xs = own_keys (sort (map fst xs))"
    "map fst ys = own_keys (sort (map fst ys))"
    "\<forall>kv \<in> set xs. canonical (snd kv)" "\<forall>kv \<in> set ys. canonical (snd kv)"
    using "6.prems" by (auto simp: d(1) list_all_iff split_beta)
  have "set (map fst xs) = set (map fst ys)"
    using arg_cong [OF d(2), of dom] by (simp add: dom_map_of_conv_image_fst image_image)
  then have "sort (map fst xs) = sort (map fst ys)"
    using ok(1,2) by (intro sorted_distinct_set_unique) (auto simp: distinct_sort)
  then have k: "map fst xs = map fst ys" using ok(3,4) by simp
  have l: "length ys = length xs" using arg_cong [OF k, of length] by simp
  have "xs ! i = ys ! i" if i: "i < length xs" for i
  proof -
    have "snd (xs ! i) = snd (ys ! i)"
      using "6.IH" [of "xs ! i" "snd (ys ! i)"] map_of_pointwise [OF ok(1) k d(2) i] ok(5,6) i l by auto
    moreover have "fst (xs ! i) = fst (ys ! i)" using arg_cong [OF k, of "\<lambda>z. z ! i"] i l by simp
    ultimately show ?thesis by (rule prod_eqI [rotated])
  qed
  then show ?case using l d(1) by (simp add: list_eq_iff_nth_eq)
next
  case 1 then show ?case by (cases d) auto
next
  case (2 b) then show ?case by (cases d) auto
next
  case (3 s) then show ?case by (cases d) auto
next
  case (4 r) then show ?case by (cases d) auto
qed

lemma canonicalJson_data:
  assumes "js_wf v" "js_wf w" "canonicalJson v = Some s" "canonicalJson w = Some t"
  shows "s = t \<longleftrightarrow> data_of v = data_of w"
proof -
  from assms(3,4) obtain c d where c: "sortJson v = Some c" "s = stringify c" and d: "sortJson w = Some d" "t = stringify d"
    by (auto simp: canonicalJson_def)
  from sortJson_canonical [OF assms(1) c(1)] sortJson_canonical [OF assms(2) d(1)] denote_inj [of c d] show ?thesis
    by (auto simp: c(2) d(2) stringify_eq_iff)
qed

text \<open>JSON data always has a canonical text.\<close>

fun plain :: "jsvalue \<Rightarrow> bool" where
  "plain (JNumber n) \<longleftrightarrow> isFinite n"
| "plain (JArray vs) \<longleftrightarrow> list_all plain vs"
| "plain (JObject kvs) \<longleftrightarrow> list_all (\<lambda>(k, v). plain v) kvs"
| "plain JUndefined \<longleftrightarrow> False"
| "plain JOther \<longleftrightarrow> False"
| "plain _ \<longleftrightarrow> True"

lemma those_total: "(\<And>x. x \<in> set xs \<Longrightarrow> \<exists>y. f x = Some y) \<Longrightarrow> \<exists>ys. those (map f xs) = Some ys"
proof (induction xs)
  case (Cons x xs)
  then obtain y ys where "f x = Some y" "those (map f xs) = Some ys" by fastforce
  then show ?case by simp
qed simp

lemma sortJson_total: "plain v \<Longrightarrow> \<exists>c. sortJson v = Some c"
proof (induction v rule: sortJson.induct)
  case (6 vs)
  then have "\<exists>ys. those (map sortJson vs) = Some ys" by (intro those_total) (auto simp: list_all_iff)
  then show ?case by auto
next
  case (9 source)
  then have "\<exists>ys. those (map (\<lambda>kv. map_option (Pair (fst kv)) (sortJson (snd kv))) (sort_key fst source)) = Some ys"
    by (intro those_total) (fastforce simp: list_all_iff)
  then show ?case by auto
qed (auto split: jsnum.splits)

lemma canonicalJson_total: "plain v \<Longrightarrow> canonicalJson v \<noteq> None"
  using sortJson_total [of v] by (auto simp: canonicalJson_def)

end
