(* ===== verification/Contracts.thy ===== *)
theory Contracts
  imports Json
begin

text \<open>
  \<^verbatim>\<open>web/src/contracts.ts\<close>: the runtime graph of a service descriptor, its canonical form, and the checks of
  \<^verbatim>\<open>defineContract\<close>.

  Descriptors are objects of Protobuf-ES that refer to one another, possibly in cycles. They live in a
  \<open>store\<close>: a message or enum is its index there, and only the members the code reads are kept.
  \<^verbatim>\<open>visitMessage\<close> recurses along these references; \<open>visit\<close> carries fuel for the depth of the recursion,
  and one more than the number of messages in the store is proved to be enough.

  JavaScript compares strings by code units, which is the lexicographic order on lists of words, and
  \<^verbatim>\<open>Array.prototype.sort\<close> is stable, as is \<open>sort_key\<close>.
\<close>

subsection \<open>Descriptors\<close>

type_synonym message_id = nat
type_synonym enum_id = nat

datatype field_kind =
    ScalarField nat bool
  | MessageField message_id bool
  | EnumField enum_id
  | ListScalar nat bool bool
  | ListMessage message_id bool bool
  | ListEnum enum_id bool
  | MapScalar nat nat
  | MapMessage nat message_id
  | MapEnum nat enum_id

text \<open>The result of \<^verbatim>\<open>getDefaultValue()\<close>, by the type it has at run time.\<close>

datatype default_value =
  DefaultBool bool | DefaultString jsstring | DefaultBytes "byte list" | DefaultInteger int | DefaultNumber jsnum | DefaultMinusZero

record desc_field =
  df_number :: int
  df_name :: jsstring
  df_localName :: jsstring
  df_jsonName :: jsstring
  df_utf8Validation :: bool
  df_presence :: nat
  df_oneof :: "jsstring option"
  df_default :: "default_value option"
  df_kind :: field_kind

record desc_oneof =
  do_name :: jsstring
  do_localName :: jsstring
  do_fields :: "int list"

record desc_message =
  dm_typeName :: jsstring
  dm_fields :: "desc_field list"
  dm_oneofs :: "desc_oneof list"

record desc_enum_value =
  dv_number :: int
  dv_name :: jsstring
  dv_localName :: jsstring

record desc_enum =
  de_typeName :: jsstring
  de_open :: bool
  de_values :: "desc_enum_value list"

text \<open>Services and methods are also compared by identity, \<open>ds_id\<close> and \<open>dt_id\<close>; \<open>dt_parent\<close> is the identity of
  the service a method belongs to.\<close>

datatype method_kind = UnaryKind | ServerStreaming | ClientStreaming | BidiStreaming

record desc_method =
  dt_id :: nat
  dt_parent :: nat
  dt_name :: jsstring
  dt_localName :: jsstring
  dt_kind :: method_kind
  dt_input :: message_id
  dt_output :: message_id
  dt_idempotency :: nat

record desc_service =
  ds_id :: nat
  ds_typeName :: jsstring
  ds_methods :: "desc_method list"

record store =
  st_messages :: "desc_message list"
  st_enums :: "desc_enum list"

definition message :: "store \<Rightarrow> message_id \<Rightarrow> desc_message" where
  "message st m = st_messages st ! m"

definition enum_of :: "store \<Rightarrow> enum_id \<Rightarrow> desc_enum" where
  "enum_of st e = st_enums st ! e"

subsection \<open>The traversal\<close>

datatype type_ref = MessageRef message_id | EnumRef enum_id

fun kind_references :: "field_kind \<Rightarrow> type_ref list" where
  "kind_references (MessageField m _) = [MessageRef m]"
| "kind_references (EnumField e) = [EnumRef e]"
| "kind_references (ListMessage m _ _) = [MessageRef m]"
| "kind_references (ListEnum e _) = [EnumRef e]"
| "kind_references (MapMessage _ m) = [MessageRef m]"
| "kind_references (MapEnum _ e) = [EnumRef e]"
| "kind_references _ = []"

definition referencedTypes :: "desc_field \<Rightarrow> type_ref list" where
  "referencedTypes field = kind_references (df_kind field)"

text \<open>The two \<^verbatim>\<open>Map\<close>s, keyed by type name in insertion order; setting an existing key keeps its place.\<close>

type_synonym visited = "(jsstring \<times> message_id) list \<times> (jsstring \<times> enum_id) list"

fun map_set :: "('k \<times> 'v) list \<Rightarrow> 'k \<Rightarrow> 'v \<Rightarrow> ('k \<times> 'v) list" where
  "map_set [] k v = [(k, v)]"
| "map_set ((k', v') # xs) k v = (if k' = k then (k, v) # xs else (k', v') # map_set xs k v)"

text \<open>\<^verbatim>\<open>visitMessage\<close>, and its loop over the references of the fields of a message.\<close>

fun visit :: "nat \<Rightarrow> store \<Rightarrow> message_id \<Rightarrow> visited \<Rightarrow> visited option"
  and visit_refs :: "nat \<Rightarrow> store \<Rightarrow> type_ref list \<Rightarrow> visited \<Rightarrow> visited option" where
  "visit 0 st m v = None"
| "visit (Suc fuel) st m (ms, es) =
     (if dm_typeName (message st m) \<in> fst ` set ms then Some (ms, es)
      else visit_refs fuel st (concat (map referencedTypes (dm_fields (message st m))))
             (map_set ms (dm_typeName (message st m)) m, es))"
| "visit_refs fuel st [] v = Some v"
| "visit_refs fuel st (MessageRef m # rs) v = Option.bind (visit fuel st m v) (visit_refs fuel st rs)"
| "visit_refs fuel st (EnumRef e # rs) (ms, es) =
     visit_refs fuel st rs (ms, map_set es (de_typeName (enum_of st e)) e)"

fun visit_methods :: "nat \<Rightarrow> store \<Rightarrow> desc_method list \<Rightarrow> visited \<Rightarrow> visited option" where
  "visit_methods fuel st [] v = Some v"
| "visit_methods fuel st (mt # mts) v =
     Option.bind (visit fuel st (dt_input mt) v) (\<lambda>v1.
     Option.bind (visit fuel st (dt_output mt) v1) (visit_methods fuel st mts))"

definition collect :: "store \<Rightarrow> desc_service \<Rightarrow> visited option" where
  "collect st service = visit_methods (Suc (length (st_messages st))) st (ds_methods service) ([], [])"

subsection \<open>The traversal finds exactly what is reachable\<close>

definition refs_of :: "store \<Rightarrow> message_id \<Rightarrow> type_ref list" where
  "refs_of st m = concat (map referencedTypes (dm_fields (message st m)))"

definition refers :: "store \<Rightarrow> message_id \<Rightarrow> message_id \<Rightarrow> bool" where
  "refers st m m' \<longleftrightarrow> MessageRef m' \<in> set (refs_of st m)"

fun ref_ok :: "store \<Rightarrow> type_ref \<Rightarrow> bool" where
  "ref_ok st (MessageRef m) \<longleftrightarrow> m < length (st_messages st)"
| "ref_ok st (EnumRef e) \<longleftrightarrow> e < length (st_enums st)"

text \<open>References stay inside the store, and type names identify messages and enums.\<close>

definition store_ok :: "store \<Rightarrow> bool" where
  "store_ok st \<longleftrightarrow> (\<forall>m < length (st_messages st). list_all (ref_ok st) (refs_of st m)) \<and>
     distinct (map dm_typeName (st_messages st)) \<and> distinct (map de_typeName (st_enums st))"

definition ids :: "visited \<Rightarrow> message_id set" where
  "ids v = snd ` set (fst v)"

definition eids :: "visited \<Rightarrow> enum_id set" where
  "eids v = snd ` set (snd v)"

definition visited_ok :: "store \<Rightarrow> visited \<Rightarrow> bool" where
  "visited_ok st v \<longleftrightarrow> distinct (map fst (fst v)) \<and> distinct (map fst (snd v)) \<and>
     (\<forall>(n, m) \<in> set (fst v). m < length (st_messages st) \<and> dm_typeName (message st m) = n) \<and>
     (\<forall>(n, e) \<in> set (snd v). e < length (st_enums st) \<and> de_typeName (enum_of st e) = n)"

definition unvisited :: "store \<Rightarrow> visited \<Rightarrow> nat" where
  "unvisited st v = card ({..< length (st_messages st)} - ids v)"

lemma map_set_new: "k \<notin> fst ` set xs \<Longrightarrow> map_set xs k v = xs @ [(k, v)]"
  by (induction xs) auto

lemma set_map_set: "(\<And>v'. (k, v') \<in> set xs \<Longrightarrow> v' = v) \<Longrightarrow> set (map_set xs k v) = insert (k, v) (set xs)"
proof (induction xs)
  case (Cons x xs)
  obtain k' v' where x: "x = (k', v')" by force
  show ?case using Cons.IH Cons.prems by (cases "k' = k") (auto simp: x)
qed simp

lemma keys_map_set: "fst ` set (map_set xs k v) = insert k (fst ` set xs)"
  by (induction xs k v rule: map_set.induct) (auto simp: insert_commute)

lemma distinct_map_set: "distinct (map fst xs) \<Longrightarrow> distinct (map fst (map_set xs k v))"
proof (induction xs k v rule: map_set.induct)
  case (2 k' v' xs k v)
  then show ?case by (cases "k' = k") (simp_all add: keys_map_set)
qed simp

lemma visited_message:
  assumes "store_ok st" "visited_ok st (ms, es)" "m < length (st_messages st)"
  shows "dm_typeName (message st m) \<in> fst ` set ms \<longleftrightarrow> m \<in> ids (ms, es)"
proof
  assume "dm_typeName (message st m) \<in> fst ` set ms"
  then obtain m' where m': "(dm_typeName (message st m), m') \<in> set ms" by auto
  then have "m' < length (st_messages st)" "dm_typeName (message st m') = dm_typeName (message st m)"
    using assms(2) by (auto simp: visited_ok_def)
  then have "m' = m" using assms(1,3) by (auto simp: store_ok_def message_def distinct_conv_nth)
  with m' show "m \<in> ids (ms, es)" by (force simp: ids_def)
next
  assume "m \<in> ids (ms, es)"
  then show "dm_typeName (message st m) \<in> fst ` set ms" using assms(2) by (force simp: ids_def visited_ok_def)
qed

lemma visit_enum:
  assumes "store_ok st" "visited_ok st (ms, es)" "e < length (st_enums st)"
  shows "visited_ok st (ms, map_set es (de_typeName (enum_of st e)) e)"
    "eids (ms, map_set es (de_typeName (enum_of st e)) e) = insert e (eids (ms, es))"
proof -
  have same: "e' = e" if "(de_typeName (enum_of st e), e') \<in> set es" for e'
  proof -
    have "e' < length (st_enums st)" "de_typeName (enum_of st e') = de_typeName (enum_of st e)"
      using assms(2) that by (auto simp: visited_ok_def)
    then show ?thesis using assms(1,3) by (auto simp: store_ok_def enum_of_def distinct_conv_nth)
  qed
  have s: "set (map_set es (de_typeName (enum_of st e)) e) = insert (de_typeName (enum_of st e), e) (set es)"
    by (rule set_map_set) (rule same)
  show "visited_ok st (ms, map_set es (de_typeName (enum_of st e)) e)"
    using assms(2,3) s distinct_map_set by (auto simp: visited_ok_def)
  show "eids (ms, map_set es (de_typeName (enum_of st e)) e) = insert e (eids (ms, es))"
    using s by (auto simp: eids_def)
qed

text \<open>What a traversal adds to the messages \<open>I\<close> and enums \<open>E\<close>: messages reachable from where it started, each
  with all its references, and the enums that these refer to.\<close>

definition explores :: "store \<Rightarrow> type_ref set \<Rightarrow> message_id set \<Rightarrow> enum_id set \<Rightarrow> message_id set \<Rightarrow> enum_id set \<Rightarrow> bool" where
  "explores st rs I E I' E' \<longleftrightarrow> I \<subseteq> I' \<and> {m. MessageRef m \<in> rs} \<subseteq> I' \<and>
     (\<forall>x \<in> I' - I. {m. refers st x m} \<subseteq> I' \<and> (\<exists>m. MessageRef m \<in> rs \<and> (refers st)\<^sup>*\<^sup>* m x)) \<and>
     E' = E \<union> {e. EnumRef e \<in> rs} \<union> (\<Union>x \<in> I' - I. {e. EnumRef e \<in> set (refs_of st x)})"

lemma explores_mono: "explores st rs I E I' E' \<Longrightarrow> I \<subseteq> I'"
  by (simp add: explores_def)

lemma explores_refl: "{m. MessageRef m \<in> rs} \<subseteq> I \<Longrightarrow> {e. EnumRef e \<in> rs} \<subseteq> E \<Longrightarrow> explores st rs I E I E"
  by (auto simp: explores_def)

lemma explores_enum: "explores st {EnumRef e} I E I (insert e E)"
  by (auto simp: explores_def)

lemma explores_trans:
  assumes "explores st rs I E I1 E1" "explores st rs' I1 E1 I2 E2"
  shows "explores st (rs \<union> rs') I E I2 E2"
proof -
  have d: "I2 - I = (I1 - I) \<union> (I2 - I1)" using assms by (auto simp: explores_def)
  show ?thesis using assms unfolding explores_def d by (auto 0 4)
qed

lemma explores_visit:
  assumes "explores st (set (refs_of st m)) (insert m I) E I' E'" "m \<notin> I"
  shows "explores st {MessageRef m} I E I' E'"
proof -
  have d: "I' - I = insert m (I' - insert m I)" using assms by (auto simp: explores_def)
  have "(refers st)\<^sup>*\<^sup>* m x" if "x \<in> I' - insert m I" for x
  proof -
    have "\<exists>k. MessageRef k \<in> set (refs_of st m) \<and> (refers st)\<^sup>*\<^sup>* k x"
      using assms(1) that unfolding explores_def by blast
    then show ?thesis by (auto simp: refers_def intro: converse_rtranclp_into_rtranclp)
  qed
  then show ?thesis using assms unfolding explores_def d by (auto simp: refers_def)
qed

text \<open>Started on nothing, a traversal that only explores this way has found exactly the reachable types.\<close>

lemma explores_reachable:
  assumes "explores st (MessageRef ` R) {} {} I E"
  shows "I = {m. \<exists>r \<in> R. (refers st)\<^sup>*\<^sup>* r m}" "E = {e. \<exists>m \<in> I. EnumRef e \<in> set (refs_of st m)}"
proof -
  have closed: "m \<in> I" if "(refers st)\<^sup>*\<^sup>* r m" "r \<in> I" for r m
    using that by (induction rule: rtranclp_induct) (use assms in \<open>auto simp: explores_def\<close>)
  show "I = {m. \<exists>r \<in> R. (refers st)\<^sup>*\<^sup>* r m}"
  proof
    show "I \<subseteq> {m. \<exists>r \<in> R. (refers st)\<^sup>*\<^sup>* r m}" using assms unfolding explores_def by blast
    show "{m. \<exists>r \<in> R. (refers st)\<^sup>*\<^sup>* r m} \<subseteq> I" using assms closed unfolding explores_def by blast
  qed
  show "E = {e. \<exists>m \<in> I. EnumRef e \<in> set (refs_of st m)}" using assms unfolding explores_def by auto
qed

definition extends :: "store \<Rightarrow> type_ref set \<Rightarrow> visited \<Rightarrow> visited \<Rightarrow> bool" where
  "extends st rs v v' \<longleftrightarrow> visited_ok st v' \<and> explores st rs (ids v) (eids v) (ids v') (eids v')"

lemma extends_trans: "extends st rs v v1 \<Longrightarrow> extends st rs' v1 v2 \<Longrightarrow> extends st (rs \<union> rs') v v2"
  by (auto simp: extends_def intro: explores_trans)

lemma unvisited_mono: "ids v \<subseteq> ids v' \<Longrightarrow> unvisited st v' \<le> unvisited st v"
  unfolding unvisited_def by (intro card_mono) auto

lemma visit_new:
  assumes "store_ok st" "visited_ok st (ms, es)" "m < length (st_messages st)" "m \<notin> ids (ms, es)"
  defines "v1 \<equiv> (map_set ms (dm_typeName (message st m)) m, es)"
  shows "visited_ok st v1" "ids v1 = insert m (ids (ms, es))" "eids v1 = eids (ms, es)"
    "unvisited st v1 < unvisited st (ms, es)"
proof -
  have n: "dm_typeName (message st m) \<notin> fst ` set ms" using visited_message [OF assms(1-3)] assms(4) by simp
  show "visited_ok st v1" using assms(2,3) distinct_map_set [of ms] by (auto simp: v1_def visited_ok_def map_set_new [OF n] n)
  show i: "ids v1 = insert m (ids (ms, es))" by (auto simp: v1_def ids_def map_set_new [OF n])
  show "eids v1 = eids (ms, es)" by (simp add: v1_def eids_def)
  have "{..< length (st_messages st)} - ids v1 \<subset> {..< length (st_messages st)} - ids (ms, es)" using i assms(3,4) by auto
  then show "unvisited st v1 < unvisited st (ms, es)" unfolding unvisited_def by (intro psubset_card_mono) auto
qed

lemma extends_visit:
  "extends st (set (refs_of st m)) v1 v' \<Longrightarrow> ids v1 = insert m (ids v) \<Longrightarrow> eids v1 = eids v \<Longrightarrow> m \<notin> ids v \<Longrightarrow>
   extends st {MessageRef m} v v'"
  by (auto simp: extends_def intro: explores_visit)

lemma extends_refl: "visited_ok st v \<Longrightarrow> {m. MessageRef m \<in> rs} \<subseteq> ids v \<Longrightarrow> {e. EnumRef e \<in> rs} \<subseteq> eids v \<Longrightarrow> extends st rs v v"
  by (auto simp: extends_def intro: explores_refl)

lemma visit_extends:
  assumes "store_ok st"
  shows "visited_ok st v \<Longrightarrow> m < length (st_messages st) \<Longrightarrow> unvisited st v < fuel \<Longrightarrow>
           \<exists>v'. visit fuel st m v = Some v' \<and> extends st {MessageRef m} v v'"
    and "visited_ok st v \<Longrightarrow> list_all (ref_ok st) rs \<Longrightarrow> unvisited st v < fuel \<Longrightarrow>
           \<exists>v'. visit_refs fuel st rs v = Some v' \<and> extends st (set rs) v v'"
  using assms
proof (induction fuel st m v and fuel st rs v rule: visit_visit_refs.induct)
  case (1 st m v)
  then show ?case by simp
next
  case (2 fuel st m ms es)
  show ?case
  proof (cases "m \<in> ids (ms, es)")
    case True
    then show ?thesis using visited_message [OF "2.prems"(4,1,2)] "2.prems"(1) by (auto intro!: extends_refl)
  next
    case False
    note new = visit_new [OF "2.prems"(4,1,2) False]
    have n: "dm_typeName (message st m) \<notin> fst ` set ms" using visited_message [OF "2.prems"(4,1,2)] False by simp
    have "list_all (ref_ok st) (refs_of st m)" using "2.prems"(2,4) by (simp add: store_ok_def)
    with "2.IH" [OF n new(1)] new(4) "2.prems"(3,4) obtain v' where
      v': "visit_refs fuel st (refs_of st m) (map_set ms (dm_typeName (message st m)) m, es) = Some v'"
        "extends st (set (refs_of st m)) (map_set ms (dm_typeName (message st m)) m, es) v'"
      by (auto simp: refs_of_def)
    from extends_visit [OF v'(2) new(2,3) False] v'(1) n show ?thesis by (auto simp: refs_of_def)
  qed
next
  case (3 fuel st v)
  then show ?case by (auto intro: extends_refl)
next
  case (4 fuel st m rs v)
  then obtain v1 where v1: "visit fuel st m v = Some v1" "extends st {MessageRef m} v v1" by auto
  have "visited_ok st v1" "unvisited st v1 < fuel"
    using v1(2) unvisited_mono [of v v1 st] "4.prems"(3) by (auto simp: extends_def dest: explores_mono)
  with "4.IH"(2) [OF v1(1)] "4.prems" obtain v2 where "visit_refs fuel st rs v1 = Some v2" "extends st (set rs) v1 v2" by auto
  with v1 extends_trans [OF v1(2), of "set rs" v2] show ?case by auto
next
  case (5 fuel st e rs ms es)
  let ?v1 = "(ms, map_set es (de_typeName (enum_of st e)) e)"
  have e: "e < length (st_enums st)" using "5.prems"(2) by simp
  note ve = visit_enum [OF "5.prems"(4,1) e]
  have i: "ids ?v1 = ids (ms, es)" by (simp add: ids_def)
  have "unvisited st ?v1 < fuel" using "5.prems"(3) i by (simp add: unvisited_def)
  with "5.IH" [OF ve(1)] "5.prems" obtain v2 where v2: "visit_refs fuel st rs ?v1 = Some v2" "extends st (set rs) ?v1 v2" by auto
  have "extends st {EnumRef e} (ms, es) ?v1" using ve i by (auto simp: extends_def intro: explores_enum)
  from extends_trans [OF this v2(2)] v2(1) show ?case by auto
qed

definition roots :: "desc_service \<Rightarrow> message_id set" where
  "roots service = (\<Union>mt \<in> set (ds_methods service). {dt_input mt, dt_output mt})"

definition service_ok :: "store \<Rightarrow> desc_service \<Rightarrow> bool" where
  "service_ok st service \<longleftrightarrow> list_all (\<lambda>mt. dt_input mt < length (st_messages st) \<and> dt_output mt < length (st_messages st)) (ds_methods service)"

lemma visit_methods_extends:
  assumes "store_ok st" "visited_ok st v" "unvisited st v < fuel"
    "list_all (\<lambda>mt. dt_input mt < length (st_messages st) \<and> dt_output mt < length (st_messages st)) mts"
  shows "\<exists>v'. visit_methods fuel st mts v = Some v' \<and>
    extends st (MessageRef ` (\<Union>mt \<in> set mts. {dt_input mt, dt_output mt})) v v'"
  using assms(2-4)
proof (induction mts arbitrary: v)
  case Nil
  then show ?case by (auto intro: extends_refl)
next
  case (Cons mt mts)
  from Cons.prems visit_extends(1) [OF assms(1), of v "dt_input mt" fuel] obtain v1 where
    v1: "visit fuel st (dt_input mt) v = Some v1" "extends st {MessageRef (dt_input mt)} v v1" by auto
  have k1: "visited_ok st v1" "unvisited st v1 < fuel"
    using v1(2) unvisited_mono [of v v1 st] Cons.prems(2) by (auto simp: extends_def dest: explores_mono)
  from k1 Cons.prems visit_extends(1) [OF assms(1), of v1 "dt_output mt" fuel] obtain v2 where
    v2: "visit fuel st (dt_output mt) v1 = Some v2" "extends st {MessageRef (dt_output mt)} v1 v2" by auto
  have k2: "visited_ok st v2" "unvisited st v2 < fuel"
    using v2(2) unvisited_mono [of v1 v2 st] k1(2) by (auto simp: extends_def dest: explores_mono)
  from Cons.IH [OF k2] Cons.prems(3) obtain v' where
    v': "visit_methods fuel st mts v2 = Some v'"
      "extends st (MessageRef ` (\<Union>mt \<in> set mts. {dt_input mt, dt_output mt})) v2 v'" by auto
  from extends_trans [OF extends_trans [OF v1(2) v2(2)] v'(2)] v1(1) v2(1) v'(1) show ?case
    by (simp add: insert_commute Un_commute)
qed

lemma unvisited_empty: "unvisited st ([], []) < Suc (length (st_messages st))"
  by (simp add: unvisited_def ids_def)

text \<open>The graph's messages are those reachable from the methods, and its enums those the messages refer to.\<close>

lemma collect_reachable:
  assumes "store_ok st" "service_ok st service"
  shows "\<exists>v. collect st service = Some v \<and> visited_ok st v \<and>
    ids v = {m. \<exists>r \<in> roots service. (refers st)\<^sup>*\<^sup>* r m} \<and>
    eids v = {e. \<exists>m \<in> ids v. EnumRef e \<in> set (refs_of st m)}"
proof -
  have "visited_ok st ([], [])" by (simp add: visited_ok_def)
  from visit_methods_extends [OF assms(1) this unvisited_empty] assms(2) obtain v where
    v: "collect st service = Some v" "extends st (MessageRef ` roots service) ([], []) v"
    unfolding collect_def roots_def service_ok_def by blast
  have e: "ids ([], []) = {}" "eids ([], []) = {}" by (simp_all add: ids_def eids_def)
  from v(2) have "explores st (MessageRef ` roots service) {} {} (ids v) (eids v)" by (simp add: extends_def e)
  note explores_reachable [OF this]
  moreover have "visited_ok st v" using v(2) by (simp add: extends_def)
  ultimately show ?thesis using v(1) by blast
qed

end
