(* ===== verification/Contract_Graph.thy ===== *)
theory Contract_Graph
  imports Contracts
begin

text \<open>
  \<^verbatim>\<open>web/src/contracts.ts\<close>: the projection \<^verbatim>\<open>runtimeGraph\<close> of a service descriptor to plain data, the freezing of the
  descriptors, and \<^verbatim>\<open>defineContract\<close> with the registry of contract definitions.

  \<^verbatim>\<open>ScalarType\<close> belongs to Protobuf-ES; its numeric members are the parameter \<open>sc\<close>. \<^verbatim>\<open>getDefaultValue()\<close> gives a
  value of the field's type; the model's result for other combinations is immaterial. A \<^verbatim>\<open>TypeError\<close> while the
  graph is built is \<open>None\<close>.
\<close>

type_synonym scalar_enum = "(jsstring \<times> nat) list"

subsection \<open>Fields\<close>

definition js_obj :: "(string \<times> jsvalue) list \<Rightarrow> jsvalue" where
  "js_obj kvs = JObject (map (\<lambda>(k, v). (js k, v)) kvs)"

definition scalarNames :: "scalar_enum \<Rightarrow> nat \<rightharpoonup> jsstring" where
  "scalarNames sc = map_of (rev (map (\<lambda>(name, value). (value, name)) sc))"

definition scalarName :: "scalar_enum \<Rightarrow> nat \<Rightarrow> jsstring option" where
  "scalarName sc scalar_type = Option.bind (scalarNames sc scalar_type) (\<lambda>name. if name = [] then None else Some name)"

definition scalarShape :: "scalar_enum \<Rightarrow> nat \<Rightarrow> bool \<Rightarrow> jsvalue option" where
  "scalarShape sc scalar_type longAsString = map_option (\<lambda>name.
     js_obj [(''kind'', JString (js ''scalar'')), (''scalar'', JString name), (''longAsString'', JBool longAsString)])
     (scalarName sc scalar_type)"

definition messageShape :: "jsstring \<Rightarrow> bool \<Rightarrow> jsvalue" where
  "messageShape typeName delimitedEncoding =
     js_obj [(''kind'', JString (js ''message'')), (''typeName'', JString typeName),
       (''delimitedEncoding'', JBool delimitedEncoding)]"

definition enumShape :: "jsstring \<Rightarrow> jsvalue" where
  "enumShape typeName = js_obj [(''kind'', JString (js ''enum'')), (''typeName'', JString typeName)]"

definition message_name :: "store \<Rightarrow> message_id \<Rightarrow> jsstring" where
  "message_name st m = dm_typeName (message st m)"

definition enum_name :: "store \<Rightarrow> enum_id \<Rightarrow> jsstring" where
  "enum_name st e = de_typeName (enum_of st e)"

text \<open>\<^verbatim>\<open>listElementShape\<close> and \<^verbatim>\<open>mapValueShape\<close>, on the kinds they are called with.\<close>

fun listElementShape :: "scalar_enum \<Rightarrow> store \<Rightarrow> field_kind \<Rightarrow> jsvalue option" where
  "listElementShape sc st (ListScalar scalar_type longAsString _) = scalarShape sc scalar_type longAsString"
| "listElementShape sc st (ListMessage m delimited _) = Some (messageShape (message_name st m) delimited)"
| "listElementShape sc st (ListEnum e _) = Some (enumShape (enum_name st e))"
| "listElementShape sc st _ = Some JUndefined"

fun mapValueShape :: "scalar_enum \<Rightarrow> store \<Rightarrow> field_kind \<Rightarrow> jsvalue option" where
  "mapValueShape sc st (MapScalar _ scalar_type) = scalarShape sc scalar_type False"
| "mapValueShape sc st (MapMessage _ m) = Some (messageShape (message_name st m) False)"
| "mapValueShape sc st (MapEnum _ e) = Some (enumShape (enum_name st e))"
| "mapValueShape sc st _ = Some JUndefined"

definition listShape :: "jsvalue \<Rightarrow> bool \<Rightarrow> jsvalue" where
  "listShape element packed = js_obj [(''kind'', JString (js ''list'')), (''element'', element), (''packed'', JBool packed)]"

definition mapShape :: "jsstring \<Rightarrow> jsvalue \<Rightarrow> jsvalue" where
  "mapShape keyScalar value = js_obj [(''kind'', JString (js ''map'')), (''keyScalar'', JString keyScalar),
     (''value'', value), (''delimitedEncoding'', JBool False)]"

definition list_shape :: "scalar_enum \<Rightarrow> store \<Rightarrow> field_kind \<Rightarrow> bool \<Rightarrow> jsvalue option" where
  "list_shape sc st k packed = map_option (\<lambda>element. listShape element packed) (listElementShape sc st k)"

definition map_shape :: "scalar_enum \<Rightarrow> store \<Rightarrow> field_kind \<Rightarrow> nat \<Rightarrow> jsvalue option" where
  "map_shape sc st k mapKey = Option.bind (scalarName sc mapKey) (\<lambda>keyScalar.
     map_option (mapShape keyScalar) (mapValueShape sc st k))"

fun field_shape :: "scalar_enum \<Rightarrow> store \<Rightarrow> field_kind \<Rightarrow> jsvalue option" where
  "field_shape sc st (ScalarField scalar_type longAsString) = scalarShape sc scalar_type longAsString"
| "field_shape sc st (MessageField m delimited) = Some (messageShape (message_name st m) delimited)"
| "field_shape sc st (EnumField e) = Some (enumShape (enum_name st e))"
| "field_shape sc st (ListScalar s l packed) = list_shape sc st (ListScalar s l packed) packed"
| "field_shape sc st (ListMessage m d packed) = list_shape sc st (ListMessage m d packed) packed"
| "field_shape sc st (ListEnum e packed) = list_shape sc st (ListEnum e packed) packed"
| "field_shape sc st (MapScalar key s) = map_shape sc st (MapScalar key s) key"
| "field_shape sc st (MapMessage key m) = map_shape sc st (MapMessage key m) key"
| "field_shape sc st (MapEnum key e) = map_shape sc st (MapEnum key e) key"

definition presenceName :: "nat \<Rightarrow> jsstring option" where
  "presenceName presence =
     (if presence = 0 then Some (js ''FIELD_PRESENCE_UNKNOWN'') else if presence = 1 then Some (js ''EXPLICIT'')
      else if presence = 2 then Some (js ''IMPLICIT'') else if presence = 3 then Some (js ''LEGACY_REQUIRED'') else None)"

subsection \<open>Defaults\<close>

definition int_text :: "int \<Rightarrow> jsstring" where
  "int_text i = (if i < 0 then 45 # nat_text (nat (- i)) else nat_text (nat i))"

fun js_String :: "default_value \<Rightarrow> jsstring" where
  "js_String (DefaultBool b) = js (if b then ''true'' else ''false'')"
| "js_String (DefaultString s) = s"
| "js_String (DefaultInteger i) = int_text i"
| "js_String DefaultMinusZero = js ''0''"
| "js_String _ = []"

fun default_js :: "default_value \<Rightarrow> jsvalue" where
  "default_js (DefaultBool b) = JBool b"
| "default_js (DefaultString s) = JString s"
| "default_js (DefaultInteger i) = JNumber (Finite (of_int i))"
| "default_js (DefaultNumber n) = JNumber n"
| "default_js DefaultMinusZero = JMinusZero"
| "default_js (DefaultBytes bs) = JOther"

fun default_number :: "default_value \<Rightarrow> jsvalue" where
  "default_number (DefaultNumber NaN) = JString (js ''NaN'')"
| "default_number (DefaultNumber (Infinite neg)) = JString (js (if neg then ''-Infinity'' else ''Infinity''))"
| "default_number DefaultMinusZero = JString (js ''-0'')"
| "default_number v = default_js v"

text \<open>\<^verbatim>\<open>btoa\<close> on the string whose code units are the bytes.\<close>

definition base64_digit :: "nat \<Rightarrow> codeunit" where
  "base64_digit n = (if n < 26 then of_nat (65 + n) else if n < 52 then of_nat (71 + n)
     else if n < 62 then of_nat (n - 4) else if n = 62 then 43 else 47)"

fun btoa :: "byte list \<Rightarrow> jsstring" where
  "btoa [] = []"
| "btoa [x] = [base64_digit (unat x div 4), base64_digit (unat x mod 4 * 16), 61, 61]"
| "btoa [x, y] = [base64_digit (unat x div 4), base64_digit (unat x mod 4 * 16 + unat y div 16),
     base64_digit (unat y mod 16 * 4), 61]"
| "btoa (x # y # z # bs) = [base64_digit (unat x div 4), base64_digit (unat x mod 4 * 16 + unat y div 16),
     base64_digit (unat y mod 16 * 4 + unat z div 64), base64_digit (unat z mod 64)] @ btoa bs"

text \<open>The bytes are appended to \<^verbatim>\<open>binary\<close> in chunks.\<close>

function binary_chunks :: "byte list \<Rightarrow> byte list" where
  "binary_chunks bs = (if bs = [] then [] else take 32768 bs @ binary_chunks (drop 32768 bs))"
  by auto
termination by (relation "measure length") auto

declare binary_chunks.simps [simp del]

definition bytesToBase64 :: "byte list \<Rightarrow> jsstring" where
  "bytesToBase64 bs = btoa (binary_chunks bs)"

fun default_bytes :: "default_value \<Rightarrow> byte list" where
  "default_bytes (DefaultBytes bs) = bs"
| "default_bytes _ = []"

definition tagged :: "string \<Rightarrow> jsvalue \<Rightarrow> jsvalue" where
  "tagged t v = js_obj [(''type'', JString (js t)), (''value'', v)]"

definition scalar_default :: "scalar_enum \<Rightarrow> nat \<Rightarrow> default_value \<Rightarrow> jsvalue" where
  "scalar_default sc scalar_type value =
     (let is = (\<lambda>name. map_of sc (js name) = Some scalar_type) in
      if is ''BOOL'' then tagged ''bool'' (default_js value)
      else if is ''STRING'' then tagged ''string'' (default_js value)
      else if is ''BYTES'' then tagged ''bytes'' (JString (bytesToBase64 (default_bytes value)))
      else if is ''INT64'' \<or> is ''UINT64'' \<or> is ''SINT64'' \<or> is ''FIXED64'' \<or> is ''SFIXED64'' then
        tagged ''integer'' (JString (js_String value))
      else if is ''FLOAT'' \<or> is ''DOUBLE'' then tagged ''number'' (default_number value)
      else tagged ''integer'' (JString (js_String value)))"

definition fieldDefault :: "scalar_enum \<Rightarrow> desc_field \<Rightarrow> jsvalue" where
  "fieldDefault sc field =
     (case (df_kind field, df_default field) of
        (EnumField _, Some v) \<Rightarrow> tagged ''enum'' (default_js v)
      | (ScalarField scalar_type _, Some v) \<Rightarrow> scalar_default sc scalar_type v
      | _ \<Rightarrow> JNull)"

definition js_int :: "int \<Rightarrow> jsvalue" where
  "js_int i = JNumber (Finite (of_int i))"

definition fieldGraph :: "scalar_enum \<Rightarrow> store \<Rightarrow> desc_field \<Rightarrow> jsvalue option" where
  "fieldGraph sc st field =
     Option.bind (field_shape sc st (df_kind field)) (\<lambda>shape.
     Option.bind (presenceName (df_presence field)) (\<lambda>presence.
     Some (js_obj [
       (''number'', js_int (df_number field)),
       (''name'', JString (df_name field)),
       (''localName'', JString (df_localName field)),
       (''jsonName'', JString (df_jsonName field)),
       (''utf8Validation'', JBool (df_utf8Validation field)),
       (''presence'', JString presence),
       (''oneof'', case df_oneof field of Some name \<Rightarrow> JString name | None \<Rightarrow> JNull),
       (''default'', fieldDefault sc field),
       (''shape'', shape)])))"

subsection \<open>The graph\<close>

fun kind_text :: "method_kind \<Rightarrow> string" where
  "kind_text UnaryKind = ''unary''"
| "kind_text ServerStreaming = ''server_streaming''"
| "kind_text ClientStreaming = ''client_streaming''"
| "kind_text BidiStreaming = ''bidi_streaming''"

definition method_graph :: "store \<Rightarrow> desc_method \<Rightarrow> jsvalue" where
  "method_graph st mt = js_obj [
     (''name'', JString (dt_name mt)),
     (''localName'', JString (dt_localName mt)),
     (''kind'', JString (js (kind_text (dt_kind mt)))),
     (''input'', JString (message_name st (dt_input mt))),
     (''output'', JString (message_name st (dt_output mt))),
     (''idempotency'', js_int (int (dt_idempotency mt)))]"

definition oneof_graph :: "desc_oneof \<Rightarrow> jsvalue" where
  "oneof_graph oneof = js_obj [
     (''name'', JString (do_name oneof)),
     (''localName'', JString (do_localName oneof)),
     (''fields'', JArray (map js_int (sort (do_fields oneof))))]"

definition message_graph :: "scalar_enum \<Rightarrow> store \<Rightarrow> message_id \<Rightarrow> jsvalue option" where
  "message_graph sc st m =
     map_option (\<lambda>fields. js_obj [
       (''typeName'', JString (message_name st m)),
       (''fields'', JArray fields),
       (''oneofs'', JArray (map oneof_graph (sort_key do_name (dm_oneofs (message st m)))))])
     (those (map (fieldGraph sc st) (sort_key df_number (dm_fields (message st m)))))"

definition alias_graph :: "desc_enum_value \<Rightarrow> jsvalue" where
  "alias_graph v = js_obj [(''name'', JString (dv_name v)), (''localName'', JString (dv_localName v))]"

text \<open>The aliases of each number, numbers in the order of their first declaration.\<close>

definition group_value :: "desc_enum_value \<Rightarrow> (int \<times> jsvalue list) list \<Rightarrow> (int \<times> jsvalue list) list" where
  "group_value v grouped = map_set grouped (dv_number v)
     ((case map_of grouped (dv_number v) of Some aliases \<Rightarrow> aliases | None \<Rightarrow> []) @ [alias_graph v])"

definition grouped_values :: "desc_enum_value list \<Rightarrow> (int \<times> jsvalue list) list" where
  "grouped_values vs = fold group_value vs []"

definition enum_graph :: "store \<Rightarrow> enum_id \<Rightarrow> jsvalue" where
  "enum_graph st e =
     (let vs = de_values (enum_of st e) in
      js_obj [
       (''typeName'', JString (enum_name st e)),
       (''open'', JBool (de_open (enum_of st e))),
       (''defaultName'', JString (case vs of [] \<Rightarrow> [] | v # _ \<Rightarrow> dv_name v)),
       (''defaultNumber'', js_int (case vs of [] \<Rightarrow> 0 | v # _ \<Rightarrow> dv_number v)),
       (''values'', JArray (map (\<lambda>(number, aliases). js_obj [(''number'', js_int number), (''aliases'', JArray aliases)])
          (sort_key fst (grouped_values vs))))])"

definition graph_of :: "scalar_enum \<Rightarrow> store \<Rightarrow> desc_service \<Rightarrow> message_id list \<Rightarrow> enum_id list \<Rightarrow> jsvalue option" where
  "graph_of sc st service ms es =
     map_option (\<lambda>messages. js_obj [
       (''format'', JString (js ''protobuf-es.runtime-graph.v1'')),
       (''service'', js_obj [
          (''typeName'', JString (ds_typeName service)),
          (''methods'', JArray (map (method_graph st) (sort_key dt_name (ds_methods service))))]),
       (''messages'', JArray messages),
       (''enums'', JArray (map (enum_graph st) es))])
     (those (map (message_graph sc st) ms))"

definition runtimeGraph :: "scalar_enum \<Rightarrow> store \<Rightarrow> desc_service \<Rightarrow> jsvalue option" where
  "runtimeGraph sc st service =
     Option.bind (collect st service) (\<lambda>(messages, enums).
       graph_of sc st service (sort_key (message_name st) (map snd messages)) (sort_key (enum_name st) (map snd enums)))"

subsection \<open>Freezing\<close>

text \<open>The objects that are frozen: the parts of the service, of each message and of each enum.\<close>

datatype frozen =
    ServiceMethods | ServiceMethodTable | ServiceItself | MethodItself nat
  | FieldProto message_id nat | FieldItself message_id nat | OneofFields message_id nat | OneofItself message_id nat
  | MessagePart message_id string | MessageItself message_id
  | EnumValue enum_id nat | EnumValues enum_id | EnumValueTable enum_id | EnumItself enum_id

type_synonym freezing = "message_id list \<times> enum_id list \<times> frozen list"

definition message_tail :: "store \<Rightarrow> message_id \<Rightarrow> frozen list" where
  "message_tail st m =
     concat (map (\<lambda>i. [OneofFields m i, OneofItself m i]) [0 ..< length (dm_oneofs (message st m))]) @
     map (MessagePart m) [''fields'', ''field'', ''oneofs'', ''members'', ''nestedMessages'', ''nestedEnums'', ''nestedExtensions''] @
     [MessageItself m]"

definition enum_parts :: "store \<Rightarrow> enum_id \<Rightarrow> frozen list" where
  "enum_parts st e = map (EnumValue e) [0 ..< length (de_values (enum_of st e))] @ [EnumValues e, EnumValueTable e, EnumItself e]"

fun visitEnum :: "store \<Rightarrow> enum_id \<Rightarrow> freezing \<Rightarrow> freezing" where
  "visitEnum st e (ms, es, fz) = (if e \<in> set es then (ms, es, fz) else (ms, es @ [e], fz @ enum_parts st e))"

fun freeze_more :: "frozen list \<Rightarrow> freezing \<Rightarrow> freezing" where
  "freeze_more xs (ms, es, fz) = (ms, es, fz @ xs)"

function freeze_message :: "nat \<Rightarrow> store \<Rightarrow> message_id \<Rightarrow> freezing \<Rightarrow> freezing option"
  and freeze_fields :: "nat \<Rightarrow> store \<Rightarrow> message_id \<Rightarrow> (nat \<times> desc_field) list \<Rightarrow> freezing \<Rightarrow> freezing option"
  and freeze_refs :: "nat \<Rightarrow> store \<Rightarrow> type_ref list \<Rightarrow> freezing \<Rightarrow> freezing option" where
  "freeze_message 0 st m s = None"
| "freeze_message (Suc fuel) st m (ms, es, fz) =
     (if m \<in> set ms then Some (ms, es, fz)
      else map_option (freeze_more (message_tail st m))
             (freeze_fields fuel st m (enumerate 0 (dm_fields (message st m))) (ms @ [m], es, fz)))"
| "freeze_fields fuel st m [] s = Some s"
| "freeze_fields fuel st m ((i, field) # fs) s =
     Option.bind (freeze_refs fuel st (referencedTypes field) (freeze_more [FieldProto m i, FieldItself m i] s))
       (freeze_fields fuel st m fs)"
| "freeze_refs fuel st [] s = Some s"
| "freeze_refs fuel st (MessageRef m # rs) s = Option.bind (freeze_message fuel st m s) (freeze_refs fuel st rs)"
| "freeze_refs fuel st (EnumRef e # rs) s = freeze_refs fuel st rs (visitEnum st e s)"
  by pat_completeness auto
termination
  by (relation "inv_image (less_than <*lex*> less_than <*lex*> less_than)
    (\<lambda>x. case x of Inl (fuel, _) \<Rightarrow> (fuel, 0, 0)
      | Inr (Inl (fuel, _, _, fs, _)) \<Rightarrow> (fuel, 2, length fs)
      | Inr (Inr (fuel, _, rs, _)) \<Rightarrow> (fuel, Suc 0, length rs))") auto

fun freeze_methods :: "nat \<Rightarrow> store \<Rightarrow> (nat \<times> desc_method) list \<Rightarrow> freezing \<Rightarrow> freezing option" where
  "freeze_methods fuel st [] s = Some s"
| "freeze_methods fuel st ((i, mt) # mts) s =
     Option.bind (freeze_message fuel st (dt_input mt) s) (\<lambda>s1.
     Option.bind (freeze_message fuel st (dt_output mt) s1) (\<lambda>s2.
     freeze_methods fuel st mts (freeze_more [MethodItself i] s2)))"

definition freezeReachableDescriptors :: "store \<Rightarrow> desc_service \<Rightarrow> frozen list option" where
  "freezeReachableDescriptors st service =
     map_option (\<lambda>(ms, es, fz). fz @ [ServiceMethods, ServiceMethodTable, ServiceItself])
       (freeze_methods (Suc (length (st_messages st))) st (enumerate 0 (ds_methods service)) ([], [], []))"

subsection \<open>Versions, labels and digests\<close>

text \<open>A match of \<^verbatim>\<open>0|[1-9][0-9]*\<close> that the next character ends.\<close>

definition version_part :: "jsstring \<Rightarrow> bool" where
  "version_part d \<longleftrightarrow> canonical_numeral d"

fun split_dots :: "jsstring \<Rightarrow> jsstring list" where
  "split_dots [] = [[]]"
| "split_dots (u # us) =
     (if u = 46 then [] # split_dots us else case split_dots us of p # ps \<Rightarrow> (u # p) # ps | [] \<Rightarrow> [[u]])"

definition isCanonicalVersion :: "jsstring \<Rightarrow> bool" where
  "isCanonicalVersion value \<longleftrightarrow> length (split_dots value) = 3 \<and> list_all version_part (split_dots value) \<and>
     list_all (\<lambda>part. decimal part \<le> 2147483647) (split_dots value)"

definition api_unit :: "codeunit \<Rightarrow> bool" where
  "api_unit u \<longleftrightarrow> (65 \<le> unat u \<and> unat u \<le> 90) \<or> (97 \<le> unat u \<and> unat u \<le> 122) \<or> js_digit u \<or>
     unat u = 46 \<or> unat u = 95 \<or> unat u = 58 \<or> unat u = 47 \<or> unat u = 45"

definition api_pattern :: "jsstring \<Rightarrow> bool" where
  "api_pattern s \<longleftrightarrow> 1 \<le> length s \<and> length s \<le> 64 \<and> list_all api_unit s"

definition hex_unit :: "codeunit \<Rightarrow> bool" where
  "hex_unit u \<longleftrightarrow> js_digit u \<or> (97 \<le> unat u \<and> unat u \<le> 102) \<or> (65 \<le> unat u \<and> unat u \<le> 70)"

definition fingerprint_pattern :: "jsstring \<Rightarrow> bool" where
  "fingerprint_pattern s \<longleftrightarrow> length s = 64 \<and> list_all hex_unit s"

text \<open>\<^verbatim>\<open>toLowerCase\<close> on the letters a fingerprint can have.\<close>

definition lower_hex :: "codeunit \<Rightarrow> codeunit" where
  "lower_hex u = (if 65 \<le> unat u \<and> unat u \<le> 70 then u + 32 else u)"

subsection \<open>Contract definitions\<close>

datatype contract_error =
    InvalidService | InvalidText string | InvalidApi | InvalidVersion | InvalidFingerprint
  | InvalidGraph | GraphMismatch jsstring | DefinitionRequired | Unregistered

record contract_input =
  ci_service :: "desc_service option"
  ci_api :: "jsstring option"
  ci_version :: "jsstring option"
  ci_fingerprint :: "jsstring option"
  ci_graph :: jsvalue

record contract_record =
  cr_service :: desc_service
  cr_api :: jsstring
  cr_version :: jsstring
  cr_fingerprint :: jsstring
  cr_graph :: "text_item list"

text \<open>The \<^verbatim>\<open>WeakMap\<close>, by the identity of the artifact, and the objects frozen so far.\<close>

record registry =
  rg_definitions :: "nat \<rightharpoonup> contract_record"
  rg_next :: nat
  rg_frozen :: "frozen set"

definition checked_text :: "string \<Rightarrow> jsstring option \<Rightarrow> contract_error + jsstring" where
  "checked_text name value = (case value of Some s \<Rightarrow> if list_all js_space s then Inl (InvalidText name) else Inr s
     | None \<Rightarrow> Inl (InvalidText name))"

definition checked_strings :: "contract_input \<Rightarrow> contract_error + jsstring \<times> jsstring \<times> jsstring" where
  "checked_strings input =
     bind_result (checked_text ''api'' (ci_api input)) (\<lambda>api.
     bind_result (checked_text ''version'' (ci_version input)) (\<lambda>version.
     bind_result (checked_text ''fingerprint'' (ci_fingerprint input)) (\<lambda>fingerprint.
     if \<not> api_pattern api then Inl InvalidApi
     else if \<not> isCanonicalVersion version then Inl InvalidVersion
     else if \<not> fingerprint_pattern fingerprint then Inl InvalidFingerprint
     else Inr (api, version, fingerprint))))"

definition checked_graph :: "scalar_enum \<Rightarrow> store \<Rightarrow> desc_service \<Rightarrow> jsvalue \<Rightarrow> contract_error + text_item list" where
  "checked_graph sc st service graph =
     (case (canonicalJson graph, Option.bind (runtimeGraph sc st service) canonicalJson) of
        (Some expected, Some actual) \<Rightarrow> if expected \<noteq> actual then Inl (GraphMismatch (ds_typeName service)) else Inr actual
      | _ \<Rightarrow> Inl InvalidGraph)"

definition register :: "registry \<Rightarrow> contract_record \<Rightarrow> frozen set \<Rightarrow> registry" where
  "register rg r fz = rg\<lparr>rg_definitions := (rg_definitions rg)(rg_next rg \<mapsto> r), rg_next := Suc (rg_next rg),
     rg_frozen := rg_frozen rg \<union> fz\<rparr>"

definition defineContract ::
    "scalar_enum \<Rightarrow> store \<Rightarrow> registry \<Rightarrow> contract_input \<Rightarrow> contract_error + nat \<times> registry" where
  "defineContract sc st rg input =
     (case ci_service input of
        None \<Rightarrow> Inl InvalidService
      | Some service \<Rightarrow>
          bind_result (checked_strings input) (\<lambda>(api, version, fingerprint).
          bind_result (checked_graph sc st service (ci_graph input)) (\<lambda>actual.
          case freezeReachableDescriptors st service of
            None \<Rightarrow> Inl InvalidGraph
          | Some fz \<Rightarrow> Inr (rg_next rg, register rg
              \<lparr>cr_service = service, cr_api = api, cr_version = version,
               cr_fingerprint = map lower_hex fingerprint, cr_graph = actual\<rparr> (set fz)))))"

text \<open>The argument is an object by identity, or \<open>None\<close> for a value that is neither object nor function.\<close>

definition contractRecord :: "registry \<Rightarrow> nat option \<Rightarrow> contract_error + contract_record" where
  "contractRecord rg definition_arg =
     (case definition_arg of
        None \<Rightarrow> Inl DefinitionRequired
      | Some d \<Rightarrow> (case rg_definitions rg d of Some r \<Rightarrow> Inr r | None \<Rightarrow> Inl Unregistered))"

subsection \<open>The graph holds the reachable types, in order\<close>

definition reachable :: "store \<Rightarrow> desc_service \<Rightarrow> message_id set" where
  "reachable st service = {m. \<exists>r \<in> roots service. (refers st)\<^sup>*\<^sup>* r m}"

definition reachable_enums :: "store \<Rightarrow> desc_service \<Rightarrow> enum_id set" where
  "reachable_enums st service = {e. \<exists>m \<in> reachable st service. EnumRef e \<in> set (refs_of st m)}"

lemma sort_key_strict: "distinct (map f xs) \<Longrightarrow> sorted_wrt (<) (map f (sort_key f xs))"
  by (simp add: strict_sorted_iff distinct_map)

lemma visited_names:
  assumes "visited_ok st (ms, es)"
  shows "map (message_name st) (map snd ms) = map fst ms" "map (enum_name st) (map snd es) = map fst es"
  using assms by (auto simp: visited_ok_def message_name_def enum_name_def)

lemma runtimeGraph_eq:
  assumes "store_ok st" "service_ok st service"
  shows "\<exists>ms es. set ms = reachable st service \<and> set es = reachable_enums st service \<and>
    sorted_wrt (<) (map (message_name st) ms) \<and> sorted_wrt (<) (map (enum_name st) es) \<and>
    runtimeGraph sc st service = graph_of sc st service ms es"
proof -
  from collect_reachable [OF assms] obtain ms es where v: "collect st service = Some (ms, es)" "visited_ok st (ms, es)"
    "ids (ms, es) = reachable st service" "eids (ms, es) = reachable_enums st service"
    by (auto simp: reachable_def reachable_enums_def)
  have d: "distinct (map (message_name st) (map snd ms))" "distinct (map (enum_name st) (map snd es))"
    unfolding visited_names [OF v(2)] using v(2) by (simp_all add: visited_ok_def)
  show ?thesis
    using sort_key_strict [OF d(1)] sort_key_strict [OF d(2)] v
    by (intro exI [of _ "sort_key (message_name st) (map snd ms)"] exI [of _ "sort_key (enum_name st) (map snd es)"])
       (auto simp: runtimeGraph_def ids_def eids_def)
qed

subsection \<open>The graph is well formed\<close>

lemma js_wf_obj: "js_wf (js_obj kvs) \<longleftrightarrow> distinct (map fst kvs) \<and> list_all (\<lambda>(k, v). js_wf v) kvs"
proof -
  have "distinct (map fst (map (\<lambda>(k, v). (js k, v)) kvs)) \<longleftrightarrow> distinct (map fst kvs)"
    using distinct_map [of js "map fst kvs"] by (auto simp: comp_def split_beta inj_on_def js_inj)
  then show ?thesis by (auto simp: js_obj_def list_all_iff)
qed

lemmas shape_defs = scalarShape_def messageShape_def enumShape_def listShape_def mapShape_def

lemma js_wf_default_js: "js_wf (default_js v)"
  by (cases v) simp_all

lemma js_wf_default_number: "js_wf (default_number v)"
  by (cases v rule: default_number.cases) (simp_all add: js_wf_default_js)

lemmas js_wf_default = js_wf_default_js js_wf_default_number

lemma js_wf_tagged: "js_wf (tagged t v) = js_wf v"
  by (simp add: tagged_def js_wf_obj)

lemma js_wf_scalar_default: "js_wf (scalar_default sc s v)"
  unfolding scalar_default_def Let_def by (simp only: if_distrib [of js_wf] js_wf_tagged js_wf_default js_wf.simps if_cancel)

lemma js_wf_fieldDefault: "js_wf (fieldDefault sc f)"
  by (auto simp: fieldDefault_def js_wf_scalar_default js_wf_tagged js_wf_default split: field_kind.splits option.splits)

lemma js_wf_shape: "field_shape sc st k = Some v \<Longrightarrow> js_wf v"
  by (cases k) (auto simp: shape_defs list_shape_def map_shape_def js_wf_obj bind_eq_Some_conv)

lemma js_wf_fieldGraph: "fieldGraph sc st f = Some v \<Longrightarrow> js_wf v"
  by (auto simp: fieldGraph_def js_wf_obj js_int_def js_wf_fieldDefault js_wf_shape bind_eq_Some_conv split: option.splits)

lemma those_map_all: "those (map f xs) = Some ys \<Longrightarrow> (\<And>x y. f x = Some y \<Longrightarrow> P y) \<Longrightarrow> list_all P ys"
  by (auto simp: those_Some_iff list_all_length list_eq_iff_nth_eq)

lemma js_wf_message_graph: "message_graph sc st m = Some v \<Longrightarrow> js_wf v"
  by (auto simp: message_graph_def js_wf_obj oneof_graph_def js_int_def list_all_iff [of _ "map _ _"]
      elim!: those_map_all js_wf_fieldGraph)

lemma js_wf_grouped: "\<forall>(n, vs) \<in> set grouped. list_all js_wf vs \<Longrightarrow> \<forall>(n, vs) \<in> set (fold group_value vs grouped). list_all js_wf vs"
proof (induction vs arbitrary: grouped)
  case (Cons v vs)
  have set: "set (map_set xs k w) \<subseteq> insert (k, w) (set xs)" for xs :: "(int \<times> jsvalue list) list" and k w
    by (induction xs k w rule: map_set.induct) auto
  have "\<forall>(n, vs) \<in> set (group_value v grouped). list_all js_wf vs"
    using Cons.prems set [of grouped] by (force simp: group_value_def alias_graph_def js_wf_obj dest: map_of_SomeD split: option.splits)
  from Cons.IH [OF this] show ?case by simp
qed simp

lemma js_wf_enum_graph: "js_wf (enum_graph st e)"
  using js_wf_grouped [of "[]" "de_values (enum_of st e)"]
  by (auto simp: enum_graph_def Let_def js_wf_obj js_int_def list_all_iff grouped_values_def split: list.splits)

lemma js_wf_graph_of: "graph_of sc st service ms es = Some g \<Longrightarrow> js_wf g"
  by (auto simp: graph_of_def js_wf_obj method_graph_def js_int_def list_all_iff [of _ "map _ _"] js_wf_enum_graph
      elim!: those_map_all js_wf_message_graph)

lemma js_wf_runtimeGraph: "runtimeGraph sc st service = Some g \<Longrightarrow> js_wf g"
  by (auto simp: runtimeGraph_def bind_eq_Some_conv dest: js_wf_graph_of)

subsection \<open>Everything reachable is frozen\<close>

definition message_parts :: "store \<Rightarrow> message_id \<Rightarrow> frozen set" where
  "message_parts st m =
     (\<Union>i < length (dm_fields (message st m)). {FieldProto m i, FieldItself m i}) \<union> set (message_tail st m)"

definition refs_ok :: "store \<Rightarrow> bool" where
  "refs_ok st \<longleftrightarrow> (\<forall>m < length (st_messages st). list_all (ref_ok st) (refs_of st m))"

fun f_messages :: "freezing \<Rightarrow> message_id set" where
  "f_messages (ms, es, fz) = set ms"

fun f_enums :: "freezing \<Rightarrow> enum_id set" where
  "f_enums (ms, es, fz) = set es"

fun f_frozen :: "freezing \<Rightarrow> frozen set" where
  "f_frozen (ms, es, fz) = set fz"

definition f_left :: "store \<Rightarrow> freezing \<Rightarrow> nat" where
  "f_left st s = card ({..< length (st_messages st)} - f_messages s)"

text \<open>\<open>A\<close> is what a step freezes of its own, besides the messages and enums it adds.\<close>

definition freezes :: "store \<Rightarrow> type_ref set \<Rightarrow> frozen set \<Rightarrow> freezing \<Rightarrow> freezing \<Rightarrow> bool" where
  "freezes st rs A s s' \<longleftrightarrow> explores st rs (f_messages s) (f_enums s) (f_messages s') (f_enums s') \<and>
     f_frozen s' = f_frozen s \<union> A \<union> (\<Union>m \<in> f_messages s' - f_messages s. message_parts st m) \<union>
       (\<Union>e \<in> f_enums s' - f_enums s. set (enum_parts st e))"

lemma f_left_mono: "freezes st rs A s s' \<Longrightarrow> f_left st s' \<le> f_left st s"
  unfolding f_left_def freezes_def by (intro card_mono) (auto dest: explores_mono)

lemma explores_mono_enums: "explores st rs I E I' E' \<Longrightarrow> E \<subseteq> E'"
  by (auto simp: explores_def)

lemma freezes_trans:
  assumes "freezes st rs A s s1" "freezes st rs' A' s1 s2"
  shows "freezes st (rs \<union> rs') (A \<union> A') s s2"
proof -
  have g: "explores st rs (f_messages s) (f_enums s) (f_messages s1) (f_enums s1)"
    "explores st rs' (f_messages s1) (f_enums s1) (f_messages s2) (f_enums s2)"
    using assms by (simp_all add: freezes_def)
  have d: "f_messages s2 - f_messages s = (f_messages s1 - f_messages s) \<union> (f_messages s2 - f_messages s1)"
    "f_enums s2 - f_enums s = (f_enums s1 - f_enums s) \<union> (f_enums s2 - f_enums s1)"
    using explores_mono [OF g(1)] explores_mono [OF g(2)] explores_mono_enums [OF g(1)] explores_mono_enums [OF g(2)] by auto
  show ?thesis using assms explores_trans [OF g] unfolding freezes_def d by auto
qed

lemma freezes_more: "freezes st {} (set xs) s (freeze_more xs s)"
  by (cases s) (auto simp: freezes_def intro: explores_refl)

lemma freezes_refl: "{m. MessageRef m \<in> rs} \<subseteq> f_messages s \<Longrightarrow> {e. EnumRef e \<in> rs} \<subseteq> f_enums s \<Longrightarrow> freezes st rs {} s s"
  by (auto simp: freezes_def intro: explores_refl)

lemma freezes_enum: "freezes st {EnumRef e} {} s (visitEnum st e s)"
proof (cases s)
  case (fields ms es fz)
  then show ?thesis using explores_enum [of st e "set ms" "set es"]
    by (auto simp: freezes_def insert_absorb)
qed

lemma freezes_message:
  assumes "freezes st (set (refs_of st m)) A (ms @ [m], es, fz) s'" "m \<notin> set ms"
    "message_parts st m = A \<union> set (message_tail st m)"
  shows "freezes st {MessageRef m} {} (ms, es, fz) (freeze_more (message_tail st m) s')"
proof (cases s')
  case (fields ms' es' fz')
  have g: "explores st (set (refs_of st m)) (insert m (set ms)) (set es) (set ms') (set es')"
    using assms(1) by (simp add: freezes_def fields)
  have d: "set ms' - set ms = insert m (set ms' - insert m (set ms))" using explores_mono [OF g] assms(2) by auto
  show ?thesis using assms(1,3) explores_visit [OF g assms(2)]
    unfolding freezes_def by (auto simp: fields d)
qed

definition field_parts :: "message_id \<Rightarrow> (nat \<times> desc_field) list \<Rightarrow> frozen set" where
  "field_parts m fs = (\<Union>(i, f) \<in> set fs. {FieldProto m i, FieldItself m i})"

definition field_refs :: "(nat \<times> desc_field) list \<Rightarrow> type_ref list" where
  "field_refs fs = concat (map (\<lambda>f. referencedTypes (snd f)) fs)"

lemma fst_enumerate: "fst ` set (enumerate 0 xs) = {..< length xs}"
  by (simp only: set_map [symmetric] map_fst_enumerate) auto

lemma snd_enumerate: "snd ` set (enumerate 0 xs) = set xs"
  by (simp only: set_map [symmetric] map_snd_enumerate)

lemma field_refs_all: "field_refs (enumerate 0 (dm_fields (message st m))) = refs_of st m"
proof -
  have "map (\<lambda>f. referencedTypes (snd f)) (enumerate 0 fs) = map referencedTypes (map snd (enumerate 0 fs))" for fs
    by (simp only: map_map comp_def)
  then show ?thesis by (simp add: field_refs_def refs_of_def)
qed

lemma field_parts_all: "message_parts st m = field_parts m (enumerate 0 (dm_fields (message st m))) \<union> set (message_tail st m)"
proof -
  have "field_parts m (enumerate 0 fs) = (\<Union>i \<in> fst ` set (enumerate 0 fs). {FieldProto m i, FieldItself m i})" for fs
    by (auto simp: field_parts_def)
  then show ?thesis by (simp add: message_parts_def fst_enumerate)
qed

lemma f_left_visit:
  assumes "m < length (st_messages st)" "m \<notin> set ms"
  shows "f_left st (ms @ [m], es, fz) < f_left st (ms, es, fz)"
  unfolding f_left_def using assms by (intro psubset_card_mono) auto

lemma freeze_freezes:
  assumes "refs_ok st"
  shows "m < length (st_messages st) \<Longrightarrow> f_left st s < fuel \<Longrightarrow>
      \<exists>s'. freeze_message fuel st m s = Some s' \<and> freezes st {MessageRef m} {} s s'"
    and "list_all (ref_ok st) (field_refs fs) \<Longrightarrow> f_left st s < fuel \<Longrightarrow>
      \<exists>s'. freeze_fields fuel st m fs s = Some s' \<and> freezes st (set (field_refs fs)) (field_parts m fs) s s'"
    and "list_all (ref_ok st) rs \<Longrightarrow> f_left st s < fuel \<Longrightarrow>
      \<exists>s'. freeze_refs fuel st rs s = Some s' \<and> freezes st (set rs) {} s s'"
  using assms
proof (induction fuel st m s and fuel st m fs s and fuel st rs s rule: freeze_message_freeze_fields_freeze_refs.induct)
  case (1 st m s)
  then show ?case by simp
next
  case (2 fuel st m ms es fz)
  show ?case
  proof (cases "m \<in> set ms")
    case True
    then show ?thesis by (auto intro: freezes_refl)
  next
    case False
    have "list_all (ref_ok st) (refs_of st m)" using "2.prems" by (simp add: refs_ok_def)
    with "2.IH" [OF False] f_left_visit [OF "2.prems"(1) False, of es fz] "2.prems" obtain s' where
      s': "freeze_fields fuel st m (enumerate 0 (dm_fields (message st m))) (ms @ [m], es, fz) = Some s'"
        "freezes st (set (refs_of st m)) (field_parts m (enumerate 0 (dm_fields (message st m)))) (ms @ [m], es, fz) s'"
      by (auto simp: field_refs_all)
    from freezes_message [OF s'(2) False field_parts_all] s'(1) False show ?thesis by auto
  qed
next
  case (3 fuel st m s)
  then show ?case by (auto simp: field_refs_def field_parts_def intro: freezes_refl)
next
  case (4 fuel st m i f fs s)
  let ?s1 = "freeze_more [FieldProto m i, FieldItself m i] s"
  have s1: "freezes st {} {FieldProto m i, FieldItself m i} s ?s1" using freezes_more [of st "[FieldProto m i, FieldItself m i]" s] by simp
  have "f_left st ?s1 < fuel" using f_left_mono [OF s1] "4.prems"(2) by simp
  with "4.IH"(1) "4.prems" obtain s2 where s2: "freeze_refs fuel st (referencedTypes f) ?s1 = Some s2"
    "freezes st (set (referencedTypes f)) {} ?s1 s2" by (auto simp: field_refs_def)
  have "f_left st s2 < fuel" using f_left_mono [OF s2(2)] \<open>f_left st ?s1 < fuel\<close> by simp
  with "4.IH"(2) [OF s2(1)] "4.prems" obtain s3 where s3: "freeze_fields fuel st m fs s2 = Some s3"
    "freezes st (set (field_refs fs)) (field_parts m fs) s2 s3" by (auto simp: field_refs_def)
  from freezes_trans [OF freezes_trans [OF s1 s2(2)] s3(2)] s2(1) s3(1) show ?case
    by (auto simp: field_refs_def field_parts_def)
next
  case (5 fuel st s)
  then show ?case by (auto intro: freezes_refl)
next
  case (6 fuel st m rs s)
  then obtain s1 where s1: "freeze_message fuel st m s = Some s1" "freezes st {MessageRef m} {} s s1" by auto
  have "f_left st s1 < fuel" using f_left_mono [OF s1(2)] "6.prems"(2) by simp
  with "6.IH"(2) [OF s1(1)] "6.prems" obtain s2 where "freeze_refs fuel st rs s1 = Some s2" "freezes st (set rs) {} s1 s2" by auto
  with freezes_trans [OF s1(2), of "set rs" "{}" s2] s1(1) show ?case by auto
next
  case (7 fuel st e rs s)
  note e = freezes_enum [of st e s]
  have "f_left st (visitEnum st e s) < fuel" using f_left_mono [OF e] "7.prems"(2) by simp
  with "7.IH" "7.prems" obtain s2 where "freeze_refs fuel st rs (visitEnum st e s) = Some s2"
    "freezes st (set rs) {} (visitEnum st e s) s2" by auto
  with freezes_trans [OF e, of "set rs" "{}" s2] show ?case by auto
qed

definition in_range :: "store \<Rightarrow> desc_method \<Rightarrow> bool" where
  "in_range st mt \<longleftrightarrow> dt_input mt < length (st_messages st) \<and> dt_output mt < length (st_messages st)"

lemma freeze_methods_freezes:
  assumes "refs_ok st" "f_left st s < fuel" "list_all (\<lambda>p. in_range st (snd p)) mts"
  shows "\<exists>s'. freeze_methods fuel st mts s = Some s' \<and>
    freezes st (MessageRef ` (\<Union>mt \<in> snd ` set mts. {dt_input mt, dt_output mt})) (MethodItself ` fst ` set mts) s s'"
  using assms(2,3)
proof (induction mts arbitrary: s)
  case Nil
  then show ?case by (auto intro: freezes_refl)
next
  case (Cons p mts)
  obtain i mt where p: "p = (i, mt)" by force
  from Cons.prems freeze_freezes(1) [OF assms(1), of "dt_input mt" s fuel] obtain s1 where
    s1: "freeze_message fuel st (dt_input mt) s = Some s1" "freezes st {MessageRef (dt_input mt)} {} s s1"
    by (auto simp: p in_range_def)
  have l1: "f_left st s1 < fuel" using f_left_mono [OF s1(2)] Cons.prems(1) by simp
  from l1 Cons.prems freeze_freezes(1) [OF assms(1), of "dt_output mt" s1 fuel] obtain s2 where
    s2: "freeze_message fuel st (dt_output mt) s1 = Some s2" "freezes st {MessageRef (dt_output mt)} {} s1 s2"
    by (auto simp: p in_range_def)
  note s3 = freezes_more [of st "[MethodItself i]" s2]
  have "f_left st (freeze_more [MethodItself i] s2) < fuel" using f_left_mono [OF s2(2)] f_left_mono [OF s3] l1 by simp
  from Cons.IH [OF this] Cons.prems(2) obtain s4 where
    s4: "freeze_methods fuel st mts (freeze_more [MethodItself i] s2) = Some s4"
      "freezes st (MessageRef ` (\<Union>mt \<in> snd ` set mts. {dt_input mt, dt_output mt})) (MethodItself ` fst ` set mts)
         (freeze_more [MethodItself i] s2) s4" by auto
  from freezes_trans [OF freezes_trans [OF freezes_trans [OF s1(2) s2(2)] s3] s4(2)] s1(1) s2(1) s4(1) show ?case
    by (simp add: p insert_commute Un_commute)
qed

lemma freeze_all:
  assumes "refs_ok st" "service_ok st service"
  shows "\<exists>fz. freezeReachableDescriptors st service = Some fz \<and>
    set fz = {ServiceMethods, ServiceMethodTable, ServiceItself} \<union> MethodItself ` {..< length (ds_methods service)} \<union>
      (\<Union>m \<in> reachable st service. message_parts st m) \<union> (\<Union>e \<in> reachable_enums st service. set (enum_parts st e))"
proof -
  let ?mts = "enumerate 0 (ds_methods service)"
  have l: "f_left st ([], [], []) < Suc (length (st_messages st))" by (simp add: f_left_def)
  have r: "list_all (\<lambda>p. in_range st (snd p)) ?mts"
    using assms(2) by (auto simp: service_ok_def in_range_def list_all_length nth_enumerate_eq)
  from freeze_methods_freezes [OF assms(1) l r] obtain ms es fz where
    s: "freeze_methods (Suc (length (st_messages st))) st ?mts ([], [], []) = Some (ms, es, fz)"
      "freezes st (MessageRef ` roots service) (MethodItself ` {..< length (ds_methods service)}) ([], [], []) (ms, es, fz)"
    unfolding snd_enumerate fst_enumerate roots_def by force
  then have g: "explores st (MessageRef ` roots service) {} {} (set ms) (set es)" by (simp add: freezes_def)
  have "set ms = reachable st service" "set es = reachable_enums st service"
    using explores_reachable [OF g] by (simp_all add: reachable_def reachable_enums_def)
  with s show ?thesis by (auto simp: freezeReachableDescriptors_def freezes_def)
qed

subsection \<open>Versions\<close>

lemma split_dots_nonempty: "split_dots s \<noteq> []"
  by (induction s) (auto split: list.splits)

lemma split_dots_plain: "46 \<notin> set p \<Longrightarrow> split_dots (p @ 46 # s) = p # split_dots s"
  by (induction p) auto

lemma split_dots_last: "46 \<notin> set p \<Longrightarrow> split_dots p = [p]"
  by (induction p) auto

fun join_dots :: "jsstring list \<Rightarrow> jsstring" where
  "join_dots [] = []"
| "join_dots [p] = p"
| "join_dots (p # q # ps) = p @ 46 # join_dots (q # ps)"

lemma join_split_dots: "join_dots (split_dots s) = s"
proof (induction s)
  case (Cons u us)
  obtain p ps where "split_dots us = p # ps" using split_dots_nonempty [of us] by (cases "split_dots us") auto
  then show ?case using Cons by (cases ps) auto
qed simp

lemma no_dot: "canonical_numeral ds \<Longrightarrow> 46 \<notin> set ds"
  by (auto simp: canonical_numeral_def list_all_iff js_digit_def)

lemma canonical_version:
  "isCanonicalVersion s \<longleftrightarrow>
    (\<exists>a b c. a < 2 ^ 31 \<and> b < 2 ^ 31 \<and> c < 2 ^ 31 \<and> s = nat_text a @ [46] @ nat_text b @ [46] @ nat_text c)"
proof
  assume v: "isCanonicalVersion s"
  then obtain p q r where s: "split_dots s = [p, q, r]"
    unfolding isCanonicalVersion_def by (auto simp: length_Suc_conv numeral_3_eq_3)
  have "s = p @ [46] @ q @ [46] @ r" using join_split_dots [of s] s by simp
  moreover have "nat_text (nat (decimal d)) = d \<and> nat (decimal d) < 2 ^ 31" if "d \<in> {p, q, r}" for d
    using that v s by (auto simp: isCanonicalVersion_def version_part_def canonical_nat_text)
  ultimately show "\<exists>a b c. a < 2 ^ 31 \<and> b < 2 ^ 31 \<and> c < 2 ^ 31 \<and> s = nat_text a @ [46] @ nat_text b @ [46] @ nat_text c"
    by (intro exI [of _ "nat (decimal p)"] exI [of _ "nat (decimal q)"] exI [of _ "nat (decimal r)"]) simp
next
  assume "\<exists>a b c. a < 2 ^ 31 \<and> b < 2 ^ 31 \<and> c < 2 ^ 31 \<and> s = nat_text a @ [46] @ nat_text b @ [46] @ nat_text c"
  then obtain a b c where v: "a < 2 ^ 31" "b < 2 ^ 31" "c < 2 ^ 31" "s = nat_text a @ [46] @ nat_text b @ [46] @ nat_text c"
    by blast
  have "split_dots s = [nat_text a, nat_text b, nat_text c]"
    using no_dot [OF nat_text_canonical] by (simp add: v(4) split_dots_plain split_dots_last)
  then show "isCanonicalVersion s" using v(1-3) by (simp add: isCanonicalVersion_def version_part_def nat_text_canonical decimal_nat_text)
qed

subsection \<open>Contract definitions\<close>

text \<open>The check compares data, whatever the order of the keys in the generated graph.\<close>

lemma checked_graph_iff:
  assumes "js_wf graph"
  shows "(\<exists>t. checked_graph sc st service graph = Inr t) \<longleftrightarrow>
    (\<exists>g. runtimeGraph sc st service = Some g \<and> canonicalJson graph \<noteq> None \<and> canonicalJson g \<noteq> None \<and>
      data_of graph = data_of g)"
proof (cases "\<exists>g s t. runtimeGraph sc st service = Some g \<and> canonicalJson graph = Some s \<and> canonicalJson g = Some t")
  case True
  then obtain g s t where g: "runtimeGraph sc st service = Some g" "canonicalJson graph = Some s" "canonicalJson g = Some t"
    by blast
  show ?thesis using canonicalJson_data [OF assms js_wf_runtimeGraph [OF g(1)] g(2,3)] g by (auto simp: checked_graph_def)
next
  case False
  then show ?thesis by (auto simp: checked_graph_def split: option.splits bind_splits)
qed

definition texts_ok :: "contract_input \<Rightarrow> bool" where
  "texts_ok input \<longleftrightarrow> (\<exists>api version fingerprint. ci_api input = Some api \<and> ci_version input = Some version \<and>
     ci_fingerprint input = Some fingerprint \<and> api_pattern api \<and> isCanonicalVersion version \<and> fingerprint_pattern fingerprint)"

lemma digit_not_space: "js_digit u \<Longrightarrow> \<not> js_space u"
  by (auto simp: js_digit_def js_space_def)

lemma pattern_not_blank:
  "api_pattern s \<Longrightarrow> \<not> list_all js_space s" "isCanonicalVersion s \<Longrightarrow> \<not> list_all js_space s"
  "fingerprint_pattern s \<Longrightarrow> \<not> list_all js_space s"
proof -
  have a: "\<not> js_space u" if "api_unit u" for u using that by (auto simp: api_unit_def js_space_def js_digit_def)
  have h: "\<not> js_space u" if "hex_unit u" for u using that by (auto simp: hex_unit_def js_space_def js_digit_def)
  show "api_pattern s \<Longrightarrow> \<not> list_all js_space s" using a by (cases s) (auto simp: api_pattern_def)
  show "fingerprint_pattern s \<Longrightarrow> \<not> list_all js_space s" using h by (cases s) (auto simp: fingerprint_pattern_def)
  assume "isCanonicalVersion s"
  then obtain a t where s: "s = nat_text a @ t" by (auto simp: canonical_version)
  then show "\<not> list_all js_space s" using nat_text_digits [of a] digit_not_space by (cases "nat_text a") auto
qed

lemma checked_strings_iff: "(\<exists>r. checked_strings input = Inr r) \<longleftrightarrow> texts_ok input"
  using pattern_not_blank
  by (auto simp: checked_strings_def checked_text_def texts_ok_def bind_result_def split: option.splits if_splits)

lemma store_ok_refs: "store_ok st \<Longrightarrow> refs_ok st"
  by (simp add: store_ok_def refs_ok_def)

lemma defineContract_accepts:
  assumes "store_ok st" "ci_service input = Some service" "service_ok st service"
  shows "(\<exists>d rg'. defineContract sc st rg input = Inr (d, rg')) \<longleftrightarrow>
    texts_ok input \<and> (\<exists>t. checked_graph sc st service (ci_graph input) = Inr t)"
proof -
  from freeze_all [OF store_ok_refs [OF assms(1)] assms(3)] obtain fz where "freezeReachableDescriptors st service = Some fz" by blast
  then show ?thesis
    by (auto simp: defineContract_def assms(2) bind_result_def checked_strings_iff [symmetric] split: sum.splits)
qed

text \<open>Artifacts are numbered in the order of their creation; only created ones are registered.\<close>

definition registry_ok :: "registry \<Rightarrow> bool" where
  "registry_ok rg \<longleftrightarrow> dom (rg_definitions rg) = {..< rg_next rg}"

lemma defineContract_Inr:
  assumes "defineContract sc st rg input = Inr (d, rg')"
  obtains service api version fingerprint actual fz where
    "ci_service input = Some service" "checked_strings input = Inr (api, version, fingerprint)"
    "checked_graph sc st service (ci_graph input) = Inr actual" "freezeReachableDescriptors st service = Some fz"
    "d = rg_next rg" "rg' = register rg \<lparr>cr_service = service, cr_api = api, cr_version = version,
               cr_fingerprint = map lower_hex fingerprint, cr_graph = actual\<rparr> (set fz)"
  using assms by (auto simp: defineContract_def bind_result_Inr_iff split: option.splits)

lemma defineContract_registry:
  assumes "registry_ok rg" "defineContract sc st rg input = Inr (d, rg')"
  shows "registry_ok rg'"
    and "contractRecord rg (Some d) = Inl Unregistered"
    and "\<exists>r. contractRecord rg' (Some d) = Inr r \<and> ci_service input = Some (cr_service r) \<and>
      ci_api input = Some (cr_api r) \<and> ci_version input = Some (cr_version r)"
    and "e \<noteq> d \<Longrightarrow> contractRecord rg' (Some e) = contractRecord rg (Some e)"
proof -
  from assms(2) obtain service api version fingerprint actual fz where
    d: "ci_service input = Some service" "checked_strings input = Inr (api, version, fingerprint)" "d = rg_next rg"
    "rg' = register rg \<lparr>cr_service = service, cr_api = api, cr_version = version,
               cr_fingerprint = map lower_hex fingerprint, cr_graph = actual\<rparr> (set fz)"
    by (rule defineContract_Inr) blast
  have t: "ci_api input = Some api" "ci_version input = Some version"
    using d(2) by (auto simp: checked_strings_def checked_text_def bind_result_Inr_iff split: option.splits if_splits)
  have "rg_next rg \<notin> dom (rg_definitions rg)" using assms(1) by (simp add: registry_ok_def)
  then have n: "rg_definitions rg (rg_next rg) = None" by (simp add: domIff)
  show "registry_ok rg'" using assms(1) by (auto simp: d(4) register_def registry_ok_def)
  show "contractRecord rg (Some d) = Inl Unregistered" by (simp add: contractRecord_def d(3) n)
  show "\<exists>r. contractRecord rg' (Some d) = Inr r \<and> ci_service input = Some (cr_service r) \<and>
      ci_api input = Some (cr_api r) \<and> ci_version input = Some (cr_version r)"
    by (simp add: contractRecord_def d(1,3,4) t register_def)
  show "contractRecord rg' (Some e) = contractRecord rg (Some e)" if "e \<noteq> d"
    using that by (simp add: contractRecord_def d(3,4) register_def)
qed

subsection \<open>Properties\<close>

definition sample_store :: store where
  "sample_store = \<lparr>st_messages =
     [\<lparr>dm_typeName = js ''a.Node'',
       dm_fields =
         [\<lparr>df_number = 1, df_name = js ''next'', df_localName = js ''next'', df_jsonName = js ''next'',
           df_utf8Validation = True, df_presence = 1, df_oneof = None, df_default = None, df_kind = MessageField 0 False\<rparr>,
          \<lparr>df_number = 2, df_name = js ''kind'', df_localName = js ''kind'', df_jsonName = js ''kind'',
           df_utf8Validation = True, df_presence = 2, df_oneof = None, df_default = None, df_kind = EnumField 0\<rparr>],
       dm_oneofs = []\<rparr>,
      \<lparr>dm_typeName = js ''a.Unused'', dm_fields = [], dm_oneofs = []\<rparr>],
     st_enums = [\<lparr>de_typeName = js ''a.Kind'', de_open = True,
       de_values = [\<lparr>dv_number = 0, dv_name = js ''ZERO'', dv_localName = js ''ZERO''\<rparr>]\<rparr>]\<rparr>"

definition sample_service :: desc_service where
  "sample_service = \<lparr>ds_id = 7, ds_typeName = js ''a.S'', ds_methods =
     [\<lparr>dt_id = 8, dt_parent = 7, dt_name = js ''Get'', dt_localName = js ''get'', dt_kind = UnaryKind, dt_input = 0, dt_output = 0,
       dt_idempotency = 0\<rparr>]\<rparr>"

lemma sample_ok: "store_ok sample_store" "service_ok sample_store sample_service"
  by (simp_all add: store_ok_def sample_store_def sample_service_def service_ok_def refs_of_def message_def
      referencedTypes_def js_inj All_less_Suc2 numeral_2_eq_2)

lemma sample_graph: "\<exists>g. runtimeGraph [] sample_store sample_service = Some g \<and> plain g"
  by (simp add: runtimeGraph_def collect_def sample_store_def sample_service_def message_def enum_of_def
      referencedTypes_def message_name_def enum_name_def graph_of_def message_graph_def fieldGraph_def js_obj_def
      presenceName_def fieldDefault_def messageShape_def enumShape_def js_int_def enum_graph_def grouped_values_def
      group_value_def alias_graph_def method_graph_def)
definition empty_registry :: registry where
  "empty_registry = \<lparr>rg_definitions = Map.empty, rg_next = 0, rg_frozen = {}\<rparr>"

definition sample_input :: contract_input where
  "sample_input = \<lparr>ci_service = Some sample_service, ci_api = Some (js ''a''), ci_version = Some (js ''1.0.0''),
     ci_fingerprint = Some (replicate 64 48), ci_graph = the (runtimeGraph [] sample_store sample_service)\<rparr>"

lemma sample_texts: "api_pattern (js ''a'')" "isCanonicalVersion (js ''1.0.0'')" "fingerprint_pattern (replicate 64 48)"
proof -
  show "api_pattern (js ''a'')" by (simp add: api_pattern_def js_def api_unit_def)
  show "isCanonicalVersion (js ''1.0.0'')"
    by (simp add: isCanonicalVersion_def js_def version_part_def canonical_numeral_def js_digit_def decimal_def)
  show "fingerprint_pattern (replicate 64 48)" by (simp add: fingerprint_pattern_def list_all_iff hex_unit_def js_digit_def)
qed

lemma sample_accepted: "\<exists>d rg'. defineContract [] sample_store empty_registry sample_input = Inr (d, rg')"
proof -
  have "\<exists>t. checked_graph [] sample_store sample_service (ci_graph sample_input) = Inr t"
    using sample_graph canonicalJson_total by (fastforce simp: checked_graph_def sample_input_def)
  moreover have "texts_ok sample_input" using sample_texts by (simp add: texts_ok_def sample_input_def)
  ultimately show ?thesis
    using defineContract_accepts [of sample_store sample_input sample_service] sample_ok by (auto simp: sample_input_def)
qed

text \<open>C16: The runtime graph of a service lists exactly the messages reachable from the inputs and outputs of its methods
  through field, list and map references, cycles included, and exactly the enums these messages refer to, each once and
  sorted by type name; the traversal always ends.\<close>

theorem runtime_graph_exact:
  assumes "store_ok st" "service_ok st service"
  shows "\<exists>ms es. set ms = {m. \<exists>r \<in> roots service. (refers st)\<^sup>*\<^sup>* r m} \<and>
    set es = {e. \<exists>m \<in> set ms. EnumRef e \<in> set (refs_of st m)} \<and>
    sorted_wrt (<) (map (message_name st) ms) \<and> sorted_wrt (<) (map (enum_name st) es) \<and>
    runtimeGraph sc st service = graph_of sc st service ms es"
proof -
  from runtimeGraph_eq [OF assms, of sc] obtain ms es where g: "set ms = reachable st service"
    "set es = reachable_enums st service" "sorted_wrt (<) (map (message_name st) ms)"
    "sorted_wrt (<) (map (enum_name st) es)" "runtimeGraph sc st service = graph_of sc st service ms es" by blast
  then show ?thesis by (intro exI [of _ ms] exI [of _ es]) (simp add: reachable_def reachable_enums_def)
qed

theorem runtime_graph_exact_witness:
  "\<exists>ms es. set ms = {m. \<exists>r \<in> roots sample_service. (refers sample_store)\<^sup>*\<^sup>* r m} \<and>
    set es = {e. \<exists>m \<in> set ms. EnumRef e \<in> set (refs_of sample_store m)} \<and>
    sorted_wrt (<) (map (message_name sample_store) ms) \<and> sorted_wrt (<) (map (enum_name sample_store) es) \<and>
    runtimeGraph [(js ''INT32'', 5)] sample_store sample_service = graph_of [(js ''INT32'', 5)] sample_store sample_service ms es"
  by (rule runtime_graph_exact [OF sample_ok])

text \<open>C10: A contract is accepted if and only if its API name, version and fingerprint have their documented form and the
  generated graph and the graph of the descriptor are the same data: the order of object keys does not matter, and everything else
  does, up to what canonical JSON does not show: properties named \<^verbatim>\<open>__proto__\<close> are left out on both sides, and the
  number -0 counts as the string "-0" (\<open>data_of\<close>).\<close>

theorem contract_accepts_exactly:
  assumes "store_ok st" "ci_service input = Some service" "service_ok st service" "js_wf (ci_graph input)"
  shows "(\<exists>d rg'. defineContract sc st rg input = Inr (d, rg')) \<longleftrightarrow>
    (\<exists>api version fingerprint. ci_api input = Some api \<and> api_pattern api \<and>
       ci_version input = Some version \<and> isCanonicalVersion version \<and>
       ci_fingerprint input = Some fingerprint \<and> fingerprint_pattern fingerprint) \<and>
    (\<exists>g. runtimeGraph sc st service = Some g \<and> canonicalJson (ci_graph input) \<noteq> None \<and> canonicalJson g \<noteq> None \<and>
       data_of (ci_graph input) = data_of g)"
  using defineContract_accepts [OF assms(1-3)] checked_graph_iff [OF assms(4)] unfolding texts_ok_def by blast

theorem contract_accepts_exactly_witness:
  "\<exists>d rg'. defineContract [] sample_store empty_registry sample_input = Inr (d, rg')"
  by (rule contract_accepts_exactly [OF sample_ok(1) _ sample_ok(2), THEN iffD2])
     (use sample_texts sample_graph canonicalJson_total js_wf_runtimeGraph in \<open>auto simp: sample_input_def\<close>)

text \<open>Once a contract is defined, every descriptor object that its graph was computed from is frozen: the service, its
  methods, and all parts of every reachable message and enum. This does not rely on type names being distinct.\<close>

theorem contract_freezes_reachable:
  assumes "refs_ok st" "service_ok st service" "ci_service input = Some service"
    "defineContract sc st rg input = Inr (d, rg')"
  shows "rg_frozen rg' = rg_frozen rg \<union> {ServiceMethods, ServiceMethodTable, ServiceItself} \<union>
    MethodItself ` {..< length (ds_methods service)} \<union>
    (\<Union>m \<in> {m. \<exists>r \<in> roots service. (refers st)\<^sup>*\<^sup>* r m}.
       (\<Union>i < length (dm_fields (message st m)). {FieldProto m i, FieldItself m i}) \<union> set (message_tail st m) \<union>
       (\<Union>e \<in> {e. EnumRef e \<in> set (refs_of st m)}. set (enum_parts st e)))"
proof -
  from assms(4) obtain r fz where fz: "freezeReachableDescriptors st service = Some fz" "rg' = register rg r (set fz)"
    by (rule defineContract_Inr) (use assms(3) in auto)
  have "reachable_enums st service = (\<Union>m \<in> reachable st service. {e. EnumRef e \<in> set (refs_of st m)})"
    by (auto simp: reachable_enums_def)
  with freeze_all [OF assms(1,2)] fz show ?thesis
    by (simp add: register_def message_parts_def UN_Un_distrib Un_ac flip: reachable_def)
qed


theorem contract_freezes_reachable_witness:
  "\<exists>d rg'. defineContract [] sample_store empty_registry sample_input = Inr (d, rg') \<and>
    MessageItself 0 \<in> rg_frozen rg' \<and> EnumItself 0 \<in> rg_frozen rg'"
proof -
  from sample_accepted obtain d rg' where d: "defineContract [] sample_store empty_registry sample_input = Inr (d, rg')" by blast
  from contract_freezes_reachable [OF store_ok_refs [OF sample_ok(1)] sample_ok(2) _ d]
  have "set (message_tail sample_store 0) \<union> set (enum_parts sample_store 0) \<subseteq> rg_frozen rg'"
    by (auto simp: sample_input_def roots_def sample_service_def refs_of_def sample_store_def message_def referencedTypes_def)
  then have "MessageItself 0 \<in> rg_frozen rg'" "EnumItself 0 \<in> rg_frozen rg'" by (auto simp: message_tail_def enum_parts_def)
  with d show ?thesis by blast
qed

text \<open>A version is accepted exactly if it is the dotted decimal text, without leading zeros, of three numbers below
  2 to the 31.\<close>

theorem contract_version_canonical:
  "isCanonicalVersion s \<longleftrightarrow>
    (\<exists>a b c. a < 2 ^ 31 \<and> b < 2 ^ 31 \<and> c < 2 ^ 31 \<and> s = nat_text a @ [46] @ nat_text b @ [46] @ nat_text c)"
  by (rule canonical_version)

end
