(* ===== verification/Tunnel.thy ===== *)
theory Tunnel
  imports Retry Numerals Hpack
begin

text \<open>
  \<^verbatim>\<open>web/src/transport.ts\<close>: one gRPC call over an HTTP/2 connection.

  \<^verbatim>\<open>start\<close> is split at its awaits: the headers of the request, the body that is pulled from the caller's messages,
  the checks on the head of the response, and the generator of response messages. The calls' abort controller, timer
  and listener are the record \<open>call_state\<close>. A \<^verbatim>\<open>Headers\<close> object is the map from lower-case names to its values.

  Serialization belongs to Protobuf-ES: \<open>enc\<close> stands for \<^verbatim>\<open>toBinary(create(...))\<close> and \<open>dec\<close> for \<^verbatim>\<open>fromBinary\<close>.
  \<open>from_reason\<close> stands for \<^verbatim>\<open>ConnectError.from\<close> of Connect and \<open>str\<close> for \<^verbatim>\<open>String(error)\<close>.
\<close>

subsection \<open>Request headers\<close>

record tunnel_options =
  to_bearerToken :: "jsstring option"
  to_authority :: "jsstring option"
  to_scheme :: "jsstring option"

text \<open>A header value of \<^verbatim>\<open>Headers\<close>: surrounding white space is removed, and NUL, line ends and characters outside
  Latin-1 are a \<^verbatim>\<open>TypeError\<close> (\<open>None\<close>).\<close>

definition http_space :: "codeunit \<Rightarrow> bool" where
  "http_space u \<longleftrightarrow> u = 9 \<or> u = 10 \<or> u = 13 \<or> u = 32"

definition header_value :: "jsstring \<Rightarrow> jsstring option" where
  "header_value s =
     (let v = rev (dropWhile http_space (rev (dropWhile http_space s))) in
      if list_all (\<lambda>u. u \<noteq> 0 \<and> u \<noteq> 10 \<and> u \<noteq> 13 \<and> unat u \<le> 255) v then Some v else None)"

text \<open>\<open>Some None\<close>: no token was given.\<close>

definition authorization_default :: "tunnel_options \<Rightarrow> jsstring option option" where
  "authorization_default options =
     (case to_bearerToken options of
        None \<Rightarrow> Some None
      | Some token \<Rightarrow> if token = [] then Some None else map_option Some (header_value (js ''Bearer '' @ token)))"

definition positive_timeout :: "jsnum option \<Rightarrow> bool" where
  "positive_timeout t = (case t of Some (Finite r) \<Rightarrow> r > 0 | Some (Infinite neg) \<Rightarrow> \<not> neg | _ \<Rightarrow> False)"

fun timeout_units :: "jsnum \<Rightarrow> nat" where
  "timeout_units (Finite r) = min (nat \<lceil>r\<rceil>) 99999999"
| "timeout_units _ = 99999999"

definition grpc_timeout :: "jsnum \<Rightarrow> jsstring" where
  "grpc_timeout t = nat_text (timeout_units t) @ js ''m''"

definition call_headers :: "jsstring option \<Rightarrow> jsnum option \<Rightarrow> header_object \<Rightarrow> header_object" where
  "call_headers auth timeoutMs header =
     (let h0 = header;
          h1 = (case auth of
                  Some a \<Rightarrow> if h0 (js ''authorization'') = None then h0(js ''authorization'' \<mapsto> a) else h0
                | None \<Rightarrow> h0);
          h2 = h1(js ''content-type'' \<mapsto> js ''application/grpc'');
          h3 = h2(js ''te'' \<mapsto> js ''trailers'');
          h4 = h3(js ''grpc-accept-encoding'' \<mapsto> js ''identity'')
      in case timeoutMs of
           Some t \<Rightarrow> if positive_timeout timeoutMs then h4(js ''grpc-timeout'' \<mapsto> grpc_timeout t) else h4
         | None \<Rightarrow> h4)"

record tunnel_request =
  tr_method :: jsstring
  tr_path :: jsstring
  tr_authority :: jsstring
  tr_scheme :: jsstring
  tr_headers :: header_object

definition call_request ::
    "tunnel_options \<Rightarrow> jsstring option \<Rightarrow> jsstring \<Rightarrow> jsstring \<Rightarrow> jsnum option \<Rightarrow> header_object \<Rightarrow> tunnel_request" where
  "call_request options auth typeName name timeoutMs header =
     \<lparr>tr_method = js ''POST'', tr_path = js ''/'' @ typeName @ js ''/'' @ name,
      tr_authority = (case to_authority options of Some a \<Rightarrow> a | None \<Rightarrow> js ''backend''),
      tr_scheme = (case to_scheme options of Some s \<Rightarrow> s | None \<Rightarrow> js ''http''),
      tr_headers = call_headers auth timeoutMs header\<rparr>"

subsection \<open>Abort controller, timer and listener of a call\<close>

datatype reason = ConnectReason thrown | OtherReason exn | NoReason

record call_state =
  cs_abort :: "reason option"
  cs_timer :: bool
  cs_listening :: bool
  cs_inputCanceled :: bool

text \<open>\<^verbatim>\<open>abort.abort(reason)\<close>: only the first call counts.\<close>

definition abort_with :: "reason \<Rightarrow> call_state \<Rightarrow> call_state" where
  "abort_with r s = (if cs_abort s = None then s\<lparr>cs_abort := Some r\<rparr> else s)"

definition fresh_error :: "string \<Rightarrow> nat \<Rightarrow> thrown" where
  "fresh_error msg code = \<lparr>te_connect = Some (new_ConnectError msg code), te_info = None\<rparr>"

fun onAbort :: "reason \<Rightarrow> call_state \<Rightarrow> call_state" where
  "onAbort (ConnectReason e) s = abort_with (ConnectReason e) s"
| "onAbort _ s = abort_with (ConnectReason (fresh_error ''Call canceled'' Canceled)) s"

text \<open>The caller's signal: absent, not aborted, or aborted with a reason.\<close>

datatype signal = NoSignal | Pending | Aborted reason

definition start_call :: "signal \<Rightarrow> jsnum option \<Rightarrow> call_state" where
  "start_call sig timeoutMs =
     (let s = \<lparr>cs_abort = None, cs_timer = False, cs_listening = False, cs_inputCanceled = False\<rparr>;
          s = (case sig of Aborted r \<Rightarrow> onAbort r s | Pending \<Rightarrow> s\<lparr>cs_listening := True\<rparr> | NoSignal \<Rightarrow> s)
      in s\<lparr>cs_timer := positive_timeout timeoutMs\<rparr>)"

definition signal_aborts :: "reason \<Rightarrow> call_state \<Rightarrow> call_state" where
  "signal_aborts r s = (if cs_listening s then onAbort r (s\<lparr>cs_listening := False\<rparr>) else s)"

definition timer_fires :: "call_state \<Rightarrow> call_state" where
  "timer_fires s =
     (if cs_timer s then abort_with (ConnectReason (fresh_error ''Deadline exceeded'' DeadlineExceeded)) (s\<lparr>cs_timer := False\<rparr>)
      else s)"

definition cleanup :: "call_state \<Rightarrow> call_state" where
  "cleanup s = s\<lparr>cs_timer := False, cs_listening := False\<rparr>"

definition finish_call :: "call_state \<Rightarrow> call_state" where
  "finish_call s = abort_with NoReason (cleanup s)"

definition cancel_input :: "call_state \<Rightarrow> call_state" where
  "cancel_input s = s\<lparr>cs_inputCanceled := True\<rparr>"

subsection \<open>The request body\<close>

datatype 'v input_item = Done | Value 'v | Threw "connect_error + exn"
datatype pull_action = Ignored | CloseBody | Enqueue "byte list" | ErrorBody "connect_error + exn"

fun reason_of :: "connect_error + exn \<Rightarrow> reason" where
  "reason_of (Inl ce) = ConnectReason \<lparr>te_connect = Some ce, te_info = None\<rparr>"
| "reason_of (Inr e) = OtherReason e"

definition fail_pull :: "connect_error + exn \<Rightarrow> call_state \<Rightarrow> pull_action \<times> call_state" where
  "fail_pull e s = (ErrorBody e, abort_with (reason_of e) s)"

text \<open>The end of one \<^verbatim>\<open>pull\<close>, when \<^verbatim>\<open>iterator.next()\<close> has settled.\<close>

definition pull :: "('v \<Rightarrow> exn + byte list) \<Rightarrow> 'v input_item \<Rightarrow> call_state \<Rightarrow> pull_action \<times> call_state" where
  "pull enc n s =
     (if cs_inputCanceled s \<or> cs_abort s \<noteq> None then (Ignored, s)
      else case n of
        Done \<Rightarrow> (CloseBody, s)
      | Threw e \<Rightarrow> fail_pull e s
      | Value v \<Rightarrow> (case enc v of
            Inl e \<Rightarrow> fail_pull (Inr e) s
          | Inr bytes \<Rightarrow> (case grpc_frame bytes of Inl ce \<Rightarrow> fail_pull (Inl ce) s | Inr f \<Rightarrow> (Enqueue f, s))))"

subsection \<open>Errors\<close>

definition translate ::
    "(reason \<Rightarrow> connect_error) \<Rightarrow> (exn \<Rightarrow> jsstring) \<Rightarrow> call_state \<Rightarrow> bool \<Rightarrow> connect_error + exn \<Rightarrow> thrown" where
  "translate from_reason str s committed error =
     (case cs_abort s of
        Some (ConnectReason e) \<Rightarrow> e
      | Some r \<Rightarrow> \<lparr>te_connect = Some (from_reason r), te_info = None\<rparr>
      | None \<Rightarrow> attemptError str error committed)"

subsection \<open>The response\<close>

record tunnel_response =
  rs_status :: nat
  rs_headers :: header_object
  rs_endStream :: bool

definition trailersOnly :: "tunnel_response \<Rightarrow> bool" where
  "trailersOnly r \<longleftrightarrow> rs_endStream r \<and> rs_headers r (js ''grpc-status'') \<noteq> None"

definition grpc_content_type :: "jsstring \<Rightarrow> bool" where
  "grpc_content_type v \<longleftrightarrow> take 16 (ascii_lower v) = js ''application/grpc'' \<and>
     (length v = 16 \<or> length v > 16 \<and> v ! 16 \<in> {43, 59})"

text \<open>Whether the call is committed after the checks on the head, and the error they throw.\<close>

definition check_response :: "tunnel_response \<Rightarrow> bool \<times> connect_error option" where
  "check_response r =
     (let committed = \<not> trailersOnly r in
      if rs_status r \<noteq> 200 then
        (committed, Some \<lparr>ce_code = Unavailable, ce_message = js ''HTTP '' @ nat_text (rs_status r), ce_metadata = (\<lambda>_. None)\<rparr>)
      else if \<not> grpc_content_type (case rs_headers r (js ''content-type'') of Some v \<Rightarrow> v | None \<Rightarrow> []) then
        (committed, Some (new_ConnectError ''Invalid gRPC content type'' Unknown))
      else if trailersOnly r then
        (case validateStatus (rs_headers r) None of Some e \<Rightarrow> (committed, Some e) | None \<Rightarrow> (True, None))
      else (committed, None))"

text \<open>The body delivers chunks and then ends, with the trailers if there were any, or fails.\<close>

datatype body_end = BodyEnds "header_object option" | BodyFails "connect_error + exn"

fun decode_all :: "(byte list \<Rightarrow> exn + 'm) \<Rightarrow> byte list list \<Rightarrow> 'm list \<times> exn option" where
  "decode_all dec [] = ([], None)"
| "decode_all dec (b # bs) =
     (case dec b of Inl e \<Rightarrow> ([], Some e) | Inr m \<Rightarrow> (case decode_all dec bs of (ms, e) \<Rightarrow> (m # ms, e)))"

definition body_outcome ::
    "header_object \<Rightarrow> connect_error + unframer \<Rightarrow> body_end \<Rightarrow> (connect_error + exn) option" where
  "body_outcome headers r bend =
     (case r of
        Inl e \<Rightarrow> Some (Inl e)
      | Inr u \<Rightarrow> (case bend of
            BodyFails e \<Rightarrow> Some e
          | BodyEnds trailers \<Rightarrow> map_option Inl (case unframe_finish u of Some e \<Rightarrow> Some e | None \<Rightarrow> validateStatus headers trailers)))"

text \<open>\<^verbatim>\<open>messages()\<close>: what it yields, and the error it throws before translation.\<close>

definition messages_run ::
    "(byte list \<Rightarrow> exn + 'm) \<Rightarrow> header_object \<Rightarrow> byte list list \<Rightarrow> body_end \<Rightarrow> ('m list \<times> (connect_error + exn) option) option" where
  "messages_run dec headers chunks bend =
     Option.bind (unframe_run new_unframer chunks) (\<lambda>(bs, r).
       case decode_all dec bs of
         (ms, Some e) \<Rightarrow> Some (ms, Some (Inr e))
       | (ms, None) \<Rightarrow> Some (ms, body_outcome headers r bend))"

text \<open>The rest of \<^verbatim>\<open>start\<close> once \<^verbatim>\<open>connection.request\<close> has settled, with the states \<open>s1\<close> of the call at the checks and
  \<open>s2\<close> at the end of the generator: whether the call is committed, and the error of \<^verbatim>\<open>start\<close> or what the generator
  yields and throws.\<close>

definition start_response ::
    "(reason \<Rightarrow> connect_error) \<Rightarrow> (exn \<Rightarrow> jsstring) \<Rightarrow> (byte list \<Rightarrow> exn + 'm) \<Rightarrow> call_state \<Rightarrow> call_state \<Rightarrow>
     (connect_error + exn) + tunnel_response \<Rightarrow> byte list list \<Rightarrow> body_end \<Rightarrow>
     (bool \<times> (thrown + 'm list \<times> thrown option)) option" where
  "start_response from_reason str dec s1 s2 head chunks bend =
     (case head of
        Inl e \<Rightarrow> Some (False, Inl (translate from_reason str s1 False e))
      | Inr r \<Rightarrow>
          (case check_response r of
             (committed, Some e) \<Rightarrow> Some (committed, Inl (translate from_reason str s1 committed (Inl e)))
           | (committed, None) \<Rightarrow>
               map_option (\<lambda>(ms, err). (committed, Inr (ms, map_option (translate from_reason str s2 committed) err)))
                 (messages_run dec (rs_headers r) chunks bend)))"

subsection \<open>Unary calls\<close>

text \<open>The loop over the generator: \<open>cnt\<close> and \<open>message\<close> are the local variables.\<close>

fun unary_loop :: "nat \<Rightarrow> 'm option \<Rightarrow> 'm list \<Rightarrow> thrown option \<Rightarrow> thrown + 'm" where
  "unary_loop cnt message [] (Some e) = Inl e"
| "unary_loop cnt message [] None =
     (if cnt \<noteq> 1 then Inl (fresh_error ''Unary returned no message'' Unknown)
      else case message of Some m \<Rightarrow> Inr m | None \<Rightarrow> Inl (fresh_error ''Unary returned no message'' Unknown))"
| "unary_loop cnt message (m # ms) err =
     (if cnt + 1 > 1 then Inl (fresh_error ''Unary returned multiple messages'' Unknown)
      else unary_loop (cnt + 1) (Some m) ms err)"

definition unary_result :: "thrown + 'm list \<times> thrown option \<Rightarrow> thrown + 'm" where
  "unary_result r = (case r of Inl e \<Rightarrow> Inl e | Inr (ms, err) \<Rightarrow> unary_loop 0 None ms err)"

subsection \<open>Life of a call\<close>

inductive call_step :: "('v \<Rightarrow> exn + byte list) \<Rightarrow> call_state \<Rightarrow> pull_action list \<Rightarrow> call_state \<Rightarrow> bool" for enc where
  step_signal: "call_step enc s [] (signal_aborts r s)"
| step_timer: "call_step enc s [] (timer_fires s)"
| step_cancel: "call_step enc s [] (cancel_input s)"
| step_pull: "pull enc n s = (a, s') \<Longrightarrow> call_step enc s [a] s'"
| step_finish: "call_step enc s [] (finish_call s)"

inductive call_steps :: "('v \<Rightarrow> exn + byte list) \<Rightarrow> call_state \<Rightarrow> pull_action list \<Rightarrow> call_state \<Rightarrow> bool" for enc where
  steps_nil: "call_steps enc s [] s"
| steps_cons: "call_step enc s as s1 \<Longrightarrow> call_steps enc s1 bs s2 \<Longrightarrow> call_steps enc s (as @ bs) s2"

inductive_cases call_stepE: "call_step enc s as s'"

lemma abort_with_simps [simp]:
  "cs_timer (abort_with r s) = cs_timer s" "cs_listening (abort_with r s) = cs_listening s"
  "cs_inputCanceled (abort_with r s) = cs_inputCanceled s" "cs_abort (abort_with r s) \<noteq> None"
  "cs_abort s \<noteq> None \<Longrightarrow> abort_with r s = s"
  by (auto simp: abort_with_def)

lemma onAbort_aborts: "\<exists>r'. onAbort r s = abort_with r' s"
  by (cases r) auto

lemma pull_state: "snd (pull enc n s) = s \<or> cs_abort s = None \<and> (\<exists>r. snd (pull enc n s) = abort_with r s)"
  by (auto simp: pull_def fail_pull_def split: input_item.splits sum.splits)

text \<open>The first reason stays; a released timer or listener stays released.\<close>

definition released :: "call_state \<Rightarrow> bool" where
  "released s \<longleftrightarrow> \<not> cs_timer s \<and> \<not> cs_listening s"

lemma call_step_keeps:
  assumes "call_step enc s as s'"
  shows "cs_abort s \<noteq> None \<Longrightarrow> cs_abort s' = cs_abort s" "released s \<Longrightarrow> released s'"
    "cs_abort s \<noteq> None \<Longrightarrow> set as \<subseteq> {Ignored}" "cs_inputCanceled s \<Longrightarrow> cs_inputCanceled s' \<and> set as \<subseteq> {Ignored}"
proof -
  have st: "(s', as) \<in> {(s, []), (cancel_input s, [])} \<or> (\<exists>r t. s' = abort_with r t \<and> t \<in> {s, s\<lparr>cs_listening := False\<rparr>, s\<lparr>cs_timer := False\<rparr>, cleanup s} \<and> as = [])
      \<or> (\<exists>n. s' = snd (pull enc n s) \<and> as = [fst (pull enc n s)])"
    using assms
  proof cases
    case (step_signal r)
    then show ?thesis using onAbort_aborts [of r "s\<lparr>cs_listening := False\<rparr>"] by (auto simp: signal_aborts_def)
  next
    case (step_pull n a)
    then show ?thesis by (intro disjI2 exI [of _ n]) simp
  qed (auto simp: timer_fires_def finish_call_def)
  show "cs_abort s \<noteq> None \<Longrightarrow> cs_abort s' = cs_abort s"
    using st pull_state [of enc _ s] by (auto simp: cancel_input_def cleanup_def)
  show "released s'" if "released s"
    using st
  proof (elim disjE exE conjE)
    fix n assume "s' = snd (pull enc n s)"
    then show "released s'" using pull_state [of enc n s] that by (auto simp: released_def)
  qed (use that in \<open>auto simp: released_def cancel_input_def cleanup_def\<close>)
  show "cs_abort s \<noteq> None \<Longrightarrow> set as \<subseteq> {Ignored}" using st by (auto simp: pull_def)
  show "cs_inputCanceled s \<Longrightarrow> cs_inputCanceled s' \<and> set as \<subseteq> {Ignored}"
    using st by (auto simp: cancel_input_def cleanup_def) (auto simp: pull_def)
qed

lemma call_steps_keep:
  assumes "call_steps enc s as s'"
  shows "cs_abort s \<noteq> None \<Longrightarrow> cs_abort s' = cs_abort s \<and> set as \<subseteq> {Ignored}" "released s \<Longrightarrow> released s'"
    "cs_inputCanceled s \<Longrightarrow> cs_inputCanceled s' \<and> set as \<subseteq> {Ignored}"
proof -
  show "cs_abort s \<noteq> None \<Longrightarrow> cs_abort s' = cs_abort s \<and> set as \<subseteq> {Ignored}"
    using assms
  proof (induction rule: call_steps.induct)
    case (steps_cons s as s1 bs s2)
    then show ?case using call_step_keeps(1,3) [OF steps_cons.hyps(1)] by auto
  qed simp
  show "released s \<Longrightarrow> released s'" using assms by (induction rule: call_steps.induct) (auto dest: call_step_keeps)
  show "cs_inputCanceled s \<Longrightarrow> cs_inputCanceled s' \<and> set as \<subseteq> {Ignored}"
    using assms
  proof (induction rule: call_steps.induct)
    case (steps_cons s as s1 bs s2)
    then show ?case using call_step_keeps(4) [OF steps_cons.hyps(1)] by auto
  qed simp
qed

lemma finish_call_ends: "cs_abort (finish_call s) \<noteq> None" "released (finish_call s)"
  by (simp_all add: finish_call_def released_def cleanup_def)

subsection \<open>Delivery\<close>

lemma unframe_run_total: "\<exists>bs r. unframe_run new_unframer chunks = Some (bs, r)"
  using unframe_eq [of chunks] by (cases "unframe_run new_unframer chunks") (auto simp: unframe_def)

lemma messages_run_total: "\<exists>ms e. messages_run dec headers chunks bend = Some (ms, e)"
  using unframe_run_total [of chunks] by (auto simp: messages_run_def split: prod.splits option.splits)

lemma unframe_run_ok:
  assumes "unframe chunks = Some (bs, None)"
  obtains u where "unframe_run new_unframer chunks = Some (bs, Inr u)" "unframe_finish u = None"
proof -
  obtain cs r where r: "unframe_run new_unframer chunks = Some (cs, r)" using unframe_run_total by blast
  then show ?thesis using assms that by (cases r) (auto simp: unframe_def)
qed

lemma decode_all_ok: "decode_all dec bs = (ms, None) \<longleftrightarrow> map dec bs = map Inr ms"
proof (induction bs arbitrary: ms)
  case (Cons b bs)
  show ?case using Cons [of "tl ms"] by (cases ms; cases "dec b") (auto split: prod.splits)
qed auto

lemma messages_run_ok:
  "messages_run dec headers chunks bend = Some (ms, None) \<longleftrightarrow>
    (\<exists>bs trailers. unframe chunks = Some (bs, None) \<and> map dec bs = map Inr ms \<and> bend = BodyEnds trailers \<and>
       validateStatus headers trailers = None)"
proof -
  obtain bs r where r: "unframe_run new_unframer chunks = Some (bs, r)" using unframe_run_total by blast
  have m: "messages_run dec headers chunks bend = Some (ms, None) \<longleftrightarrow> decode_all dec bs = (ms, None) \<and> body_outcome headers r bend = None"
    using r by (auto simp: messages_run_def split: prod.splits option.splits)
  show ?thesis unfolding m decode_all_ok
    using r by (cases r; cases bend) (auto simp: body_outcome_def unframe_def split: option.splits)
qed

lemma check_response_committed: "check_response r = (c, None) \<Longrightarrow> c"
  by (auto simp: check_response_def Let_def split: if_splits option.splits)

lemma check_response_ok:
  "check_response r = (True, None) \<longleftrightarrow> rs_status r = 200 \<and>
    (\<exists>v. rs_headers r (js ''content-type'') = Some v \<and> grpc_content_type v) \<and>
    (trailersOnly r \<longrightarrow> validateStatus (rs_headers r) None = None)"
proof -
  have "\<not> grpc_content_type []" by (simp add: grpc_content_type_def ascii_lower_def js_def)
  then show ?thesis by (auto simp: check_response_def Let_def split: option.splits)
qed

lemma unary_loop_ok: "unary_loop 0 None ms err = Inr m \<longleftrightarrow> ms = [m] \<and> err = None"
  by (cases ms; cases "tl ms"; cases err) (auto simp: fresh_error_def)

subsection \<open>Properties\<close>

text \<open>C11: A unary call returns a message exactly if the response has HTTP status 200 and a gRPC content type, its body is, for
  any chunking, exactly one complete record, which decodes to that message, and the gRPC status is 0. Processing the
  response always ends.\<close>

theorem unary_exact:
  "\<exists>c res. start_response from_reason str dec s1 s2 head chunks bend = Some (c, res) \<and>
    (unary_result res = Inr m \<longleftrightarrow>
      (\<exists>r v b trailers. head = Inr r \<and> rs_status r = 200 \<and> rs_headers r (js ''content-type'') = Some v \<and>
        grpc_content_type v \<and> unframe chunks = Some ([b], None) \<and> dec b = Inr m \<and> bend = BodyEnds trailers \<and>
        validateStatus (rs_headers r) trailers = None \<and> (trailersOnly r \<longrightarrow> validateStatus (rs_headers r) None = None)))"
proof (cases head)
  case (Inl e)
  then show ?thesis by (simp add: start_response_def unary_result_def) blast
next
  case (Inr r)
  obtain c e where ce: "check_response r = (c, e)" by force
  obtain ms err where run: "messages_run dec (rs_headers r) chunks bend = Some (ms, err)" using messages_run_total by blast
  show ?thesis
  proof (cases e)
    case None
    then have "c" using check_response_committed ce by blast
    have u: "unary_result (Inr (ms, map_option (translate from_reason str s2 c) err)) = Inr m \<longleftrightarrow> ms = [m] \<and> err = None"
      by (auto simp: unary_result_def unary_loop_ok)
    have "ms = [m] \<and> err = None \<longleftrightarrow> (\<exists>b trailers. unframe chunks = Some ([b], None) \<and> dec b = Inr m \<and> bend = BodyEnds trailers \<and>
        validateStatus (rs_headers r) trailers = None)"
      using messages_run_ok [of dec "rs_headers r" chunks bend "[m]"] run by (auto simp: map_eq_Cons_conv)
    then show ?thesis using check_response_ok [of r] u ce None \<open>c\<close> run by (auto simp: start_response_def Inr)
  next
    case (Some ce')
    then have "\<not> check_response r = (True, None)" using ce by simp
    then show ?thesis using check_response_ok [of r] ce Some by (auto simp: start_response_def Inr unary_result_def)
  qed
qed

definition ok_headers :: header_object where
  "ok_headers = [js ''content-type'' \<mapsto> js ''application/grpc'', js ''grpc-status'' \<mapsto> js ''0'']"

theorem unary_exact_witness:
  "\<exists>c res. start_response (\<lambda>_. truncated) (\<lambda>_. []) Inr (start_call NoSignal None) (start_call NoSignal None)
      (Inr \<lparr>rs_status = 200, rs_headers = ok_headers, rs_endStream = False\<rparr>) [[0, 0, 0], [0, 1, 9]] (BodyEnds None) =
      Some (c, res) \<and> unary_result res = Inr [9]"
proof -
  have "unframe [[0, 0, 0], [0, 1, 9]] = Some ([[9]], None)"
    using unframe_eq [of "[[0, 0, 0], [0, 1, 9]]"] read_framed [of "[[9]]" "[]"] read_records_partial [of "[]"]
    by (simp add: MAX_MESSAGE_def be32_def drop_bit_eq_div record_at_def)
  moreover have "grpc_content_type (js ''application/grpc'')"
    by (simp add: grpc_content_type_def ascii_lower_def js_def word_le_nat_alt)
  moreover have "validateStatus ok_headers None = None"
    by (simp add: validateStatus_def trailer_or_header_def ok_headers_def status_pattern_zero)
  ultimately show ?thesis
    using unary_exact [of "\<lambda>_. truncated" "\<lambda>_. []" Inr "start_call NoSignal None" "start_call NoSignal None"
      "Inr \<lparr>rs_status = 200, rs_headers = ok_headers, rs_endStream = False\<rparr>" "[[0, 0, 0], [0, 1, 9]]" "BodyEnds None" "[9]"]
    by (simp add: trailersOnly_def) (simp add: ok_headers_def js_def)
qed

text \<open>Nothing of a response reaches the caller before the call is committed: a call that has a message stream is
  committed, and an error, unless the call was aborted, tells the retry layer whether it is committed.\<close>

theorem commit_precedes_delivery:
  assumes "start_response from_reason str dec s1 s2 head chunks bend = Some (c, res)"
  shows "case res of
      Inr (ms, err) \<Rightarrow> c \<and> (cs_abort s2 = None \<longrightarrow> (\<forall>e. err = Some e \<longrightarrow> info_committed e))
    | Inl e \<Rightarrow> cs_abort s1 = None \<longrightarrow> info_committed e = c"
proof -
  have t: "info_committed (translate from_reason str s k e) = k" if "cs_abort s = None" for s k e
    using that by (cases e) (auto simp: translate_def info_committed_def)
  show ?thesis
    using assms check_response_committed
    by (auto simp: start_response_def t split: sum.splits prod.splits option.splits)
qed

theorem commit_precedes_delivery_witness:
  "\<exists>c e. start_response (\<lambda>_. truncated) (\<lambda>_. []) Inr (start_call NoSignal None) (start_call NoSignal None)
      (Inr \<lparr>rs_status = 503, rs_headers = ok_headers, rs_endStream = False\<rparr>) [] (BodyEnds None) =
      Some (c, Inl e) \<and> info_committed e"
proof -
  let ?r = "\<lparr>rs_status = 503, rs_headers = ok_headers, rs_endStream = False\<rparr>"
  let ?run = "start_response (\<lambda>_. truncated) (\<lambda>_. []) Inr (start_call NoSignal None) (start_call NoSignal None) (Inr ?r) [] (BodyEnds None)"
  have "\<exists>e. ?run = Some (True, Inl e)" by (simp add: start_response_def check_response_def trailersOnly_def)
  then obtain e where e: "?run = Some (True, Inl e)" by blast
  moreover have "info_committed e" using commit_precedes_delivery [OF e] by (simp add: start_call_def)
  ultimately show ?thesis by blast
qed

text \<open>Once a call is aborted (by its caller, its deadline, a failing producer or its own end) or its upload is canceled, the
  first reason stays, and a producer that settles late neither sends a message nor closes or fails the body. A finished
  call holds no timer and no listener, and never gets one back.\<close>

theorem late_input_ignored:
  assumes "call_steps enc s as s'"
  shows "(cs_abort s \<noteq> None \<longrightarrow> cs_abort s' = cs_abort s \<and> set as \<subseteq> {Ignored}) \<and>
    (cs_inputCanceled s \<longrightarrow> set as \<subseteq> {Ignored}) \<and>
    (s = finish_call s0 \<longrightarrow> cs_abort s' \<noteq> None \<and> \<not> cs_timer s' \<and> \<not> cs_listening s')"
  using call_steps_keep [OF assms] finish_call_ends [of s0] by (auto simp: released_def)

theorem late_input_ignored_witness:
  "fst (pull (\<lambda>v. Inr v) (Value [1]) (timer_fires (start_call NoSignal (Some (Finite 5))))) = Ignored"
proof -
  let ?s = "timer_fires (start_call NoSignal (Some (Finite 5)))"
  have "call_steps (\<lambda>v. Inr v) ?s ([fst (pull (\<lambda>v. Inr v) (Value [1]) ?s)] @ []) (snd (pull (\<lambda>v. Inr v) (Value [1]) ?s))"
    by (intro steps_cons [OF step_pull steps_nil]) simp
  from late_input_ignored [OF this] show ?thesis
    by (simp add: start_call_def timer_fires_def positive_timeout_def)
qed

lemmas call_headers_simps = call_headers_def Let_def js_inj positive_timeout_def

lemma call_headers_fixed:
  "call_headers auth t h (js ''content-type'') = Some (js ''application/grpc'')"
  "call_headers auth t h (js ''te'') = Some (js ''trailers'')"
  "call_headers auth t h (js ''grpc-accept-encoding'') = Some (js ''identity'')"
  by (simp_all add: call_headers_simps split: option.splits)

lemma call_headers_choice:
  "call_headers auth t h (js ''authorization'') = (case h (js ''authorization'') of Some a \<Rightarrow> Some a | None \<Rightarrow> auth)"
  "call_headers auth t h (js ''grpc-timeout'') = (if positive_timeout t then Some (grpc_timeout (the t)) else h (js ''grpc-timeout''))"
  by (simp_all add: call_headers_simps split: option.splits)

lemma call_headers_other:
  "n \<notin> set (map js [''content-type'', ''te'', ''grpc-accept-encoding'', ''authorization'', ''grpc-timeout'']) \<Longrightarrow>
   call_headers auth t h n = h n"
  by (simp add: call_headers_def Let_def split: option.splits)

lemma grpc_timeout_bounds:
  assumes "positive_timeout (Some w)"
  shows "\<exists>ds. grpc_timeout w = ds @ js ''m'' \<and> canonical_numeral ds \<and> 1 \<le> decimal ds \<and> length ds \<le> 8 \<and>
     (\<forall>r. w = Finite r \<longrightarrow> r \<le> of_int (decimal ds) \<or> decimal ds = 99999999)"
proof -
  have u1: "0 < timeout_units w" using assms by (cases w) (auto simp: positive_timeout_def)
  have u2: "timeout_units w < 10 ^ 8" by (cases w) auto
  have "r \<le> real (timeout_units w) \<or> timeout_units w = 99999999" if "w = Finite r" for r
    using that real_nat_ceiling_ge [of r] by (auto simp: min_def)
  with u1 u2 length_nat_text [of 8 "timeout_units w"] show ?thesis
    by (intro exI [of _ "nat_text (timeout_units w)"])
       (auto simp: grpc_timeout_def decimal_nat_text nat_text_canonical)
qed

text \<open>The headers of every call are valid gRPC: the protocol headers are fixed whatever the caller passes, the caller's
  own authorization wins over the configured token, all other headers are the caller's, and a deadline is sent as at
  most eight digits of milliseconds that never undercut it, except for the cap.\<close>

theorem call_headers_valid:
  "call_headers auth t h (js ''content-type'') = Some (js ''application/grpc'') \<and>
   call_headers auth t h (js ''te'') = Some (js ''trailers'') \<and>
   call_headers auth t h (js ''grpc-accept-encoding'') = Some (js ''identity'') \<and>
   call_headers auth t h (js ''authorization'') = (case h (js ''authorization'') of Some a \<Rightarrow> Some a | None \<Rightarrow> auth) \<and>
   call_headers auth t h (js ''grpc-timeout'') =
     (if positive_timeout t then Some (grpc_timeout (the t)) else h (js ''grpc-timeout'')) \<and>
   (n \<notin> set (map js [''content-type'', ''te'', ''grpc-accept-encoding'', ''authorization'', ''grpc-timeout'']) \<longrightarrow>
     call_headers auth t h n = h n) \<and>
   (positive_timeout (Some w) \<longrightarrow> (\<exists>ds. grpc_timeout w = ds @ js ''m'' \<and> canonical_numeral ds \<and> 1 \<le> decimal ds \<and> length ds \<le> 8 \<and>
     (\<forall>r. w = Finite r \<longrightarrow> r \<le> of_int (decimal ds) \<or> decimal ds = 99999999)))"
  unfolding call_headers_fixed call_headers_choice
  by (intro conjI refl impI call_headers_other grpc_timeout_bounds)

theorem call_headers_valid_witness:
  "\<exists>ds. grpc_timeout (Finite 3) = ds @ js ''m'' \<and> canonical_numeral ds \<and> 1 \<le> decimal ds \<and> length ds \<le> 8 \<and>
     (\<forall>r. Finite 3 = Finite r \<longrightarrow> r \<le> real_of_int (decimal ds) \<or> decimal ds = 99999999)"
proof -
  have "positive_timeout (Some (Finite 3))" by (simp add: positive_timeout_def)
  then show ?thesis using call_headers_valid [of None None "\<lambda>_. None" "[]" "Finite 3"] by blast
qed

end
