(* ===== verification/Client.thy ===== *)
theory Client
  imports Contract_Graph Tunnel Channel
begin

text \<open>
  The client API above the transports: \<^verbatim>\<open>web/src/interceptors.ts\<close>, the strict clients of
  \<^verbatim>\<open>web/src/strict-client.ts\<close>, and the construction of a connection in \<^verbatim>\<open>web/src/client.ts\<close>.

  Connect runs the interceptors (\<^verbatim>\<open>runUnaryCall\<close>, \<^verbatim>\<open>runStreamingCall\<close>): an interceptor is a value of the type \<open>'h\<close>
  that is only passed on. What this code contributes is the closure \<^verbatim>\<open>next\<close> that the innermost interceptor calls; its
  statements hold for every request an interceptor may pass to it. Services and methods are compared by identity.
\<close>

subsection \<open>Requests through interceptors\<close>

record logical_request =
  lq_service :: nat
  lq_method :: desc_method
  lq_header :: header_object

record transport_call =
  tc_method :: desc_method
  tc_timeout :: "jsnum option"
  tc_header :: header_object

text \<open>What a finalizer can throw: a \<^verbatim>\<open>ConnectError\<close>, an error of the contract registry, or the \<^verbatim>\<open>TypeError\<close> of
  \<^verbatim>\<open>Headers\<close>.\<close>

datatype final_error = OutsideContract connect_error | RegistryError contract_error | BadHeader

type_synonym finalizer = "logical_request \<Rightarrow> final_error + header_object"

definition call_deadline :: "jsnum option \<Rightarrow> real \<Rightarrow> jsnum option" where
  "call_deadline timeoutMs now =
     (if positive_timeout timeoutMs then
        (case timeoutMs of Some (Finite r) \<Rightarrow> Some (Finite (now + r)) | _ \<Rightarrow> Some (Infinite False))
      else None)"

definition next_timeout :: "jsnum option \<Rightarrow> jsnum option \<Rightarrow> real \<Rightarrow> jsnum option" where
  "next_timeout timeoutMs deadline now =
     (case deadline of
        None \<Rightarrow> timeoutMs
      | Some (Finite d) \<Rightarrow> Some (Finite (max 1 (d - now)))
      | Some d \<Rightarrow> Some d)"

text \<open>The closure \<^verbatim>\<open>next\<close>: the arguments of the inner transport, or what the finalizer throws.\<close>

definition next_call ::
    "finalizer option \<Rightarrow> jsnum option \<Rightarrow> jsnum option \<Rightarrow> real \<Rightarrow> logical_request \<Rightarrow> final_error + transport_call" where
  "next_call finalizeRequest timeoutMs deadline now req =
     bind_result (case finalizeRequest of Some f \<Rightarrow> f req | None \<Rightarrow> Inr (lq_header req)) (\<lambda>header.
     Inr \<lparr>tc_method = lq_method req, tc_timeout = next_timeout timeoutMs deadline now, tc_header = header\<rparr>)"

definition strip_slashes :: "jsstring \<Rightarrow> jsstring" where
  "strip_slashes s = rev (dropWhile (\<lambda>u. u = 47) (rev s))"

definition request_url :: "jsstring \<Rightarrow> jsstring \<Rightarrow> jsstring \<Rightarrow> jsstring" where
  "request_url baseUrl typeName name = strip_slashes baseUrl @ [47] @ typeName @ [47] @ name"

text \<open>The wrapped transport, or \<open>Unwrapped\<close> when there is nothing to run.\<close>

datatype 'h wrapped = Unwrapped | Wrapped (hooks: "'h list") (base_url: jsstring) (final: "finalizer option")

definition interceptTransport :: "'h list option \<Rightarrow> jsstring \<Rightarrow> finalizer option \<Rightarrow> 'h wrapped" where
  "interceptTransport interceptors baseUrl finalizeRequest =
     (if (case interceptors of None \<Rightarrow> True | Some hs \<Rightarrow> hs = []) \<and> finalizeRequest = None then Unwrapped
      else Wrapped (case interceptors of None \<Rightarrow> [] | Some hs \<Rightarrow> hs) (strip_slashes baseUrl) finalizeRequest)"

subsection \<open>Contract-bound clients\<close>

definition contract_header :: jsstring where
  "contract_header = js ''x-proto-contract''"

definition stamp :: "contract_record \<Rightarrow> jsstring" where
  "stamp contract = cr_api contract @ [64] @ cr_version contract"

definition in_contract :: "contract_record \<Rightarrow> logical_request \<Rightarrow> bool" where
  "in_contract contract req \<longleftrightarrow> lq_service req = ds_id (cr_service contract) \<and>
     dt_parent (lq_method req) = ds_id (cr_service contract) \<and>
     dt_id (lq_method req) \<in> dt_id ` set (ds_methods (cr_service contract))"

text \<open>The closure that \<^verbatim>\<open>contractFinalizer\<close> returns; \<open>rg\<close> is the registry when it is called.\<close>

definition finalize :: "nat option \<Rightarrow> contract_record \<Rightarrow> registry \<Rightarrow> finalizer" where
  "finalize definition_arg contract rg req =
     (if \<not> in_contract contract req then
        Inl (OutsideContract (new_ConnectError ''RPC method is outside the generated contract'' 3))
      else case contractRecord rg definition_arg of
        Inl e \<Rightarrow> Inl (RegistryError e)
      | Inr _ \<Rightarrow>
          (case header_value (stamp contract) of
             None \<Rightarrow> Inl BadHeader
           | Some v \<Rightarrow> Inr ((lq_header req)(contract_header := None, contract_header \<mapsto> v))))"

definition contractFinalizer :: "registry \<Rightarrow> nat option \<Rightarrow> contract_error + (registry \<Rightarrow> finalizer)" where
  "contractFinalizer rg definition_arg =
     bind_result (contractRecord rg definition_arg) (\<lambda>contract. Inr (finalize definition_arg contract))"

text \<open>Managed handles: \<^verbatim>\<open>managedConnections\<close> maps the identity of a handle to the interceptor options of its
  connection.\<close>

datatype client_error = UnmanagedHandle | ContractError contract_error

type_synonym 'h hook_options = "('h list \<times> jsstring) option"

definition clientTransport :: "'h hook_options \<Rightarrow> 'h list option \<Rightarrow> finalizer \<Rightarrow> 'h wrapped" where
  "clientTransport opts clientInterceptors finalizeRequest =
     interceptTransport
       (Some ((case clientInterceptors of Some hs \<Rightarrow> hs | None \<Rightarrow> []) @ (case opts of Some (hs, _) \<Rightarrow> hs | None \<Rightarrow> [])))
       (case opts of Some (_, url) \<Rightarrow> url | None \<Rightarrow> js ''http://backend'') (Some finalizeRequest)"

definition managedClientTransport ::
    "(nat \<rightharpoonup> 'h hook_options) \<Rightarrow> nat \<Rightarrow> 'h list option \<Rightarrow> finalizer \<Rightarrow> client_error + 'h wrapped" where
  "managedClientTransport managed owner clientInterceptors finalizeRequest =
     (case managed owner of
        None \<Rightarrow> Inl UnmanagedHandle
      | Some opts \<Rightarrow> Inr (clientTransport opts clientInterceptors finalizeRequest))"

text \<open>\<^verbatim>\<open>createBoundClient\<close>; the finalizer reads the registry \<open>now\<close> of each call.\<close>

definition createBoundClient ::
    "registry \<Rightarrow> registry \<Rightarrow> (nat \<rightharpoonup> 'h hook_options) \<Rightarrow> nat \<Rightarrow> nat option \<Rightarrow> 'h list option \<Rightarrow>
     client_error + desc_service \<times> 'h wrapped" where
  "createBoundClient rg now managed owner definition_arg interceptors =
     (case contractRecord rg definition_arg of
        Inl e \<Rightarrow> Inl (ContractError e)
      | Inr contract \<Rightarrow>
          (case contractFinalizer rg definition_arg of
             Inl e \<Rightarrow> Inl (ContractError e)
           | Inr f \<Rightarrow>
               bind_result (managedClientTransport managed owner interceptors (f now)) (\<lambda>transport.
                 Inr (cr_service contract, transport))))"

subsection \<open>Connections\<close>

datatype token_source = StaticToken jsstring | TokenProvider "exn + jsstring option"

definition resolveToken :: "token_source option \<Rightarrow> exn + jsstring option" where
  "resolveToken source =
     (case source of None \<Rightarrow> Inr None | Some (StaticToken t) \<Rightarrow> Inr (Some t) | Some (TokenProvider r) \<Rightarrow> r)"

record connection_options =
  co_targets :: "jsstring list option"
  co_target :: "jsstring option"
  co_tunnelToken :: "token_source option"
  co_backendBearerToken :: "token_source option"
  co_authority :: "jsstring option"
  co_scheme :: "jsstring option"

record connection_plan =
  cn_label :: "jsstring option"
  cn_authority :: jsstring
  cn_baseUrl :: jsstring

definition createBridgeConnection :: "connection_options \<Rightarrow> label_error + connection_plan" where
  "createBridgeConnection options =
     bind_result (targetLabel (co_targets options) (co_target options)) (\<lambda>selectedLabel.
     let authority = (case co_authority options of Some a \<Rightarrow> a
           | None \<Rightarrow> (case selectedLabel of Some l \<Rightarrow> l | None \<Rightarrow> js ''backend''))
     in Inr \<lparr>cn_label = selectedLabel, cn_authority = authority,
             cn_baseUrl = (case co_scheme options of Some s \<Rightarrow> s | None \<Rightarrow> js ''http'') @ js ''://'' @ authority\<rparr>)"

datatype dial_error = TokenError | DialAborted | OpenError connect_error | InvalidToken

text \<open>One dial: \<open>aborted\<close> is the signal after the tokens are resolved, \<open>opened\<close> the outcome of \<^verbatim>\<open>openChannel\<close>. The result is
  the error or the transport's default authorization, and whether a channel was opened and closed again.\<close>

record dial_result =
  dr_outcome :: "dial_error + jsstring option"
  dr_protocols :: "jsstring list option"
  dr_opened :: bool
  dr_closed :: bool

definition no_channel :: "dial_error \<Rightarrow> dial_result" where
  "no_channel e = \<lparr>dr_outcome = Inl e, dr_protocols = None, dr_opened = False, dr_closed = False\<rparr>"

text \<open>\<^verbatim>\<open>Promise.all\<close> rejects if one of the two does; which of two errors it reports is not modelled.\<close>

definition dial_tokens :: "connection_options \<Rightarrow> exn + jsstring option \<times> jsstring option" where
  "dial_tokens options =
     bind_result (resolveToken (co_tunnelToken options)) (\<lambda>tunnelToken.
     bind_result (resolveToken (co_backendBearerToken options)) (\<lambda>backendBearerToken.
     Inr (tunnelToken, backendBearerToken)))"

definition dial :: "connection_options \<Rightarrow> connection_plan \<Rightarrow> bool \<Rightarrow> connect_error + unit \<Rightarrow> dial_result" where
  "dial options plan aborted opened =
     (case dial_tokens options of
        Inl _ \<Rightarrow> no_channel TokenError
      | Inr (tunnelToken, backendBearerToken) \<Rightarrow>
          if aborted then no_channel DialAborted
          else
            let protos = Some (protocols (case tunnelToken of Some t \<Rightarrow> t | None \<Rightarrow> []));
                options' = \<lparr>to_bearerToken = backendBearerToken, to_authority = Some (cn_authority plan), to_scheme = co_scheme options\<rparr>
            in case opened of
                 Inl e \<Rightarrow> (no_channel (OpenError e))\<lparr>dr_protocols := protos\<rparr>
               | Inr () \<Rightarrow>
                   (case authorization_default options' of
                      None \<Rightarrow> \<lparr>dr_outcome = Inl InvalidToken, dr_protocols = protos, dr_opened = True, dr_closed = True\<rparr>
                    | Some auth \<Rightarrow> \<lparr>dr_outcome = Inr auth, dr_protocols = protos, dr_opened = True, dr_closed = False\<rparr>))"

subsection \<open>The stamp is always a valid header\<close>

definition plain_unit :: "codeunit \<Rightarrow> bool" where
  "plain_unit u \<longleftrightarrow> 32 < unat u \<and> unat u < 127"

lemma header_value_plain:
  assumes "list_all plain_unit v"
  shows "header_value v = Some v"
proof -
  have sp: "\<not> http_space u \<and> u \<noteq> 0 \<and> u \<noteq> 10 \<and> u \<noteq> 13 \<and> unat u \<le> 255" if "plain_unit u" for u
    using that by (auto simp: plain_unit_def http_space_def)
  have d: "dropWhile http_space w = w" if "list_all plain_unit w" for w
    using that sp by (cases w) auto
  have "list_all plain_unit (rev v)" using assms by simp
  then show ?thesis using d [OF assms] d [of "rev v"] assms sp by (auto simp: header_value_def Let_def list_all_iff)
qed

lemma plain_digit: "js_digit u \<Longrightarrow> plain_unit u"
  unfolding js_digit_def plain_unit_def by linarith

lemma plain_api_unit: "api_unit u \<Longrightarrow> plain_unit u"
  unfolding api_unit_def js_digit_def plain_unit_def by linarith

lemma plain_api: "api_pattern s \<Longrightarrow> list_all plain_unit s"
  unfolding api_pattern_def by (blast intro: list.pred_mono_strong plain_api_unit)

lemma plain_digits: "list_all js_digit s \<Longrightarrow> list_all plain_unit s"
  by (blast intro: list.pred_mono_strong plain_digit)

lemma plain_version: "isCanonicalVersion s \<Longrightarrow> list_all plain_unit s"
  using nat_text_digits by (auto simp: canonical_version plain_digits) (simp_all add: plain_unit_def)

lemma plain_stamp: "api_pattern (cr_api c) \<Longrightarrow> isCanonicalVersion (cr_version c) \<Longrightarrow> header_value (stamp c) = Some (stamp c)"
  by (intro header_value_plain) (simp add: stamp_def plain_api plain_version plain_unit_def)

subsection \<open>Properties\<close>

definition later_definition :: "scalar_enum \<Rightarrow> store \<Rightarrow> registry \<Rightarrow> registry \<Rightarrow> bool" where
  "later_definition sc st rg rg' \<longleftrightarrow> (\<exists>input d. defineContract sc st rg input = Inr (d, rg'))"

lemma definitions_keep:
  assumes "(later_definition sc st)\<^sup>*\<^sup>* rg rg'" "registry_ok rg" "contractRecord rg d = Inr r"
  shows "contractRecord rg' d = Inr r"
proof -
  have "registry_ok rg' \<and> contractRecord rg' d = Inr r"
    using assms
  proof (induction rule: rtranclp_induct)
    case (step x y)
    then obtain input e where e: "defineContract sc st x input = Inr (e, y)" by (auto simp: later_definition_def)
    have i: "registry_ok x" "contractRecord x d = Inr r" using step by auto
    note k = defineContract_registry [OF i(1) e]
    obtain a where a: "d = Some a" using i(2) by (cases d) (simp_all add: contractRecord_def)
    have "a \<noteq> e" using k(2) i(2) by (auto simp: a)
    then show ?case using k(1) k(4) [of a] i(2) by (simp add: a)
  qed simp
  then show ?thesis ..
qed

lemma defined_record:
  assumes "registry_ok rg" "defineContract sc st rg input = Inr (d, rg1)"
  obtains r where "contractRecord rg1 (Some d) = Inr r" "ci_service input = Some (cr_service r)"
    "ci_api input = Some (cr_api r)" "ci_version input = Some (cr_version r)"
    "api_pattern (cr_api r)" "isCanonicalVersion (cr_version r)"
proof -
  from defineContract_registry(3) [OF assms] obtain r where
    r: "contractRecord rg1 (Some d) = Inr r" "ci_service input = Some (cr_service r)"
      "ci_api input = Some (cr_api r)" "ci_version input = Some (cr_version r)" by blast
  have "\<exists>x. checked_strings input = Inr x" using assms(2) by (elim defineContract_Inr) auto
  then have "texts_ok input" using checked_strings_iff by blast
  then show ?thesis using that r by (auto simp: texts_ok_def)
qed

text \<open>C13: A client bound to a contract cannot leave it: whatever request the interceptors pass on, and whatever contracts are
  defined later, a call reaches the transport only with a method of the contract's service, and then with exactly the
  contract's stamp in \<^verbatim>\<open>x-proto-contract\<close> and the other headers unchanged; every other call fails.\<close>

theorem contract_guard:
  assumes "registry_ok rg0" "defineContract sc st rg0 input = Inr (d, rg)" "(later_definition sc st)\<^sup>*\<^sup>* rg now"
    "managed owner = Some opts" "ci_service input = Some service" "ci_api input = Some api" "ci_version input = Some version"
  shows "\<exists>transport f. createBoundClient rg now managed owner (Some d) interceptors = Inr (service, transport) \<and>
    final transport = Some f \<and>
    (\<forall>req timeoutMs deadline t.
       if lq_service req = ds_id service \<and> dt_parent (lq_method req) = ds_id service \<and>
          dt_id (lq_method req) \<in> dt_id ` set (ds_methods service)
       then \<exists>call. next_call (Some f) timeoutMs deadline t req = Inr call \<and> tc_method call = lq_method req \<and>
          tc_header call = (lq_header req)(contract_header \<mapsto> api @ [64] @ version)
       else \<exists>e. next_call (Some f) timeoutMs deadline t req = Inl (OutsideContract e))"
proof -
  from defined_record [OF assms(1,2)] obtain r where
    r: "contractRecord rg (Some d) = Inr r" "cr_service r = service" "cr_api r = api" "cr_version r = version"
      "api_pattern (cr_api r)" "isCanonicalVersion (cr_version r)"
    using assms(5-7) by (metis option.inject)
  have ok: "registry_ok rg" by (rule defineContract_registry(1) [OF assms(1,2)])
  have now: "contractRecord now (Some d) = Inr r" by (rule definitions_keep [OF assms(3) ok r(1)])
  let ?f = "finalize (Some d) r now"
  have client: "createBoundClient rg now managed owner (Some d) interceptors = Inr (service, clientTransport opts interceptors ?f)"
    by (simp add: createBoundClient_def contractFinalizer_def managedClientTransport_def r(1,2) assms(4))
  have f: "final (clientTransport opts interceptors ?f) = Some ?f" by (simp add: clientTransport_def interceptTransport_def)
  have "stamp r = api @ [64] @ version" by (simp add: stamp_def r(3,4))
  then show ?thesis
    using client f plain_stamp [OF r(5,6)]
    by (intro exI [of _ "clientTransport opts interceptors ?f"] exI [of _ ?f])
       (auto simp: next_call_def finalize_def in_contract_def now r(2))
qed

definition sample_request :: logical_request where
  "sample_request = \<lparr>lq_service = 8, lq_method = hd (ds_methods sample_service), lq_header = Map.empty\<rparr>"

theorem contract_guard_witness:
  "\<exists>d rg transport f. defineContract [] sample_store empty_registry sample_input = Inr (d, rg) \<and>
    createBoundClient rg rg [5 \<mapsto> None] 5 (Some d) (Some [True]) = Inr (sample_service, transport) \<and> final transport = Some f \<and>
    (\<exists>e. next_call (Some f) None None 0 sample_request = Inl (OutsideContract e))"
proof -
  from sample_accepted obtain d rg where d: "defineContract [] sample_store empty_registry sample_input = Inr (d, rg)" by blast
  have "registry_ok empty_registry" by (simp add: registry_ok_def empty_registry_def)
  then show ?thesis
    using contract_guard [OF _ d rtranclp.rtrancl_refl, of "[5 \<mapsto> None]" 5 None sample_service "js ''a''" "js ''1.0.0''" "Some [True]"] d
    by (auto simp: sample_input_def sample_service_def sample_request_def dest!: spec [of _ sample_request])
qed

text \<open>A deadline that interceptors consume is passed on shortened, by at least a millisecond and never extended past the
  caller's.\<close>

theorem next_timeout_bounds:
  assumes "call_deadline (Some (Finite r)) start = Some dl" "start \<le> now"
  shows "\<exists>left. next_timeout (Some (Finite r)) (Some dl) now = Some (Finite left) \<and> 1 \<le> left \<and> (left = 1 \<or> now + left = start + r)"
  using assms by (auto simp: call_deadline_def next_timeout_def positive_timeout_def max_def split: if_splits)

text \<open>A dial that fails leaves no channel open.\<close>

theorem failed_dial_leaks_nothing:
  "dr_outcome (dial options plan aborted opened) = Inl e \<Longrightarrow>
    dr_opened (dial options plan aborted opened) = dr_closed (dial options plan aborted opened)"
  by (auto simp: dial_def no_channel_def Let_def split: sum.splits prod.splits option.splits if_splits unit.splits)

end
