(* ===== verification/Abort_Scope.thy ===== *)
theory Abort_Scope
  imports Tunnel Scope
begin

text \<open>
  The life of the abort controller of one call. \<^verbatim>\<open>transport.ts\<close> and \<^verbatim>\<open>retry.ts\<close> wire a controller to the caller's signal,
  to a deadline timer and to the end of the call in the same way; the locale \<open>abort_scope\<close> states what both promise. This
  theory has the wiring of \<^verbatim>\<open>RetryingTransport.run\<close>, the composition of the two controllers (the signal of a retried call
  is the caller's signal of each attempt) and the ends of a retried call.
\<close>

subsection \<open>The scope of a retried call\<close>

record run_scope =
  us_abort :: "connect_error option"
  us_timer :: bool
  us_signal :: bool
  us_stopped :: bool

definition us_abort_with :: "connect_error \<Rightarrow> run_scope \<Rightarrow> run_scope" where
  "us_abort_with e s = (if us_abort s = None then s\<lparr>us_abort := Some e\<rparr> else s)"

definition us_cancel :: "run_scope \<Rightarrow> run_scope" where
  "us_cancel = us_abort_with (new_ConnectError ''Call canceled'' Canceled)"

definition us_shutdown :: "run_scope \<Rightarrow> run_scope" where
  "us_shutdown = us_abort_with (new_ConnectError ''Channel closed'' Unavailable)"

text \<open>The state of the caller's signal (\<open>None\<close>: no signal) and of the channel's, and whether there is a deadline. The
  listeners are added before the signals are looked at.\<close>

definition run_scope_start :: "bool option \<Rightarrow> bool \<Rightarrow> bool \<Rightarrow> run_scope" where
  "run_scope_start sig stopped finite_deadline =
     (let s = \<lparr>us_abort = None, us_timer = False, us_signal = (sig \<noteq> None), us_stopped = True\<rparr>;
          s = (if sig = Some True then us_cancel s else s);
          s = (if stopped then us_shutdown s else s)
      in s\<lparr>us_timer := finite_deadline\<rparr>)"

definition us_signal_aborts :: "run_scope \<Rightarrow> run_scope" where
  "us_signal_aborts s = (if us_signal s then us_cancel (s\<lparr>us_signal := False\<rparr>) else s)"

definition us_channel_stops :: "run_scope \<Rightarrow> run_scope" where
  "us_channel_stops s = (if us_stopped s then us_shutdown (s\<lparr>us_stopped := False\<rparr>) else s)"

definition us_timer_fires :: "run_scope \<Rightarrow> run_scope" where
  "us_timer_fires s =
     (if us_timer s then us_abort_with (new_ConnectError ''Deadline exceeded'' DeadlineExceeded) (s\<lparr>us_timer := False\<rparr>) else s)"

definition us_cleanup :: "run_scope \<Rightarrow> run_scope" where
  "us_cleanup s = s\<lparr>us_timer := False, us_signal := False, us_stopped := False\<rparr>"

definition us_held :: "run_scope \<Rightarrow> bool" where
  "us_held s \<longleftrightarrow> us_timer s \<or> us_signal s \<or> us_stopped s"

inductive run_scope_step :: "run_scope \<Rightarrow> run_scope \<Rightarrow> bool" where
  run_signal: "run_scope_step s (us_signal_aborts s)"
| run_stop: "run_scope_step s (us_channel_stops s)"
| run_timer: "run_scope_step s (us_timer_fires s)"
| run_cleanup: "run_scope_step s (us_cleanup s)"

lemmas us_defs = us_abort_with_def us_cancel_def us_shutdown_def us_signal_aborts_def us_channel_stops_def us_timer_fires_def
  us_cleanup_def us_held_def

text \<open>\<^verbatim>\<open>setTimeout\<close> takes its delay as a signed 32-bit integer, and a negative one as 0.\<close>

definition setTimeout_ms :: "real \<Rightarrow> int" where
  "setTimeout_ms d = max 0 (sint (word_of_int \<lfloor>d\<rfloor> :: 32 word))"

definition deadline_timer :: "real option \<Rightarrow> real \<Rightarrow> int option" where
  "deadline_timer deadline now = map_option (\<lambda>d. setTimeout_ms (max 0 (d - now))) deadline"

lemma setTimeout_ms_mod: "setTimeout_ms d = max 0 ((\<lfloor>d\<rfloor> + 2147483648) mod 4294967296 - 2147483648)"
  by (simp add: setTimeout_ms_def int_word_sint)

lemma setTimeout_ms_wraps:
  assumes "2147483648 \<le> d" "d < 4294967296"
  shows "setTimeout_ms d = 0"
proof -
  have "2147483648 \<le> \<lfloor>d\<rfloor>" "\<lfloor>d\<rfloor> < 4294967296" using assms by linarith+
  then have "(\<lfloor>d\<rfloor> - 2147483648 + 4294967296) mod 4294967296 = \<lfloor>d\<rfloor> - 2147483648"
    by (simp only: mod_add_self2) (simp add: mod_pos_pos_trivial)
  then have "(\<lfloor>d\<rfloor> + 2147483648) mod 4294967296 = \<lfloor>d\<rfloor> - 2147483648" by (simp add: add.commute)
  with \<open>\<lfloor>d\<rfloor> < 4294967296\<close> show ?thesis by (simp add: setTimeout_ms_mod)
qed

lemma setTimeout_ms_exact:
  assumes "0 \<le> d" "d < 2147483648"
  shows "setTimeout_ms d = \<lfloor>d\<rfloor>"
proof -
  have "0 \<le> \<lfloor>d\<rfloor>" "\<lfloor>d\<rfloor> < 2147483648" using assms by linarith+
  then show ?thesis by (simp add: setTimeout_ms_mod mod_pos_pos_trivial)
qed

interpretation run_scope: abort_scope run_scope_step us_abort us_held us_cleanup
proof unfold_locales
  show "us_abort s' = Some r" if "run_scope_step s s'" "us_abort s = Some r" for s s' r
    using that by cases (auto simp: us_defs)
  show "\<not> us_held s'" if "run_scope_step s s'" "\<not> us_held s" for s s'
    using that by cases (auto simp: us_defs)
  show "\<not> us_held (us_cleanup s)" for s by (simp add: us_defs)
qed

interpretation attempt_scope: abort_scope "\<lambda>s s'. \<exists>as. call_step enc s as s'" cs_abort "\<lambda>s. \<not> released s" finish_call
  for enc :: "'v \<Rightarrow> exn + byte list"
proof unfold_locales
  show "cs_abort s' = Some r" if "\<exists>as. call_step enc s as s'" "cs_abort s = Some r" for s s' r
    using that call_step_keeps(1) by fastforce
  show "\<not> \<not> released s'" if "\<exists>as. call_step enc s as s'" "\<not> \<not> released s" for s s'
    using that call_step_keeps(2) by blast
  show "\<not> \<not> released (finish_call s)" for s by (simp add: finish_call_ends)
qed

lemma run_scope_start_reason:
  "us_abort (run_scope_start sig stopped fd) =
    (if sig = Some True then Some (new_ConnectError ''Call canceled'' Canceled)
     else if stopped then Some (new_ConnectError ''Channel closed'' Unavailable) else None)"
  by (simp add: run_scope_start_def us_defs Let_def)

subsection \<open>A retried call and its current attempt\<close>

text \<open>The signal that \<^verbatim>\<open>run\<close> hands to the transport, as the transport sees it.\<close>

definition reason_seen :: "connect_error \<Rightarrow> reason" where
  "reason_seen e = ConnectReason \<lparr>te_connect = Some e, te_info = None\<rparr>"

definition attempt_signal :: "run_scope \<Rightarrow> signal" where
  "attempt_signal s = (case us_abort s of None \<Rightarrow> Pending | Some e \<Rightarrow> Aborted (reason_seen e))"

text \<open>An abort of the outer controller runs the listener of the attempt before control returns.\<close>

definition notify :: "run_scope \<Rightarrow> run_scope \<Rightarrow> call_state \<Rightarrow> call_state" where
  "notify s s' a = (case (us_abort s, us_abort s') of (None, Some e) \<Rightarrow> signal_aborts (reason_seen e) a | _ \<Rightarrow> a)"

inductive attempt_reachable :: "('v \<Rightarrow> exn + byte list) \<Rightarrow> run_scope \<Rightarrow> call_state \<Rightarrow> bool" for enc where
  attempt_begins: "attempt_reachable enc s (start_call (attempt_signal s) timeoutMs)"
| attempt_outer: "attempt_reachable enc s a \<Longrightarrow> run_scope_step s s' \<Longrightarrow> attempt_reachable enc s' (notify s s' a)"
| attempt_timer: "attempt_reachable enc s a \<Longrightarrow> attempt_reachable enc s (timer_fires a)"
| attempt_cancel: "attempt_reachable enc s a \<Longrightarrow> attempt_reachable enc s (cancel_input a)"
| attempt_pull: "attempt_reachable enc s a \<Longrightarrow> attempt_reachable enc s (snd (pull enc n a))"
| attempt_finish: "attempt_reachable enc s a \<Longrightarrow> attempt_reachable enc s (finish_call a)"

definition linked :: "run_scope \<Rightarrow> call_state \<Rightarrow> bool" where
  "linked s a \<longleftrightarrow> (cs_abort a = None \<longrightarrow> cs_listening a \<and> us_abort s = None)"

lemma signal_aborts_seen: "cs_listening a \<Longrightarrow> cs_abort a = None \<Longrightarrow> cs_abort (signal_aborts (reason_seen e) a) = Some (reason_seen e)"
  by (simp add: signal_aborts_def reason_seen_def abort_with_def)

lemma linked_start: "linked s (start_call (attempt_signal s) timeoutMs)"
  by (simp add: linked_def start_call_def attempt_signal_def reason_seen_def abort_with_def Let_def split: option.splits)

lemma linked_outer:
  assumes "linked s a"
  shows "linked s' (notify s s' a)"
proof (cases "cs_abort a")
  case None
  with assms have "cs_listening a" "us_abort s = None" by (simp_all add: linked_def)
  with None show ?thesis by (auto simp: notify_def linked_def signal_aborts_seen split: option.splits)
next
  case (Some r)
  then have "cs_abort (signal_aborts r' a) \<noteq> None" for r'
    using call_step_keeps(1) [OF step_signal [of undefined a r']] by simp
  with Some show ?thesis by (auto simp: notify_def linked_def split: option.splits)
qed

lemma linked_own:
  assumes "linked s a"
  shows "linked s (timer_fires a)" "linked s (cancel_input a)" "linked s (snd (pull enc n a))" "linked s (finish_call a)"
  using assms pull_state [of enc n a] by (auto simp: linked_def timer_fires_def cancel_input_def finish_call_def)

lemma linked_reachable: "attempt_reachable enc s a \<Longrightarrow> linked s a"
  by (induction rule: attempt_reachable.induct) (simp_all add: linked_start linked_outer linked_own)

text \<open>The scope of a call that has not ended: \<open>sig\<close> is the caller's signal at the start, \<open>fd\<close> whether there is a deadline,
  and the caller, the channel and the timer may have acted in any order.\<close>

inductive running :: "bool option \<Rightarrow> bool \<Rightarrow> run_scope \<Rightarrow> bool" for sig fd where
  running_begins: "running sig fd (run_scope_start sig stopped fd)"
| running_signal: "running sig fd s \<Longrightarrow> running sig fd (us_signal_aborts s)"
| running_stop: "running sig fd s \<Longrightarrow> running sig fd (us_channel_stops s)"
| running_timer: "running sig fd s \<Longrightarrow> running sig fd (us_timer_fires s)"

text \<open>Until one of them has aborted the call, all of them still can.\<close>

lemma running_armed:
  "running sig fd s \<Longrightarrow> us_abort s = None \<Longrightarrow> us_signal s = (sig \<noteq> None) \<and> us_stopped s \<and> us_timer s = fd"
proof (induction rule: running.induct)
  case (running_begins stopped)
  then show ?case by (auto simp: run_scope_start_def us_defs Let_def split: if_splits)
qed (auto simp: us_defs split: if_splits)

lemma running_aborts:
  assumes "running sig fd s" and "us_abort s = None"
  shows "sig \<noteq> None \<Longrightarrow> us_abort (us_signal_aborts s) = Some (new_ConnectError ''Call canceled'' Canceled)"
    "us_abort (us_channel_stops s) = Some (new_ConnectError ''Channel closed'' Unavailable)"
    "fd \<Longrightarrow> us_abort (us_timer_fires s) = Some (new_ConnectError ''Deadline exceeded'' DeadlineExceeded)"
  using running_armed [OF assms] assms(2) by (simp_all add: us_defs)

text \<open>An attempt that sends no more of the request body and reports the given error, whatever it ran into itself.\<close>

definition ended_with :: "('v \<Rightarrow> exn + byte list) \<Rightarrow> connect_error \<Rightarrow> call_state \<Rightarrow> bool" where
  "ended_with enc e a \<longleftrightarrow>
     (\<forall>n. fst (pull enc n a) = Ignored) \<and>
     (\<forall>from_reason str committed err.
        translate from_reason str a committed err = \<lparr>te_connect = Some e, te_info = None\<rparr>)"

lemma abort_translated:
  assumes "linked s a" "cs_abort a = None" "us_abort s' = Some e"
  shows "translate from_reason str (notify s s' a) committed err = \<lparr>te_connect = Some e, te_info = None\<rparr>"
  using assms by (simp add: linked_def notify_def translate_def signal_aborts_seen) (simp add: reason_seen_def)

lemma abort_ends_attempt:
  assumes "linked s a" "cs_abort a = None" "us_abort s' = Some e"
  shows "ended_with enc e (notify s s' a)"
proof -
  from assms have "cs_abort (notify s s' a) = Some (reason_seen e)"
    by (simp add: linked_def notify_def signal_aborts_seen)
  then show ?thesis using abort_translated [OF assms] by (simp add: ended_with_def pull_def)
qed

subsection \<open>The ends of a call\<close>

text \<open>The end of \<^verbatim>\<open>unary\<close>: a result counts as a success; the replay is closed in every case.\<close>

definition unary_end :: "run_outcome \<Rightarrow> retrying_transport \<times> pool \<Rightarrow> retrying_transport \<times> pool" where
  "unary_end out w = (case w of (rt, p) \<Rightarrow> (case out of Return \<Rightarrow> success rt | _ \<Rightarrow> rt, rp_close p))"

text \<open>\<^verbatim>\<open>stream\<close>: once \<^verbatim>\<open>run\<close> has returned, the replay is committed; an error of \<^verbatim>\<open>run\<close> closes it at once.\<close>

definition stream_started :: "run_outcome \<Rightarrow> retrying_transport \<times> pool \<Rightarrow> retrying_transport \<times> pool" where
  "stream_started out w = (case w of (rt, p) \<Rightarrow> (rt, case out of Return \<Rightarrow> rp_commit p | _ \<Rightarrow> rp_close p))"

text \<open>The generator of the responses is run to its end, fails, is left by its consumer, or is never started (then none of
  its code runs).\<close>

datatype stream_ending = Drained | Broke thrown | Left | Untouched

definition stream_end :: "jsstring \<Rightarrow> stream_ending \<Rightarrow> retrying_transport \<times> pool \<Rightarrow> retrying_transport \<times> pool" where
  "stream_end key ending w =
     (case w of (rt, p) \<Rightarrow> (case ending of
        Drained \<Rightarrow> (success rt, rp_close p)
      | Broke e \<Rightarrow> (failure rt (policy_for rt key) e, rp_close p)
      | Left \<Rightarrow> (rt, rp_close p)
      | Untouched \<Rightarrow> (rt, p)))"

text \<open>The scope of the call after \<^verbatim>\<open>run\<close>: a unary result and every error clean up; a stream does so when its generator
  ends, if it was started at all.\<close>

definition unary_scope :: "run_scope \<Rightarrow> run_scope" where
  "unary_scope = us_cleanup"

definition stream_scope :: "run_outcome \<Rightarrow> stream_ending \<Rightarrow> run_scope \<Rightarrow> run_scope" where
  "stream_scope out ending s = (if out = Return \<and> ending = Untouched then s else us_cleanup s)"

definition refunded :: "pool \<Rightarrow> pool \<Rightarrow> bool" where
  "refunded p q \<longleftrightarrow> rp_saved (snd q) = [] \<and> rp_bytes (snd q) = 0 \<and> fst q = fst p - int (rp_bytes (snd p))"

lemma refunded_commit: "refunded p (rp_commit p)"
  by (cases p) (simp add: refunded_def rp_commit_def release_def)

lemma refunded_close: "refunded p (rp_close p)"
  by (cases p) (simp add: refunded_def rp_close_def rp_commit_def release_def)

lemma refunded_again: "refunded p q \<Longrightarrow> refunded p (rp_close q)"
  by (cases q) (simp add: refunded_def rp_close_def rp_commit_def release_def)

lemma unary_end_refunds: "refunded p (snd (unary_end out (rt, p)))"
  by (simp add: unary_end_def refunded_close)

lemma stream_end_refunds: "refunded p (snd (stream_end key ending (stream_started out (rt, p))))"
  by (cases out; cases ending) (simp_all add: stream_end_def stream_started_def refunded_close refunded_commit refunded_again)

lemma stream_end_tokens:
  assumes "rt_ok rt"
  shows "rt_ok (fst (unary_end out (rt, p)))" "rt_ok (fst (stream_end key ending (stream_started out (rt, p))))"
  using assms by (auto simp: unary_end_def stream_started_def stream_end_def success_ok failure_ok split: run_outcome.split stream_ending.split)

subsection \<open>Properties\<close>

text \<open>C17: Cancellation, a channel shutdown and the deadline of a retried call reach the attempt in progress. Let an attempt
  of a call that has not ended, with any history of its own and of the call's controller, not have failed by itself. If the
  caller's signal (when there is one) aborts now, the attempt sends nothing more of the request body and fails with
  \<^verbatim>\<open>Call canceled\<close>; if the channel stops, with \<^verbatim>\<open>Channel closed\<close>; if the deadline timer (when there is a deadline) fires,
  with \<^verbatim>\<open>Deadline exceeded\<close>. And whenever the call's controller is aborted, by whichever came first, so is the controller of
  the attempt, also of one that starts later, which sends nothing.\<close>

theorem abort_reaches_attempt:
  assumes "attempt_reachable enc s a" and "running sig fd s"
  shows "(us_abort s \<noteq> None \<longrightarrow> cs_abort a \<noteq> None \<and> fst (pull enc n a) = Ignored) \<and>
    (cs_abort a = None \<and> run_scope_step s s' \<and> us_abort s' = Some e \<longrightarrow>
      attempt_reachable enc s' (notify s s' a) \<and>
      translate from_reason str (notify s s' a) committed err = \<lparr>te_connect = Some e, te_info = None\<rparr>) \<and>
    (cs_abort a = None \<longrightarrow>
      (sig \<noteq> None \<longrightarrow>
        ended_with enc (new_ConnectError ''Call canceled'' Canceled) (notify s (us_signal_aborts s) a)) \<and>
      ended_with enc (new_ConnectError ''Channel closed'' Unavailable) (notify s (us_channel_stops s) a) \<and>
      (fd \<longrightarrow>
        ended_with enc (new_ConnectError ''Deadline exceeded'' DeadlineExceeded) (notify s (us_timer_fires s) a)))"
proof -
  note l = linked_reachable [OF assms(1)]
  have "us_abort s = None" if "cs_abort a = None" using l that by (simp add: linked_def)
  note aborts = running_aborts [OF assms(2) this]
  show ?thesis
    using l abort_translated [of s a s' e] attempt_outer [OF assms(1), of s'] aborts
    by (auto simp: linked_def pull_def intro: abort_ends_attempt)
qed

definition timed_scope :: run_scope where
  "timed_scope = run_scope_start (Some False) False True"

definition timed_attempt :: call_state where
  "timed_attempt = start_call (attempt_signal timed_scope) None"

lemma timed_attempt_facts:
  "attempt_reachable Inr timed_scope timed_attempt" "cs_abort timed_attempt = None"
  "running (Some False) True timed_scope"
proof -
  show "attempt_reachable Inr timed_scope timed_attempt" unfolding timed_attempt_def by (rule attempt_begins)
  show "cs_abort timed_attempt = None"
    by (simp add: timed_attempt_def timed_scope_def run_scope_start_def start_call_def attempt_signal_def Let_def)
  show "running (Some False) True timed_scope" unfolding timed_scope_def by (rule running_begins)
qed

theorem abort_reaches_attempt_witness:
  "ended_with Inr (new_ConnectError ''Call canceled'' Canceled)
     (notify timed_scope (us_signal_aborts timed_scope) timed_attempt) \<and>
   ended_with Inr (new_ConnectError ''Channel closed'' Unavailable)
     (notify timed_scope (us_channel_stops timed_scope) timed_attempt) \<and>
   ended_with Inr (new_ConnectError ''Deadline exceeded'' DeadlineExceeded)
     (notify timed_scope (us_timer_fires timed_scope) timed_attempt)"
  using abort_reaches_attempt [OF timed_attempt_facts(1,3)] timed_attempt_facts(2) by simp

text \<open>The deadline timer of a retried call is set in one piece, unlike the delays between attempts: a deadline at
  least 2147483648 and less than 4294967296 milliseconds away (25 to 49 days) is converted to a negative delay, so the call
  is aborted with \<^verbatim>\<open>Deadline exceeded\<close> as soon as timers run.\<close>

theorem long_deadline_fires_at_once:
  assumes "2147483648 \<le> deadline - now" "deadline - now < 4294967296"
  shows "deadline_timer (Some deadline) now = Some 0 \<and>
    us_abort (us_timer_fires (run_scope_start None False (deadline_timer (Some deadline) now \<noteq> None))) =
      Some (new_ConnectError ''Deadline exceeded'' DeadlineExceeded)"
  using setTimeout_ms_wraps [OF assms] assms
  by (simp add: deadline_timer_def run_scope_start_def us_defs Let_def)

theorem long_deadline_fires_at_once_witness: "deadline_timer (Some 3000000000) 0 = Some 0"
  using long_deadline_fires_at_once [of 3000000000 0] by simp

text \<open>However a retried call ends, the bytes it kept for replay go back to the transport's pool exactly once, and the
  retry budget stays within its bounds, and no timer or listener of the call is left or comes back: after \<^verbatim>\<open>unary\<close>, and after \<^verbatim>\<open>stream\<close> whether its responses were drained, failed,
  were left early or were never read (a stream that is never read keeps its listeners).\<close>

theorem ended_call_refunds:
  assumes "rt_ok rt"
  shows "rt_ok (fst (unary_end out (rt, p))) \<and> refunded p (snd (unary_end out (rt, p))) \<and>
    rt_ok (fst (stream_end key ending (stream_started out (rt, p)))) \<and>
    refunded p (snd (stream_end key ending (stream_started out (rt, p)))) \<and>
    (run_scope_step\<^sup>*\<^sup>* (unary_scope s) s' \<longrightarrow> \<not> us_held s') \<and>
    (run_scope_step\<^sup>*\<^sup>* (stream_scope out ending s) s' \<and> (out \<noteq> Return \<or> ending \<noteq> Untouched) \<longrightarrow> \<not> us_held s')"
  using stream_end_tokens [OF assms]
  by (auto simp: unary_end_refunds stream_end_refunds unary_scope_def stream_scope_def dest: run_scope.finished_stays)

theorem ended_call_refunds_witness:
  "refunded (12, after_refusal) (snd (stream_end [] Drained (stream_started Return (sample_rt, 12, after_refusal))))"
  using ended_call_refunds [OF sample_rt_ok] by blast

end
