(* ===== verification/Load_Stats.thy ===== *)
theory Load_Stats
  imports Retry "HOL-Library.Multiset"
begin

text \<open>
  \<^verbatim>\<open>web/scripts/load-benchmark-lib.ts\<close> and \<^verbatim>\<open>web/scripts/soak-analysis-lib.ts\<close>: the statistics that the load and soak
  gates decide on. Numbers are reals; rounding is not modelled. Bucket counts are natural numbers.
\<close>

subsection \<open>Distributions\<close>

record distr =
  d_count :: nat
  d_minMs :: real
  d_p50Ms :: real
  d_p95Ms :: real
  d_p99Ms :: real
  d_maxMs :: real
  d_meanMs :: real

definition percentile :: "real list \<Rightarrow> real \<Rightarrow> real" where
  "percentile sorted_values fraction =
     (if sorted_values = [] then 0
      else sorted_values ! min (length sorted_values - 1) (nat (\<lceil>real (length sorted_values) * fraction\<rceil> - 1)))"

definition empty_distr :: distr where
  "empty_distr = \<lparr>d_count = 0, d_minMs = 0, d_p50Ms = 0, d_p95Ms = 0, d_p99Ms = 0, d_maxMs = 0, d_meanMs = 0\<rparr>"

definition distribution :: "real list \<Rightarrow> distr" where
  "distribution vs =
     (if vs = [] then empty_distr
      else let xs = sort vs in
        \<lparr>d_count = length xs, d_minMs = hd xs, d_p50Ms = percentile xs 0.5, d_p95Ms = percentile xs 0.95,
         d_p99Ms = percentile xs 0.99, d_maxMs = last xs, d_meanMs = foldl (+) 0 vs / real (length vs)\<rparr>)"

subsection \<open>Histogram\<close>

text \<open>\<open>None\<close> is the minimum of no values, infinity.\<close>

record histogram =
  h_buckets :: "nat list"
  h_count :: nat
  h_sum :: real
  h_minimum :: "real option"
  h_maximum :: real

definition new_histogram :: histogram where
  "new_histogram = \<lparr>h_buckets = replicate 60001 0, h_count = 0, h_sum = 0, h_minimum = None, h_maximum = 0\<rparr>"

definition bucket_of :: "real \<Rightarrow> nat" where
  "bucket_of ms = min 60000 (nat \<lceil>ms\<rceil>)"

text \<open>\<open>None\<close> is the error for a latency that is not finite or negative.\<close>

definition observe :: "jsnum \<Rightarrow> histogram \<Rightarrow> histogram option" where
  "observe n h =
     (if \<not> isFinite n \<or> finite_value n < 0 then None
      else let ms = finite_value n in
      Some \<lparr>h_buckets = (h_buckets h)[bucket_of ms := Suc (h_buckets h ! bucket_of ms)], h_count = Suc (h_count h),
                 h_sum = h_sum h + ms, h_minimum = Some (case h_minimum h of None \<Rightarrow> ms | Some m \<Rightarrow> min m ms),
                 h_maximum = max (h_maximum h) ms\<rparr>)"

fun rank_loop :: "real \<Rightarrow> int \<Rightarrow> nat \<Rightarrow> nat \<Rightarrow> nat list \<Rightarrow> real" where
  "rank_loop maximum target accumulated index [] = maximum"
| "rank_loop maximum target accumulated index (b # bs) =
     (if int (accumulated + b) \<ge> target then (if index = 60000 then maximum else min (real index) maximum)
      else rank_loop maximum target (accumulated + b) (Suc index) bs)"

definition rank :: "histogram \<Rightarrow> real \<Rightarrow> real" where
  "rank h fraction = rank_loop (h_maximum h) \<lceil>real (h_count h) * fraction\<rceil> 0 0 (h_buckets h)"

definition histogram_distribution :: "histogram \<Rightarrow> distr" where
  "histogram_distribution h =
     (if h_count h = 0 then distribution []
      else \<lparr>d_count = h_count h, d_minMs = (case h_minimum h of Some m \<Rightarrow> m | None \<Rightarrow> 0), d_p50Ms = rank h 0.5,
            d_p95Ms = rank h 0.95, d_p99Ms = rank h 0.99, d_maxMs = h_maximum h, d_meanMs = h_sum h / real (h_count h)\<rparr>)"

fun observe_all :: "real list \<Rightarrow> histogram \<Rightarrow> histogram option" where
  "observe_all [] h = Some h"
| "observe_all (v # vs) h = Option.bind (observe (Finite v) h) (observe_all vs)"

subsection \<open>Gates\<close>

record recovery_snapshot =
  r_activeTunnels :: int
  r_establishedTunnels :: int
  r_goroutines :: int
  r_heapAllocBytes :: int
  r_rssBytes :: "int option"

record smoke_thresholds =
  t_maxErrors :: int
  t_maxP99Ms :: real
  t_maxGoroutineGrowth :: int
  t_maxHeapGrowthBytes :: int
  t_maxRSSGrowthBytes :: int

datatype gate_failure = ErrorsFailed | P99Failed | TunnelsFailed | GoroutinesFailed | HeapFailed | RssFailed

definition recoveryFailures ::
    "recovery_snapshot \<Rightarrow> recovery_snapshot \<Rightarrow> int \<Rightarrow> real \<Rightarrow> smoke_thresholds \<Rightarrow> gate_failure list" where
  "recoveryFailures baseline recovered errors p99Ms t =
     (if errors > t_maxErrors t then [ErrorsFailed] else []) @
     (if p99Ms > t_maxP99Ms t then [P99Failed] else []) @
     (if r_activeTunnels recovered \<noteq> 0 \<or> r_establishedTunnels recovered \<noteq> 0 then [TunnelsFailed] else []) @
     (if r_goroutines recovered - r_goroutines baseline > t_maxGoroutineGrowth t then [GoroutinesFailed] else []) @
     (if r_heapAllocBytes recovered - r_heapAllocBytes baseline > t_maxHeapGrowthBytes t then [HeapFailed] else []) @
     (case (r_rssBytes baseline, r_rssBytes recovered) of
        (Some b, Some r) \<Rightarrow> if r - b > t_maxRSSGrowthBytes t then [RssFailed] else []
      | _ \<Rightarrow> [])"

subsection \<open>Metrics and settings\<close>

text \<open>\<open>num\<close> is \<^verbatim>\<open>Number(text)\<close>. \<^verbatim>\<open>split(/\r?\n/u)\<close>:\<close>

fun split_lines :: "jsstring \<Rightarrow> jsstring list" where
  "split_lines [] = [[]]"
| "split_lines (u # us) =
     (if u = 10 then [] # split_lines us
      else if u = 13 \<and> us \<noteq> [] \<and> hd us = 10 then [] # split_lines (tl us)
      else case split_lines us of l # ls \<Rightarrow> (u # l) # ls | [] \<Rightarrow> [[u]])"

text \<open>The text before and after the last space, if there is one.\<close>

definition split_last_space :: "jsstring \<Rightarrow> (jsstring \<times> jsstring) option" where
  "split_last_space line =
     (if 32 \<in> set line then Some (rev (tl (dropWhile (\<lambda>u. u \<noteq> 32) (rev line))), rev (takeWhile (\<lambda>u. u \<noteq> 32) (rev line)))
      else None)"

definition metric_line :: "(jsstring \<Rightarrow> jsnum) \<Rightarrow> jsstring \<Rightarrow> (jsstring \<times> real) option" where
  "metric_line num line =
     (if line = [] \<or> hd line = 35 then None
      else case split_last_space line of
        None \<Rightarrow> None
      | Some (name, text) \<Rightarrow>
          if name = [] \<or> \<not> isFinite (num text) then None else Some (name, finite_value (num text)))"

definition parsePrometheus :: "(jsstring \<Rightarrow> jsnum) \<Rightarrow> jsstring \<Rightarrow> jsstring \<rightharpoonup> real" where
  "parsePrometheus num text =
     fold (\<lambda>line values. case metric_line num line of None \<Rightarrow> values | Some (name, v) \<Rightarrow> values(name \<mapsto> v))
       (split_lines text) Map.empty"

text \<open>\<open>None\<close> is the error.\<close>

definition envInteger :: "(jsstring \<Rightarrow> jsnum) \<Rightarrow> jsstring option \<Rightarrow> int \<Rightarrow> int \<Rightarrow> int option" where
  "envInteger num val fallback minimum =
     (case val of
        None \<Rightarrow> Some fallback
      | Some v \<Rightarrow>
          if v = [] then Some fallback
          else if \<not> isSafeInteger (num v) \<or> finite_value (num v) < of_int minimum then None
          else Some \<lfloor>finite_value (num v)\<rfloor>)"

subsection \<open>Trends\<close>

definition mean :: "real list \<Rightarrow> real" where
  "mean vs = foldl (+) 0 vs / real (length vs)"

record trend =
  tr_count :: nat
  tr_spanSeconds :: real
  tr_slopePerHour :: real
  tr_firstQuarterMean :: real
  tr_lastQuarterMean :: real
  tr_min :: real
  tr_max :: real

definition variance :: "(real \<times> real) list \<Rightarrow> real \<Rightarrow> real" where
  "variance points x = foldl (\<lambda>s p. s + (fst p - x) ^ 2) 0 points"

definition covariance :: "(real \<times> real) list \<Rightarrow> real \<Rightarrow> real \<Rightarrow> real" where
  "covariance points x y = foldl (\<lambda>s p. s + (fst p - x) * (snd p - y)) 0 points"

text \<open>\<open>None\<close> is one of the errors; a point is a pair of seconds and value.\<close>

definition resourceTrend :: "(jsnum \<times> jsnum) list \<Rightarrow> trend option" where
  "resourceTrend samples =
     (if length samples < 2 then None
      else if list_ex (\<lambda>p. \<not> isFinite (fst p) \<or> \<not> isFinite (snd p)) samples then None
      else
        let points = map (map_prod finite_value finite_value) samples;
            x = mean (map fst points); y = mean (map snd points); var = variance points x
        in if var = 0 then None
           else
             let cov = covariance points x y; quarter = max 1 (length points div 4)
             in Some \<lparr>tr_count = length points, tr_spanSeconds = fst (last points) - fst (hd points),
                      tr_slopePerHour = cov / var * 3600,
                      tr_firstQuarterMean = mean (map snd (take quarter points)),
                      tr_lastQuarterMean = mean (map snd (drop (length points - quarter) points)),
                      tr_min = Min (snd ` set points), tr_max = Max (snd ` set points)\<rparr>)"

subsection \<open>Histogram percentiles\<close>

lemma sorted_nth_le_iff:
  "sorted xs \<Longrightarrow> k < length xs \<Longrightarrow> xs ! k \<le> c \<longleftrightarrow> k < length (filter (\<lambda>v. v \<le> c) xs)"
proof (induction xs arbitrary: k)
  case (Cons x xs)
  show ?case
  proof (cases "x \<le> c")
    case True
    then show ?thesis using Cons by (cases k) auto
  next
    case False
    then have "filter (\<lambda>v. v \<le> c) (x # xs) = []" using Cons.prems(1) by (auto simp: filter_empty_conv)
    moreover have "\<not> (x # xs) ! k \<le> c"
      using False sorted_nth_mono [OF Cons.prems(1), of 0 k] Cons.prems(2) by simp
    ultimately show ?thesis by simp
  qed
qed simp

lemma rank_loop_first:
  "j < length bs \<Longrightarrow> (\<And>i. i < j \<Longrightarrow> int (acc + sum_list (take (Suc i) bs)) < target) \<Longrightarrow>
   target \<le> int (acc + sum_list (take (Suc j) bs)) \<Longrightarrow>
   rank_loop mx target acc k bs = (if k + j = 60000 then mx else min (real (k + j)) mx)"
proof (induction bs arbitrary: acc j k)
  case (Cons b bs)
  show ?case
  proof (cases j)
    case 0
    then show ?thesis using Cons.prems(3) by simp
  next
    case (Suc j')
    have "int (acc + b) < target" using Cons.prems(2) [of 0] Suc by simp
    moreover have "rank_loop mx target (acc + b) (Suc k) bs = (if Suc k + j' = 60000 then mx else min (real (Suc k + j')) mx)"
    proof (rule Cons.IH)
      show "int (acc + b + sum_list (take (Suc i) bs)) < target" if "i < j'" for i
        using Cons.prems(2) [of "Suc i"] that Suc by (simp add: add.assoc)
    qed (use Cons.prems Suc in \<open>simp_all add: add.assoc\<close>)
    ultimately show ?thesis using Suc by simp
  qed
qed simp

text \<open>The histogram of a list of observations.\<close>

definition histogram_of :: "real list \<Rightarrow> histogram \<Rightarrow> bool" where
  "histogram_of vs h \<longleftrightarrow> length (h_buckets h) = 60001 \<and>
     (\<forall>i < 60001. h_buckets h ! i = length (filter (\<lambda>v. bucket_of v = i) vs)) \<and> h_count h = length vs \<and>
     h_sum h = sum_list vs \<and> h_minimum h = (if vs = [] then None else Some (Min (set vs))) \<and>
     h_maximum h = Max (insert 0 (set vs))"

lemma bucket_of_less: "bucket_of v < 60001"
  by (simp add: bucket_of_def)

lemma histogram_of_new: "histogram_of [] new_histogram"
  by (simp add: histogram_of_def new_histogram_def)

lemma histogram_of_observe:
  assumes "histogram_of vs h" "0 \<le> v"
  shows "\<exists>h'. observe (Finite v) h = Some h' \<and> histogram_of (vs @ [v]) h'"
proof -
  have "Max (insert 0 (insert v (set vs))) = max (Max (insert 0 (set vs))) v"
    by (metis List.finite_set Max_insert finite_insert insert_commute insert_not_empty max.commute)
  moreover have "vs \<noteq> [] \<Longrightarrow> Min (insert v (set vs)) = min (Min (set vs)) v" by (simp add: min.commute)
  ultimately show ?thesis
    using assms bucket_of_less [of v]
    by (auto simp: observe_def histogram_of_def nth_list_update)
qed

lemma observe_all_histogram:
  assumes "histogram_of us h" "list_all (\<lambda>v. 0 \<le> v) vs"
  shows "\<exists>h'. observe_all vs h = Some h' \<and> histogram_of (us @ vs) h'"
  using assms
proof (induction vs arbitrary: us h)
  case (Cons v vs)
  then obtain h1 where h1: "observe (Finite v) h = Some h1" "histogram_of (us @ [v]) h1" using histogram_of_observe by fastforce
  from Cons.IH [OF h1(2)] Cons.prems(2) h1(1) show ?case by auto
qed auto

lemma sum_buckets:
  assumes "histogram_of vs h" "i < 60001"
  shows "sum_list (take (Suc i) (h_buckets h)) = length (filter (\<lambda>v. bucket_of v \<le> i) vs)"
  using assms(2)
proof (induction i)
  case 0
  then show ?case using assms(1) by (simp add: histogram_of_def take_Suc_conv_app_nth)
next
  case (Suc i)
  have "length (filter (\<lambda>v. bucket_of v \<le> Suc i) vs) =
      length (filter (\<lambda>v. bucket_of v \<le> i) vs) + length (filter (\<lambda>v. bucket_of v = Suc i) vs)"
    by (induction vs) auto
  moreover have "take (Suc (Suc i)) (h_buckets h) = take (Suc i) (h_buckets h) @ [h_buckets h ! Suc i]"
    using assms(1) Suc.prems by (simp add: histogram_of_def take_Suc_conv_app_nth)
  ultimately show ?case using Suc assms(1) by (simp add: histogram_of_def)
qed

lemma bucket_of_le: "i < 60000 \<Longrightarrow> bucket_of v \<le> i \<longleftrightarrow> v \<le> real i"
proof -
  assume "i < 60000"
  moreover have "nat \<lceil>v\<rceil> \<le> i \<longleftrightarrow> v \<le> real i" by (simp add: nat_le_iff ceiling_le_iff)
  ultimately show ?thesis unfolding bucket_of_def by linarith
qed

lemma filter_sort_length: "length (filter P (sort vs)) = length (filter P vs)"
  by (metis mset_filter mset_sort size_mset)

lemma target_bounds:
  assumes "vs \<noteq> []" "0 < f" "f \<le> 1"
  shows "1 \<le> \<lceil>real (length vs) * f\<rceil>" "\<lceil>real (length vs) * f\<rceil> \<le> int (length vs)"
    "percentile (sort vs) f = sort vs ! nat (\<lceil>real (length vs) * f\<rceil> - 1)"
proof -
  show "1 \<le> \<lceil>real (length vs) * f\<rceil>" using assms by (simp add: one_le_ceiling)
  have "real (length vs) * f \<le> real (length vs)" using assms(3) by (simp add: mult_left_le)
  then show le: "\<lceil>real (length vs) * f\<rceil> \<le> int (length vs)" by (simp add: ceiling_le_iff)
  have "sort vs \<noteq> []" using assms(1) by (metis length_0_conv length_sort)
  then show "percentile (sort vs) f = sort vs ! nat (\<lceil>real (length vs) * f\<rceil> - 1)"
    using min_absorb2 [of "nat (\<lceil>real (length vs) * f\<rceil> - 1)" "length vs - 1"] le by (simp add: percentile_def nat_le_iff)
qed

lemma rank_percentile:
  assumes "histogram_of vs h" "vs \<noteq> []" "0 < f" "f \<le> 1"
  defines "p \<equiv> percentile (sort vs) f"
  shows "rank h f = (if 60000 \<le> nat \<lceil>p\<rceil> then h_maximum h else min (real (nat \<lceil>p\<rceil>)) (h_maximum h))"
proof -
  let ?T = "\<lceil>real (length vs) * f\<rceil>"
  define k where "k = nat (?T - 1)"
  note t = target_bounds [OF assms(2-4)]
  have k: "k < length (sort vs)" "?T = int k + 1" using t(1,2) assms(2) unfolding k_def length_sort by linarith+
  have le: "p \<le> real i \<longleftrightarrow> k < length (filter (\<lambda>v. v \<le> real i) vs)" for i
    using sorted_nth_le_iff [OF sorted_sort k(1), of "real i"] t(3) by (simp add: p_def k_def filter_sort_length)
  define j where "j = min 60000 (nat \<lceil>p\<rceil>)"
  have sum: "sum_list (take (Suc i) (h_buckets h)) = length (filter (\<lambda>v. v \<le> real i) vs)" if "i < 60000" for i
    using sum_buckets [OF assms(1), of i] that by (simp add: bucket_of_le)
  have before: "int (0 + sum_list (take (Suc i) (h_buckets h))) < ?T" if "i < j" for i
  proof -
    have i: "i < 60000" "i < nat \<lceil>p\<rceil>" using that by (auto simp: j_def)
    moreover have "nat \<lceil>p\<rceil> \<le> i \<longleftrightarrow> p \<le> real i" by (simp add: nat_le_iff ceiling_le_iff)
    ultimately have "\<not> p \<le> real i" by (metis leD)
    then show ?thesis using sum [OF i(1)] le [of i] k(2) by simp
  qed
  have at: "?T \<le> int (0 + sum_list (take (Suc j) (h_buckets h)))"
  proof (cases "j < 60000")
    case True
    then have "p \<le> real j" by (simp add: j_def min_def real_nat_ceiling_ge split: if_splits)
    then show ?thesis using sum [OF True] le [of j] k(2) by simp
  next
    case False
    then have "j = 60000" by (simp add: j_def)
    then have "sum_list (take (Suc j) (h_buckets h)) = length vs"
      using sum_buckets [OF assms(1), of j] by (simp add: bucket_of_def)
    then show ?thesis using t(2) by simp
  qed
  have "j < length (h_buckets h)" using assms(1) by (simp add: histogram_of_def j_def)
  from rank_loop_first [OF this before at, of "h_maximum h" 0] assms(1) show ?thesis
    by (auto simp: rank_def histogram_of_def j_def min_def)
qed

lemma foldl_sum: "foldl (+) s vs = s + sum_list (vs :: real list)"
  by (induction vs arbitrary: s) auto

lemma sort_ends: "vs \<noteq> [] \<Longrightarrow> hd (sort vs) = Min (set vs) \<and> last (sort vs) = Max (set (vs :: real list))"
proof
  assume "vs \<noteq> []"
  then have ne: "sort vs \<noteq> []" by (metis length_0_conv length_sort)
  obtain x xs where x: "sort vs = x # xs" using ne by (cases "sort vs") auto
  have s: "sorted (sort vs)" by simp
  have "\<forall>y \<in> set (sort vs). hd (sort vs) \<le> y" using s x by auto
  then show "hd (sort vs) = Min (set vs)" using hd_in_set [OF ne] by (intro Min_eqI [symmetric]) auto
  obtain ys y where y: "sort vs = ys @ [y]" using ne by (cases "sort vs" rule: rev_cases) auto
  have "\<forall>z \<in> set (sort vs). z \<le> last (sort vs)" using s unfolding y by (auto simp: sorted_append)
  then show "last (sort vs) = Max (set vs)" using last_in_set [OF ne] by (intro Max_eqI [symmetric]) auto
qed

subsection \<open>Properties\<close>

definition ceil_ms :: "real \<Rightarrow> real \<Rightarrow> real" where
  "ceil_ms mx p = (if 60000 \<le> nat \<lceil>p\<rceil> then mx else min (real (nat \<lceil>p\<rceil>)) mx)"

lemma histogram_matches:
  assumes "list_all (\<lambda>v. 0 \<le> v) vs" "vs \<noteq> []"
  shows "\<exists>h. observe_all vs new_histogram = Some h \<and>
    (let d = distribution vs; e = histogram_distribution h in
     d_count e = d_count d \<and> d_minMs e = d_minMs d \<and> d_maxMs e = d_maxMs d \<and> d_meanMs e = d_meanMs d \<and>
     d_p50Ms e = ceil_ms (d_maxMs d) (d_p50Ms d) \<and> d_p95Ms e = ceil_ms (d_maxMs d) (d_p95Ms d) \<and>
     d_p99Ms e = ceil_ms (d_maxMs d) (d_p99Ms d))"
proof -
  from observe_all_histogram [OF histogram_of_new assms(1)] obtain h where
    h: "observe_all vs new_histogram = Some h" "histogram_of vs h" by auto
  have "Max (insert 0 (set vs)) = Max (set vs)"
  proof -
    have "0 \<le> hd vs" "hd vs \<in> set vs" using assms by (cases vs; simp)+
    then have "0 \<le> Max (set vs)" using Max_ge [of "set vs" "hd vs"] by (meson List.finite_set order_trans)
    then show ?thesis using assms(2) by (simp add: max_def)
  qed
  then have mx: "h_maximum h = last (sort vs)" using h(2) sort_ends [OF assms(2)] by (simp add: histogram_of_def)
  note r = rank_percentile [OF h(2) assms(2), unfolded mx, folded ceil_ms_def]
  show ?thesis using h(1) r [of "0.5"] r [of "0.95"] r [of "0.99"] h(2) sort_ends [OF assms(2)] assms(2) mx
    by (intro exI [of _ h]) (simp add: Let_def histogram_distribution_def distribution_def histogram_of_def foldl_sum)
qed

text \<open>The bounded-memory histogram reports the exact distribution up to whole milliseconds: for every list of latencies the
  count, minimum, maximum and mean are those of the list, and each percentile is the exact one rounded up to a
  millisecond, at most the maximum; from 60 seconds on it is the maximum.\<close>

theorem histogram_exact:
  assumes "list_all (\<lambda>v. 0 \<le> v) vs" "vs \<noteq> []"
  shows "\<exists>h. observe_all vs new_histogram = Some h \<and>
    (let d = distribution vs; e = histogram_distribution h in
     d_count e = d_count d \<and> d_minMs e = d_minMs d \<and> d_maxMs e = d_maxMs d \<and> d_meanMs e = d_meanMs d \<and>
     d_p50Ms e = ceil_ms (d_maxMs d) (d_p50Ms d) \<and> d_p95Ms e = ceil_ms (d_maxMs d) (d_p95Ms d) \<and>
     d_p99Ms e = ceil_ms (d_maxMs d) (d_p99Ms d))"
  using assms by (rule histogram_matches)

theorem histogram_exact_witness:
  "\<exists>h. observe_all [3, 1.5] new_histogram = Some h \<and> d_count (histogram_distribution h) = 2"
  using histogram_exact [of "[3, 1.5]"] by (auto simp: Let_def distribution_def)

text \<open>The gate passes exactly if every threshold holds.\<close>

theorem recovery_gate:
  "recoveryFailures baseline recovered errors p99Ms t = [] \<longleftrightarrow>
    errors \<le> t_maxErrors t \<and> p99Ms \<le> t_maxP99Ms t \<and> r_activeTunnels recovered = 0 \<and> r_establishedTunnels recovered = 0 \<and>
    r_goroutines recovered \<le> r_goroutines baseline + t_maxGoroutineGrowth t \<and>
    r_heapAllocBytes recovered \<le> r_heapAllocBytes baseline + t_maxHeapGrowthBytes t \<and>
    (\<forall>b r. r_rssBytes baseline = Some b \<and> r_rssBytes recovered = Some r \<longrightarrow> r \<le> b + t_maxRSSGrowthBytes t)"
  by (auto simp: recoveryFailures_def split: option.splits)

lemma foldl_add: "foldl (\<lambda>s p. s + g p) s ps = s + sum_list (map g ps)" for g :: "'a \<Rightarrow> real"
  by (induction ps arbitrary: s) auto

text \<open>On samples of a straight line the reported slope is the slope of the line.\<close>

theorem trend_of_line:
  assumes "\<forall>p \<in> set points. snd p = a * fst p + b" "resourceTrend (map (map_prod Finite Finite) points) = Some t"
  shows "tr_slopePerHour t = a * 3600"
proof -
  have id: "map (map_prod finite_value finite_value) (map (map_prod Finite Finite) points) = points" by (simp add: o_def map_prod_def case_prod_beta)
  let ?x = "mean (map fst points)" and ?y = "mean (map snd points)"
  have len: "length points \<ge> 2" and var: "variance points ?x \<noteq> 0"
    and slope: "tr_slopePerHour t = covariance points ?x ?y / variance points ?x * 3600"
    using assms(2) by (auto simp only: resourceTrend_def Let_def id length_map trend.simps split: if_splits)
  have snd_eq: "map snd points = map (\<lambda>p. a * fst p + b) points" using assms(1) by simp
  have "sum_list (map snd points) = a * sum_list (map fst points) + b * real (length points)"
    unfolding snd_eq by (induction points) (auto simp: algebra_simps)
  moreover have "points \<noteq> []" using len by auto
  ultimately have y: "?y = a * ?x + b" by (simp add: mean_def foldl_sum add_divide_distrib)
  have "covariance points ?x ?y = sum_list (map (\<lambda>p. a * (fst p - ?x) ^ 2) points)"
    unfolding covariance_def foldl_add y using assms(1)
    by (simp add: power2_eq_square algebra_simps cong: map_cong)
  also have "\<dots> = a * variance points ?x" by (simp add: variance_def foldl_add sum_list_const_mult)
  finally show ?thesis using slope var by simp
qed

text \<open>A metrics page reads back as the last value of each name.\<close>

lemma split_lines_line: "10 \<notin> set l \<Longrightarrow> 13 \<notin> set l \<Longrightarrow> split_lines (l @ 10 # rest) = l # split_lines rest"
  by (induction l) auto

lemma split_last_space_plain: "32 \<notin> set t \<Longrightarrow> split_last_space (n @ 32 # t) = Some (n, t)"
proof -
  assume "32 \<notin> set t"
  then have t: "\<forall>u \<in> set (rev t). u \<noteq> 32" by auto
  have r: "rev (n @ 32 # t) = rev t @ 32 # rev n" by simp
  have "dropWhile (\<lambda>u. u \<noteq> 32) (rev t @ 32 # rev n) = 32 # rev n" using t by (subst dropWhile_append2) auto
  moreover have "takeWhile (\<lambda>u. u \<noteq> 32) (rev t @ 32 # rev n) = rev t" using t by (subst takeWhile_append2) auto
  ultimately show ?thesis by (simp add: split_last_space_def)
qed

definition metric_text :: "(jsstring \<times> jsstring) list \<Rightarrow> jsstring" where
  "metric_text ms = concat (map (\<lambda>(n, t). n @ [32] @ t @ [10]) ms)"

definition metric_ok :: "(jsstring \<Rightarrow> jsnum) \<Rightarrow> jsstring \<times> jsstring \<Rightarrow> bool" where
  "metric_ok num m = (case m of (n, t) \<Rightarrow> n \<noteq> [] \<and> hd n \<noteq> 35 \<and> 10 \<notin> set n \<and> 13 \<notin> set n \<and>
     32 \<notin> set t \<and> 10 \<notin> set t \<and> 13 \<notin> set t \<and> isFinite (num t))"

theorem prometheus_roundtrip:
  assumes "list_all (metric_ok num) ms"
  shows "parsePrometheus num (metric_text ms) = map_of (rev (map (\<lambda>(n, t). (n, finite_value (num t))) ms))"
proof -
  have "fold (\<lambda>line values. case metric_line num line of None \<Rightarrow> values | Some (name, v) \<Rightarrow> values(name \<mapsto> v))
      (split_lines (metric_text ms)) m0 = m0 ++ map_of (rev (map (\<lambda>(n, t). (n, finite_value (num t))) ms))" for m0
    using assms
  proof (induction ms arbitrary: m0)
    case Nil
    then show ?case by (simp add: metric_text_def metric_line_def)
  next
    case (Cons m ms)
    obtain n t where m: "m = (n, t)" by force
    have ok: "n \<noteq> []" "hd n \<noteq> 35" "10 \<notin> set (n @ 32 # t)" "13 \<notin> set (n @ 32 # t)" "32 \<notin> set t" "isFinite (num t)"
      using Cons.prems by (auto simp: m metric_ok_def)
    have "metric_text (m # ms) = (n @ 32 # t) @ 10 # metric_text ms" by (simp add: metric_text_def m)
    then have "split_lines (metric_text (m # ms)) = (n @ 32 # t) # split_lines (metric_text ms)"
      using split_lines_line [OF ok(3,4)] by simp
    moreover have "metric_line num (n @ 32 # t) = Some (n, finite_value (num t))"
      using ok split_last_space_plain [OF ok(5), of n] by (simp add: metric_line_def)
    ultimately show ?case using Cons.prems Cons.IH
      by (auto simp: m Cons.IH map_add_def fun_eq_iff split: option.splits)
  qed
  from this [of Map.empty] show ?thesis by (simp add: parsePrometheus_def)
qed

end
