(* ===== verification/Load_Driver.thy ===== *)
theory Load_Driver
  imports Load_Stats
begin

text \<open>
  The decisions of the load driver \<^verbatim>\<open>web/scripts/load-benchmark.ts\<close> and of \<^verbatim>\<open>web/scripts/analyze-soak.ts\<close>: the profile and
  its overrides from the environment, the recording of operations, the error budget, the distribution of churn cycles, the
  ramp levels, the verdict, and the stages of a soak report. What the driver does over the network and with files is its
  environment: an operation is its record, and the operations file is the list \<open>dv_written\<close>.
\<close>

subsection \<open>Configuration\<close>

record profile =
  bp_tunnels :: int
  bp_idleTunnels :: int
  bp_concurrency :: int
  bp_durationSeconds :: int
  bp_churnCycles :: int
  bp_largeMessageBytes :: int
  bp_slowConsumerHoldMs :: int
  bp_recoverySeconds :: int

definition smoke :: profile where
  "smoke = \<lparr>bp_tunnels = 4, bp_idleTunnels = 1, bp_concurrency = 8, bp_durationSeconds = 5, bp_churnCycles = 12,
     bp_largeMessageBytes = 180000, bp_slowConsumerHoldMs = 300, bp_recoverySeconds = 10\<rparr>"

definition soak :: profile where
  "soak = \<lparr>bp_tunnels = 32, bp_idleTunnels = 8, bp_concurrency = 64, bp_durationSeconds = 14400, bp_churnCycles = 2000,
     bp_largeMessageBytes = 900000, bp_slowConsumerHoldMs = 5000, bp_recoverySeconds = 60\<rparr>"

text \<open>\<open>None\<close> is the error that ends the program.\<close>

definition profile_defaults :: "jsstring option \<Rightarrow> jsstring option \<Rightarrow> profile option" where
  "profile_defaults argument variable =
     (let profileName = (case argument of Some a \<Rightarrow> a | None \<Rightarrow> (case variable of Some v \<Rightarrow> v | None \<Rightarrow> js ''smoke''))
      in if profileName = js ''smoke'' then Some smoke else if profileName = js ''soak'' then Some soak else None)"

definition bench_config :: "(jsstring \<Rightarrow> jsnum) \<Rightarrow> (string \<Rightarrow> jsstring option) \<Rightarrow> profile \<Rightarrow> profile option" where
  "bench_config num env defaults =
     Option.bind (envInteger num (env ''BENCH_TUNNELS'') (bp_tunnels defaults) 1) (\<lambda>tunnels.
     Option.bind (envInteger num (env ''BENCH_IDLE_TUNNELS'') (bp_idleTunnels defaults) 0) (\<lambda>idleTunnels.
     Option.bind (envInteger num (env ''BENCH_CONCURRENCY'') (bp_concurrency defaults) 1) (\<lambda>concurrency.
     Option.bind (envInteger num (env ''BENCH_DURATION_SECONDS'') (bp_durationSeconds defaults) 1) (\<lambda>durationSeconds.
     Option.bind (envInteger num (env ''BENCH_CHURN_CYCLES'') (bp_churnCycles defaults) 0) (\<lambda>churnCycles.
     Option.bind (envInteger num (env ''BENCH_LARGE_MESSAGE_BYTES'') (bp_largeMessageBytes defaults) 1) (\<lambda>largeMessageBytes.
     Option.bind (envInteger num (env ''BENCH_SLOW_CONSUMER_HOLD_MS'') (bp_slowConsumerHoldMs defaults) 1) (\<lambda>slowConsumerHoldMs.
     Option.bind (envInteger num (env ''BENCH_RECOVERY_SECONDS'') (bp_recoverySeconds defaults) 1) (\<lambda>recoverySeconds.
     if idleTunnels \<ge> tunnels then None
     else Some \<lparr>bp_tunnels = tunnels, bp_idleTunnels = idleTunnels, bp_concurrency = concurrency,
       bp_durationSeconds = durationSeconds, bp_churnCycles = churnCycles, bp_largeMessageBytes = largeMessageBytes,
       bp_slowConsumerHoldMs = slowConsumerHoldMs, bp_recoverySeconds = recoverySeconds\<rparr>))))))))"

definition bench_thresholds :: "(jsstring \<Rightarrow> jsnum) \<Rightarrow> (string \<Rightarrow> jsstring option) \<Rightarrow> smoke_thresholds option" where
  "bench_thresholds num env =
     Option.bind (envInteger num (env ''BENCH_MAX_ERRORS'') 0 0) (\<lambda>maxErrors.
     Option.bind (envInteger num (env ''BENCH_MAX_P99_MS'') 5000 1) (\<lambda>maxP99Ms.
     Option.bind (envInteger num (env ''BENCH_MAX_GOROUTINE_GROWTH'') 20 0) (\<lambda>maxGoroutineGrowth.
     Option.bind (envInteger num (env ''BENCH_MAX_HEAP_GROWTH_BYTES'') (8 * 1024 * 1024) 0) (\<lambda>maxHeapGrowthBytes.
     Option.bind (envInteger num (env ''BENCH_MAX_RSS_GROWTH_BYTES'') (16 * 1024 * 1024) 0) (\<lambda>maxRSSGrowthBytes.
     Some \<lparr>t_maxErrors = maxErrors, t_maxP99Ms = of_int maxP99Ms, t_maxGoroutineGrowth = maxGoroutineGrowth,
       t_maxHeapGrowthBytes = maxHeapGrowthBytes, t_maxRSSGrowthBytes = maxRSSGrowthBytes\<rparr>)))))"

subsection \<open>Recording\<close>

datatype operation_kind = Unary | Server_stream | Client_stream | Bidi

record operation_record =
  op_kind :: operation_kind
  op_durationMs :: real
  op_error :: "jsstring option"

record driver =
  dv_records :: "operation_record list"
  dv_written :: "operation_record list"
  dv_latencies :: histogram
  dv_shapeLatencies :: "operation_kind \<Rightarrow> histogram"
  dv_errorCount :: nat
  dv_workloadStopped :: bool

definition new_driver :: driver where
  "new_driver = \<lparr>dv_records = [], dv_written = [], dv_latencies = new_histogram, dv_shapeLatencies = (\<lambda>_. new_histogram),
     dv_errorCount = 0, dv_workloadStopped = False\<rparr>"

definition flushOperations :: "driver \<Rightarrow> driver" where
  "flushOperations dv = dv\<lparr>dv_records := [], dv_written := dv_written dv @ dv_records dv\<rparr>"

text \<open>\<open>None\<close> is the error of \<^verbatim>\<open>observe\<close>.\<close>

definition count_operation :: "operation_record \<Rightarrow> driver \<Rightarrow> driver option" where
  "count_operation r dv =
     (case op_error r of
        None \<Rightarrow>
          Option.bind (observe (Finite (op_durationMs r)) (dv_latencies dv)) (\<lambda>h.
          Option.bind (observe (Finite (op_durationMs r)) (dv_shapeLatencies dv (op_kind r))) (\<lambda>hk.
          Some (dv\<lparr>dv_latencies := h, dv_shapeLatencies := (dv_shapeLatencies dv)(op_kind r := hk)\<rparr>)))
      | Some _ \<Rightarrow> Some (dv\<lparr>dv_errorCount := Suc (dv_errorCount dv)\<rparr>))"

definition recordOperation :: "operation_record \<Rightarrow> driver \<Rightarrow> driver option" where
  "recordOperation r dv =
     map_option (\<lambda>dv1. let dv2 = dv1\<lparr>dv_records := dv_records dv1 @ [r]\<rparr> in
       if length (dv_records dv2) \<ge> 1024 then flushOperations dv2 else dv2) (count_operation r dv)"

definition kinds :: "operation_kind list" where
  "kinds = [Unary, Server_stream, Client_stream, Bidi]"

definition kind_at :: "nat \<Rightarrow> operation_kind" where
  "kind_at sequence = kinds ! (sequence mod length kinds)"

text \<open>The end of one turn of a worker: the record, then the error budget. The flag that the worker ends with an error is the
  second component.\<close>

definition worker_turn :: "smoke_thresholds \<Rightarrow> operation_record \<Rightarrow> driver \<Rightarrow> (driver \<times> bool) option" where
  "worker_turn t r dv =
     map_option (\<lambda>dv1.
       if op_error r \<noteq> None \<and> int (dv_errorCount dv1) > t_maxErrors t then (dv1\<lparr>dv_workloadStopped := True\<rparr>, True)
       else (dv1, False)) (recordOperation r dv)"

fun worker_turns :: "smoke_thresholds \<Rightarrow> operation_record list \<Rightarrow> driver \<Rightarrow> driver option" where
  "worker_turns t [] dv = Some dv"
| "worker_turns t (r # rs) dv = Option.bind (worker_turn t r dv) (\<lambda>(dv1, _). worker_turns t rs dv1)"

subsection \<open>Churn and levels\<close>

text \<open>A worker takes the next cycle, or ends.\<close>

definition claim :: "nat \<Rightarrow> nat \<Rightarrow> nat option \<times> nat" where
  "claim churnCycles next_cycle = (if next_cycle \<ge> churnCycles then None else Some next_cycle, Suc next_cycle)"

fun claims :: "nat \<Rightarrow> nat \<Rightarrow> nat \<Rightarrow> nat list" where
  "claims churnCycles 0 next_cycle = []"
| "claims churnCycles (Suc n) next_cycle =
     (case claim churnCycles next_cycle of (c, next') \<Rightarrow>
        (case c of None \<Rightarrow> [] | Some k \<Rightarrow> [k]) @ claims churnCycles n next')"

text \<open>The first occurrence of each level is kept.\<close>

fun first_only :: "int list \<Rightarrow> int list \<Rightarrow> int list" where
  "first_only seen [] = []"
| "first_only seen (v # vs) = (if v \<in> set seen then first_only seen vs else v # first_only (seen @ [v]) vs)"

definition levels :: "int \<Rightarrow> int \<Rightarrow> int list" where
  "levels parts n = first_only [] [1, max 1 \<lceil>(of_int n :: real) / of_int parts\<rceil>, n]"

subsection \<open>Verdict\<close>

datatype bench_failure = Gate gate_failure | WorkloadFailed jsstring | RssNotMeasured | NoSuccess operation_kind

definition bench_failures ::
    "recovery_snapshot \<Rightarrow> recovery_snapshot \<Rightarrow> smoke_thresholds \<Rightarrow> jsstring list \<Rightarrow> driver \<Rightarrow> bench_failure list" where
  "bench_failures baseline recovered t workloadFailures dv =
     map Gate (recoveryFailures baseline recovered (int (dv_errorCount dv)) (d_p99Ms (histogram_distribution (dv_latencies dv))) t) @
     map WorkloadFailed workloadFailures @
     (if r_rssBytes baseline = None \<or> r_rssBytes recovered = None then [RssNotMeasured] else []) @
     map NoSuccess (filter (\<lambda>k. d_count (histogram_distribution (dv_shapeLatencies dv k)) = 0) kinds)"

definition exit_code :: "bench_failure list \<Rightarrow> nat" where
  "exit_code failures = (if length failures > 0 then 1 else 0)"

subsection \<open>Soak reports\<close>

record soak_sample =
  sk_label :: jsstring
  sk_elapsedSeconds :: real
  sk_field :: "string \<Rightarrow> real option"

definition stage_label :: "jsstring \<Rightarrow> bool" where
  "stage_label l \<longleftrightarrow>
     (let prefix = js ''rpc-concurrency-''; suffix = js ''-active'' in
      length l > length prefix + length suffix \<and> take (length prefix) l = prefix \<and> drop (length l - length suffix) l = suffix \<and>
      list_all js_digit (drop (length prefix) (take (length l - length suffix) l)))"

fun first_labels :: "jsstring list \<Rightarrow> jsstring list \<Rightarrow> jsstring list" where
  "first_labels seen [] = []"
| "first_labels seen (l # ls) = (if l \<in> set seen then first_labels seen ls else l # first_labels (seen @ [l]) ls)"

definition stages :: "soak_sample list \<Rightarrow> jsstring list" where
  "stages samples = first_labels [] (map sk_label (filter (\<lambda>s. stage_label (sk_label s)) samples))"

definition steady :: "soak_sample list \<Rightarrow> jsstring \<Rightarrow> soak_sample list" where
  "steady samples stage = (let stage_samples = filter (\<lambda>s. sk_label s = stage) samples in drop (length stage_samples div 10) stage_samples)"

definition soak_fields :: "string list" where
  "soak_fields = [''rssBytes'', ''heapAllocBytes'', ''goroutines'', ''cgroupSocketBytes'', ''cgroupKernelBytes'']"

definition points :: "soak_sample list \<Rightarrow> string \<Rightarrow> (jsnum \<times> jsnum) list" where
  "points samples field =
     map (\<lambda>s. (Finite (sk_elapsedSeconds s), Finite (the (sk_field s field)))) (filter (\<lambda>s. sk_field s field \<noteq> None) samples)"

text \<open>The trends of one stage; \<open>None\<close> is an error of \<^verbatim>\<open>resourceTrend\<close>, which ends the program.\<close>

fun stage_trends :: "soak_sample list \<Rightarrow> jsstring \<Rightarrow> string list \<Rightarrow> (jsstring \<times> string \<times> trend) list option" where
  "stage_trends samples stage [] = Some []"
| "stage_trends samples stage (field # names) =
     (let ps = points (steady samples stage) field in
      if length ps \<ge> 2 then
        Option.bind (resourceTrend ps) (\<lambda>t. map_option (\<lambda>ts. (stage, field, t) # ts) (stage_trends samples stage names))
      else stage_trends samples stage names)"

fun soak_trends :: "soak_sample list \<Rightarrow> jsstring list \<Rightarrow> (jsstring \<times> string \<times> trend) list option" where
  "soak_trends samples [] = Some []"
| "soak_trends samples (stage # rest) =
     Option.bind (if length (steady samples stage) < 2 then Some [] else stage_trends samples stage soak_fields) (\<lambda>ts.
       map_option (\<lambda>more_ts. ts @ more_ts) (soak_trends samples rest))"

subsection \<open>Facts\<close>

definition config_ok :: "profile \<Rightarrow> bool" where
  "config_ok p \<longleftrightarrow> 0 \<le> bp_idleTunnels p \<and> bp_idleTunnels p < bp_tunnels p \<and> 1 \<le> bp_concurrency p \<and> 1 \<le> bp_durationSeconds p \<and>
     0 \<le> bp_churnCycles p \<and> 1 \<le> bp_largeMessageBytes p \<and> 1 \<le> bp_slowConsumerHoldMs p \<and> 1 \<le> bp_recoverySeconds p"

lemma envInteger_ge: "envInteger num v fallback minimum = Some n \<Longrightarrow> minimum \<le> fallback \<Longrightarrow> minimum \<le> n"
  by (auto simp: envInteger_def le_floor_iff split: option.splits if_splits)

lemma defaults_ok: "profile_defaults a v = Some d \<Longrightarrow> config_ok d \<and> 1 \<le> bp_tunnels d"
  by (auto simp: profile_defaults_def Let_def config_ok_def smoke_def soak_def split: if_splits)

lemma bench_config_ok:
  assumes "profile_defaults a v = Some d" "bench_config num env d = Some p"
  shows "config_ok p"
proof -
  note d = defaults_ok [OF assms(1), unfolded config_ok_def]
  show ?thesis using assms(2) d
    by (auto simp: bench_config_def config_ok_def bind_eq_Some_conv split: if_splits dest!: envInteger_ge)
qed

text \<open>The successful durations, of all kinds or of one.\<close>

definition successes :: "operation_record list \<Rightarrow> operation_record list" where
  "successes rs = filter (\<lambda>r. op_error r = None) rs"

definition recorded :: "operation_record list \<Rightarrow> driver \<Rightarrow> bool" where
  "recorded rs dv \<longleftrightarrow> dv_written dv @ dv_records dv = rs \<and> length (dv_records dv) < 1024 \<and>
     dv_errorCount dv = length rs - length (successes rs) \<and>
     observe_all (map op_durationMs (successes rs)) new_histogram = Some (dv_latencies dv) \<and>
     (\<forall>k. observe_all (map op_durationMs (filter (\<lambda>r. op_kind r = k) (successes rs))) new_histogram = Some (dv_shapeLatencies dv k))"

lemma observe_all_snoc: "observe_all (vs @ [v]) h = Option.bind (observe_all vs h) (observe (Finite v))"
  by (induction vs arbitrary: h) (simp_all add: bind_eq_None_conv split: bind_split)

lemma recorded_new: "recorded [] new_driver"
  by (simp add: recorded_def new_driver_def successes_def)

lemma length_successes: "length (successes rs) \<le> length rs"
  by (simp add: successes_def)

lemma recorded_step:
  assumes "recorded rs dv" "0 \<le> op_durationMs r"
  shows "\<exists>dv'. recordOperation r dv = Some dv' \<and> recorded (rs @ [r]) dv' \<and> dv_workloadStopped dv' = dv_workloadStopped dv"
proof -
  have o: "\<exists>h'. observe (Finite (op_durationMs r)) h = Some h'" for h using assms(2) by (simp add: observe_def Let_def)
  have w: "(dv_written dv @ dv_records dv) @ [r] = rs @ [r]" using assms(1) by (simp add: recorded_def)
  show ?thesis
  proof (cases "op_error r")
    case None
    obtain h hk where h: "observe (Finite (op_durationMs r)) (dv_latencies dv) = Some h"
      "observe (Finite (op_durationMs r)) (dv_shapeLatencies dv (op_kind r)) = Some hk" using o by blast
    then show ?thesis using assms(1) None w length_successes [of rs]
      by (auto simp: recordOperation_def count_operation_def flushOperations_def recorded_def successes_def Let_def observe_all_snoc)
  next
    case (Some e)
    then show ?thesis using assms(1) w length_successes [of rs]
      by (auto simp: recordOperation_def count_operation_def flushOperations_def recorded_def successes_def Let_def Suc_diff_le)
  qed
qed

definition budget_kept :: "smoke_thresholds \<Rightarrow> driver \<Rightarrow> bool" where
  "budget_kept t dv \<longleftrightarrow> (dv_workloadStopped dv \<longleftrightarrow> int (dv_errorCount dv) > t_maxErrors t)"

lemma worker_turn_step:
  assumes "recorded rs dv" "budget_kept t dv" "0 \<le> op_durationMs r"
  shows "\<exists>dv' failed. worker_turn t r dv = Some (dv', failed) \<and> recorded (rs @ [r]) dv' \<and> budget_kept t dv'"
proof -
  from recorded_step [OF assms(1,3)] obtain dv1 where
    dv1: "recordOperation r dv = Some dv1" "recorded (rs @ [r]) dv1" "dv_workloadStopped dv1 = dv_workloadStopped dv" by blast
  have n: "dv_errorCount dv1 = (if op_error r = None then dv_errorCount dv else Suc (dv_errorCount dv))"
    using dv1(2) assms(1) length_successes [of rs] by (simp add: recorded_def successes_def Suc_diff_le)
  show ?thesis
  proof (cases "op_error r \<noteq> None \<and> int (dv_errorCount dv1) > t_maxErrors t")
    case True
    then show ?thesis using dv1
      by (intro exI [of _ "dv1\<lparr>dv_workloadStopped := True\<rparr>"] exI [of _ True]) (simp add: worker_turn_def budget_kept_def recorded_def)
  next
    case False
    then show ?thesis using dv1 assms(2) n by (auto simp: worker_turn_def budget_kept_def split: if_splits)
  qed
qed

lemma worker_turns_recorded:
  "recorded xs dv \<Longrightarrow> budget_kept t dv \<Longrightarrow> list_all (\<lambda>r. 0 \<le> op_durationMs r) rs \<Longrightarrow>
    \<exists>dv'. worker_turns t rs dv = Some dv' \<and> recorded (xs @ rs) dv' \<and> budget_kept t dv'"
proof (induction rs arbitrary: xs dv)
  case (Cons r rs)
  have "0 \<le> op_durationMs r" using Cons.prems(3) by simp
  from worker_turn_step [OF Cons.prems(1,2) this] obtain dv1 failed where
    dv1: "worker_turn t r dv = Some (dv1, failed)" "recorded (xs @ [r]) dv1" "budget_kept t dv1" by (elim exE conjE)
  from Cons.IH [OF dv1(2,3)] Cons.prems(3) show ?case by (simp add: dv1(1))
qed simp

lemma observed_count:
  assumes "observe_all vs new_histogram = Some h" "list_all (\<lambda>v. 0 \<le> v) vs"
  shows "d_count (histogram_distribution h) = length vs"
proof (cases "vs = []")
  case True
  then show ?thesis using assms(1) by (auto simp: new_histogram_def histogram_distribution_def distribution_def empty_distr_def)
next
  case False
  then show ?thesis using histogram_matches [OF assms(2)] assms(1) by (auto simp: Let_def distribution_def)
qed

lemma durations_pos:
  "list_all (\<lambda>r. 0 \<le> op_durationMs r) rs \<Longrightarrow> list_all (\<lambda>v. 0 \<le> v) (map op_durationMs (filter P (successes rs)))"
  by (auto simp: list_all_iff successes_def)

lemma recorded_kinds:
  assumes "recorded rs dv" "list_all (\<lambda>r. 0 \<le> op_durationMs r) rs"
  shows "d_count (histogram_distribution (dv_shapeLatencies dv k)) = 0 \<longleftrightarrow> (\<forall>r \<in> set rs. op_error r = None \<longrightarrow> op_kind r \<noteq> k)"
proof -
  have "observe_all (map op_durationMs (filter (\<lambda>r. op_kind r = k) (successes rs))) new_histogram = Some (dv_shapeLatencies dv k)"
    using assms(1) unfolding recorded_def by blast
  from observed_count [OF this durations_pos [OF assms(2)]] show ?thesis
    by (auto simp: successes_def filter_empty_conv)
qed

lemma recorded_p99:
  assumes "recorded rs dv" "list_all (\<lambda>r. 0 \<le> op_durationMs r) rs"
  shows "d_p99Ms (histogram_distribution (dv_latencies dv)) =
    (let d = distribution (map op_durationMs (successes rs)) in ceil_ms (d_maxMs d) (d_p99Ms d))"
proof -
  have o: "observe_all (map op_durationMs (successes rs)) new_histogram = Some (dv_latencies dv)"
    using assms(1) unfolding recorded_def by blast
  show ?thesis
  proof (cases "successes rs = []")
    case True
    then have "dv_latencies dv = new_histogram" using o by simp
    then show ?thesis using True
      by (simp add: new_histogram_def histogram_distribution_def distribution_def empty_distr_def ceil_ms_def)
  next
    case False
    have "list_all (\<lambda>v. 0 \<le> v) (map op_durationMs (successes rs))" using durations_pos [OF assms(2), of "\<lambda>_. True"] by simp
    from histogram_matches [OF this] False o show ?thesis by (auto simp: Let_def)
  qed
qed

lemma first_only_ramp: "1 \<le> m \<Longrightarrow> m \<le> n \<Longrightarrow> sorted (first_only [] [1, m, n]) \<and> distinct (first_only [] [1, m, n]) \<and> last (first_only [] [1, m, n]) = n"
  by auto

lemma claims_once: "claims cycles n k = [k ..< min cycles (k + n)]"
  by (induction n arbitrary: k) (auto simp: claim_def upt_rec)

lemma kind_cases: "k \<in> set kinds"
  by (cases k) (simp_all add: kinds_def)

lemma exit_code_zero: "exit_code fs = 0 \<longleftrightarrow> fs = []"
  by (simp add: exit_code_def)

lemma gate_open:
  "recoveryFailures baseline recovered errors p99Ms t = [] \<longleftrightarrow>
    errors \<le> t_maxErrors t \<and> p99Ms \<le> t_maxP99Ms t \<and> r_activeTunnels recovered = 0 \<and> r_establishedTunnels recovered = 0 \<and>
    r_goroutines recovered \<le> r_goroutines baseline + t_maxGoroutineGrowth t \<and>
    r_heapAllocBytes recovered \<le> r_heapAllocBytes baseline + t_maxHeapGrowthBytes t \<and>
    (\<forall>b r. r_rssBytes baseline = Some b \<and> r_rssBytes recovered = Some r \<longrightarrow> r \<le> b + t_maxRSSGrowthBytes t)"
  by (auto simp: recoveryFailures_def split: option.splits)

lemma no_bench_failures:
  "bench_failures baseline recovered t workloadFailures dv = [] \<longleftrightarrow>
    recoveryFailures baseline recovered (int (dv_errorCount dv)) (d_p99Ms (histogram_distribution (dv_latencies dv))) t = [] \<and>
    workloadFailures = [] \<and> r_rssBytes baseline \<noteq> None \<and> r_rssBytes recovered \<noteq> None \<and>
    (\<forall>k. d_count (histogram_distribution (dv_shapeLatencies dv k)) \<noteq> 0)"
  using kind_cases by (auto simp: bench_failures_def filter_empty_conv)

subsection \<open>Properties\<close>

text \<open>An accepted configuration has at least one working tunnel and positive amounts.\<close>

theorem accepted_config:
  "profile_defaults argument variable = Some d \<Longrightarrow> bench_config num env d = Some p \<Longrightarrow> config_ok p"
  by (rule bench_config_ok)

text \<open>However the churn workers interleave, enough claims run every cycle exactly once and in order.\<close>

theorem churn_runs_each_once: "cycles \<le> n \<Longrightarrow> claims cycles n 0 = [0 ..< cycles]"
  by (simp add: claims_once)

text \<open>The ramp goes up and ends at the configured level.\<close>

theorem ramp_levels:
  assumes "1 \<le> n" "1 \<le> parts"
  shows "sorted (levels parts n) \<and> distinct (levels parts n) \<and> last (levels parts n) = n"
proof -
  have "(of_int n :: real) / of_int parts \<le> of_int n" using assms by (simp add: divide_le_eq mult_le_cancel_left1)
  then have "max 1 \<lceil>(of_int n :: real) / of_int parts\<rceil> \<le> n" using assms(1) by (simp add: ceiling_le_iff)
  then show ?thesis unfolding levels_def by (intro first_only_ramp) simp_all
qed

text \<open>The load run passes exactly if it should: for every sequence of operations the driver records all of them in order,
  stops the workload exactly when the errors exceed their budget, and the run exits with 0 if and only if nothing failed
  outside the operations, the tunnels, goroutines, heap and resident memory recovered within their limits (resident memory
  being measured), the errors and the 99th percentile (rounded up to a millisecond) are within theirs, and every kind of
  operation succeeded at least once.\<close>

theorem bench_verdict:
  assumes "list_all (\<lambda>r. 0 \<le> op_durationMs r) rs" "0 \<le> t_maxErrors t"
  shows "\<exists>dv. worker_turns t rs new_driver = Some dv \<and> dv_written (flushOperations dv) = rs \<and>
    (dv_workloadStopped dv \<longleftrightarrow> int (length (filter (\<lambda>r. op_error r \<noteq> None) rs)) > t_maxErrors t) \<and>
    (exit_code (bench_failures baseline recovered t workloadFailures dv) = 0 \<longleftrightarrow>
      workloadFailures = [] \<and> int (length (filter (\<lambda>r. op_error r \<noteq> None) rs)) \<le> t_maxErrors t \<and>
      (let d = distribution (map op_durationMs (filter (\<lambda>r. op_error r = None) rs)) in
         ceil_ms (d_maxMs d) (d_p99Ms d) \<le> t_maxP99Ms t) \<and>
      (\<forall>k. \<exists>r \<in> set rs. op_error r = None \<and> op_kind r = k) \<and>
      r_activeTunnels recovered = 0 \<and> r_establishedTunnels recovered = 0 \<and>
      r_goroutines recovered \<le> r_goroutines baseline + t_maxGoroutineGrowth t \<and>
      r_heapAllocBytes recovered \<le> r_heapAllocBytes baseline + t_maxHeapGrowthBytes t \<and>
      (\<exists>b r. r_rssBytes baseline = Some b \<and> r_rssBytes recovered = Some r \<and> r \<le> b + t_maxRSSGrowthBytes t))"
proof -
  have "budget_kept t new_driver" using assms(2) by (simp add: budget_kept_def new_driver_def)
  from worker_turns_recorded [OF recorded_new this assms(1)] obtain dv where
    dv: "worker_turns t rs new_driver = Some dv" "recorded rs dv" "budget_kept t dv" by auto
  have len: "length rs - length (successes rs) = length (filter (\<lambda>r. op_error r \<noteq> None) rs)"
    using sum_length_filter_compl [of "\<lambda>r. op_error r = None" rs] unfolding successes_def by linarith
  have errs: "dv_errorCount dv = length (filter (\<lambda>r. op_error r \<noteq> None) rs)" using dv(2) by (simp add: recorded_def len)
  note kinds0 = recorded_kinds [OF dv(2) assms(1)] and p99 = recorded_p99 [OF dv(2) assms(1)]
  have stop: "dv_workloadStopped dv \<longleftrightarrow> int (length (filter (\<lambda>r. op_error r \<noteq> None) rs)) > t_maxErrors t"
    using dv(3) unfolding budget_kept_def errs .
  have written: "dv_written (flushOperations dv) = rs" using dv(2) by (simp add: flushOperations_def recorded_def)
  have rss: "(\<exists>b r. r_rssBytes baseline = Some b \<and> r_rssBytes recovered = Some r \<and> r \<le> b + t_maxRSSGrowthBytes t) \<longleftrightarrow>
      r_rssBytes baseline \<noteq> None \<and> r_rssBytes recovered \<noteq> None \<and>
      (\<forall>b r. r_rssBytes baseline = Some b \<and> r_rssBytes recovered = Some r \<longrightarrow> r \<le> b + t_maxRSSGrowthBytes t)" by auto
  have ks: "(\<forall>k. \<exists>r\<in>set rs. op_error r = None \<and> op_kind r = k) \<longleftrightarrow>
      (\<forall>k. d_count (histogram_distribution (dv_shapeLatencies dv k)) \<noteq> 0)" unfolding kinds0 by blast
  show ?thesis
    unfolding exit_code_zero rss ks
    by (intro exI [of _ dv] conjI dv(1) written stop)
       (unfold exit_code_zero no_bench_failures gate_open errs p99 successes_def ks Let_def, blast)
qed

definition one_of_each :: "operation_record list" where
  "one_of_each = map (\<lambda>k. \<lparr>op_kind = k, op_durationMs = 2, op_error = None\<rparr>) kinds"

definition idle_bridge :: recovery_snapshot where
  "idle_bridge = \<lparr>r_activeTunnels = 0, r_establishedTunnels = 0, r_goroutines = 9, r_heapAllocBytes = 1000, r_rssBytes = Some 2000\<rparr>"

definition default_thresholds :: smoke_thresholds where
  "default_thresholds = \<lparr>t_maxErrors = 0, t_maxP99Ms = 5000, t_maxGoroutineGrowth = 20, t_maxHeapGrowthBytes = 8388608,
     t_maxRSSGrowthBytes = 16777216\<rparr>"

theorem bench_verdict_witness:
  "\<exists>dv. worker_turns default_thresholds one_of_each new_driver = Some dv \<and>
    exit_code (bench_failures idle_bridge idle_bridge default_thresholds [] dv) = 0"
proof -
  have pos: "list_all (\<lambda>r. 0 \<le> op_durationMs r) one_of_each" "0 \<le> t_maxErrors default_thresholds"
    by (simp_all add: one_of_each_def kinds_def default_thresholds_def)
  have each: "\<exists>r \<in> set one_of_each. op_error r = None \<and> op_kind r = k" for k
    by (cases k) (simp_all add: one_of_each_def kinds_def)
  have times: "map op_durationMs (filter (\<lambda>r. op_error r = None) one_of_each) = [2, 2, 2, 2]"
    by (simp add: one_of_each_def kinds_def)
  have p: "(let d = distribution [2, 2, 2, 2 :: real] in ceil_ms (d_maxMs d) (d_p99Ms d)) \<le> 5000"
    by (simp add: Let_def distribution_def percentile_def ceil_ms_def)
  have e: "filter (\<lambda>r. op_error r \<noteq> None) one_of_each = []" by (simp add: one_of_each_def kinds_def)
  from bench_verdict [OF pos, of idle_bridge idle_bridge "[]"] obtain dv where
    "worker_turns default_thresholds one_of_each new_driver = Some dv"
    "exit_code (bench_failures idle_bridge idle_bridge default_thresholds [] dv) = 0"
    using each p unfolding times e by (auto simp: Let_def idle_bridge_def default_thresholds_def)
  then show ?thesis by blast
qed

text \<open>A reported trend is the trend of one field within one stage, without the first tenth of its samples.\<close>

lemma stage_trends_mem:
  "stage_trends samples stage names = Some ts \<Longrightarrow> (g, f, t) \<in> set ts \<Longrightarrow> g = stage \<and> resourceTrend (points (steady samples stage) f) = Some t"
  by (induction names arbitrary: ts) (auto simp: Let_def bind_eq_Some_conv split: if_splits)

theorem soak_trends_per_stage:
  assumes "soak_trends samples (stages samples) = Some ts" "(g, f, t) \<in> set ts"
  shows "g \<in> set (stages samples) \<and> resourceTrend (points (steady samples g) f) = Some t \<and>
    (\<forall>s \<in> set (steady samples g). s \<in> set samples \<and> sk_label s = g)"
proof -
  have "soak_trends samples gs = Some ts \<Longrightarrow> (g, f, t) \<in> set ts \<Longrightarrow>
      g \<in> set gs \<and> resourceTrend (points (steady samples g) f) = Some t" for gs ts
    by (induction gs arbitrary: ts) (auto simp: bind_eq_Some_conv split: if_splits dest: stage_trends_mem)
  from this [OF assms] show ?thesis by (auto simp: steady_def Let_def dest: in_set_dropD)
qed

end
