(* ===== verification/Package_Audit.thy ===== *)
theory Package_Audit
  imports Json
begin

text \<open>
  The checks of the package that is published (\<^verbatim>\<open>web/scripts\<close>): \<^verbatim>\<open>package-audit-lib.mjs\<close>, which audits the list of packed
  files and their source maps; \<^verbatim>\<open>stage-package-sources.mjs\<close>, which rewrites the source maps so that they point at the
  packed copies of the sources; and the checks of \<^verbatim>\<open>verify-tarball.mjs\<close> on the unpacked archive.

  Paths are strings of code units. The functions of \<^verbatim>\<open>node:path\<close> (\<^verbatim>\<open>posix\<close>) that the scripts call work on them by
  segments, the way the library does. A regular expression is a predicate that scans the string. An \<open>audit_error\<close> is the
  failed assertion.
\<close>

subsection \<open>Paths\<close>

abbreviation (input) slash :: codeunit where "slash \<equiv> 47"

definition starts_with :: "jsstring \<Rightarrow> jsstring \<Rightarrow> bool" where
  "starts_with p s \<longleftrightarrow> take (length p) s = p"

definition ends_with :: "jsstring \<Rightarrow> jsstring \<Rightarrow> bool" where
  "ends_with p s \<longleftrightarrow> length p \<le> length s \<and> drop (length s - length p) s = p"

fun segments :: "jsstring \<Rightarrow> jsstring list" where
  "segments [] = [[]]"
| "segments (u # us) =
     (if u = slash then [] # segments us
      else case segments us of s # ss \<Rightarrow> (u # s) # ss | [] \<Rightarrow> [[u]])"

fun join_segments :: "jsstring list \<Rightarrow> jsstring" where
  "join_segments [] = []"
| "join_segments [s] = s"
| "join_segments (s # ss) = s @ slash # join_segments ss"

abbreviation (input) dot :: jsstring where "dot \<equiv> [46]"
abbreviation (input) dotdot :: jsstring where "dotdot \<equiv> [46, 46]"

text \<open>The stack of \<^verbatim>\<open>normalizeString\<close>, its top first.\<close>

definition push_segment :: "bool \<Rightarrow> jsstring list \<Rightarrow> jsstring \<Rightarrow> jsstring list" where
  "push_segment allowAboveRoot stack s =
     (if s = [] \<or> s = dot then stack
      else if s = dotdot then
        (if stack \<noteq> [] \<and> hd stack \<noteq> dotdot then tl stack
         else if allowAboveRoot then dotdot # stack
         else stack)
      else s # stack)"

definition normalize_segments :: "bool \<Rightarrow> jsstring list \<Rightarrow> jsstring list" where
  "normalize_segments allowAboveRoot ss = rev (foldl (push_segment allowAboveRoot) [] ss)"

definition is_absolute :: "jsstring \<Rightarrow> bool" where
  "is_absolute p \<longleftrightarrow> starts_with [slash] p"

definition normalize_path :: "jsstring \<Rightarrow> jsstring" where
  "normalize_path p =
     (if p = [] then dot
      else
        let absolute = is_absolute p;
            trailing = ends_with [slash] p;
            text = join_segments (normalize_segments (\<not> absolute) (segments p))
        in if text = [] then (if absolute then [slash] else if trailing then dot @ [slash] else dot)
           else (if absolute then [slash] else []) @ text @ (if trailing then [slash] else []))"

definition join_path :: "jsstring \<Rightarrow> jsstring \<Rightarrow> jsstring" where
  "join_path a b =
     (let joined = (if a = [] then b else if b = [] then a else a @ slash # b)
      in if joined = [] then dot else normalize_path joined)"

text \<open>\<^verbatim>\<open>dirname\<close> scans from the end and never looks at the first character for a separator.\<close>

definition dirname_path :: "jsstring \<Rightarrow> jsstring" where
  "dirname_path p =
     (case p of
        [] \<Rightarrow> dot
      | u # us \<Rightarrow>
          (case dropWhile (\<lambda>c. c \<noteq> slash) (dropWhile (\<lambda>c. c = slash) (rev us)) of
             [] \<Rightarrow> if u = slash then [slash] else dot
           | c # before \<Rightarrow> if u = slash \<and> before = [] then [slash, slash] else u # rev before))"

subsection \<open>The list of packed files\<close>

datatype audit_error =
    DuplicatePaths
  | UnsafePath jsstring
  | UnexpectedFile jsstring
  | FixtureLeaked jsstring
  | MissingFile jsstring
  | MissingSibling jsstring
  | InvalidMap jsstring
  | UnexpectedSourceRoot jsstring
  | MissingSources jsstring
  | UnsafeSource jsstring
  | UnresolvedSource jsstring jsstring
  | MapContentMismatch jsstring
  | UnreferencedSource jsstring
  | MapEscapes jsstring jsstring
  | ArchiveRoot
  | ArchiveDiffers
  | SpecialFiles
  | WrongManifest
  | WrongExports
  | UnresolvedExport jsstring

definition requiredFiles :: "jsstring list" where
  "requiredFiles =
     map js [''package.json'', ''README.md'', ''RETRIES.md'', ''LICENSE'', ''licenses/h2ts-LICENSE-MIT'', ''licenses/h2ts-NOTICE.md'',
       ''licenses/go-LICENSE'', ''licenses/protobuf-LICENSE'', ''licenses/connect-LICENSE'', ''contracts/runtime-graph-v1.md'',
       ''contracts/runtime-graph-v1.schema.json'', ''contracts/runtime-graph-v1.conformance.json'',
       ''contracts/runtime-graph-v1.conformance.proto''] @
     concat (map (\<lambda>name. map (\<lambda>ext. js ''package-dist/'' @ js name @ js ext) [''.js'', ''.js.map'', ''.d.ts'', ''.d.ts.map''])
       [''index'', ''raw'', ''codegen''])"

text \<open>The class \<^verbatim>\<open>[\w/-]\<close>.\<close>

definition path_unit :: "codeunit \<Rightarrow> bool" where
  "path_unit c \<longleftrightarrow> 48 \<le> c \<and> c \<le> 57 \<or> 65 \<le> c \<and> c \<le> 90 \<or> c = 95 \<or> 97 \<le> c \<and> c \<le> 122 \<or> c = 47 \<or> c = 45"

text \<open>A file below a directory whose name is made of these units, with one of the extensions. A unit of the class is not a
  dot, so the expression can only match where the first other unit is.\<close>

definition named_file :: "jsstring \<Rightarrow> jsstring list \<Rightarrow> jsstring \<Rightarrow> bool" where
  "named_file dir exts path \<longleftrightarrow> starts_with dir path \<and>
     (let rest = drop (length dir) path
      in takeWhile path_unit rest \<noteq> [] \<and> dropWhile path_unit rest \<in> set exts)"

definition dist_extensions :: "jsstring list" where
  "dist_extensions = map js [''.js'', ''.js.map'', ''.d.ts'', ''.d.ts.map'']"

definition allowed_file :: "jsstring \<Rightarrow> bool" where
  "allowed_file path \<longleftrightarrow> path \<in> set requiredFiles \<or> named_file (js ''package-dist/'') dist_extensions path \<or>
     named_file (js ''package-sources/'') [js ''.ts''] path"

definition safe_path :: "jsstring \<Rightarrow> bool" where
  "safe_path path \<longleftrightarrow> 92 \<notin> set path \<and> \<not> starts_with [slash] path \<and> dotdot \<notin> set (segments path)"

fun after_slashes :: "jsstring \<Rightarrow> jsstring list" where
  "after_slashes [] = []"
| "after_slashes (u # us) = (if u = slash then us # after_slashes us else after_slashes us)"

definition fixture_start :: "jsstring \<Rightarrow> bool" where
  "fixture_start s \<longleftrightarrow>
     (\<exists>w\<in>set [js ''demo'', js ''verify'']. starts_with w s \<and>
        (case drop (length w) s of [] \<Rightarrow> True | c # _ \<Rightarrow> c = 46 \<or> c = 95 \<or> c = 47)) \<or>
     starts_with (js ''gen/'') s"

definition fixture_path :: "jsstring \<Rightarrow> bool" where
  "fixture_path path \<longleftrightarrow> list_ex fixture_start (path # after_slashes path)"

fun first_error :: "('a \<Rightarrow> 'e option) \<Rightarrow> 'a list \<Rightarrow> 'e option" where
  "first_error f [] = None"
| "first_error f (x # xs) = (case f x of Some e \<Rightarrow> Some e | None \<Rightarrow> first_error f xs)"

definition check_path :: "jsstring \<Rightarrow> audit_error option" where
  "check_path path =
     (if \<not> safe_path path then Some (UnsafePath path)
      else if \<not> allowed_file path then Some (UnexpectedFile path)
      else if fixture_path path then Some (FixtureLeaked path)
      else None)"

definition compiled_file :: "jsstring \<Rightarrow> bool" where
  "compiled_file p \<longleftrightarrow> starts_with (js ''package-dist/'') p \<and> ends_with (js ''.js'') p"

definition siblings :: "jsstring \<Rightarrow> jsstring list" where
  "siblings path =
     [path @ js ''.map'', take (length path - 3) path @ js ''.d.ts'', take (length path - 3) path @ js ''.d.ts.map'']"

definition auditFileList :: "jsstring list \<Rightarrow> audit_error + jsstring set" where
  "auditFileList paths =
     (if \<not> distinct paths then Inl DuplicatePaths
      else
        let files = set paths in
        case first_error check_path paths of
          Some e \<Rightarrow> Inl e
        | None \<Rightarrow>
            (case first_error (\<lambda>p. if p \<in> files then None else Some (MissingFile p)) requiredFiles of
               Some e \<Rightarrow> Inl e
             | None \<Rightarrow>
                 (case first_error (\<lambda>p. first_error (\<lambda>s. if s \<in> files then None else Some (MissingSibling s)) (siblings p))
                         (filter compiled_file paths) of
                    Some e \<Rightarrow> Inl e
                  | None \<Rightarrow> Inr files)))"

subsection \<open>Source maps\<close>

record source_map =
  sm_version :: jsvalue
  sm_sourceRoot :: jsvalue
  sm_sources :: jsvalue
  sm_sourcesContent :: jsvalue

fun truthy :: "jsvalue \<Rightarrow> bool" where
  "truthy JNull = False"
| "truthy JUndefined = False"
| "truthy (JBool b) = b"
| "truthy (JString s) = (s \<noteq> [])"
| "truthy (JNumber n) = (case n of NaN \<Rightarrow> False | Infinite b \<Rightarrow> True | Finite r \<Rightarrow> r \<noteq> 0)"
| "truthy JMinusZero = False"
| "truthy _ = True"

definition map_target :: "jsstring \<Rightarrow> jsstring \<Rightarrow> jsstring" where
  "map_target path source = normalize_path (join_path (dirname_path path) source)"

fun audit_source :: "jsstring \<Rightarrow> jsstring set \<Rightarrow> jsvalue \<Rightarrow> audit_error + jsstring" where
  "audit_source path files (JString source) =
     (if 92 \<in> set source \<or> is_absolute source then Inl (UnsafeSource path)
      else if \<not> (starts_with (js ''package-sources/'') (map_target path source) \<and> map_target path source \<in> files)
      then Inl (UnresolvedSource path source)
      else Inr (map_target path source))"
| "audit_source path files _ = Inl (UnsafeSource path)"

fun audit_sources :: "jsstring \<Rightarrow> jsstring set \<Rightarrow> jsvalue list \<Rightarrow> audit_error + jsstring list" where
  "audit_sources path files [] = Inr []"
| "audit_sources path files (v # vs) =
     bind_result (audit_source path files v) (\<lambda>t. bind_result (audit_sources path files vs) (\<lambda>ts. Inr (t # ts)))"

definition auditMap :: "jsstring \<Rightarrow> source_map \<Rightarrow> jsstring set \<Rightarrow> audit_error + jsstring list" where
  "auditMap path m files =
     (if sm_version m \<noteq> JNumber (Finite 3) then Inl (InvalidMap path)
      else if truthy (sm_sourceRoot m) then Inl (UnexpectedSourceRoot path)
      else case sm_sources m of
             JArray (v # vs) \<Rightarrow> audit_sources path files (v # vs)
           | _ \<Rightarrow> Inl (MissingSources path))"

subsection \<open>Staging the sources\<close>

text \<open>Absolute paths are lists of segments; \<open>cwd\<close> is the working directory and \<open>dir\<close> the directory of the map.\<close>

definition resolve_from :: "jsstring list \<Rightarrow> jsstring \<Rightarrow> jsstring list" where
  "resolve_from dir p = normalize_segments False (if is_absolute p then segments p else dir @ segments p)"

fun relative_segments :: "jsstring list \<Rightarrow> jsstring list \<Rightarrow> jsstring list" where
  "relative_segments (a # as) (b # bs) = (if a = b then relative_segments as bs else map (\<lambda>_. dotdot) (a # as) @ b # bs)"
| "relative_segments [] bs = bs"
| "relative_segments as [] = map (\<lambda>_. dotdot) as"

text \<open>One source of a map: the file that is copied, where it is copied to, and the new text of the source.\<close>

definition stage_source ::
    "jsstring list \<Rightarrow> jsstring list \<Rightarrow> jsstring \<Rightarrow> audit_error + jsstring list \<times> jsstring list \<times> jsstring" where
  "stage_source cwd dir source =
     (let sourceRoot = cwd @ [js ''src''];
          original = resolve_from dir source;
          local = join_segments (relative_segments sourceRoot original)
      in if starts_with (dotdot @ [slash]) local \<or> local = dotdot \<or> is_absolute local \<or> resolve_from sourceRoot local \<noteq> original
         then Inl (MapEscapes (join_segments dir) source)
         else
           let destination = resolve_from (cwd @ [js ''package-sources'']) local
           in Inr (original, destination, join_segments (relative_segments dir destination)))"

subsection \<open>The packed archive\<close>

text \<open>The regular files that \<^verbatim>\<open>tar\<close> lists, relative to the directory \<^verbatim>\<open>package\<close>.\<close>

definition archive_paths :: "jsstring list \<Rightarrow> audit_error + jsstring list" where
  "archive_paths entries =
     (let regular = filter (\<lambda>p. \<not> ends_with [slash] p) entries
      in if list_all (starts_with (js ''package/'')) regular then Inr (sort (map (drop 8) regular)) else Inl ArchiveRoot)"

definition bridge_name :: jsstring where
  "bridge_name = js ''@dunkymole/grpc-bridge''"

text \<open>An entry of \<^verbatim>\<open>exports\<close> is its key with the targets \<^verbatim>\<open>types\<close> and \<^verbatim>\<open>import\<close>.\<close>

definition export_file :: "jsstring \<Rightarrow> jsstring" where
  "export_file target = (if starts_with (js ''./'') target then drop 2 target else target)"

definition check_exports :: "(jsstring \<times> jsstring \<times> jsstring) list \<Rightarrow> jsstring set \<Rightarrow> audit_error option" where
  "check_exports exports files =
     (if sort (map fst exports) \<noteq> [js ''.'', js ''./codegen'', js ''./raw''] then Some WrongExports
      else first_error (\<lambda>t. if export_file t \<in> files then None else Some (UnresolvedExport t))
             (concat (map (\<lambda>(k, types, import). [types, import]) exports)))"

fun element_at :: "jsvalue \<Rightarrow> nat \<Rightarrow> jsvalue" where
  "element_at (JArray vs) i = (if i < length vs then vs ! i else JUndefined)"
| "element_at (JString s) i = (if i < length s then JString [s ! i] else JUndefined)"
| "element_at (JObject kvs) i = (case map_of kvs (nat_text i) of Some v \<Rightarrow> v | None \<Rightarrow> JUndefined)"
| "element_at _ i = JUndefined"

text \<open>\<open>content\<close> is what \<^verbatim>\<open>readFile\<close> reads of an unpacked file.\<close>

definition check_map :: "jsstring set \<Rightarrow> (jsstring \<Rightarrow> jsstring) \<Rightarrow> source_map \<Rightarrow> jsstring \<Rightarrow> audit_error + jsstring list" where
  "check_map files content m path =
     bind_result (auditMap path m files) (\<lambda>targets.
       if truthy (sm_sourcesContent m) \<and>
          \<not> list_all (\<lambda>i. element_at (sm_sourcesContent m) i = JString (content (targets ! i))) [0..<length targets]
       then Inl (MapContentMismatch path) else Inr targets)"

fun check_maps ::
    "jsstring set \<Rightarrow> (jsstring \<Rightarrow> jsstring) \<Rightarrow> (jsstring \<Rightarrow> source_map) \<Rightarrow> jsstring list \<Rightarrow> audit_error + jsstring set" where
  "check_maps files content maps [] = Inr {}"
| "check_maps files content maps (path # paths) =
     bind_result (check_map files content (maps path) path) (\<lambda>targets.
       bind_result (check_maps files content maps paths) (\<lambda>used. Inr (set targets \<union> used)))"

text \<open>The checks of \<^verbatim>\<open>verify-tarball.mjs\<close> on what \<^verbatim>\<open>npm pack\<close> lists (\<open>packed\<close>), the two listings of \<^verbatim>\<open>tar\<close> (\<open>entries\<close>, and the
  lines with file types \<open>lines\<close>), the name, license and exports of the manifest and the unpacked files.\<close>

definition verify_archive ::
    "jsstring list \<Rightarrow> jsstring list \<Rightarrow> jsstring list \<Rightarrow> jsstring \<times> jsstring \<Rightarrow> (jsstring \<times> jsstring \<times> jsstring) list \<Rightarrow>
     (jsstring \<Rightarrow> jsstring) \<Rightarrow> (jsstring \<Rightarrow> source_map) \<Rightarrow> audit_error + jsstring set" where
  "verify_archive packed entries lines identity exports content maps =
     (let paths = sort packed in
      bind_result (auditFileList paths) (\<lambda>files.
      bind_result (archive_paths entries) (\<lambda>actual.
      if actual \<noteq> paths then Inl ArchiveDiffers
      else if \<not> list_all (\<lambda>l. case l of c # _ \<Rightarrow> c = 100 \<or> c = 45 | [] \<Rightarrow> False) lines then Inl SpecialFiles
      else if identity \<noteq> (bridge_name, js ''MIT'') then Inl WrongManifest
      else case check_exports exports files of
        Some e \<Rightarrow> Inl e
      | None \<Rightarrow>
          bind_result (check_maps files content maps (filter (ends_with (js ''.map'')) paths)) (\<lambda>used.
            case first_error (\<lambda>p. if p \<in> used then None else Some (UnreferencedSource p))
                   (filter (starts_with (js ''package-sources/'')) paths) of
              Some e \<Rightarrow> Inl e
            | None \<Rightarrow> Inr files))))"

subsection \<open>Facts on paths\<close>

definition plain_segment :: "jsstring \<Rightarrow> bool" where
  "plain_segment s \<longleftrightarrow> s \<noteq> [] \<and> s \<noteq> dot \<and> s \<noteq> dotdot \<and> slash \<notin> set s"

lemma segments_nonempty [simp]: "segments p \<noteq> []"
  by (induction p) (auto split: list.splits)

lemma segments_no_slash: "list_all (\<lambda>s. slash \<notin> set s) (segments p)"
  by (induction p) (auto split: list.splits)

lemma segments_plain: "slash \<notin> set s \<Longrightarrow> segments s = [s]"
  by (induction s) auto

lemma segments_append_slash: "segments (s @ slash # t) = segments s @ segments t"
proof (induction s)
  case (Cons u s)
  then show ?case by (cases "segments s") auto
qed simp

lemma segments_join: "ss \<noteq> [] \<Longrightarrow> list_all (\<lambda>s. slash \<notin> set s) ss \<Longrightarrow> segments (join_segments ss) = ss"
  by (induction ss rule: join_segments.induct) (simp_all add: segments_plain segments_append_slash)

lemma join_append: "a \<noteq> [] \<Longrightarrow> b \<noteq> [] \<Longrightarrow> join_segments (a @ b) = join_segments a @ slash # join_segments b"
proof (induction a rule: join_segments.induct)
  case (2 s)
  then show ?case by (cases b) auto
qed auto

lemma push_plain [simp]: "plain_segment s \<Longrightarrow> push_segment b stack s = s # stack"
  by (simp add: push_segment_def plain_segment_def)

lemma foldl_plain: "list_all plain_segment ss \<Longrightarrow> foldl (push_segment b) stack ss = rev ss @ stack"
  by (induction ss arbitrary: stack) simp_all

lemma normalize_plain: "list_all plain_segment ss \<Longrightarrow> normalize_segments b ss = ss"
  by (simp add: normalize_segments_def foldl_plain)

lemma foldl_up: "list_all plain_segment ss \<Longrightarrow> foldl (push_segment b) (rev ss @ stack) (replicate (length ss) dotdot) = stack"
proof (induction ss arbitrary: stack rule: rev_induct)
  case (snoc s ss)
  then have "push_segment b (rev (ss @ [s]) @ stack) dotdot = rev ss @ stack" by (simp add: push_segment_def plain_segment_def)
  with snoc show ?case by simp
qed simp

lemma normalize_up:
  "list_all plain_segment ss \<Longrightarrow> list_all plain_segment ts \<Longrightarrow> normalize_segments b (ss @ map (\<lambda>_. dotdot) ss @ ts) = ts"
  using foldl_up [of ss b "[]"] by (simp add: normalize_segments_def foldl_plain map_replicate_const)

lemma push_keeps_plain:
  "list_all plain_segment stack \<Longrightarrow> slash \<notin> set s \<Longrightarrow> list_all plain_segment (push_segment False stack s)"
  by (cases stack) (auto simp: push_segment_def plain_segment_def)

lemma foldl_keeps_plain:
  "list_all plain_segment stack \<Longrightarrow> list_all (\<lambda>s. slash \<notin> set s) ss \<Longrightarrow> list_all plain_segment (foldl (push_segment False) stack ss)"
  by (induction ss arbitrary: stack) (simp_all add: push_keeps_plain)

lemma plain_no_slash: "list_all plain_segment ss \<Longrightarrow> list_all (\<lambda>s. slash \<notin> set s) ss"
  by (auto simp: list_all_iff plain_segment_def)

lemma resolve_plain: "list_all plain_segment dir \<Longrightarrow> list_all plain_segment (resolve_from dir p)"
  by (simp add: resolve_from_def normalize_segments_def foldl_keeps_plain segments_no_slash plain_no_slash)

lemma relative_common [simp]: "relative_segments (a @ xs) (a @ ys) = relative_segments xs ys"
  by (induction a) simp_all

lemma relative_below:
  "list_all plain_segment bs \<Longrightarrow> (case relative_segments as bs of s # _ \<Rightarrow> s \<noteq> dotdot | [] \<Rightarrow> True) \<Longrightarrow> bs = as @ relative_segments as bs"
  by (induction as bs rule: relative_segments.induct) (auto split: if_splits)

lemma hd_join: "ss \<noteq> [] \<Longrightarrow> hd ss \<noteq> [] \<Longrightarrow> join_segments ss \<noteq> [] \<and> hd (join_segments ss) = hd (hd ss)"
  by (induction ss rule: join_segments.induct) simp_all

lemma last_join: "ss \<noteq> [] \<Longrightarrow> last ss \<noteq> [] \<Longrightarrow> last (join_segments ss) = last (last ss)"
proof (induction ss rule: join_segments.induct)
  case (3 s t ss)
  moreover have "join_segments (t # ss) \<noteq> []" if "last (t # ss) \<noteq> []" for t ss using that by (cases ss) auto
  ultimately show ?case by simp
qed simp_all

lemma starts_slash: "p \<noteq> [] \<Longrightarrow> starts_with [slash] p \<longleftrightarrow> hd p = slash"
  by (cases p) (auto simp: starts_with_def)

lemma ends_slash: "p \<noteq> [] \<Longrightarrow> ends_with [slash] p \<longleftrightarrow> last p = slash"
  by (cases p rule: rev_cases) (auto simp: ends_with_def)

lemma plain_ends:
  assumes "plain_segment s"
  shows "s \<noteq> []" "hd s \<noteq> slash" "last s \<noteq> slash"
  using assms hd_in_set [of s] last_in_set [of s] unfolding plain_segment_def by metis+

lemma normalize_join:
  assumes "ss \<noteq> []" "list_all (\<lambda>s. slash \<notin> set s) ss" "plain_segment (hd ss)" "plain_segment (last ss)"
    and "normalize_segments True ss = ts" "ts \<noteq> []" "list_all plain_segment ts"
  shows "normalize_path (join_segments ss) = join_segments ts"
proof -
  let ?p = "join_segments ss"
  have "?p \<noteq> []" "hd ?p \<noteq> slash" using hd_join [OF assms(1)] plain_ends [OF assms(3)] by simp_all
  moreover have "last ?p \<noteq> slash" using last_join [OF assms(1)] plain_ends [OF assms(4)] by simp
  moreover have "join_segments ts \<noteq> []" using hd_join [OF assms(6)] assms(6,7) plain_ends(1) by (cases ts) auto
  ultimately show ?thesis
    using assms(1,2,5) by (simp add: normalize_path_def is_absolute_def starts_slash ends_slash segments_join Let_def)
qed

lemma dirname_join:
  assumes "ss \<noteq> []" "plain_segment (hd ss)" "plain_segment name"
  shows "dirname_path (join_segments (ss @ [name])) = join_segments ss"
proof -
  obtain u us where j: "join_segments ss = u # us" using hd_join [OF assms(1)] plain_ends(1) [OF assms(2)] by (cases "join_segments ss") auto
  have u: "u \<noteq> slash" using hd_join [OF assms(1)] plain_ends [OF assms(2)] j by simp
  have n: "rev name \<noteq> []" "hd (rev name) \<noteq> slash" "slash \<notin> set name" using plain_ends [OF assms(3)] assms(3) by (simp_all add: hd_rev plain_segment_def)
  then have "dropWhile (\<lambda>c. c = slash) (rev name @ slash # rev us) = rev name @ slash # rev us"
    by (cases "rev name") auto
  moreover have "dropWhile (\<lambda>c. c \<noteq> slash) (rev name @ slash # rev us) = slash # rev us"
    using n(3) by (subst dropWhile_append2) auto
  ultimately show ?thesis using u by (simp add: join_append assms(1) j dirname_path_def)
qed

lemma map_target_staged:
  assumes "list_all plain_segment (d # ds)" "plain_segment name" "list_all plain_segment ts" "ts \<noteq> []"
  shows "map_target (join_segments (d # ds @ [name])) (join_segments (map (\<lambda>_. dotdot) (d # ds) @ ts)) = join_segments ts"
proof -
  let ?dir = "d # ds" and ?ups = "map (\<lambda>_. dotdot) (d # ds)"
  have dn: "dirname_path (join_segments (d # ds @ [name])) = join_segments ?dir"
    using dirname_join [of ?dir name] assms by simp
  have "join_segments ?dir \<noteq> []" using hd_join [of ?dir] assms(1) plain_ends(1) by simp
  moreover have "join_segments (?ups @ ts) \<noteq> []" using hd_join [of "?ups @ ts"] by simp
  moreover have "join_segments ?dir @ slash # join_segments (?ups @ ts) = join_segments (?dir @ ?ups @ ts)"
    using join_append [of ?dir "?ups @ ts"] by simp
  ultimately have jp: "join_path (join_segments ?dir) (join_segments (?ups @ ts)) = normalize_path (join_segments (?dir @ ?ups @ ts))"
    by (simp add: join_path_def Let_def) (simp add: normalize_path_def)
  have "plain_segment (last (?dir @ ?ups @ ts))" using assms(3,4) by (auto simp: list_all_iff last_append)
  moreover have "list_all (\<lambda>s. slash \<notin> set s) (?dir @ ?ups @ ts)" 
    using plain_no_slash [OF assms(1)] plain_no_slash [OF assms(3)] by (auto simp: list_all_iff)
  ultimately have "normalize_path (join_segments (?dir @ ?ups @ ts)) = join_segments ts"
    using assms(1,3,4) normalize_up [OF assms(1,3), of True] by (intro normalize_join) simp_all
  moreover have "plain_segment (hd ts)" "plain_segment (last ts)" using assms(3,4) by (simp_all add: list_all_iff)
  then have "normalize_path (join_segments ts) = join_segments ts"
    by (intro normalize_join) (simp_all add: assms(3,4) plain_no_slash normalize_plain)
  ultimately show ?thesis unfolding map_target_def dn jp by simp
qed

lemma js_directories: "plain_segment (js ''src'')" "plain_segment (js ''package-dist'')" "plain_segment (js ''package-sources'')"
  "js ''package-dist'' \<noteq> js ''package-sources''"
  by (simp_all add: plain_segment_def js_def)

lemma local_inside:
  assumes "\<not> starts_with (dotdot @ [slash]) (join_segments rs)" "join_segments rs \<noteq> dotdot"
  shows "case rs of s # _ \<Rightarrow> s \<noteq> dotdot | [] \<Rightarrow> True"
proof (cases rs)
  case (Cons r rs')
  show ?thesis
  proof (cases rs')
    case Nil
    then show ?thesis using assms(2) Cons by auto
  next
    case (Cons t ts)
    then show ?thesis using assms(1) \<open>rs = r # rs'\<close> by (auto simp: starts_with_def)
  qed
qed simp

lemma stage_source_below:
  assumes "list_all plain_segment cwd" "list_all plain_segment dir" "stage_source cwd dir source = Inr (original, destination, staged)"
  obtains ls where "list_all plain_segment ls" "original = cwd @ js ''src'' # ls" "destination = cwd @ js ''package-sources'' # ls"
    "staged = join_segments (relative_segments dir destination)"
proof -
  let ?root = "cwd @ [js ''src'']" and ?o = "resolve_from dir source"
  let ?rs = "relative_segments ?root ?o"
  have st: "\<not> starts_with (dotdot @ [slash]) (join_segments ?rs)" "join_segments ?rs \<noteq> dotdot" "\<not> is_absolute (join_segments ?rs)"
    "original = ?o" "destination = resolve_from (cwd @ [js ''package-sources'']) (join_segments ?rs)"
    "staged = join_segments (relative_segments dir destination)"
    using assms(3) by (auto simp: stage_source_def Let_def split: if_splits)
  have o: "list_all plain_segment ?o" by (rule resolve_plain [OF assms(2)])
  have below: "?o = ?root @ ?rs" by (rule relative_below [OF o local_inside [OF st(1,2)]])
  then have rs: "list_all plain_segment ?rs" using o by (metis list_all_append)
  have c: "list_all plain_segment (cwd @ [js ''package-sources''])" using assms(1) js_directories by simp
  have "destination = (cwd @ [js ''package-sources'']) @ ?rs"
  proof (cases "?rs = []")
    case True
    then show ?thesis using st(3,5) c normalize_plain [OF c] by (simp add: resolve_from_def normalize_segments_def push_segment_def)
  next
    case False
    then show ?thesis using st(3,5) rs c
      by (simp add: resolve_from_def segments_join plain_no_slash normalize_plain)
  qed
  then show thesis using that [of ?rs] rs below st(4,6) by simp
qed

subsection \<open>Facts on the file list\<close>

lemma first_error_None [simp]: "first_error f xs = None \<longleftrightarrow> (\<forall>x\<in>set xs. f x = None)"
  by (induction xs) (auto split: option.splits)

lemma first_error_Some: "first_error f xs = Some e \<Longrightarrow> \<exists>x\<in>set xs. f x = Some e"
  by (induction xs) (auto split: option.splits)

text \<open>The declarative reading of the expressions for packed files.\<close>

lemma named_file_iff:
  assumes "list_all (\<lambda>e. e \<noteq> [] \<and> \<not> path_unit (hd e)) exts"
  shows "named_file dir exts path \<longleftrightarrow>
    (\<exists>name ext. path = dir @ name @ ext \<and> name \<noteq> [] \<and> list_all path_unit name \<and> ext \<in> set exts)"
proof
  assume n: "named_file dir exts path"
  let ?rest = "drop (length dir) path"
  have "path = dir @ ?rest" using n unfolding named_file_def starts_with_def by (metis append_take_drop_id)
  then have "path = dir @ takeWhile path_unit ?rest @ dropWhile path_unit ?rest" by simp
  moreover have "list_all path_unit (takeWhile path_unit ?rest)" by (auto simp: list_all_iff dest: set_takeWhileD)
  ultimately show "\<exists>name ext. path = dir @ name @ ext \<and> name \<noteq> [] \<and> list_all path_unit name \<and> ext \<in> set exts"
    using n unfolding named_file_def Let_def by blast
next
  assume "\<exists>name ext. path = dir @ name @ ext \<and> name \<noteq> [] \<and> list_all path_unit name \<and> ext \<in> set exts"
  then obtain name ext where p: "path = dir @ name @ ext" "name \<noteq> []" "list_all path_unit name" "ext \<in> set exts" by blast
  then obtain c cs where "ext = c # cs" "\<not> path_unit c" using assms by (cases ext) (auto simp: list_all_iff)
  then have "takeWhile path_unit (name @ ext) = name" "dropWhile path_unit (name @ ext) = ext"
    using p(3) by (simp_all add: list_all_iff)
  then show "named_file dir exts path" using p by (simp add: named_file_def starts_with_def)
qed

lemma segments_cases:
  obtains (one) "slash \<notin> set p" "segments p = [p]" | (cut) x t where "p = x @ slash # t" "slash \<notin> set x" "segments p = x # segments t"
proof (cases "slash \<in> set p")
  case True
  then obtain x t where x: "p = x @ slash # t" "slash \<notin> set x" by (meson split_list_first)
  then have "segments p = x # segments t" using segments_append_slash [of x t] segments_plain [of x] by simp
  then show thesis using x that(2) by blast
qed (use segments_plain that(1) in blast)

fun suffixes_of :: "'a list \<Rightarrow> 'a list list" where
  "suffixes_of [] = []"
| "suffixes_of (x # xs) = (x # xs) # suffixes_of xs"

lemma segments_after_slashes: "map segments (p # after_slashes p) = suffixes_of (segments p)"
proof (induction p)
  case (Cons u p)
  then show ?case by (cases "segments p") auto
qed simp

text \<open>The expression for fixtures, read on the segments of a path: a directory or file name that is \<^verbatim>\<open>demo\<close> or \<^verbatim>\<open>verify\<close>, alone
  or before a dot or an underscore, or a directory named \<^verbatim>\<open>gen\<close>.\<close>

definition fixture_name :: "jsstring \<Rightarrow> bool" where
  "fixture_name s \<longleftrightarrow> (\<exists>w\<in>{js ''demo'', js ''verify''}. s = w \<or> (\<exists>t. s = w @ 46 # t \<or> s = w @ 95 # t))"

lemma starts_with_append: "starts_with p s \<longleftrightarrow> (\<exists>t. s = p @ t)"
  unfolding starts_with_def by (metis append_eq_conv_conj append_take_drop_id)

lemma cut_append:
  assumes "slash \<notin> set x" "slash \<notin> set w" "x @ slash # t = w @ rest"
  shows "\<exists>v. x = w @ v \<and> rest = v @ slash # t"
  using assms by (auto simp: append_eq_append_conv2 append_eq_Cons_conv Cons_eq_append_conv)

lemma js_fixtures: "slash \<notin> set (js ''demo'')" "slash \<notin> set (js ''verify'')" "slash \<notin> set (js ''gen'')"
  "js ''gen/'' = js ''gen'' @ [slash]"
  by (simp_all add: js_def)

lemma word_start:
  assumes w: "slash \<notin> set w"
  shows "starts_with w s \<and> (case drop (length w) s of [] \<Rightarrow> True | c # _ \<Rightarrow> c = 46 \<or> c = 95 \<or> c = 47) \<longleftrightarrow>
    hd (segments s) = w \<or> (\<exists>t. hd (segments s) = w @ 46 # t \<or> hd (segments s) = w @ 95 # t)" (is "?l \<longleftrightarrow> ?r")
proof (cases s rule: segments_cases)
  case one
  then show ?thesis by (auto simp: starts_with_append split: list.splits)
next
  case (cut x t)
  show ?thesis
  proof
    assume l: ?l
    then obtain rest where "s = w @ rest" by (auto simp: starts_with_append)
    moreover then obtain v where "x = w @ v" "rest = v @ slash # t" using cut_append [OF cut(2) w, of t rest] cut(1) by auto
    ultimately show ?r using l cut by (cases v) auto
  next
    assume ?r
    then show ?l using cut by (auto simp: starts_with_append)
  qed
qed

lemma gen_start: "starts_with (js ''gen/'') s \<longleftrightarrow> hd (segments s) = js ''gen'' \<and> tl (segments s) \<noteq> []"
proof (cases s rule: segments_cases)
  case one
  then show ?thesis by (auto simp: starts_with_append js_fixtures(4))
next
  case (cut x t)
  have "x = js ''gen''" if e: "x @ slash # t = (js ''gen'' @ [slash]) @ r" for r
  proof -
    from e have "x @ slash # t = js ''gen'' @ slash # r" by simp
    then obtain v where "x = js ''gen'' @ v" "slash # r = v @ slash # t" using cut_append [OF cut(2) js_fixtures(3)] by blast
    then show ?thesis using cut(2) by (cases v) auto
  qed
  then show ?thesis using cut by (auto simp: starts_with_append js_fixtures(4))
qed

lemma fixture_start_iff: "fixture_start s \<longleftrightarrow> fixture_name (hd (segments s)) \<or> hd (segments s) = js ''gen'' \<and> tl (segments s) \<noteq> []"
  using word_start [OF js_fixtures(1), of s] word_start [OF js_fixtures(2), of s]
  by (auto simp: fixture_start_def fixture_name_def gen_start)

lemma suffixes_ex: "(\<exists>ss\<in>set (suffixes_of xs). P (hd ss) \<or> hd ss = g \<and> tl ss \<noteq> []) \<longleftrightarrow> (\<exists>x\<in>set xs. P x) \<or> g \<in> set (butlast xs)"
  by (induction xs) auto

lemma fixture_path_iff:
  "fixture_path path \<longleftrightarrow> (\<exists>s\<in>set (segments path). fixture_name s) \<or> js ''gen'' \<in> set (butlast (segments path))"
proof -
  have "fixture_path path \<longleftrightarrow> (\<exists>ss\<in>set (map segments (path # after_slashes path)). fixture_name (hd ss) \<or> hd ss = js ''gen'' \<and> tl ss \<noteq> [])"
    by (auto simp: fixture_path_def list_ex_iff fixture_start_iff)
  then show ?thesis unfolding segments_after_slashes suffixes_ex .
qed

subsection \<open>Allowed files are safe\<close>

fun adjacent_dots :: "jsstring \<Rightarrow> bool" where
  "adjacent_dots (a # b # r) = (a = 46 \<and> b = 46 \<or> adjacent_dots (b # r))"
| "adjacent_dots _ = False"

lemma hd_segment: "hd (segments us) = 46 # x \<Longrightarrow> \<exists>r. us = 46 # r"
  by (cases us) (auto split: if_splits list.splits)

lemma dotdot_segment: "dotdot \<in> set (segments p) \<Longrightarrow> adjacent_dots p"
proof (induction p)
  case (Cons u p)
  obtain s ss where s: "segments p = s # ss" by (cases "segments p") auto
  consider "u = slash" | "u \<noteq> slash" "dotdot = u # s" | "u \<noteq> slash" "dotdot \<in> set ss" using Cons.prems s by (auto split: if_splits)
  then show ?case
  proof cases
    case 2
    then obtain r where "p = 46 # r" using hd_segment [of p "[]"] s by auto
    then show ?thesis using 2 by simp
  qed (use Cons s in \<open>cases p; auto\<close>)+
qed simp

lemma adjacent_append: "46 \<notin> set p \<Longrightarrow> adjacent_dots (p @ e) = adjacent_dots e"
proof (induction p)
  case (Cons u p)
  then show ?case by (cases "p @ e") auto
qed simp

lemma required_safe: "list_all safe_path requiredFiles"
  by (simp add: requiredFiles_def js_def safe_path_def starts_with_def)

lemma path_unit_not: "path_unit c \<Longrightarrow> c \<noteq> 46 \<and> c \<noteq> 92"
  by (auto simp: path_unit_def)

lemma named_safe:
  assumes "path = dir @ name @ ext" "list_all path_unit name" "dir \<noteq> []" "hd dir \<noteq> slash" "46 \<notin> set dir" "92 \<notin> set dir"
    and "92 \<notin> set ext" "\<not> adjacent_dots ext"
  shows "safe_path path"
proof -
  have n: "46 \<notin> set name" "92 \<notin> set name" using assms(2) path_unit_not by (auto simp: list_all_iff)
  then have "\<not> adjacent_dots path" using assms(1,5,8) by (simp add: adjacent_append)
  then show ?thesis using n assms dotdot_segment by (auto simp: safe_path_def starts_slash)
qed

lemma dist_named: "named_file (js ''package-dist/'') dist_extensions path \<longleftrightarrow>
    (\<exists>name ext. path = js ''package-dist/'' @ name @ ext \<and> name \<noteq> [] \<and> list_all path_unit name \<and> ext \<in> set dist_extensions)"
  by (rule named_file_iff) (simp add: dist_extensions_def js_def path_unit_def)

lemma sources_named: "named_file (js ''package-sources/'') [js ''.ts''] path \<longleftrightarrow>
    (\<exists>name. path = js ''package-sources/'' @ name @ js ''.ts'' \<and> name \<noteq> [] \<and> list_all path_unit name)"
proof -
  have "list_all (\<lambda>e. e \<noteq> [] \<and> \<not> path_unit (hd e)) [js ''.ts'']" by (simp add: js_def path_unit_def)
  from named_file_iff [OF this] show ?thesis by simp
qed

lemma allowed_safe: "allowed_file path \<Longrightarrow> safe_path path"
  unfolding allowed_file_def dist_named sources_named
proof (elim disjE exE conjE)
  show ?thesis if "path \<in> set requiredFiles" using required_safe that by (simp add: list_all_iff)
  show ?thesis if "path = js ''package-dist/'' @ name @ ext" "list_all path_unit name" "ext \<in> set dist_extensions" for name ext
    by (rule named_safe [OF that(1,2)]) (use that(3) in \<open>auto simp: dist_extensions_def js_def\<close>)
  show ?thesis if "path = js ''package-sources/'' @ name @ js ''.ts''" "list_all path_unit name" for name
    by (rule named_safe [OF that]) (auto simp: js_def)
qed

lemma audit_files: "auditFileList paths = Inr files \<longleftrightarrow>
    files = set paths \<and> distinct paths \<and> (\<forall>p\<in>set paths. allowed_file p \<and> \<not> fixture_path p) \<and> set requiredFiles \<subseteq> set paths \<and>
    (\<forall>p\<in>set paths. compiled_file p \<longrightarrow> set (siblings p) \<subseteq> set paths)"
proof -
  let ?missing = "\<lambda>E p. if p \<in> set paths then None else Some (E p)"
  let ?e1 = "first_error check_path paths" and ?e2 = "first_error (?missing MissingFile) requiredFiles"
  let ?e3 = "first_error (\<lambda>p. first_error (?missing MissingSibling) (siblings p)) (filter compiled_file paths)"
  have "auditFileList paths = Inr files \<longleftrightarrow> files = set paths \<and> distinct paths \<and> ?e1 = None \<and> ?e2 = None \<and> ?e3 = None"
    unfolding auditFileList_def Let_def by (cases ?e1; cases ?e2; cases ?e3) (auto simp del: first_error_None)
  moreover have "?e1 = None \<longleftrightarrow> (\<forall>p\<in>set paths. allowed_file p \<and> \<not> fixture_path p)"
    using allowed_safe by (auto simp: check_path_def)
  moreover have "?e2 = None \<longleftrightarrow> set requiredFiles \<subseteq> set paths" by auto
  moreover have "?e3 = None \<longleftrightarrow> (\<forall>p\<in>set paths. compiled_file p \<longrightarrow> set (siblings p) \<subseteq> set paths)"
    by (auto simp: subset_iff)
  ultimately show ?thesis by blast
qed

subsection \<open>Facts on maps\<close>

lemma audit_source_target: "audit_source path files v = Inr t \<Longrightarrow> t \<in> files \<and> starts_with (js ''package-sources/'') t"
  by (cases v) (auto split: if_splits)

lemma audit_sources_targets:
  "audit_sources path files vs = Inr ts \<Longrightarrow> set ts \<subseteq> files \<and> list_all (starts_with (js ''package-sources/'')) ts"
  by (induction vs arbitrary: ts) (auto simp: bind_result_Inr_iff dest: audit_source_target)

lemma auditMap_targets:
  "auditMap path m files = Inr ts \<Longrightarrow> set ts \<subseteq> files \<and> list_all (starts_with (js ''package-sources/'')) ts"
  by (auto simp: auditMap_def simp del: audit_sources.simps split: if_splits jsvalue.splits list.splits dest: audit_sources_targets)

lemma check_maps_used:
  assumes "check_maps files content maps paths = Inr used"
  shows "(\<forall>p\<in>set paths. \<exists>ts. auditMap p (maps p) files = Inr ts) \<and>
    used = (\<Union>p\<in>set paths. {t. \<exists>ts. auditMap p (maps p) files = Inr ts \<and> t \<in> set ts})"
  using assms
proof (induction paths arbitrary: used)
  case (Cons p paths)
  then obtain ts used' where c: "check_map files content (maps p) p = Inr ts" "check_maps files content maps paths = Inr used'"
      "used = set ts \<union> used'" by (auto simp: bind_result_Inr_iff)
  then have "auditMap p (maps p) files = Inr ts" by (auto simp: check_map_def bind_result_Inr_iff split: if_splits)
  with Cons.IH [OF c(2)] c(3) show ?case by auto
qed simp

subsection \<open>Properties\<close>

text \<open>C38: The audit of the packed files accepts exactly the intended packages: a list without duplicates in which every path is a
  required file, a compiled file below \<^verbatim>\<open>package-dist\<close> or a source below \<^verbatim>\<open>package-sources\<close> with a plain name, no directory
  or file is a fixture (\<^verbatim>\<open>demo\<close>, \<^verbatim>\<open>verify\<close>, \<^verbatim>\<open>gen\<close>), nothing required is missing and every compiled file comes with its
  map and declarations. Accepted paths stay inside the package.\<close>

theorem packed_files_exact:
  "(auditFileList paths = Inr files \<longleftrightarrow>
     files = set paths \<and> distinct paths \<and> set requiredFiles \<subseteq> set paths \<and>
     (\<forall>p\<in>set paths.
        (p \<in> set requiredFiles \<or>
         (\<exists>name ext. p = js ''package-dist/'' @ name @ ext \<and> name \<noteq> [] \<and> list_all path_unit name \<and> ext \<in> set dist_extensions) \<or>
         (\<exists>name. p = js ''package-sources/'' @ name @ js ''.ts'' \<and> name \<noteq> [] \<and> list_all path_unit name)) \<and>
        (\<forall>s\<in>set (segments p). \<not> fixture_name s) \<and> js ''gen'' \<notin> set (butlast (segments p)) \<and>
        (compiled_file p \<longrightarrow> set (siblings p) \<subseteq> set paths))) \<and>
   (auditFileList paths = Inr files \<longrightarrow> (\<forall>p\<in>files. safe_path p))"
proof -
  have "safe_path p" if "auditFileList paths = Inr files" "p \<in> files" for p
    using that allowed_safe by (auto simp: audit_files)
  moreover have "auditFileList paths = Inr files \<longleftrightarrow> files = set paths \<and> distinct paths \<and> set requiredFiles \<subseteq> set paths \<and>
      (\<forall>p\<in>set paths. allowed_file p \<and> \<not> fixture_path p \<and> (compiled_file p \<longrightarrow> set (siblings p) \<subseteq> set paths))"
    unfolding audit_files by blast
  ultimately show ?thesis unfolding allowed_file_def dist_named sources_named fixture_path_iff by blast
qed

theorem packed_files_exact_witness: "auditFileList requiredFiles = Inr (set requiredFiles)"
proof -
  have "distinct requiredFiles" by (simp add: requiredFiles_def js_def)
  moreover have "list_all (\<lambda>p. (\<forall>s\<in>set (segments p). \<not> fixture_name s) \<and> js ''gen'' \<notin> set (butlast (segments p))) requiredFiles"
    by (simp add: requiredFiles_def js_def fixture_name_def)
  moreover have "list_all (\<lambda>p. compiled_file p \<longrightarrow> set (siblings p) \<subseteq> set requiredFiles) requiredFiles"
    by (simp add: requiredFiles_def js_def compiled_file_def siblings_def starts_with_def ends_with_def)
  ultimately show ?thesis
    using packed_files_exact [of requiredFiles "set requiredFiles"] by (simp add: list_all_iff)
qed

text \<open>C39: Staged source maps resolve to the staged sources: whatever relative text a source map in \<^verbatim>\<open>package-dist\<close> has for a source,
  if staging accepts it then the source lies below \<^verbatim>\<open>src\<close>, its copy is put at the same place below \<^verbatim>\<open>package-sources\<close>, and
  the text written into the map is one that the audit of the packed map resolves to exactly that copy.\<close>

theorem staged_sources_resolve:
  assumes "list_all plain_segment cwd" and "list_all plain_segment ds" and "plain_segment name"
    and "stage_source cwd (cwd @ js ''package-dist'' # ds) source = Inr (original, destination, staged)"
  shows "\<exists>ls. original = cwd @ js ''src'' # ls \<and> destination = cwd @ js ''package-sources'' # ls \<and>
    map_target (join_segments (js ''package-dist'' # ds @ [name])) staged = join_segments (js ''package-sources'' # ls) \<and>
    (ls \<noteq> [] \<and> 92 \<notin> set staged \<and> join_segments (js ''package-sources'' # ls) \<in> files \<longrightarrow>
      audit_source (join_segments (js ''package-dist'' # ds @ [name])) files (JString staged) =
        Inr (join_segments (js ''package-sources'' # ls)))"
proof -
  have "list_all plain_segment (cwd @ js ''package-dist'' # ds)" using assms(1,2) js_directories by simp
  from stage_source_below [OF assms(1) this assms(4)] obtain ls where
    ls: "list_all plain_segment ls" "original = cwd @ js ''src'' # ls" "destination = cwd @ js ''package-sources'' # ls"
      "staged = join_segments (relative_segments (cwd @ js ''package-dist'' # ds) destination)" .
  have st: "staged = join_segments (map (\<lambda>_. dotdot) (js ''package-dist'' # ds) @ js ''package-sources'' # ls)"
    using ls(3,4) js_directories(4) by simp
  have t: "map_target (join_segments (js ''package-dist'' # ds @ [name])) staged = join_segments (js ''package-sources'' # ls)"
    unfolding st by (rule map_target_staged) (use assms ls(1) js_directories in simp_all)
  have "\<not> is_absolute staged"
    using hd_join [of "map (\<lambda>_. dotdot) (js ''package-dist'' # ds) @ js ''package-sources'' # ls"] st by (simp add: is_absolute_def starts_slash)
  moreover have "starts_with (js ''package-sources/'') (join_segments (js ''package-sources'' # ls))" if "ls \<noteq> []"
    using that by (cases ls) (simp_all add: starts_with_def js_def)
  ultimately show ?thesis using ls(2,3) t by (intro exI [of _ ls]) simp
qed

theorem staged_sources_resolve_witness:
  "\<exists>ls. [js ''w'', js ''src'', js ''h2'', js ''flow.ts''] = [js ''w''] @ js ''src'' # ls \<and>
    map_target (js ''package-dist/h2/flow.js.map'') (js ''../../package-sources/h2/flow.ts'') = join_segments (js ''package-sources'' # ls)"
proof -
  have s: "stage_source [js ''w''] ([js ''w''] @ js ''package-dist'' # [js ''h2'']) (js ''../../src/h2/flow.ts'') =
      Inr ([js ''w'', js ''src'', js ''h2'', js ''flow.ts''], [js ''w'', js ''package-sources'', js ''h2'', js ''flow.ts''],
        js ''../../package-sources/h2/flow.ts'')"
    by (simp add: stage_source_def resolve_from_def is_absolute_def starts_with_def normalize_segments_def push_segment_def js_def Let_def)
  show ?thesis
    using staged_sources_resolve [OF _ _ _ s, of "js ''flow.js.map''" "{}"] by (simp add: plain_segment_def js_def)
qed

text \<open>A verified archive holds exactly the packed files, and the sources it ships are exactly the sources its maps refer to.\<close>

theorem verified_archive_closed:
  assumes "verify_archive packed entries lines identity exports content maps = Inr files"
  shows "archive_paths entries = Inr (sort packed) \<and> auditFileList (sort packed) = Inr files \<and>
    {p \<in> files. starts_with (js ''package-sources/'') p} =
      {t. \<exists>p\<in>files. ends_with (js ''.map'') p \<and> (\<exists>ts. auditMap p (maps p) files = Inr ts \<and> t \<in> set ts)}"
proof -
  obtain used where f: "auditFileList (sort packed) = Inr files" "archive_paths entries = Inr (sort packed)"
    and u: "check_maps files content maps (filter (ends_with (js ''.map'')) (sort packed)) = Inr used"
      "\<forall>p\<in>set (filter (starts_with (js ''package-sources/'')) (sort packed)). p \<in> used"
    using assms by (auto simp: verify_archive_def Let_def bind_result_Inr_iff split: if_splits option.splits)
  have s: "files = set packed" using f(1) by (simp add: audit_files)
  have "used = (\<Union>p\<in>{p \<in> files. ends_with (js ''.map'') p}. {t. \<exists>ts. auditMap p (maps p) files = Inr ts \<and> t \<in> set ts})"
    using check_maps_used [OF u(1)] by (simp add: s Collect_conj_eq Int_commute)
  moreover have "used \<subseteq> {p \<in> files. starts_with (js ''package-sources/'') p}"
    using calculation auditMap_targets by (fastforce simp: list_all_iff)
  moreover have "{p \<in> files. starts_with (js ''package-sources/'') p} \<subseteq> used" using u(2) s by auto
  ultimately show ?thesis using f by blast
qed

end
