(* ===== verification/Release.thy ===== *)
theory Release
  imports Package_Audit
begin

text \<open>
  The evidence that a release rests on (\<^verbatim>\<open>web/scripts\<close>): \<^verbatim>\<open>release-provenance-lib.mjs\<close>, which records the state of the checkout
  around packing; \<^verbatim>\<open>artifact-install-lib.mjs\<close>, which binds the audited archive into the lock file of the consumer that
  tests it; and \<^verbatim>\<open>release-preflight-lib.mjs\<close>, which checks that all reports are about the same archive.

  The JSON documents are records of the fields the scripts read. The hashes of \<^verbatim>\<open>node:crypto\<close> (\<open>sha256\<close> in hex, \<open>sha512\<close> in base
  64), \<^verbatim>\<open>git\<close> and the platform's \<^verbatim>\<open>URL\<close> are arguments. A failed assertion is its name.
\<close>

subsection \<open>Provenance\<close>

record snapshot =
  sn_revision :: jsstring
  sn_tree :: jsstring
  sn_dirty :: bool

text \<open>\<open>git\<close> is one call of \<^verbatim>\<open>git\<close>, \<open>None\<close> when it throws.\<close>

definition captureSource :: "(jsstring list \<Rightarrow> jsstring option) \<Rightarrow> snapshot option" where
  "captureSource git =
     (case (git [js ''rev-parse'', js ''HEAD''], git [js ''rev-parse'', js ''HEAD^{tree}''], git [js ''status'', js ''--porcelain'']) of
        (Some revision, Some tree, Some status) \<Rightarrow>
          Some \<lparr>sn_revision = revision, sn_tree = tree, sn_dirty = (length status > 0)\<rparr>
      | _ \<Rightarrow> None)"

record provenance =
  pv_revision :: "jsstring option"
  pv_tree :: "jsstring option"
  pv_afterRevision :: "jsstring option"
  pv_afterTree :: "jsstring option"
  pv_dirtyBefore :: "bool option"
  pv_dirtyAfter :: "bool option"
  pv_matchingSnapshots :: bool
  pv_verifiedClean :: bool

definition sourceProvenance :: "snapshot option \<Rightarrow> snapshot option \<Rightarrow> provenance" where
  "sourceProvenance before after =
     (let matchingSnapshots =
            (case (before, after) of
               (Some b, Some a) \<Rightarrow> sn_revision b = sn_revision a \<and> sn_tree b = sn_tree a
             | _ \<Rightarrow> False)
      in \<lparr>pv_revision = map_option sn_revision before, pv_tree = map_option sn_tree before,
          pv_afterRevision = map_option sn_revision after, pv_afterTree = map_option sn_tree after,
          pv_dirtyBefore = map_option sn_dirty before, pv_dirtyAfter = map_option sn_dirty after,
          pv_matchingSnapshots = matchingSnapshots,
          pv_verifiedClean = (matchingSnapshots \<and> map_option sn_dirty before = Some False \<and> map_option sn_dirty after = Some False)\<rparr>)"

subsection \<open>Assertions\<close>

type_synonym assertion = "string \<times> bool"

fun failed :: "assertion list \<Rightarrow> string option" where
  "failed [] = None"
| "failed ((name, ok) # rest) = (if ok then failed rest else Some name)"

lemma failed_None [simp]: "failed as = None \<longleftrightarrow> (\<forall>a\<in>set as. snd a)"
  by (induction as rule: failed.induct) auto

record url =
  u_protocol :: jsstring
  u_hostname :: jsstring
  u_port :: jsstring
  u_username :: jsstring
  u_password :: jsstring
  u_search :: jsstring
  u_hash :: jsstring
  u_pathname :: jsstring
  u_href :: jsstring

definition registry_tarball :: "url \<Rightarrow> bool" where
  "registry_tarball u \<longleftrightarrow> u_protocol u = js ''https:'' \<and> u_hostname u = js ''registry.npmjs.org'' \<and> u_port u = [] \<and>
     u_username u = [] \<and> u_password u = [] \<and> u_search u = [] \<and> u_hash u = [] \<and>
     starts_with (js ''/@dunkymole/grpc-bridge/-/'') (u_pathname u)"

subsection \<open>The consumer that tests the archive\<close>

type_synonym dependencies = "(jsstring \<times> jsstring) list"

text \<open>An object of dependencies is the list of its properties; \<^verbatim>\<open>deepEqual\<close> does not look at their order.\<close>

definition same_dependencies :: "dependencies \<Rightarrow> dependencies \<Rightarrow> bool" where
  "same_dependencies a b \<longleftrightarrow> list_all (\<lambda>kv. map_of b (fst kv) = map_of a (fst kv)) (a @ b)"

record manifest =
  mf_name :: jsstring
  mf_version :: jsstring
  mf_license :: jsstring
  mf_dependencies :: dependencies
  mf_engines :: jsvalue

record lock_entry =
  le_version :: "jsstring option"
  le_resolved :: "jsstring option"
  le_integrity :: "jsstring option"
  le_license :: "jsstring option"
  le_dependencies :: "dependencies option"
  le_engines :: jsvalue

record consumer =
  co_private :: bool
  co_dependencies :: dependencies

record lock =
  lk_version :: nat
  lk_packages :: "jsstring \<rightharpoonup> lock_entry"

record registry_metadata =
  rm_name :: jsstring
  rm_version :: jsstring
  rm_dependencies :: dependencies
  rm_dist :: "(jsstring \<times> jsstring) option"

record install_options =
  io_installSource :: "jsstring option"
  io_registryMetadata :: "registry_metadata option"

record audited =
  ad_name :: jsstring
  ad_version :: jsstring
  ad_sha256 :: jsstring
  ad_integrity :: jsstring
  ad_mapsAndSourcesVerified :: bool

definition module_key :: "jsstring \<Rightarrow> jsstring" where
  "module_key name = js ''node_modules/'' @ name"

definition locked_version :: "lock \<Rightarrow> jsstring \<Rightarrow> jsstring option" where
  "locked_version lk name = Option.bind (lk_packages lk (module_key name)) le_version"

definition bind_assertions ::
    "(byte list \<Rightarrow> jsstring) \<Rightarrow> (byte list \<Rightarrow> jsstring) \<Rightarrow> consumer \<Rightarrow> lock \<Rightarrow> manifest \<Rightarrow> audited \<Rightarrow> byte list \<Rightarrow> jsstring \<Rightarrow>
     assertion list" where
  "bind_assertions sha256 sha512 co lk mf ad bytes installSource =
     [(''private'', co_private co),
      (''lockfileVersion'', lk_version lk = 3),
      (''mapsAndSourcesVerified'', ad_mapsAndSourcesVerified ad),
      (''audit name'', ad_name ad = bridge_name),
      (''name'', mf_name mf = ad_name ad),
      (''version'', mf_version mf = ad_version ad),
      (''sha256'', sha256 bytes = ad_sha256 ad),
      (''integrity'', js ''sha512-'' @ sha512 bytes = ad_integrity ad),
      (''dependency bounds'', same_dependencies (mf_dependencies mf) (co_dependencies co)),
      (''bridge resolution'', lk_packages lk (module_key (mf_name mf)) = None),
      (''dependency versions'', list_all (\<lambda>(name, version). locked_version lk name = Some version) (mf_dependencies mf)),
      (''install source'', installSource = js ''local'' \<or> installSource = js ''registry'')]"

definition local_artifact :: jsstring where
  "local_artifact = js ''file:/artifact/package.tgz''"

text \<open>Where the archive comes from: the assertions on the registry's metadata and the resolution.\<close>

definition bind_resolved ::
    "(jsstring \<Rightarrow> url option) \<Rightarrow> manifest \<Rightarrow> audited \<Rightarrow> jsstring \<Rightarrow> registry_metadata option \<Rightarrow> string + jsstring" where
  "bind_resolved parse_url mf ad installSource published =
     (if installSource \<noteq> js ''registry'' then Inr local_artifact
      else case published of
             None \<Rightarrow> Inl ''registry package mismatch''
           | Some rm \<Rightarrow>
               (case failed [(''registry package mismatch'', rm_name rm = mf_name mf),
                             (''registry version mismatch'', rm_version rm = mf_version mf),
                             (''registry dependency mismatch'', same_dependencies (rm_dependencies rm) (mf_dependencies mf)),
                             (''registry bytes differ'', map_option fst (rm_dist rm) = Some (ad_integrity ad))] of
                  Some e \<Rightarrow> Inl e
                | None \<Rightarrow>
                    (case Option.bind (rm_dist rm) (\<lambda>d. parse_url (snd d)) of
                       None \<Rightarrow> Inl ''Invalid URL''
                     | Some u \<Rightarrow> if registry_tarball u then Inr (u_href u) else Inl ''unexpected registry tarball location'')))"

definition set_dependency :: "jsstring \<Rightarrow> jsstring \<Rightarrow> dependencies \<Rightarrow> dependencies" where
  "set_dependency name spec deps = AList.update name spec deps"

definition bindAuditedArtifact ::
    "(byte list \<Rightarrow> jsstring) \<Rightarrow> (byte list \<Rightarrow> jsstring) \<Rightarrow> (jsstring \<Rightarrow> url option) \<Rightarrow> consumer \<Rightarrow> lock \<Rightarrow> manifest \<Rightarrow> audited \<Rightarrow>
     byte list \<Rightarrow> install_options \<Rightarrow> string + consumer \<times> lock" where
  "bindAuditedArtifact sha256 sha512 parse_url co lk mf ad bytes options =
     (let installSource = (case io_installSource options of Some s \<Rightarrow> s | None \<Rightarrow> js ''local'') in
      case failed (bind_assertions sha256 sha512 co lk mf ad bytes installSource) of
        Some e \<Rightarrow> Inl e
      | None \<Rightarrow>
          bind_result (bind_resolved parse_url mf ad installSource (io_registryMetadata options)) (\<lambda>resolved.
            let spec = (if installSource = js ''registry'' then mf_version mf else resolved) in
            case lk_packages lk [] of
              None \<Rightarrow> Inl ''TypeError''
            | Some entry \<Rightarrow>
                (case le_dependencies entry of
                   None \<Rightarrow> Inl ''TypeError''
                 | Some deps \<Rightarrow>
                     Inr (co\<lparr>co_dependencies := set_dependency (mf_name mf) spec (co_dependencies co)\<rparr>,
                          lk\<lparr>lk_packages := (lk_packages lk)
                            ([] \<mapsto> entry\<lparr>le_dependencies := Some (set_dependency (mf_name mf) spec deps)\<rparr>,
                             module_key (mf_name mf) \<mapsto>
                               \<lparr>le_version = Some (mf_version mf), le_resolved = Some resolved, le_integrity = Some (ad_integrity ad),
                                le_license = Some (mf_license mf), le_dependencies = Some (mf_dependencies mf),
                                le_engines = mf_engines mf\<rparr>)\<rparr>))))"

subsection \<open>The preflight\<close>

definition expectedChecks :: "jsstring list" where
  "expectedChecks = map js [''installed public exports'', ''generated strict construction and declarations'', ''unary and trailers'',
     ''server streaming'', ''client streaming'', ''live bidi before request half-close'', ''deadline'', ''cancellation'']"

text \<open>The expressions \<^verbatim>\<open>/^[a-f0-9]{n}$/\<close>, \<^verbatim>\<open>/^\d+\.\d+\.\d+/\<close> and \<^verbatim>\<open>/^v(\d+)\./\<close>.\<close>

definition hex_text :: "nat \<Rightarrow> jsstring \<Rightarrow> bool" where
  "hex_text n s \<longleftrightarrow> length s = n \<and> list_all (\<lambda>c. 97 \<le> c \<and> c \<le> 102 \<or> 48 \<le> c \<and> c \<le> 57) s"

definition digits_dot :: "jsstring \<Rightarrow> (jsstring \<times> jsstring) option" where
  "digits_dot s =
     (case dropWhile js_digit s of
        c # rest \<Rightarrow> if c = 46 \<and> takeWhile js_digit s \<noteq> [] then Some (takeWhile js_digit s, rest) else None
      | [] \<Rightarrow> None)"

definition version_text :: "jsstring \<Rightarrow> bool" where
  "version_text s =
     (case digits_dot s of
        None \<Rightarrow> False
      | Some (_, r) \<Rightarrow> (case digits_dot r of None \<Rightarrow> False | Some (_, q) \<Rightarrow> q \<noteq> [] \<and> js_digit (hd q)))"

definition node_major :: "jsstring \<Rightarrow> int option" where
  "node_major s =
     (case s of c # rest \<Rightarrow> if c = 118 then map_option (\<lambda>(ds, _). decimal ds) (digits_dot rest) else None | [] \<Rightarrow> None)"

record toolchain =
  tc_node :: jsstring
  tc_npm :: jsstring
  tc_typescript :: jsstring

record audit_report = audited +
  ar_compressedBytes :: nat
  ar_unpackedBytes :: nat
  ar_fileCount :: nat
  ar_files :: "jsstring list"
  ar_source :: "provenance option"
  ar_toolchain :: "toolchain option"
  ar_packageLockSha256 :: jsstring

record browser_entry =
  be_dependenciesBundled :: bool
  be_platform :: jsstring
  be_format :: jsstring
  be_target :: jsstring
  be_gzipLevel :: nat
  be_esbuild :: jsstring
  be_publicExports :: "jsstring list"
  be_minifiedBytes :: int
  be_gzipBytes :: int

record node_report =
  nr_status :: jsstring
  nr_artifactSha256 :: jsstring
  nr_packageVersion :: jsstring
  nr_compilerRevision :: jsstring
  nr_checks :: "jsstring list"
  nr_installSource :: jsstring
  nr_installedResolution :: "(jsstring \<times> jsstring) option"
  nr_browserEntry :: "browser_entry option"

record browser_result =
  br_name :: jsstring
  br_status :: jsstring
  br_version :: jsstring
  br_checks :: "jsstring list"

record browsers_report =
  bs_status :: jsstring
  bs_artifactSha256 :: jsstring
  bs_installSource :: jsstring
  bs_results :: "browser_result list"

record packed_manifest =
  pm_name :: jsstring
  pm_version :: jsstring
  pm_type :: jsstring
  pm_exports :: "jsstring list"

definition holds_for :: "'a option \<Rightarrow> ('a \<Rightarrow> bool) \<Rightarrow> bool" where
  "holds_for x P \<longleftrightarrow> (case x of Some v \<Rightarrow> P v | None \<Rightarrow> False)"

lemma holds_for_iff [simp]: "holds_for x P \<longleftrightarrow> (\<exists>v. x = Some v \<and> P v)"
  by (simp add: holds_for_def split: option.split)

text \<open>The assertions on the archive, its manifest and its audit.\<close>

definition archive_assertions ::
    "(byte list \<Rightarrow> jsstring) \<Rightarrow> (byte list \<Rightarrow> jsstring) \<Rightarrow> audit_report \<Rightarrow> packed_manifest \<Rightarrow> byte list \<Rightarrow> jsstring list \<Rightarrow> jsstring \<Rightarrow>
     assertion list" where
  "archive_assertions sha256 sha512 ar pm bytes paths revision =
     [(''full source revision required'', hex_text 40 revision),
      (''audit name'', ad_name ar = bridge_name),
      (''mapsAndSourcesVerified'', ad_mapsAndSourcesVerified ar),
      (''name'', pm_name pm = ad_name ar),
      (''version'', pm_version pm = ad_version ar),
      (''type'', pm_type pm = js ''module''),
      (''exports'', sort (pm_exports pm) = [js ''.'', js ''./codegen'', js ''./raw'']),
      (''sha256'', sha256 bytes = ad_sha256 ar),
      (''integrity'', js ''sha512-'' @ sha512 bytes = ad_integrity ar),
      (''compressedBytes'', length bytes = ar_compressedBytes ar),
      (''file list'', case auditFileList paths of Inr _ \<Rightarrow> True | Inl _ \<Rightarrow> False),
      (''files'', sort paths = sort (ar_files ar)),
      (''fileCount'', length paths = ar_fileCount ar)]"

definition source_assertions :: "audit_report \<Rightarrow> jsstring \<Rightarrow> assertion list" where
  "source_assertions ar revision =
     [(''source provenance is missing or dirty'', holds_for (ar_source ar) pv_verifiedClean),
      (''revision'', holds_for (ar_source ar) (\<lambda>s. pv_revision s = Some revision)),
      (''afterRevision'', holds_for (ar_source ar) (\<lambda>s. pv_afterRevision s = Some revision)),
      (''tree'', holds_for (ar_source ar) (\<lambda>s. holds_for (pv_tree s) (hex_text 40))),
      (''afterTree'', holds_for (ar_source ar) (\<lambda>s. pv_afterTree s = pv_tree s)),
      (''dirtyBefore'', holds_for (ar_source ar) (\<lambda>s. pv_dirtyBefore s = Some False)),
      (''dirtyAfter'', holds_for (ar_source ar) (\<lambda>s. pv_dirtyAfter s = Some False)),
      (''packageLockSha256'', hex_text 64 (ar_packageLockSha256 ar)),
      (''unverified build runtime'', holds_for (ar_toolchain ar) (\<lambda>t. holds_for (node_major (tc_node t)) (\<lambda>n. n \<ge> 24))),
      (''npm'', holds_for (ar_toolchain ar) (\<lambda>t. version_text (tc_npm t))),
      (''typescript'', holds_for (ar_toolchain ar) (\<lambda>t. version_text (tc_typescript t)))]"

definition node_assertions ::
    "(jsstring \<Rightarrow> url option) \<Rightarrow> audit_report \<Rightarrow> node_report \<Rightarrow> jsstring \<Rightarrow> jsstring \<Rightarrow> assertion list" where
  "node_assertions parse_url ar nr compilerRevision installSource =
     [(''node status'', nr_status nr = js ''PASS''),
      (''node artifact'', nr_artifactSha256 nr = ad_sha256 ar),
      (''node version'', nr_packageVersion nr = ad_version ar),
      (''compilerRevision'', nr_compilerRevision nr = compilerRevision),
      (''node checks'', nr_checks nr = expectedChecks),
      (''known source'', installSource = js ''local'' \<or> installSource = js ''registry''),
      (''node source'', nr_installSource nr = installSource),
      (''node integrity'', holds_for (nr_installedResolution nr) (\<lambda>r. snd r = ad_integrity ar)),
      (''resolved'', holds_for (nr_installedResolution nr) (\<lambda>r.
          if installSource = js ''local'' then fst r = local_artifact else holds_for (parse_url (fst r)) registry_tarball)),
      (''bundled'', holds_for (nr_browserEntry nr) be_dependenciesBundled),
      (''platform'', holds_for (nr_browserEntry nr) (\<lambda>b. be_platform b = js ''browser'')),
      (''format'', holds_for (nr_browserEntry nr) (\<lambda>b. be_format b = js ''esm'')),
      (''target'', holds_for (nr_browserEntry nr) (\<lambda>b. be_target b = js ''es2022'')),
      (''gzipLevel'', holds_for (nr_browserEntry nr) (\<lambda>b. be_gzipLevel b = 9)),
      (''esbuild'', holds_for (nr_browserEntry nr) (\<lambda>b. version_text (be_esbuild b))),
      (''publicExports'', holds_for (nr_browserEntry nr) (\<lambda>b. be_publicExports b \<noteq> [])),
      (''sizes'', holds_for (nr_browserEntry nr) (\<lambda>b. be_minifiedBytes b > 0 \<and> be_gzipBytes b > 0))]"

definition browser_assertions :: "audit_report \<Rightarrow> browsers_report \<Rightarrow> jsstring \<Rightarrow> assertion list" where
  "browser_assertions ar bs installSource =
     [(''browsers status'', bs_status bs = js ''PASS''),
      (''browsers artifact'', bs_artifactSha256 bs = ad_sha256 ar),
      (''browsers source'', bs_installSource bs = installSource),
      (''browser names'', map br_name (bs_results bs) = [js ''chromium'', js ''firefox'', js ''webkit''])] @
     concat (map (\<lambda>r. [(''result status'', br_status r = js ''PASS''), (''result version'', br_version r \<noteq> []),
                       (''result checks'', br_checks r = expectedChecks)]) (bs_results bs))"

record release_verdict =
  rv_status :: jsstring
  rv_meaning :: jsstring
  rv_sourceRevision :: jsstring
  rv_name :: jsstring
  rv_version :: jsstring
  rv_sha256 :: jsstring
  rv_integrity :: jsstring
  rv_compressedBytes :: nat
  rv_unpackedBytes :: nat
  rv_installSource :: jsstring
  rv_browserEntry :: "browser_entry option"

definition verifyReleaseEvidence ::
    "(byte list \<Rightarrow> jsstring) \<Rightarrow> (byte list \<Rightarrow> jsstring) \<Rightarrow> (jsstring \<Rightarrow> url option) \<Rightarrow> audit_report \<Rightarrow> node_report \<Rightarrow> browsers_report \<Rightarrow>
     byte list \<Rightarrow> packed_manifest \<Rightarrow> jsstring list \<Rightarrow> jsstring \<Rightarrow> jsstring \<Rightarrow> jsstring option \<Rightarrow> string + release_verdict" where
  "verifyReleaseEvidence sha256 sha512 parse_url ar nr bs bytes pm paths revision compilerRevision source =
     (let installSource = (case source of Some s \<Rightarrow> s | None \<Rightarrow> js ''local'') in
      case failed (archive_assertions sha256 sha512 ar pm bytes paths revision @ source_assertions ar revision @
                   node_assertions parse_url ar nr compilerRevision installSource @ browser_assertions ar bs installSource) of
        Some e \<Rightarrow> Inl e
      | None \<Rightarrow>
          Inr \<lparr>rv_status = js ''PASS'', rv_meaning = js ''Integrity and retained test evidence only; NOT publication authorization'',
               rv_sourceRevision = revision, rv_name = ad_name ar, rv_version = ad_version ar, rv_sha256 = ad_sha256 ar,
               rv_integrity = ad_integrity ar, rv_compressedBytes = ar_compressedBytes ar, rv_unpackedBytes = ar_unpackedBytes ar,
               rv_installSource = installSource, rv_browserEntry = nr_browserEntry nr\<rparr>)"

subsection \<open>Facts\<close>

lemma provenance_clean:
  "pv_verifiedClean (sourceProvenance before after) \<longleftrightarrow>
    (\<exists>b. before = Some b \<and> after = Some b \<and> \<not> sn_dirty b)"
  by (cases before; cases after) (auto simp: sourceProvenance_def Let_def)

lemma same_dependencies_iff: "same_dependencies a b \<longleftrightarrow> map_of a = map_of b"
proof
  assume "same_dependencies a b"
  then have s: "\<forall>kv\<in>set (a @ b). map_of b (fst kv) = map_of a (fst kv)" by (simp only: same_dependencies_def list_all_iff)
  have "map_of a k = map_of b k" for k
  proof (cases "map_of a k = None \<and> map_of b k = None")
    case False
    then obtain kv where "kv \<in> set (a @ b)" "fst kv = k" by (metis Un_iff fst_conv map_of_SomeD not_Some_eq set_append)
    then show ?thesis using s by metis
  qed simp
  then show "map_of a = map_of b" by (rule ext)
next
  assume "map_of a = map_of b"
  then show "same_dependencies a b" by (simp only: same_dependencies_def list_all_iff) simp
qed

lemma module_key_inj [simp]: "module_key a = module_key b \<longleftrightarrow> a = b" "module_key a \<noteq> []" "[] \<noteq> module_key a"
  by (simp_all add: module_key_def js_def)

lemma bind_result_facts:
  assumes "bindAuditedArtifact sha256 sha512 parse_url co lk mf ad bytes options = Inr (co', lk')"
    and "src = (case io_installSource options of Some s \<Rightarrow> s | None \<Rightarrow> js ''local'')"
  obtains entry deps resolved spec where "\<forall>a\<in>set (bind_assertions sha256 sha512 co lk mf ad bytes src). snd a"
    "bind_resolved parse_url mf ad src (io_registryMetadata options) = Inr resolved"
    "spec = (if src = js ''registry'' then mf_version mf else resolved)"
    "lk_packages lk [] = Some entry" "le_dependencies entry = Some deps"
    "co' = co\<lparr>co_dependencies := set_dependency (mf_name mf) spec (co_dependencies co)\<rparr>"
    "lk' = lk\<lparr>lk_packages := (lk_packages lk)([] \<mapsto> entry\<lparr>le_dependencies := Some (set_dependency (mf_name mf) spec deps)\<rparr>,
       module_key (mf_name mf) \<mapsto> \<lparr>le_version = Some (mf_version mf), le_resolved = Some resolved, le_integrity = Some (ad_integrity ad),
         le_license = Some (mf_license mf), le_dependencies = Some (mf_dependencies mf), le_engines = mf_engines mf\<rparr>)\<rparr>"
  using assms
  by (auto simp: bindAuditedArtifact_def Let_def bind_result_Inr_iff split: option.splits)

text \<open>Where the bound archive may come from: the local file, or the location that the registry gives for the same bytes.\<close>

definition allowed_location :: "(jsstring \<Rightarrow> url option) \<Rightarrow> install_options \<Rightarrow> jsstring \<Rightarrow> jsstring \<Rightarrow> bool" where
  "allowed_location parse_url options integrity resolved \<longleftrightarrow>
     (if io_installSource options = Some (js ''registry'') then
        (\<exists>rm tarball u. io_registryMetadata options = Some rm \<and> rm_dist rm = Some (integrity, tarball) \<and>
           parse_url tarball = Some u \<and> registry_tarball u \<and> resolved = u_href u)
      else resolved = local_artifact)"

lemma local_not_registry: "js ''local'' \<noteq> js ''registry''"
  by (simp add: js_def)

lemma resolved_from:
  assumes "bind_resolved parse_url mf ad (case io_installSource options of Some s \<Rightarrow> s | None \<Rightarrow> js ''local'')
    (io_registryMetadata options) = Inr resolved"
  shows "allowed_location parse_url options (ad_integrity ad) resolved"
  using assms local_not_registry
  by (auto simp: bind_resolved_def allowed_location_def bind_eq_Some_conv split: if_splits option.splits)

lemma evidence_facts:
  assumes "verifyReleaseEvidence sha256 sha512 parse_url ar nr bs bytes pm paths revision compilerRevision source = Inr v"
  shows "\<forall>a\<in>set (archive_assertions sha256 sha512 ar pm bytes paths revision). snd a" "\<forall>a\<in>set (source_assertions ar revision). snd a"
    "\<exists>s. \<forall>a\<in>set (node_assertions parse_url ar nr compilerRevision s @ browser_assertions ar bs s). snd a"
    "rv_sha256 v = ad_sha256 ar" "rv_integrity v = ad_integrity ar" "rv_sourceRevision v = revision" "rv_name v = ad_name ar" "rv_version v = ad_version ar"
  using assms by (auto simp: verifyReleaseEvidence_def Let_def split: option.splits)

lemma audited_paths: "(case auditFileList paths of Inr _ \<Rightarrow> True | Inl _ \<Rightarrow> False) \<Longrightarrow> \<forall>p\<in>set paths. safe_path p"
  using allowed_safe by (cases "auditFileList paths") (auto simp: audit_files)

subsection \<open>Properties\<close>

text \<open>C40: The consumer tests exactly the audited archive. When the archive is bound, the new lock entry of the bridge has the version,
  license, dependencies and engines of the manifest, the integrity of the bytes that were hashed, and resolves to the local archive or,
  for an installation from the registry, to the plain HTTPS location that the registry gives for the same integrity. The entry of the
  consumer itself in the lock file keeps everything but its dependencies, which are the former ones with the bridge at the requested
  specification (the version from the registry, the archive otherwise); all remaining entries are unchanged; the consumer has the
  dependencies of the package and the bridge at the same specification; and every dependency of the package is locked at the version
  of the manifest.\<close>

theorem bound_consumer_exact:
  assumes "bindAuditedArtifact sha256 sha512 parse_url co lk mf ad bytes options = Inr (co', lk')"
    and "spec = (if io_installSource options = Some (js ''registry'') then mf_version mf else local_artifact)"
  shows "(\<exists>resolved. allowed_location parse_url options (js ''sha512-'' @ sha512 bytes) resolved \<and>
       lk_packages lk' (module_key bridge_name) =
         Some \<lparr>le_version = Some (mf_version mf), le_resolved = Some resolved,
               le_integrity = Some (js ''sha512-'' @ sha512 bytes), le_license = Some (mf_license mf),
               le_dependencies = Some (mf_dependencies mf), le_engines = mf_engines mf\<rparr>) \<and>
    (\<exists>entry deps deps'. lk_packages lk [] = Some entry \<and> le_dependencies entry = Some deps \<and>
       lk_packages lk' [] = Some (entry\<lparr>le_dependencies := Some deps'\<rparr>) \<and>
       map_of deps' = (map_of deps)(bridge_name \<mapsto> spec)) \<and>
    (\<forall>k. k \<noteq> [] \<and> k \<noteq> module_key bridge_name \<longrightarrow> lk_packages lk' k = lk_packages lk k) \<and>
    lk_version lk' = 3 \<and> co_private co' \<and>
    map_of (co_dependencies co') = (map_of (mf_dependencies mf))(bridge_name \<mapsto> spec) \<and>
    (\<forall>(name, version)\<in>set (mf_dependencies mf). locked_version lk' name = Some version)"
proof -
  from bind_result_facts [OF assms(1) refl] obtain entry deps resolved spec' where
    a: "\<forall>a\<in>set (bind_assertions sha256 sha512 co lk mf ad bytes
        (case io_installSource options of Some s \<Rightarrow> s | None \<Rightarrow> js ''local'')). snd a"
    and r: "allowed_location parse_url options (ad_integrity ad) resolved"
    and sp: "spec' = (if (case io_installSource options of Some s \<Rightarrow> s | None \<Rightarrow> js ''local'') = js ''registry''
        then mf_version mf else resolved)"
    and e: "lk_packages lk [] = Some entry" "le_dependencies entry = Some deps"
    and co: "co' = co\<lparr>co_dependencies := set_dependency (mf_name mf) spec' (co_dependencies co)\<rparr>"
    and lk: "lk' = lk\<lparr>lk_packages := (lk_packages lk)([] \<mapsto> entry\<lparr>le_dependencies := Some (set_dependency (mf_name mf) spec' deps)\<rparr>,
       module_key (mf_name mf) \<mapsto> \<lparr>le_version = Some (mf_version mf), le_resolved = Some resolved, le_integrity = Some (ad_integrity ad),
         le_license = Some (mf_license mf), le_dependencies = Some (mf_dependencies mf), le_engines = mf_engines mf\<rparr>)\<rparr>"
    using resolved_from by metis
  have n: "mf_name mf = bridge_name" "ad_integrity ad = js ''sha512-'' @ sha512 bytes" "map_of (mf_dependencies mf) = map_of (co_dependencies co)"
    "lk_packages lk (module_key bridge_name) = None" "\<forall>(name, version)\<in>set (mf_dependencies mf). locked_version lk name = Some version"
    "lk_version lk = 3" "co_private co"
    using a by (auto simp: bind_assertions_def same_dependencies_iff list_all_iff)
  have spec: "spec' = spec" using sp r local_not_registry
    by (auto simp: assms(2) allowed_location_def split: option.splits if_splits)
  have "locked_version lk' name = Some version" if "(name, version) \<in> set (mf_dependencies mf)" for name version
    using n(4,5) that e by (fastforce simp: locked_version_def lk n(1))
  moreover have "map_of (set_dependency bridge_name spec ds) = (map_of ds)(bridge_name \<mapsto> spec)" for ds
    by (simp add: set_dependency_def AList.update_conv')
  ultimately show ?thesis using r e n(6,7) by (auto simp: lk co n(1-3) spec)
qed

definition example_lock :: lock where
  "example_lock =
     (let entry = \<lparr>le_version = Some (js ''2.2.0''), le_resolved = None, le_integrity = None, le_license = None,
                   le_dependencies = Some [], le_engines = JUndefined\<rparr>
      in \<lparr>lk_version = 3, lk_packages = [[] \<mapsto> entry, module_key (js ''connect'') \<mapsto> entry]\<rparr>)"

theorem bound_consumer_exact_witness:
  "case bindAuditedArtifact (\<lambda>_. js ''h'') (\<lambda>_. js ''AA'') (\<lambda>_. None)
      \<lparr>co_private = True, co_dependencies = [(js ''connect'', js ''2.2.0'')]\<rparr> example_lock
      \<lparr>mf_name = bridge_name, mf_version = js ''1.0.0'', mf_license = js ''MIT'', mf_dependencies = [(js ''connect'', js ''2.2.0'')],
       mf_engines = JUndefined\<rparr>
      \<lparr>ad_name = bridge_name, ad_version = js ''1.0.0'', ad_sha256 = js ''h'', ad_integrity = js ''sha512-AA'',
       ad_mapsAndSourcesVerified = True\<rparr> [1, 2] \<lparr>io_installSource = None, io_registryMetadata = None\<rparr> of
     Inl e \<Rightarrow> False
   | Inr (co', lk') \<Rightarrow> map_option le_integrity (lk_packages lk' (module_key bridge_name)) = Some (Some (js ''sha512-AA'')) \<and>
       map_option le_version (lk_packages lk' []) = Some (Some (js ''2.2.0'')) \<and>
       map_of (co_dependencies co') bridge_name = Some local_artifact \<and>
       locked_version lk' (js ''connect'') = Some (js ''2.2.0'')"
  (is "case ?b of Inl e \<Rightarrow> False | Inr (co', lk') \<Rightarrow> ?P co' lk'")
proof -
  have "bridge_name \<noteq> js ''connect''" "js ''sha512-'' @ js ''AA'' = js ''sha512-AA''" "js ''local'' \<noteq> js ''registry''"
    by (simp_all add: bridge_name_def js_def)
  then obtain co' lk' where b: "?b = Inr (co', lk')"
    by (simp add: bindAuditedArtifact_def bind_assertions_def example_lock_def locked_version_def bind_resolved_def same_dependencies_def Let_def)
  show ?thesis unfolding b using bound_consumer_exact [OF b refl]
    by (auto simp: js_def example_lock_def Let_def)
qed

text \<open>Accepted evidence is about one archive: the checkout was clean and at the given revision before and after packing, the tests in
  Node.js and in the three browsers ran all checks on the archive with the same hash, what was installed has its integrity, and no
  packed path leaves the package.\<close>

theorem release_evidence_sound:
  assumes "verifyReleaseEvidence sha256 sha512 parse_url ar nr bs bytes pm paths revision compilerRevision source = Inr v"
    and "ar_source ar = Some (sourceProvenance before after)"
  shows "(\<exists>b. before = Some b \<and> after = Some b \<and> \<not> sn_dirty b \<and> sn_revision b = revision) \<and>
    rv_sha256 v = sha256 bytes \<and> nr_artifactSha256 nr = sha256 bytes \<and> bs_artifactSha256 bs = sha256 bytes \<and>
    rv_integrity v = js ''sha512-'' @ sha512 bytes \<and> map_option snd (nr_installedResolution nr) = Some (js ''sha512-'' @ sha512 bytes) \<and>
    nr_checks nr = expectedChecks \<and> map br_name (bs_results bs) = [js ''chromium'', js ''firefox'', js ''webkit''] \<and>
    list_all (\<lambda>r. br_checks r = expectedChecks \<and> br_status r = js ''PASS'') (bs_results bs) \<and> (\<forall>p\<in>set paths. safe_path p)"
proof -
  note f = evidence_facts [OF assms(1)]
  have "pv_verifiedClean (sourceProvenance before after)" "pv_revision (sourceProvenance before after) = Some revision"
    using f(2) assms(2) by (auto simp: source_assertions_def)
  then have "\<exists>b. before = Some b \<and> after = Some b \<and> \<not> sn_dirty b \<and> sn_revision b = revision"
    by (auto simp: provenance_clean) (auto simp: sourceProvenance_def Let_def)
  moreover have "sha256 bytes = ad_sha256 ar" "js ''sha512-'' @ sha512 bytes = ad_integrity ar" "\<forall>p\<in>set paths. safe_path p"
    using f(1) audited_paths by (auto simp: archive_assertions_def)
  moreover from f(3) obtain s where n: "\<forall>a\<in>set (node_assertions parse_url ar nr compilerRevision s). snd a"
      "\<forall>a\<in>set (browser_assertions ar bs s). snd a" by auto
  moreover have "nr_artifactSha256 nr = ad_sha256 ar" "map_option snd (nr_installedResolution nr) = Some (ad_integrity ar)" "nr_checks nr = expectedChecks"
    using n(1) by (auto simp: node_assertions_def)
  moreover have "bs_artifactSha256 bs = ad_sha256 ar" "map br_name (bs_results bs) = [js ''chromium'', js ''firefox'', js ''webkit'']"
    "list_all (\<lambda>r. br_checks r = expectedChecks \<and> br_status r = js ''PASS'') (bs_results bs)"
    using n(2) by (auto simp: browser_assertions_def list_all_iff)
  ultimately show ?thesis using f(4,5) by simp
qed

end
