(* ===== verification/Spec2Isabelle.thy ===== *)
theory Spec2Isabelle
  imports Frame_Codec H2_Hang H2_Body Routing Shared Client Abort_Scope Load_Driver Release
begin

text \<open>
  Verification of the browser client of gRPC Bridge (\<^verbatim>\<open>web/src\<close>).

  \<^bold>\<open>The program.\<close> A browser opens one WebSocket to a bridge and speaks HTTP/2 over it, so that Connect clients can make native
  gRPC calls. From the bottom up: \<^verbatim>\<open>channel.ts\<close> turns the WebSocket into two byte streams; \<^verbatim>\<open>h2/\<close> is an HTTP/2 client
  on them (frames, HPACK, flow control, streams, the connection); \<^verbatim>\<open>framing.ts\<close> cuts a body into gRPC messages;
  \<^verbatim>\<open>transport.ts\<close> makes one call on one connection; \<^verbatim>\<open>retry.ts\<close> repeats a call and replays its request;
  \<^verbatim>\<open>recovery.ts\<close> keeps a durable channel that redials after a loss and lets sessions drain; \<^verbatim>\<open>client.ts\<close> builds
  connections and shares them by reference count; \<^verbatim>\<open>interceptors.ts\<close>, \<^verbatim>\<open>contracts.ts\<close> and \<^verbatim>\<open>strict-client.ts\<close> bind
  clients to a generated contract. A call passes interceptors, the contract guard, the retry loop, the selection of a
  session, the tunnel transport and the connection, in this order.

  \<^bold>\<open>How the code is modelled.\<close> Pure functions are HOL functions. An object is a record and a method takes and returns it. An
  asynchronous method is cut at its awaits; each piece between two awaits is one event, run without interruption as in
  JavaScript, and the reachable states are those of an inductive relation, so every interleaving of events is covered. A
  throw is the left value of a sum or \<open>None\<close>. Strings are lists of 16-bit code units, bytes are \<open>8 word\<close>, and the bit
  operations are those of words. Clock times, delays and other non-integral numbers are reals without rounding.

  \<^bold>\<open>Theories.\<close>
  \<^item> \<open>Prelude\<close>: types and lemmas on lists, words and results. \<open>Scope\<close>: the locale of abort controllers. \<open>Numerals\<close>: decimal text.
  \<^item> \<open>Bytes\<close> (\<^verbatim>\<open>h2/bytes.ts\<close>), \<open>H2_Errors\<close> (\<^verbatim>\<open>h2/errors.ts\<close>), \<open>Frame_Types\<close> and \<open>Frame_Codec\<close> (\<^verbatim>\<open>h2/frames\<close>): the
    growable writer refines appending to a list, and serialized frames in any chunks decode to themselves.
  \<^item> \<open>Utf8\<close>, \<open>Huffman_Table\<close>, \<open>Huffman\<close>, \<open>Hpack_Coding\<close>, \<open>Hpack\<close> (\<^verbatim>\<open>h2/hpack\<close>): round trips of every coding, exactness of the
    Huffman decoder, the dynamic table against the table of RFC 7541 (equal for ASCII entries, an extension of it otherwise), and the
    exact header budget.
  \<^item> \<open>Flow\<close> (\<^verbatim>\<open>h2/flow.ts\<close>), \<open>H2_Stream\<close> (\<^verbatim>\<open>h2/stream.ts\<close>), \<open>H2_Connection\<close>, \<open>H2_System\<close>, \<open>H2_Body\<close>
    (\<^verbatim>\<open>h2/connection.ts\<close>): the state and the synchronous operations, the coroutines around them, and the two ends of a body.
    \<open>H2_Invariant\<close> proves that receive credit is conserved; \<open>H2_Safety\<close> has the bounds, the silence of a closed connection,
    admission, header splitting, GOAWAY and teardown; \<open>H2_Upload\<close> that request bodies are written completely and in
    order; \<open>H2_Memory\<close> composes \<^verbatim>\<open>openChannel\<close> and shows that unread responses take bounded memory; \<open>H2_Hang\<close> that a request whose
    stream left the map before its head came is never settled.
  \<^item> \<open>Framing\<close> (\<^verbatim>\<open>framing.ts\<close>): the incremental reader against a reader of the whole body, and the status check.
  \<^item> \<open>Tunnel\<close> (\<^verbatim>\<open>transport.ts\<close>): request headers, the pulled body, the checks of a response, the results of calls.
  \<^item> \<open>Replay\<close>, \<open>Retry\<close>, \<open>Abort_Scope\<close> (\<^verbatim>\<open>retry.ts\<close>): the replay buffer and its accounting, the retry loop, and the abort
    wiring of a call composed with that of its attempts.
  \<^item> \<open>Recovery\<close>, \<open>Routing\<close> (\<^verbatim>\<open>recovery.ts\<close>), \<open>Shared\<close> (\<^verbatim>\<open>client.ts\<close>): the durable channel, its observers and the selection of
    sessions, and shared connections over it.
  \<^item> \<open>Channel\<close> (\<^verbatim>\<open>channel.ts\<close>): labels, handshake, bounded receive queue, chunked sending.
  \<^item> \<open>Json\<close>, \<open>Contracts\<close>, \<open>Contract_Graph\<close> (\<^verbatim>\<open>contracts.ts\<close>): canonical JSON, the graph of a service, acceptance and freezing.
  \<^item> \<open>Client\<close> (\<^verbatim>\<open>interceptors.ts\<close>, \<^verbatim>\<open>strict-client.ts\<close>, construction in \<^verbatim>\<open>client.ts\<close>): the contract guard and one dial.
  \<^item> \<open>Load_Stats\<close> (\<^verbatim>\<open>scripts/load-benchmark-lib.ts\<close>, \<^verbatim>\<open>scripts/soak-analysis-lib.ts\<close>): the statistics of the gates. \<open>Load_Driver\<close>
    (\<^verbatim>\<open>scripts/load-benchmark.ts\<close>, \<^verbatim>\<open>scripts/analyze-soak.ts\<close>): configuration, recording, verdict and trends.
  \<^item> \<open>Package_Audit\<close> (\<^verbatim>\<open>scripts/package-audit-lib.mjs\<close>, \<^verbatim>\<open>stage-package-sources.mjs\<close>, \<^verbatim>\<open>verify-tarball.mjs\<close>): which packages
    the audit accepts, and source maps that resolve to the packed sources. \<open>Release\<close> (\<^verbatim>\<open>release-provenance-lib.mjs\<close>,
    \<^verbatim>\<open>artifact-install-lib.mjs\<close>, \<^verbatim>\<open>release-preflight-lib.mjs\<close>): the evidence of a release is about one archive.
  \<^item> This theory: the retry loop on calls of the tunnel transport, and the messages of a call over the frames of its stream, in both
    directions.

  \<^bold>\<open>Interfaces.\<close> \<open>byte_sink\<close> (a writer of bytes, the codec's view of \<^verbatim>\<open>ByteWriter\<close>), \<open>incremental\<close> (a decoder fed in chunks),
  \<open>prefix_code\<close> (a code table and its trie), \<open>wire_format\<close> (an encoding with its reader: prefix integers and strings),
  \<open>bounded_table\<close> (the dynamic table), \<open>connection_step\<close>, \<open>primitive_step\<close>, \<open>mapped_step\<close> and \<open>connection_invariant\<close> (what every operation of
  a connection keeps, from its primitive updates or its updates of streams in the map to reachable states), \<open>durable_channel\<close> (what shared connections need of a channel) and \<open>abort_scope\<close> (the
  first reason stays, released listeners stay released). Each is interpreted on the model's definitions.

  \<^bold>\<open>Parameters.\<close> Code outside the repository is an argument: Protobuf-ES serialization (\<open>enc\<close>, \<open>dec\<close>) and descriptors,
  its \<^verbatim>\<open>ScalarType\<close> (\<open>sc\<close>), \<^verbatim>\<open>ConnectError.from\<close>, \<^verbatim>\<open>String(error)\<close>, \<^verbatim>\<open>Number(text)\<close>, \<^verbatim>\<open>JSON.parse\<close>, \<^verbatim>\<open>URL\<close>, the hashes of
  \<^verbatim>\<open>node:crypto\<close>, \<^verbatim>\<open>git\<close>, letter case of non-ASCII text (\<open>platform\<close>), and interceptors, which are opaque values.

  \<^bold>\<open>Loops and fuel.\<close> Loops that the source bounds are structural or have termination proofs. The doubling
  of the writer's capacity, the gRPC record reader and the splitting of header blocks are \<open>partial_function (option)\<close>, and
  the properties about them prove that they return. The traversals of a descriptor graph carry fuel, one more than the number of messages of the store, and
  \<open>runtime_graph_exact\<close> proves that this is always enough. The retry loop runs over a list of passes; \<open>retry_loop_ends\<close>
  gives the number of passes that suffices.

  \<^bold>\<open>Defects the development exhibits.\<close> A stream that ends before its final head never settles its request, whatever happens
  afterwards (\<open>end_before_head_hangs\<close>); a reset drops the data that arrived before it and is not yet read, also a complete response
  (\<open>body_delivery\<close>); headers named like members of \<^verbatim>\<open>Object.prototype\<close> are corrupted or lost (\<open>inherited_header_name\<close>); a
  commit during a replay skips retained messages (\<open>commit_during_replay_skips\<close>); deadlines beyond 2147483647 ms fire at once
  (\<open>long_deadline_fires_at_once\<close>); observers after one that closes the channel hear an outdated state last
  (\<open>later_observers_told_stale_state\<close>).

  \<^bold>\<open>Not modelled.\<close> Texts of HTTP/2 error messages; the 32-bit wrap of bit positions in Huffman encodings above 512 MiB; the WebSocket, URL parsing and timers of the platform other than the 32-bit
  range of \<^verbatim>\<open>setTimeout\<close>; \<^verbatim>\<open>queue.ts\<close>, a wrapper of one platform stream; the forwarding classes of \<^verbatim>\<open>strict-client.ts\<close>; entry
  points that only re-export; generated Protobuf code; demonstrations, the network side of the benchmark drivers and the
  file system side of the packaging scripts, which are input and output; the bridge server and the backends, which are other programs in Go, Python and C#.
\<close>

section \<open>A retried call over the tunnel\<close>

text \<open>The pass of the retry loop whose attempt is a call of the tunnel transport: the closures that \<^verbatim>\<open>unary\<close> and
  \<^verbatim>\<open>stream\<close> hand to \<^verbatim>\<open>run\<close>, with \<^verbatim>\<open>commit\<close> of the attempt context bound to the replay. \<open>outcome\<close> is what
  \<^verbatim>\<open>start\<close> made of the response; a stream returns as soon as there is a message stream.\<close>

definition unary_attempt :: "bool \<times> (thrown + 'm list \<times> thrown option) \<Rightarrow> turn \<Rightarrow> turn" where
  "unary_attempt outcome t =
     t\<lparr>t_invoke := (case unary_result (snd outcome) of Inl e \<Rightarrow> Some e | Inr _ \<Rightarrow> None),
       t_committed := t_committed t \<or> fst outcome\<rparr>"

definition stream_attempt :: "bool \<times> (thrown + 'm list \<times> thrown option) \<Rightarrow> turn \<Rightarrow> turn" where
  "stream_attempt outcome t =
     t\<lparr>t_invoke := (case snd outcome of Inl e \<Rightarrow> Some e | Inr _ \<Rightarrow> None),
       t_committed := t_committed t \<or> fst outcome\<rparr>"

lemma again_uncommitted: "run_turn policy throttling deadline s t = Inr x \<Longrightarrow> \<not> t_committed t"
  by (auto simp: run_turn_def catch_turn_def Let_def split: if_splits attempt.splits)

lemma uncommitted_response:
  assumes "start_response from_reason str dec s1 s2 head chunks bend = Some (False, res)"
  shows "(\<exists>e. res = Inl e) \<and> (\<forall>r. head = Inr r \<longrightarrow> trailersOnly r)"
  using assms by (auto simp: start_response_def check_response_def Let_def split: sum.splits prod.splits option.splits if_splits)

text \<open>C12: No response is lost to a retry: if the retry loop makes another attempt after a unary or streaming call over the
  tunnel, then that call delivered no message and ended in an error, and the server either sent no response head at all or a
  head that already carried the final status.\<close>

theorem retries_lose_no_response:
  assumes "start_response from_reason str dec s1 s2 head chunks bend = Some outcome"
    and "run_turn policy throttling deadline s (unary_attempt outcome t) = Inr next_pass \<or>
      run_turn policy throttling deadline s (stream_attempt outcome t) = Inr next_pass"
  shows "(\<exists>e. outcome = (False, Inl e)) \<and> (\<forall>r. head = Inr r \<longrightarrow> trailersOnly r)"
proof -
  have "\<not> t_committed (unary_attempt outcome t) \<or> \<not> t_committed (stream_attempt outcome t)"
    using assms(2) again_uncommitted by blast
  then have "\<not> fst outcome" by (simp add: unary_attempt_def stream_attempt_def)
  then obtain res where o: "outcome = (False, res)" by (cases outcome) auto
  show ?thesis using uncommitted_response [OF assms(1) [unfolded o]] o by auto
qed

lemma refused_attempt:
  "\<exists>outcome. start_response (\<lambda>_. truncated) (\<lambda>_. []) Inr (start_call NoSignal None) (start_call NoSignal None)
      (Inl (Inl (new_ConnectError ''down'' Unavailable))) [] (BodyEnds None) = Some outcome \<and>
    unary_attempt outcome unavailable_turn = unavailable_turn"
  by (simp add: start_response_def translate_def start_call_def unary_attempt_def unary_result_def unavailable_turn_def)

theorem retries_lose_no_response_witness:
  "\<exists>outcome e. start_response (\<lambda>_. truncated) (\<lambda>_. []) Inr (start_call NoSignal None) (start_call NoSignal None)
      (Inl (Inl (new_ConnectError ''down'' Unavailable))) [] (BodyEnds None) = Some outcome \<and> outcome = (False, Inl e)"
proof -
  from refused_attempt obtain outcome where
    o: "start_response (\<lambda>_. truncated) (\<lambda>_. []) Inr (start_call NoSignal None) (start_call NoSignal None)
      (Inl (Inl (new_ConnectError ''down'' Unavailable))) [] (BodyEnds None) = Some outcome"
      "unary_attempt outcome unavailable_turn = unavailable_turn" by blast
  have "\<exists>x. run_turn (Some sample_policy) (rt_throttling sample_rt) None (initial_state (Some sample_policy))
      (unary_attempt outcome unavailable_turn) = Inr x"
    unfolding o(2) sample_turn by blast
  then obtain x where "run_turn (Some sample_policy) (rt_throttling sample_rt) None (initial_state (Some sample_policy))
      (unary_attempt outcome unavailable_turn) = Inr x" by (elim exE)
  from retries_lose_no_response [OF o(1) disjI1, OF this] obtain e where "outcome = (False, Inl e)" by (elim conjE exE)
  with o(1) show ?thesis by (intro exI conjI)
qed

section \<open>Messages over HTTP/2 streams\<close>

lemma framed_bytes:
  "list_all (\<lambda>m. length m \<le> MAX_MESSAGE) ms \<Longrightarrow> map (\<lambda>m. projr (grpc_frame m)) ms = map (\<lambda>m. 0 # be32 (length m) @ m) ms"
  by (auto simp: list_all_iff grpc_frame_bytes)

lemma read_all_framed:
  assumes "list_all (\<lambda>m. length m \<le> MAX_MESSAGE) ms"
  shows "read_records (concat (map (\<lambda>m. projr (grpc_frame m)) ms)) = (ms, None)"
  using read_framed [OF assms, of "[]"] read_records_partial [of "[]"] by (simp add: framed_bytes [OF assms] record_at_def)

lemma read_records_prefix: "prefix (fst (read_records a)) (fst (read_records (a @ b)))"
  by (auto simp: read_records_def records_append split: prod.splits sum.splits)

lemma delivered_to_end:
  assumes "delivered i evs s (map PullChunk chunks @ [PullClose])"
  obtains evs1 evs2 where "evs = evs1 @ evs2" "chunks = received evs1" "list_ex ends evs1" "\<not> list_ex fails evs1"
proof -
  have "PullClose \<notin> set (map PullChunk cs)" for cs by auto
  then have "map PullChunk chunks @ [PullClose] \<noteq> map PullChunk cs" for cs by (metis in_set_conv_decomp)
  then have "body_closed evs s (map PullChunk chunks @ [PullClose])"
    using assms by (auto simp: delivered_def body_open_def body_failing_def body_failed_def body_cancelled_def)
  moreover have "map PullChunk chunks = map PullChunk cs \<Longrightarrow> chunks = cs" for cs by (metis inj_map_eq_map injI pull_outcome.inject(1))
  ultimately show thesis using that by (auto simp: body_closed_def)
qed

text \<open>C6: A call yields exactly what its stream carried: when the consumer has read the body of a stream to its clean end,
  END_STREAM had arrived before and nothing had failed, and the messages of the call are, for every division into DATA
  frames, every interleaving of arrivals and reads and every header block in between, the decoded records of the DATA bytes
  that arrived up to that end; the call succeeds exactly if these bytes are complete records, every one decodes and the gRPC
  status is 0.\<close>

theorem call_reads_stream:
  assumes "body_run proto (new_H2Stream i w st rw) evs = (s, map PullChunk chunks @ [PullClose])"
  shows "\<exists>evs1 evs2. evs = evs1 @ evs2 \<and> list_ex ends evs1 \<and> \<not> list_ex fails evs1 \<and>
    (\<forall>ms. messages_run dec headers chunks (BodyEnds trailers) = Some (ms, None) \<longleftrightarrow>
      (\<exists>bs. read_records (concat (received evs1)) = (bs, None) \<and> map dec bs = map Inr ms \<and> validateStatus headers trailers = None))"
proof -
  from delivered_to_end [OF conjunct1 [OF body_run_delivered [OF assms]]] obtain evs1 evs2
    where d: "evs = evs1 @ evs2" "chunks = received evs1" "list_ex ends evs1" "\<not> list_ex fails evs1" .
  then show ?thesis by (intro exI [of _ evs1] exI [of _ evs2]) (auto simp: messages_run_ok unframe_eq)
qed

theorem call_reads_stream_witness:
  "messages_run Inr ok_headers [[0, 0, 0], [0, 1, 9]] (BodyEnds None) = Some ([[9]], None)"
proof -
  let ?evs = "[EvHeaders [(js '':status'', js ''200'')] False, EvData [0, 0, 0] False, EvPull, EvData [0, 1, 9] True, EvPull, EvPull]"
  let ?r = "body_run (\<lambda>_. None) (new_H2Stream 1 65535 Open 1000) ?evs"
  have "snd ?r = map PullChunk [[0, 0, 0], [0, 1, 9]] @ [PullClose]"
    by (simp add: body_run_def receiveHeaders_def receiveData_def pullBody_def new_H2Stream_def endBody_def wakeRecv_def settle_head_def
        Let_def split: option.splits)
  then have r: "?r = (fst ?r, map PullChunk [[0, 0, 0], [0, 1, 9]] @ [PullClose])" by (metis prod.collapse)
  have "received evs1 = [[0, 0, 0], [0, 1, 9]]" if "?evs = evs1 @ evs2" "list_ex ends evs1" for evs1 evs2
    using that by (auto simp: Cons_eq_append_conv)
  moreover have "read_records [0, 0, 0, 0, 1, 9] = ([[9]], None)"
    using read_all_framed [of "[[9]]"] by (simp add: MAX_MESSAGE_def grpc_frame_bytes be32_def drop_bit_eq_div)
  moreover have "validateStatus ok_headers None = None"
    by (simp add: validateStatus_def trailer_or_header_def ok_headers_def status_pattern_zero)
  ultimately show ?thesis
    using call_reads_stream [OF r, where dec = Inr and headers = ok_headers and trailers = None] by auto
qed

text \<open>C7: The server reads the messages that the call gave: if the chunks handed to an upload are framed messages of at most
  1 MiB, then over every history of the connection a reader of the DATA bytes written for its stream gets a prefix of these
  messages, and once END_STREAM is written exactly all of them, with no incomplete record.\<close>

theorem server_reads_upload:
  assumes "history pf opts evs y" and "k < length (y_pumps y)" and "list_all (\<lambda>m. length m \<le> MAX_MESSAGE) ms"
    and "given evs k = concat (map (\<lambda>m. projr (grpc_frame m)) ms)"
  shows "let c = y_conn y; sid = st_id (obj c (pu_addr (y_pumps y ! k))) in
    prefix (fst (read_records (sent_on sid c))) ms \<and> (ended_on sid c \<longrightarrow> read_records (sent_on sid c) = (ms, None))"
proof -
  let ?c = "y_conn y" and ?p = "y_pumps y ! k"
  have "pump_ok ?c (given evs k) ?p" using uploads_history [OF assms(1)] assms(2) by (simp add: uploads_ok_def)
  then have s: "prefix (sent_on (pump_id ?c ?p) ?c) (given evs k)" "ended_on (pump_id ?c ?p) ?c \<longrightarrow> sent_on (pump_id ?c ?p) ?c = given evs k"
    using pump_ok_sent by blast+
  then obtain unsent where "given evs k = sent_on (pump_id ?c ?p) ?c @ unsent" by (auto simp: prefix_def)
  then have "prefix (fst (read_records (sent_on (pump_id ?c ?p) ?c))) ms"
    using read_records_prefix [of "sent_on (pump_id ?c ?p) ?c" unsent] read_all_framed [OF assms(3)] assms(4) by simp
  then show ?thesis using s read_all_framed [OF assms(3)] assms(4) by (simp add: Let_def)
qed

theorem server_reads_upload_witness:
  "\<exists>y. history ascii_platform default_options upload_events y \<and> read_records (sent_on 1 (y_conn y)) = ([[9]], None)"
proof -
  obtain y where y: "history ascii_platform default_options upload_events y" "length (y_pumps y) = 1" "pu_addr (y_pumps y ! 0) = 0"
      "st_id (obj (y_conn y) 0) = 1" "ended_on 1 (y_conn y)" using upload_example by blast
  then have "read_records (sent_on 1 (y_conn y)) = ([[9]], None)"
    using server_reads_upload [OF y(1), of 0 "[[9]]"]
    by (simp add: Let_def given_def upload_events_def MAX_MESSAGE_def grpc_frame_bytes be32_def drop_bit_eq_div)
  then show ?thesis using y by blast
qed

end
